(* ===== verification/Prelude.thy ===== *)
theory Prelude
  imports Main "HOL-Library.Word" "HOL-Library.Multiset"
begin

text \<open>
  What the components of the development share: the error numbers the code stores in
  \<^verbatim>\<open>errno\<close> or returns, the byte type, and singly linked lists threaded through an
  address space in which the address 0 is the null pointer (message slots of a mapped
  file, index records of a database file, list nodes of the heap).
\<close>

section \<open>Error numbers\<close>

text \<open>
  The symbolic error numbers the modelled code names, and one constructor for every
  other number a system call may report.
\<close>

datatype errno =
    EPERM | ENOENT | ESRCH | EINTR | EIO | EBADF | EAGAIN | ENOMEM | EBUSY | EEXIST
  | EINVAL | ETIME | ENOSPC | EAFNOSUPPORT | EMSGSIZE | ETIMEDOUT | ECANCELED | EOther nat

type_synonym byte = "8 word"

text \<open>
  The result of a call that reports an error number: \<^const>\<open>None\<close> stands for 0.
\<close>

type_synonym rc = "errno option"

section \<open>Linked lists in an address space\<close>

text \<open>
  \<open>seg nx p xs q\<close>: following the next pointers \<open>nx\<close> from \<open>p\<close> visits exactly the
  addresses \<open>xs\<close> and then stands at \<open>q\<close>. \<open>chain\<close> is a segment that ends in the null
  pointer. \<open>nodes\<close> is the executable reading of a chain, with a bound on its length.
\<close>

primrec seg :: "(nat \<Rightarrow> nat) \<Rightarrow> nat \<Rightarrow> nat list \<Rightarrow> nat \<Rightarrow> bool" where
  "seg nx p [] q \<longleftrightarrow> p = q"
| "seg nx p (a # as) q \<longleftrightarrow> p = a \<and> a \<noteq> 0 \<and> seg nx (nx a) as q"

definition chain :: "(nat \<Rightarrow> nat) \<Rightarrow> nat \<Rightarrow> nat list \<Rightarrow> bool" where
  "chain nx p xs \<longleftrightarrow> seg nx p xs 0"

primrec nodes :: "(nat \<Rightarrow> nat) \<Rightarrow> nat \<Rightarrow> nat \<Rightarrow> nat list" where
  "nodes nx 0 p = []"
| "nodes nx (Suc n) p = (if p = 0 then [] else p # nodes nx n (nx p))"

lemma chain_Nil [simp]: "chain nx p [] \<longleftrightarrow> p = 0"
  by (simp add: chain_def)

lemma chain_Cons [simp]: "chain nx p (a # as) \<longleftrightarrow> p = a \<and> a \<noteq> 0 \<and> chain nx (nx a) as"
  by (simp add: chain_def)

lemma chain_0 [simp]: "chain nx 0 xs \<longleftrightarrow> xs = []"
  by (cases xs) auto

lemma chain_nonzero: "p \<noteq> 0 \<Longrightarrow> chain nx p xs \<longleftrightarrow> (\<exists>ys. xs = p # ys \<and> chain nx (nx p) ys)"
  by (cases xs) auto

lemma seg_append [simp]: "seg nx p (xs @ ys) q \<longleftrightarrow> (\<exists>r. seg nx p xs r \<and> seg nx r ys q)"
  by (induction xs arbitrary: p) auto

lemma chain_append: "chain nx p (xs @ ys) \<longleftrightarrow> (\<exists>r. seg nx p xs r \<and> chain nx r ys)"
  by (simp add: chain_def)

lemma seg_upd [simp]: "a \<notin> set xs \<Longrightarrow> seg (nx(a := v)) p xs q = seg nx p xs q"
  by (induction xs arbitrary: p) auto

lemma chain_upd [simp]: "a \<notin> set xs \<Longrightarrow> chain (nx(a := v)) p xs = chain nx p xs"
  by (simp add: chain_def)

lemma seg_cong: "(\<And>a. a \<in> set xs \<Longrightarrow> nx a = nx' a) \<Longrightarrow> seg nx p xs q = seg nx' p xs q"
  by (induction xs arbitrary: p) auto

lemma chain_cong: "(\<And>a. a \<in> set xs \<Longrightarrow> nx a = nx' a) \<Longrightarrow> chain nx p xs = chain nx' p xs"
  unfolding chain_def by (rule seg_cong)

lemma seg_snoc: "seg nx p (xs @ [a]) q \<longleftrightarrow> seg nx p xs a \<and> a \<noteq> 0 \<and> nx a = q"
  by auto

lemma chain_unique: "chain nx p xs \<Longrightarrow> chain nx p ys \<Longrightarrow> xs = ys"
proof (induction xs arbitrary: p ys)
  case Nil
  then show ?case by simp
next
  case (Cons a as)
  then obtain bs where "ys = a # bs" by (cases ys) auto
  with Cons show ?case by auto
qed

lemma chain_nonnull: "chain nx p xs \<Longrightarrow> 0 \<notin> set xs"
  by (induction xs arbitrary: p) auto

lemma chain_hd_notin: "chain nx (nx a) as \<Longrightarrow> a \<notin> set as"
proof
  assume c: "chain nx (nx a) as" and "a \<in> set as"
  then obtain us vs where as: "as = us @ a # vs" by (meson split_list)
  with c have "chain nx (nx a) vs" by (auto simp: chain_append)
  with c have "as = vs" by (rule chain_unique)
  with as show False by simp
qed

lemma chain_distinct: "chain nx p xs \<Longrightarrow> distinct xs"
  by (induction xs arbitrary: p) (auto dest: chain_hd_notin)

lemma nodes_chain: "chain nx p xs \<Longrightarrow> length xs \<le> n \<Longrightarrow> nodes nx n p = xs"
proof (induction n arbitrary: p xs)
  case 0
  then show ?case by simp
next
  case (Suc n)
  then show ?case by (cases xs) auto
qed

text \<open>
  Splicing: the node \<open>a\<close> goes between the segment that ends in \<open>b\<close> and the rest of
  the chain.
\<close>

lemma chain_insert_after:
  assumes "chain nx p (xs @ b # ys)" and "a \<notin> set (xs @ b # ys)" and "a \<noteq> 0"
  shows "chain (nx(a := nx b, b := a)) p (xs @ b # a # ys)"
proof -
  from assms(1) have d: "distinct (xs @ b # ys)" by (rule chain_distinct)
  from assms(1) have s: "seg nx p xs b" and "b \<noteq> 0" and c: "chain nx (nx b) ys"
    by (auto simp: chain_append)
  have "seg (nx(a := nx b, b := a)) p xs b"
    using s assms(2) d by auto
  moreover have "chain (nx(a := nx b, b := a)) (nx b) ys"
    using c assms(2) d by auto
  ultimately show ?thesis
    using assms(2,3) \<open>b \<noteq> 0\<close> by (auto simp: chain_append)
qed

text \<open>Unlinking the node \<open>a\<close> that follows \<open>b\<close>.\<close>

lemma chain_remove_after:
  assumes "chain nx p (xs @ b # a # ys)"
  shows "chain (nx(b := nx a)) p (xs @ b # ys)"
proof -
  from assms have d: "distinct (xs @ b # a # ys)" by (rule chain_distinct)
  from assms have "seg nx p xs b" and "b \<noteq> 0" and "chain nx (nx a) ys"
    by (auto simp: chain_append)
  with d show ?thesis by (auto simp: chain_append)
qed

text \<open>\<open>hd0\<close> is the address at which a chain of the given nodes starts.\<close>

definition hd0 :: "nat list \<Rightarrow> nat" where
  "hd0 xs = (case xs of [] \<Rightarrow> 0 | x # _ \<Rightarrow> x)"

lemma hd0_simps [simp]: "hd0 [] = 0" "hd0 (x # xs) = x"
  by (simp_all add: hd0_def)

lemma chain_hd0: "chain nx p xs \<Longrightarrow> p = hd0 xs"
  by (cases xs) auto

lemma seg_chain_hd0: "chain nx p (xs @ ys) \<longleftrightarrow> seg nx p xs (hd0 ys) \<and> chain nx (hd0 ys) ys"
  by (auto simp: chain_append dest: chain_hd0)

lemma chain_splice:
  assumes "chain nx p (xs @ ys)" and "a \<notin> set (xs @ ys)" and "a \<noteq> 0"
  shows "chain (if xs = [] then nx(a := hd0 ys) else nx(a := hd0 ys, last xs := a))
               (if xs = [] then a else p) (xs @ a # ys)"
proof (cases xs rule: rev_cases)
  case Nil
  with assms show ?thesis by (auto dest: chain_hd0)
next
  case (snoc us b)
  with assms(1) have "nx b = hd0 ys"
    by (auto simp: chain_append dest!: chain_hd0)
  with chain_insert_after [of nx p us b ys a] assms snoc show ?thesis by simp
qed

section \<open>Lists in descending order\<close>

text \<open>Inserting behind every element that is not smaller keeps a list in descending order.\<close>

lemma sorted_wrt_dropWhile_prio:
  assumes "sorted_wrt (\<lambda>i j. (g j :: 'a :: linorder) \<le> g i) qs"
    and "j \<in> set (dropWhile (\<lambda>i. x \<le> g i) qs)"
  shows "g j < x"
  using assms by (induction qs) (auto split: if_splits)

lemma sorted_wrt_insert_prio:
  fixes g :: "'b \<Rightarrow> 'a :: linorder"
  assumes s: "sorted_wrt (\<lambda>i j. g j \<le> g i) qs"
  shows "sorted_wrt (\<lambda>i j. g j \<le> g i)
           (takeWhile (\<lambda>i. g a \<le> g i) qs @ a # dropWhile (\<lambda>i. g a \<le> g i) qs)"
proof -
  let ?A = "takeWhile (\<lambda>i. g a \<le> g i) qs" and ?B = "dropWhile (\<lambda>i. g a \<le> g i) qs"
  have "sorted_wrt (\<lambda>i j. g j \<le> g i) ?A \<and> sorted_wrt (\<lambda>i j. g j \<le> g i) ?B \<and>
      (\<forall>x\<in>set ?A. \<forall>y\<in>set ?B. g y \<le> g x)"
    using s unfolding sorted_wrt_append [symmetric] by simp
  moreover have "g a \<le> g i" if "i \<in> set ?A" for i using that by (auto dest: set_takeWhileD)
  moreover have "g j \<le> g a" if "j \<in> set ?B" for j
    using sorted_wrt_dropWhile_prio [OF s that] by simp
  ultimately show ?thesis
    unfolding sorted_wrt_append sorted_wrt.simps list.set by blast
qed

section \<open>Functions that may not return\<close>

text \<open>A function returns, or it ends the process (\<^verbatim>\<open>exit\<close>, \<^verbatim>\<open>log_quit\<close>), or it touches memory it must not.\<close>

datatype 'a run = Ret 'a | Exits | Wild

primrec run_bind :: "'a run \<Rightarrow> ('a \<Rightarrow> 'b run) \<Rightarrow> 'b run" where
  "run_bind (Ret x) f = f x"
| "run_bind Exits f = Exits"
| "run_bind Wild f = Wild"

definition deref :: "'a option \<Rightarrow> 'a run" where
  "deref x = (case x of None \<Rightarrow> Wild | Some v \<Rightarrow> Ret v)"

lemma deref_simps [simp]: "deref (Some v) = Ret v" "deref None = Wild"
  by (simp_all add: deref_def)

lemma run_bind_Ret_iff: "run_bind m f = Ret y \<longleftrightarrow> (\<exists>x. m = Ret x \<and> f x = Ret y)"
  by (cases m) auto

section \<open>Doubly linked lists\<close>

text \<open>
  The next pointers \<open>nx\<close> visit the nodes from the head and the previous pointers \<open>pv\<close> visit them
  in the reverse order from the tail.
\<close>

definition dchain :: "(nat \<Rightarrow> nat) \<Rightarrow> (nat \<Rightarrow> nat) \<Rightarrow> nat \<Rightarrow> nat \<Rightarrow> nat list \<Rightarrow> bool" where
  "dchain nx pv h t xs \<longleftrightarrow> chain nx h xs \<and> chain pv t (rev xs)"

lemma dchain_Nil [simp]: "dchain nx pv h t [] \<longleftrightarrow> h = 0 \<and> t = 0"
  by (simp add: dchain_def)

lemma dchain_ends: "dchain nx pv h t xs \<Longrightarrow> h = hd0 xs \<and> t = hd0 (rev xs)"
  unfolding dchain_def using chain_hd0 by blast

lemma dchain_distinct: "dchain nx pv h t xs \<Longrightarrow> distinct xs \<and> 0 \<notin> set xs"
  unfolding dchain_def using chain_distinct chain_nonnull by blast

lemma dchain_rev: "dchain pv nx t h (rev xs) \<longleftrightarrow> dchain nx pv h t xs"
  by (auto simp: dchain_def)

lemma dchain_push:
  assumes "dchain nx pv h t xs" "a \<notin> set xs" "a \<noteq> 0"
  shows "dchain (nx(a := h)) (if xs = [] then pv(a := 0) else pv(a := 0, h := a)) a (if xs = [] then a else t) (a # xs)"
proof -
  have c: "chain nx h xs" "chain pv t (rev xs)" using assms(1) by (simp_all add: dchain_def)
  have "xs \<noteq> [] \<Longrightarrow> last (rev xs) = h" using dchain_ends [OF assms(1)] by (cases xs) auto
  then show ?thesis using chain_splice [of pv t "rev xs" "[]" a] c assms(2,3) by (auto simp: dchain_def)
qed

lemma dchain_snoc:
  assumes "dchain nx pv h t xs" "a \<notin> set xs" "a \<noteq> 0"
  shows "dchain (if xs = [] then nx(a := 0) else nx(a := 0, t := a)) (pv(a := t)) (if xs = [] then a else h) a (xs @ [a])"
proof -
  have "dchain pv nx t h (rev xs)" using assms(1) by (simp only: dchain_rev)
  from dchain_push [OF this, of a] assms(2,3) show ?thesis by (subst dchain_rev [symmetric]) simp
qed

lemma dchain_links:
  assumes "dchain nx pv h t (A @ a # B)"
  shows "nx a = hd0 B" "pv a = hd0 (rev A)"
  using assms by (auto simp: dchain_def chain_append dest: chain_hd0)

lemma dchain_remove:
  assumes "dchain nx pv h t (A @ a # B)"
  shows "dchain (if A = [] then nx else nx(last A := nx a)) (if B = [] then pv else pv(hd B := pv a))
     (if A = [] then nx a else h) (if B = [] then pv a else t) (A @ B)"
proof -
  have c: "chain nx h (A @ a # B)" "chain pv t (rev B @ a # rev A)" using assms by (simp_all add: dchain_def)
  have "chain (if A = [] then nx else nx(last A := nx a)) (if A = [] then nx a else h) (A @ B)"
    using c(1) chain_remove_after [of nx h "butlast A" "last A" a B] by (cases A rule: rev_cases) auto
  moreover have "chain (if B = [] then pv else pv(hd B := pv a)) (if B = [] then pv a else t) (rev B @ rev A)"
    using c(2) chain_remove_after [of pv t "rev (tl B)" "hd B" a "rev A"] by (cases B) auto
  ultimately show ?thesis by (simp add: dchain_def)
qed

end
