(* ===== verification/Monitor.thy ===== *)
theory Monitor
  imports Prelude
begin

text \<open>
  Threads that share a structure under one mutex and its condition variables, as the
  pthread library runs them. A call holds the mutex from its lock to its unlock or to the
  next \<^verbatim>\<open>pthread_cond_wait\<close>, so its critical section up to that point is one atomic
  step: it changes the shared state, signals condition variables on the way, and either
  returns or goes to sleep on a condition variable with the point at which it will go
  on. A component gives the critical sections as a function \<open>body\<close>; this theory gives
  the interleavings.
\<close>

section \<open>Threads, condition variables and steps\<close>

type_synonym tid = nat

datatype 'c wake = Signal 'c | Broadcast 'c

text \<open>How a critical section ends: the call returns, or it sleeps on a condition
  variable and resumes at a given program point.\<close>

datatype ('k, 'c, 'r) outcome = Return 'r | Wait 'c 'k

type_synonym ('s, 'c, 'k, 'r) body =
  "tid \<Rightarrow> 'k \<Rightarrow> 's \<Rightarrow> 's \<times> 'c wake list \<times> ('k, 'c, 'r) outcome"

text \<open>
  The state of the system: the shared structure, the threads asleep on a condition
  variable, and the threads that were woken and have not yet reacquired the mutex.
\<close>

record ('s, 'c, 'k) mon =
  mshared :: 's
  mwait :: "(tid \<times> 'c \<times> 'k) list"
  mready :: "(tid \<times> 'k) list"

text \<open>
  \<^verbatim>\<open>pthread_cond_signal\<close> wakes one sleeper of its condition variable, any one, and
  does nothing when there is none; \<^verbatim>\<open>pthread_cond_broadcast\<close> wakes all of them.
\<close>

inductive wake_step ::
  "'c wake \<Rightarrow> (tid \<times> 'c \<times> 'k) list \<times> (tid \<times> 'k) list \<Rightarrow>
   (tid \<times> 'c \<times> 'k) list \<times> (tid \<times> 'k) list \<Rightarrow> bool" where
  signal_none: "(\<forall>(t, d, k) \<in> set w. d \<noteq> c) \<Longrightarrow> wake_step (Signal c) (w, r) (w, r)"
| signal_one: "wake_step (Signal c) (w1 @ (t, c, k) # w2, r) (w1 @ w2, (t, k) # r)"
| broadcast: "wake_step (Broadcast c) (w, r)
     (filter (\<lambda>(t, d, k). d \<noteq> c) w,
      map (\<lambda>(t, d, k). (t, k)) (filter (\<lambda>(t, d, k). d = c) w) @ r)"

inductive wake_steps ::
  "'c wake list \<Rightarrow> (tid \<times> 'c \<times> 'k) list \<times> (tid \<times> 'k) list \<Rightarrow>
   (tid \<times> 'c \<times> 'k) list \<times> (tid \<times> 'k) list \<Rightarrow> bool" where
  wake_done: "wake_steps [] p p"
| wake_more: "wake_step x p q \<Longrightarrow> wake_steps xs q r \<Longrightarrow> wake_steps (x # xs) p r"

fun sleep_on :: "tid \<Rightarrow> ('k, 'c, 'r) outcome \<Rightarrow> (tid \<times> 'c \<times> 'k) list \<Rightarrow> (tid \<times> 'c \<times> 'k) list" where
  "sleep_on t (Return r) w = w"
| "sleep_on t (Wait c k) w = w @ [(t, c, k)]"

definition mon_tids :: "('s, 'c, 'k) mon \<Rightarrow> tid set" where
  "mon_tids m = fst ` set (mwait m) \<union> fst ` set (mready m)"

text \<open>
  One step: a thread that is not inside a call enters one (\<open>may\<close> says which calls a
  thread may make in the present state), a woken thread goes on from the point where it
  slept, or, where \<open>sp\<close> allows it, a sleeper wakes with no signal, which POSIX permits.
\<close>

inductive mon_step ::
  "('s, 'c, 'k, 'r) body \<Rightarrow> (tid \<Rightarrow> 'k \<Rightarrow> 's \<Rightarrow> bool) \<Rightarrow> bool \<Rightarrow>
   ('s, 'c, 'k) mon \<Rightarrow> ('s, 'c, 'k) mon \<Rightarrow> bool"
  for body may sp where
  enter: "t \<notin> mon_tids m \<Longrightarrow> may t k (mshared m) \<Longrightarrow>
     body t k (mshared m) = (s', ws, out) \<Longrightarrow>
     wake_steps ws (mwait m, mready m) (w', r') \<Longrightarrow>
     mon_step body may sp m \<lparr>mshared = s', mwait = sleep_on t out w', mready = r'\<rparr>"
| resume: "mready m = r1 @ (t, k) # r2 \<Longrightarrow>
     body t k (mshared m) = (s', ws, out) \<Longrightarrow>
     wake_steps ws (mwait m, r1 @ r2) (w', r') \<Longrightarrow>
     mon_step body may sp m \<lparr>mshared = s', mwait = sleep_on t out w', mready = r'\<rparr>"
| spurious: "sp \<Longrightarrow> mwait m = w1 @ (t, c, k) # w2 \<Longrightarrow>
     mon_step body may sp m (m\<lparr>mwait := w1 @ w2, mready := (t, k) # mready m\<rparr>)"

definition mon_init :: "'s \<Rightarrow> ('s, 'c, 'k) mon" where
  "mon_init s = \<lparr>mshared = s, mwait = [], mready = []\<rparr>"

inductive mon_reach ::
  "('s, 'c, 'k, 'r) body \<Rightarrow> (tid \<Rightarrow> 'k \<Rightarrow> 's \<Rightarrow> bool) \<Rightarrow> bool \<Rightarrow> 's \<Rightarrow>
   ('s, 'c, 'k) mon \<Rightarrow> bool"
  for body may sp s0 where
  reach_init: "mon_reach body may sp s0 (mon_init s0)"
| reach_step: "mon_reach body may sp s0 m \<Longrightarrow> mon_step body may sp m m' \<Longrightarrow>
     mon_reach body may sp s0 m'"

section \<open>What waking keeps\<close>

inductive_cases wake_stepE [elim]: "wake_step x (w, r) p"
inductive_cases wake_steps_NilE [elim!]: "wake_steps [] p q"
inductive_cases wake_steps_ConsE [elim!]: "wake_steps (x # xs) p q"

inductive_simps wake_steps_Nil [simp]: "wake_steps [] p q"
inductive_simps wake_steps_Cons: "wake_steps (x # xs) p q"

lemma wake_steps_single [simp]: "wake_steps [x] p q \<longleftrightarrow> wake_step x p q"
  by (cases q) (auto simp: wake_steps_Cons)

lemma wake_signal_one:
  "wake_step (Signal c) ((t, c, k) # w, r) (w, (t, k) # r)"
  using signal_one [of c "[]" t k w r] by simp

text \<open>Every sleeper stays asleep or becomes ready with its program point; no thread is
  lost and none appears.\<close>

definition mon_calls :: "(tid \<times> 'c \<times> 'k) list \<times> (tid \<times> 'k) list \<Rightarrow> (tid \<times> 'k) set" where
  "mon_calls p = (\<lambda>(t, c, k). (t, k)) ` set (fst p) \<union> set (snd p)"

lemma wake_step_calls: "wake_step x p q \<Longrightarrow> mon_calls q = mon_calls p"
  by (induction rule: wake_step.induct) (force simp: mon_calls_def)+

lemma wake_steps_calls: "wake_steps xs p q \<Longrightarrow> mon_calls q = mon_calls p"
  by (induction rule: wake_steps.induct) (auto dest: wake_step_calls)

lemma wake_step_ready: "wake_step x p q \<Longrightarrow> set (snd p) \<subseteq> set (snd q)"
  by (induction rule: wake_step.induct) auto

lemma wake_steps_ready: "wake_steps xs p q \<Longrightarrow> set (snd p) \<subseteq> set (snd q)"
  by (induction rule: wake_steps.induct) (auto dest: wake_step_ready)

lemma wake_step_wait: "wake_step x p q \<Longrightarrow> set (fst q) \<subseteq> set (fst p)"
  by (induction rule: wake_step.induct) auto

lemma wake_steps_wait: "wake_steps xs p q \<Longrightarrow> set (fst q) \<subseteq> set (fst p)"
  by (induction rule: wake_steps.induct) (auto dest: wake_step_wait)

text \<open>Counting calls: a predicate on program points holds of as many pending calls
  after a wake-up as before it.\<close>

definition pending :: "('k \<Rightarrow> bool) \<Rightarrow> (tid \<times> 'c \<times> 'k) list \<times> (tid \<times> 'k) list \<Rightarrow> nat" where
  "pending P p = length (filter (\<lambda>(t, c, k). P k) (fst p)) + length (filter (\<lambda>(t, k). P k) (snd p))"

lemma pending_Nil [simp]: "pending P ([], []) = 0"
  by (simp add: pending_def)

lemma pending_wait_snoc [simp]:
  "pending P (w @ [(t, c, k)], r) = pending P (w, r) + (if P k then 1 else 0)"
  by (simp add: pending_def)

lemma pending_ready_mid [simp]:
  "pending P (w, r1 @ (t, k) # r2) = pending P (w, r1 @ r2) + (if P k then 1 else 0)"
  by (simp add: pending_def)

lemma pending_wake_mid:
  "pending P (w1 @ w2, (t, k) # r) = pending P (w1 @ (t, c, k) # w2, r)"
  by (simp add: pending_def)

lemma wake_step_pending: "wake_step x p q \<Longrightarrow> pending P q = pending P p"
proof (induction rule: wake_step.induct)
  case (broadcast c w r)
  show ?case
    by (induction w) (auto simp: pending_def split: if_splits)
qed (auto simp: pending_def)

lemma wake_steps_pending: "wake_steps xs p q \<Longrightarrow> pending P q = pending P p"
  by (induction rule: wake_steps.induct) (auto dest: wake_step_pending)

text \<open>Waking is never stuck.\<close>

lemma wake_step_total: "\<exists>q. wake_step x p q"
proof (cases x)
  case (Signal c)
  obtain w r where p: "p = (w, r)" by fastforce
  show ?thesis
  proof (cases "\<exists>t k. (t, c, k) \<in> set w")
    case True
    then obtain t k w1 w2 where "w = w1 @ (t, c, k) # w2" using split_list by metis
    with Signal p show ?thesis using signal_one [of c w1 t k w2 r] by auto
  next
    case False
    then have "wake_step (Signal c) (w, r) (w, r)" by (intro signal_none) auto
    with Signal p show ?thesis by auto
  qed
next
  case (Broadcast c)
  then show ?thesis using broadcast [of c "fst p" "snd p"] by auto
qed

lemma wake_steps_total: "\<exists>w r. wake_steps xs p (w, r)"
proof (induction xs arbitrary: p)
  case (Cons x xs)
  then show ?case using wake_step_total [of x p] by (metis wake_more)
qed (metis surj_pair wake_done)

section \<open>Building executions\<close>

lemma reach_enter:
  assumes "mon_reach body may sp s0 \<lparr>mshared = s, mwait = w, mready = r\<rparr>"
    and "body t k s = (s', ws, out)" and "t \<notin> fst ` set w \<union> fst ` set r" and "may t k s"
    and "wake_steps ws (w, r) (w', r')"
  shows "mon_reach body may sp s0 \<lparr>mshared = s', mwait = sleep_on t out w', mready = r'\<rparr>"
  using mon_step.enter [of t "\<lparr>mshared = s, mwait = w, mready = r\<rparr>" may k body s' ws out w' r' sp] assms
  by (auto simp: mon_tids_def intro: reach_step)

lemma reach_resume:
  assumes "mon_reach body may sp s0 \<lparr>mshared = s, mwait = w, mready = (t, k) # r\<rparr>"
    and "body t k s = (s', ws, out)" and "wake_steps ws (w, r) (w', r')"
  shows "mon_reach body may sp s0 \<lparr>mshared = s', mwait = sleep_on t out w', mready = r'\<rparr>"
  using mon_step.resume [of "\<lparr>mshared = s, mwait = w, mready = (t, k) # r\<rparr>" "[]" t k r body s' ws out w' r' may sp] assms
  by (auto intro: reach_step)

section \<open>Invariants of the shared state\<close>

text \<open>
  The interface between a component and its threads. \<open>inv\<close> is the component's invariant
  and \<open>kok k s\<close> says what a call that is to run from the point \<open>k\<close> relies on. Every
  critical section keeps the invariant, leaves a sleeping call what it relies on, and
  takes it from no other call. Then both hold whenever the mutex is free, under every
  interleaving and with spurious wake-ups.
\<close>

locale monitor_invariant =
  fixes body :: "('s, 'c, 'k, 'r) body"
    and may :: "tid \<Rightarrow> 'k \<Rightarrow> 's \<Rightarrow> bool"
    and inv :: "'s \<Rightarrow> bool"
    and kok :: "'k \<Rightarrow> 's \<Rightarrow> bool"
  assumes enter_ok: "inv s \<Longrightarrow> may t k s \<Longrightarrow> kok k s"
    and body_keeps: "inv s \<Longrightarrow> kok k s \<Longrightarrow> body t k s = (s', ws, out) \<Longrightarrow> inv s'"
    and body_waits: "inv s \<Longrightarrow> kok k s \<Longrightarrow> body t k s = (s', ws, Wait c k') \<Longrightarrow> kok k' s'"
    and body_frame: "inv s \<Longrightarrow> kok k s \<Longrightarrow> kok k0 s \<Longrightarrow> body t k s = (s', ws, out) \<Longrightarrow> kok k0 s'"
begin

definition mon_ok :: "('s, 'c, 'k) mon \<Rightarrow> bool" where
  "mon_ok m \<longleftrightarrow> inv (mshared m) \<and> (\<forall>(t, k) \<in> mon_calls (mwait m, mready m). kok k (mshared m))"

lemma run_keeps:
  assumes "inv s" "kok k s" "body t k s = (s', ws, out)"
    and "wake_steps ws p (w', r')" "\<forall>(t, k) \<in> mon_calls p. kok k s"
  shows "mon_ok \<lparr>mshared = s', mwait = sleep_on t out w', mready = r'\<rparr>"
proof -
  have "inv s'" using assms(1-3) by (rule body_keeps)
  moreover have "\<forall>(t, k) \<in> mon_calls (w', r'). kok k s'"
    unfolding wake_steps_calls [OF assms(4)]
    using assms(5) body_frame [OF assms(1,2) _ assms(3)] by blast
  moreover have "out = Wait c k' \<Longrightarrow> kok k' s'" for c k'
    using body_waits assms(1-3) by blast
  ultimately show ?thesis
    by (cases out) (auto simp: mon_ok_def mon_calls_def)
qed

lemma step_keeps:
  assumes "mon_step body may sp m m'" and "mon_ok m"
  shows "mon_ok m'"
  using assms
proof (induction rule: mon_step.induct)
  case (enter t m k s' ws out w' r')
  then show ?case by (intro run_keeps) (auto simp: mon_ok_def enter_ok)
next
  case (resume m r1 t k r2 s' ws out w' r')
  then have "inv (mshared m)" "kok k (mshared m)"
    "\<forall>(t, k) \<in> mon_calls (mwait m, r1 @ r2). kok k (mshared m)"
    by (auto simp: mon_ok_def mon_calls_def)
  with resume show ?case by (intro run_keeps)
next
  case (spurious m w1 t c k w2)
  then show ?case by (auto simp: mon_ok_def mon_calls_def)
qed

lemma reach_keeps: "mon_reach body may sp s0 m \<Longrightarrow> inv s0 \<Longrightarrow> mon_ok m"
proof (induction rule: mon_reach.induct)
  case reach_init
  then show ?case by (simp add: mon_init_def mon_ok_def mon_calls_def)
next
  case (reach_step m m')
  then show ?case by (blast intro: step_keeps)
qed

lemma reach_inv: "mon_reach body may sp s0 m \<Longrightarrow> inv s0 \<Longrightarrow> inv (mshared m)"
  by (drule (1) reach_keeps) (simp add: mon_ok_def)

text \<open>What holds of every critical section run under the invariant holds of every one that
  a reachable state can run next.\<close>

lemma reach_runs:
  assumes "mon_reach body may sp s0 m" and "inv s0"
    and "(t, k) \<in> set (mready m) \<or> may t k (mshared m)"
  shows "inv (mshared m) \<and> kok k (mshared m)"
  using reach_keeps [OF assms(1,2)] assms(3) enter_ok
  by (auto simp: mon_ok_def mon_calls_def ball_Un)

end

section \<open>Invariants of a whole execution\<close>

text \<open>
  An invariant \<open>G\<close> that relates the shared state to the sleeping and the woken threads,
  as the accounting of waiters and the absence of lost wake-ups do: the laws are one per
  kind of step.
\<close>

locale monitor_global =
  fixes body :: "('s, 'c, 'k, 'r) body"
    and may :: "tid \<Rightarrow> 'k \<Rightarrow> 's \<Rightarrow> bool"
    and G :: "'s \<Rightarrow> (tid \<times> 'c \<times> 'k) list \<Rightarrow> (tid \<times> 'k) list \<Rightarrow> bool"
  assumes enter_keeps: "G s w r \<Longrightarrow> may t k s \<Longrightarrow> body t k s = (s', ws, out) \<Longrightarrow>
      wake_steps ws (w, r) (w', r') \<Longrightarrow> G s' (sleep_on t out w') r'"
    and resume_keeps: "G s w (r1 @ (t, k) # r2) \<Longrightarrow> body t k s = (s', ws, out) \<Longrightarrow>
      wake_steps ws (w, r1 @ r2) (w', r') \<Longrightarrow> G s' (sleep_on t out w') r'"
    and spurious_keeps: "G s (w1 @ (t, c, k) # w2) r \<Longrightarrow> G s (w1 @ w2) ((t, k) # r)"
begin

lemma step_global:
  "mon_step body may sp m m' \<Longrightarrow> G (mshared m) (mwait m) (mready m) \<Longrightarrow>
   G (mshared m') (mwait m') (mready m')"
proof (induction rule: mon_step.induct)
  case (enter t m k s' ws out w' r')
  then show ?case using enter_keeps by simp
next
  case (resume m r1 t k r2 s' ws out w' r')
  then show ?case using resume_keeps by simp
next
  case (spurious m w1 t c k w2)
  then show ?case using spurious_keeps by simp
qed

lemma reach_global:
  "mon_reach body may sp s0 m \<Longrightarrow> G s0 [] [] \<Longrightarrow> G (mshared m) (mwait m) (mready m)"
proof (induction rule: mon_reach.induct)
  case reach_init
  then show ?case by (simp add: mon_init_def)
next
  case (reach_step m m')
  then show ?case using step_global by blast
qed

end

end
