(* ===== verification/Px_Mq.thy ===== *)
theory Px_Mq
  imports Monitor
begin

text \<open>
  The POSIX message queues of \<^verbatim>\<open>src/unpv22e/my_pxmsg_mmap\<close>, implemented in a file
  mapped into every process that opens the queue. The mapped region is a header
  (\<^verbatim>\<open>struct mymq_hdr\<close>) and an array of message slots; the slots are on one of two linked
  lists, the queue (in priority order) and the free list. Slots are named by their byte
  index in the region, and index 0, where the header lies, ends a list.
\<close>

unbundle bit_operations_syntax

section \<open>Flags, sizes and data\<close>

definition O_RDWR :: "32 word" where "O_RDWR = 2"
definition O_CREAT :: "32 word" where "O_CREAT = 64"
definition O_EXCL :: "32 word" where "O_EXCL = 128"
definition O_NONBLOCK :: "32 word" where "O_NONBLOCK = 2048"
definition S_IXUSR :: "32 word" where "S_IXUSR = 64"

text \<open>
  \<^verbatim>\<open>long\<close> is a 64-bit integer; \<open>s64\<close> is what a \<^verbatim>\<open>long\<close> variable holds after it is
  assigned the value \<open>x\<close>. The sizes of the two header structures depend on the
  platform's pthread types and are parameters.
\<close>

definition s64 :: "int \<Rightarrow> int" where
  "s64 x = (x + 2 ^ 63) mod 2 ^ 64 - 2 ^ 63"

record mq_abi =
  sizeof_mymq_hdr :: nat
  sizeof_mymsg_hdr :: nat

text \<open>The macro rounds up to a multiple of \<^verbatim>\<open>sizeof(long)\<close>, in unsigned 64-bit arithmetic.\<close>

definition MSGSIZE :: "int \<Rightarrow> int" where
  "MSGSIZE i = ((i + (8 - 1)) mod 2 ^ 64 div 8) * 8"

record mymq_attr =
  mq_flags :: "64 word"
  mq_maxmsg :: int
  mq_msgsize :: int
  mq_curmsgs :: int

record sigevent =
  sigev_notify_signal :: bool
  sigev_signo :: int
  sigev_value :: int

record mymsg_hdr =
  msg_next :: nat
  msg_len :: nat
  msg_prio :: "32 word"
  msg_data :: "byte list"

text \<open>
  The mapped region: the header's fields and the message slots that follow it, each with
  the bytes of its data area. The mutex and the condition variable of the header are the
  monitor's.
\<close>

record mymq_hdr =
  mqh_attr :: mymq_attr
  mqh_head :: nat
  mqh_free :: nat
  mqh_nwait :: int
  mqh_pid :: int
  mqh_event :: sigevent
  mqh_msgs :: "nat \<rightharpoonup> mymsg_hdr"

record mymq_info =
  mqi_magic :: "64 word"
  mqi_flags :: "32 word"

definition MQI_MAGIC :: "64 word" where "MQI_MAGIC = 0x98765432"

text \<open>
  How a call ends, or pauses: it returns a value or an error number, sleeps in
  \<^verbatim>\<open>pthread_cond_wait\<close>, stops the process in \<^verbatim>\<open>err_dump\<close>, or accesses memory that is
  not a message slot.
\<close>

datatype 'r mq_end = MReturn "errno + 'r" | MWait | MDump | MFault

definition mq_next :: "mymq_hdr \<Rightarrow> nat \<Rightarrow> nat" where
  "mq_next h i = (case mqh_msgs h i of Some m \<Rightarrow> msg_next m | None \<Rightarrow> 0)"

section \<open>mymq\_send\<close>

text \<open>
  The search for the place of a new message: \<open>p\<close> is the node whose next pointer leads
  to \<open>index\<close>. The code starts with \<^verbatim>\<open>pmsghdr\<close> pointing at \<^verbatim>\<open>mqh_head\<close>, as if that were
  the next pointer of a node; that node is \<open>0\<close> here.
\<close>

partial_function (option) mq_find_place ::
  "(nat \<rightharpoonup> mymsg_hdr) \<Rightarrow> 32 word \<Rightarrow> nat \<Rightarrow> nat \<Rightarrow> (nat \<times> nat) option" where
  "mq_find_place ms prio p index =
     (if index = 0 then Some (p, 0)
      else case ms index of
        None \<Rightarrow> None
      | Some m \<Rightarrow> if prio > msg_prio m then Some (p, index)
                  else mq_find_place ms prio index (msg_next m))"

declare mq_find_place.simps [code]

definition mq_set_next :: "nat \<Rightarrow> nat \<Rightarrow> mymq_hdr \<Rightarrow> mymq_hdr" where
  "mq_set_next p v h =
     (if p = 0 then h\<lparr>mqh_head := v\<rparr>
      else h\<lparr>mqh_msgs := (mqh_msgs h)(p := map_option (\<lambda>m. m\<lparr>msg_next := v\<rparr>) (mqh_msgs h p))\<rparr>)"

definition mq_add_curmsgs :: "int \<Rightarrow> mymq_hdr \<Rightarrow> mymq_hdr" where
  "mq_add_curmsgs d h = h\<lparr>mqh_attr := (mqh_attr h)\<lparr>mq_curmsgs := mq_curmsgs (mqh_attr h) + d\<rparr>\<rparr>"

text \<open>The message goes into the slot \<open>freeindex\<close>, which leaves the free list.\<close>

definition mq_fill :: "nat \<Rightarrow> mymsg_hdr \<Rightarrow> byte list \<Rightarrow> 32 word \<Rightarrow> mymq_hdr \<Rightarrow> mymq_hdr" where
  "mq_fill freeindex nm ptr prio h =
     h\<lparr>mqh_msgs := (mqh_msgs h)(freeindex \<mapsto> nm\<lparr>msg_prio := prio, msg_len := length ptr,
                       msg_data := ptr @ drop (length ptr) (msg_data nm)\<rparr>),
       mqh_free := msg_next nm\<rparr>"

text \<open>Linking it between \<open>p\<close> and \<open>index\<close>: inside the loop, or after it at the end.\<close>

definition mq_link_new :: "nat \<Rightarrow> nat \<Rightarrow> nat \<Rightarrow> mymq_hdr \<Rightarrow> mymq_hdr" where
  "mq_link_new p freeindex index h =
     (if index \<noteq> 0 then mq_set_next p freeindex (mq_set_next freeindex index h)
      else mq_set_next freeindex 0 (mq_set_next p freeindex h))"

text \<open>From the point where there is room for the message to the unlock.\<close>

definition mymq_send_insert ::
  "byte list \<Rightarrow> 32 word \<Rightarrow> mymq_hdr \<Rightarrow> mymq_hdr \<times> unit wake list \<times> unit mq_end" where
  "mymq_send_insert ptr prio h =
     (let freeindex = mqh_free h in
      if freeindex = 0 then (h, [], MDump)
      else case mqh_msgs h freeindex of
        None \<Rightarrow> (h, [], MFault)
      | Some nm \<Rightarrow>
          if length (msg_data nm) < length ptr then (h, [], MFault)
          else
            let h1 = mq_fill freeindex nm ptr prio h
            in case mq_find_place (mqh_msgs h1) prio 0 (mqh_head h1) of
                 None \<Rightarrow> (h1, [], MFault)
               | Some (p, index) \<Rightarrow>
                   let h2 = mq_link_new p freeindex index h1;
                       ws = (if mq_curmsgs (mqh_attr h2) = 0 then [Signal ()] else [])
                   in (mq_add_curmsgs 1 h2, ws, MReturn (Inr ())))"

text \<open>
  The whole call up to its return or its first wait; \<open>lk\<close> is what
  \<^verbatim>\<open>pthread_mutex_lock\<close> returned. The third component of the result lists the signals
  sent with \<^verbatim>\<open>sigqueue\<close>.
\<close>

definition mq_full :: "mymq_hdr \<Rightarrow> bool" where
  "mq_full h \<longleftrightarrow> mq_curmsgs (mqh_attr h) \<ge> mq_maxmsg (mqh_attr h)"

definition mq_notify_arrival :: "mymq_hdr \<Rightarrow> mymq_hdr \<times> (int \<times> int \<times> int) list" where
  "mq_notify_arrival h =
     (if mqh_pid h \<noteq> 0 \<and> mqh_nwait h = 0
      then (h\<lparr>mqh_pid := 0\<rparr>,
            if sigev_notify_signal (mqh_event h)
            then [(mqh_pid h, sigev_signo (mqh_event h), sigev_value (mqh_event h))] else [])
      else (h, []))"

definition mymq_send ::
  "mymq_info \<Rightarrow> rc \<Rightarrow> byte list \<Rightarrow> 32 word \<Rightarrow> mymq_hdr \<Rightarrow>
   mymq_hdr \<times> unit wake list \<times> (int \<times> int \<times> int) list \<times> unit mq_end" where
  "mymq_send mqi lk ptr prio h =
     (if mqi_magic mqi \<noteq> MQI_MAGIC then (h, [], [], MReturn (Inl EBADF))
      else case lk of Some n \<Rightarrow> (h, [], [], MReturn (Inl n))
      | None \<Rightarrow>
          if int (length ptr) > mq_msgsize (mqh_attr h) then (h, [], [], MReturn (Inl EMSGSIZE))
          else if mq_curmsgs (mqh_attr h) = 0 then
            let (h1, sigs) = mq_notify_arrival h; (h2, ws, e) = mymq_send_insert ptr prio h1
            in (h2, ws, sigs, e)
          else if mq_full h then
            if mqi_flags mqi AND O_NONBLOCK \<noteq> 0 then (h, [], [], MReturn (Inl EAGAIN))
            else (h, [], [], MWait)
          else
            let (h2, ws, e) = mymq_send_insert ptr prio h in (h2, ws, [], e))"

text \<open>After \<^verbatim>\<open>pthread_cond_wait\<close> returns: test the queue again.\<close>

definition mymq_send_wake ::
  "byte list \<Rightarrow> 32 word \<Rightarrow> mymq_hdr \<Rightarrow> mymq_hdr \<times> unit wake list \<times> unit mq_end" where
  "mymq_send_wake ptr prio h =
     (if mq_full h then (h, [], MWait) else mymq_send_insert ptr prio h)"

section \<open>mymq\_receive\<close>

text \<open>The result is the message's bytes, as copied to the caller's buffer, and its
  priority.\<close>

definition mymq_receive_remove ::
  "mymq_hdr \<Rightarrow> mymq_hdr \<times> unit wake list \<times> (byte list \<times> 32 word) mq_end" where
  "mymq_receive_remove h =
     (let index = mqh_head h in
      if index = 0 then (h, [], MDump)
      else case mqh_msgs h index of
        None \<Rightarrow> (h, [], MFault)
      | Some m \<Rightarrow>
          if length (msg_data m) < msg_len m then (h, [], MFault)
          else
            let h1 = mq_set_next index (mqh_free h) (h\<lparr>mqh_head := msg_next m\<rparr>);
                h2 = h1\<lparr>mqh_free := index\<rparr>;
                ws = (if mq_curmsgs (mqh_attr h2) = mq_maxmsg (mqh_attr h2) then [Signal ()] else [])
            in (mq_add_curmsgs (-1) h2, ws, MReturn (Inr (take (msg_len m) (msg_data m), msg_prio m))))"

definition mymq_receive ::
  "mymq_info \<Rightarrow> rc \<Rightarrow> nat \<Rightarrow> mymq_hdr \<Rightarrow>
   mymq_hdr \<times> unit wake list \<times> (byte list \<times> 32 word) mq_end" where
  "mymq_receive mqi lk maxlen h =
     (if mqi_magic mqi \<noteq> MQI_MAGIC then (h, [], MReturn (Inl EBADF))
      else case lk of Some n \<Rightarrow> (h, [], MReturn (Inl n))
      | None \<Rightarrow>
          if int maxlen < mq_msgsize (mqh_attr h) then (h, [], MReturn (Inl EMSGSIZE))
          else if mq_curmsgs (mqh_attr h) = 0 then
            if mqi_flags mqi AND O_NONBLOCK \<noteq> 0 then (h, [], MReturn (Inl EAGAIN))
            else (h\<lparr>mqh_nwait := mqh_nwait h + 1\<rparr>, [], MWait)
          else mymq_receive_remove h)"

definition mymq_receive_wake ::
  "mymq_hdr \<Rightarrow> mymq_hdr \<times> unit wake list \<times> (byte list \<times> 32 word) mq_end" where
  "mymq_receive_wake h =
     (if mq_curmsgs (mqh_attr h) = 0 then (h, [], MWait)
      else mymq_receive_remove (h\<lparr>mqh_nwait := mqh_nwait h - 1\<rparr>))"

section \<open>Registration, attributes\<close>

text \<open>
  \<open>alive p\<close> is what \<^verbatim>\<open>kill(p, 0)\<close> reports: \<^const>\<open>None\<close> when it succeeds, the error
  number otherwise.
\<close>

definition mymq_notify ::
  "mymq_info \<Rightarrow> rc \<Rightarrow> int \<Rightarrow> (int \<Rightarrow> rc) \<Rightarrow> sigevent option \<Rightarrow> mymq_hdr \<Rightarrow>
   mymq_hdr \<times> (errno + unit)" where
  "mymq_notify mqi lk pid kill0 notification h =
     (if mqi_magic mqi \<noteq> MQI_MAGIC then (h, Inl EBADF)
      else case lk of Some n \<Rightarrow> (h, Inl n)
      | None \<Rightarrow>
        (case notification of
           None \<Rightarrow> (if mqh_pid h = pid then (h\<lparr>mqh_pid := 0\<rparr>, Inr ()) else (h, Inr ()))
         | Some ev \<Rightarrow>
             if mqh_pid h \<noteq> 0 \<and> kill0 (mqh_pid h) \<noteq> Some ESRCH then (h, Inl EBUSY)
             else (h\<lparr>mqh_pid := pid, mqh_event := ev\<rparr>, Inr ())))"

definition mymq_getattr ::
  "mymq_info \<Rightarrow> rc \<Rightarrow> mymq_hdr \<Rightarrow> errno + mymq_attr" where
  "mymq_getattr mqi lk h =
     (if mqi_magic mqi \<noteq> MQI_MAGIC then Inl EBADF
      else case lk of Some n \<Rightarrow> Inl n
      | None \<Rightarrow> Inr \<lparr>mq_flags = scast (mqi_flags mqi),
                     mq_maxmsg = mq_maxmsg (mqh_attr h),
                     mq_msgsize = mq_msgsize (mqh_attr h),
                     mq_curmsgs = mq_curmsgs (mqh_attr h)\<rparr>)"

text \<open>The new descriptor, and the previous attributes when the caller asked for them.\<close>

definition mymq_setattr ::
  "mymq_info \<Rightarrow> rc \<Rightarrow> mymq_attr \<Rightarrow> bool \<Rightarrow> mymq_hdr \<Rightarrow> mymq_info \<times> (errno + mymq_attr option)" where
  "mymq_setattr mqi lk mqstat want_old h =
     (if mqi_magic mqi \<noteq> MQI_MAGIC then (mqi, Inl EBADF)
      else case lk of Some n \<Rightarrow> (mqi, Inl n)
      | None \<Rightarrow>
        (let old = (if want_old
                    then Some \<lparr>mq_flags = scast (mqi_flags mqi),
                               mq_maxmsg = mq_maxmsg (mqh_attr h),
                               mq_msgsize = mq_msgsize (mqh_attr h),
                               mq_curmsgs = mq_curmsgs (mqh_attr h)\<rparr>
                    else None);
             mqi' = (if mq_flags mqstat AND scast O_NONBLOCK \<noteq> 0
                     then mqi\<lparr>mqi_flags := mqi_flags mqi OR O_NONBLOCK\<rparr>
                     else mqi\<lparr>mqi_flags := mqi_flags mqi AND NOT O_NONBLOCK\<rparr>)
         in (mqi', Inr old)))"

section \<open>mymq\_open, mymq\_close, mymq\_unlink\<close>

text \<open>
  Opening a queue races with other processes, so what the system calls report is an
  input: one \<open>mq_env\<close> per pass through the label \<^verbatim>\<open>again\<close>. \<open>e_stat i\<close> is what the
  \<open>i\<close>-th call of \<^verbatim>\<open>stat\<close> reports: an error or the file's mode.
\<close>

record mq_env =
  e_creat :: rc
  e_lseek :: rc
  e_write :: rc
  e_mmap :: rc
  e_malloc :: rc
  e_mutexattr :: rc
  e_mutex :: rc
  e_condattr :: rc
  e_cond :: rc
  e_fchmod :: rc
  e_open :: rc
  e_stat :: "nat \<Rightarrow> errno + 32 word"

text \<open>What the call does to the file, the mapping, the descriptor and the heap on its way
  out.\<close>

datatype mq_sys = SysUnlink | SysMunmap | SysFree | SysClose | SysFchmod "32 word"

definition defattr :: mymq_attr where
  "defattr = \<lparr>mq_flags = 0, mq_maxmsg = 128, mq_msgsize = 1024, mq_curmsgs = 0\<rparr>"

definition MAX_TRIES :: nat where "MAX_TRIES = 10"

text \<open>
  The free list: \<open>n\<close> is the number of slots still to link to a successor. The file has
  just been extended, so a slot holds zeros until it is written; a slot that does not lie
  inside the mapping is a wild access.
\<close>

fun mq_link_free :: "mq_abi \<Rightarrow> nat \<Rightarrow> int \<Rightarrow> nat \<Rightarrow> nat \<Rightarrow> (nat \<rightharpoonup> mymsg_hdr) \<Rightarrow> (nat \<rightharpoonup> mymsg_hdr) option" where
  "mq_link_free abi msgsize filesize 0 index ms =
     (if int (index + sizeof_mymsg_hdr abi) > filesize then None
      else Some (ms(index \<mapsto> \<lparr>msg_next = 0, msg_len = 0, msg_prio = 0,
                                 msg_data = replicate msgsize 0\<rparr>)))"
| "mq_link_free abi msgsize filesize (Suc n) index ms =
     (if int (index + sizeof_mymsg_hdr abi) > filesize then None
      else let next = index + (sizeof_mymsg_hdr abi + msgsize)
           in mq_link_free abi msgsize filesize n next
                (ms(index \<mapsto> \<lparr>msg_next = next, msg_len = 0, msg_prio = 0,
                                msg_data = replicate msgsize 0\<rparr>)))"

definition mq_filesize :: "mq_abi \<Rightarrow> mymq_attr \<Rightarrow> int" where
  "mq_filesize abi attr =
     s64 (int (sizeof_mymq_hdr abi) +
          mq_maxmsg attr * (int (sizeof_mymsg_hdr abi) + s64 (MSGSIZE (mq_msgsize attr))))"

text \<open>
  The header of a new queue with all its slots on the free list. The loop counter is an
  \<^verbatim>\<open>int\<close>, so a queue of more than \<open>2 ^ 31\<close> messages overflows it.
\<close>

definition mq_init_region :: "mq_abi \<Rightarrow> mymq_attr \<Rightarrow> mymq_hdr option" where
  "mq_init_region abi attr =
     (if mq_maxmsg attr > 2 ^ 31 then None
      else map_option
        (\<lambda>ms. \<lparr>mqh_attr = \<lparr>mq_flags = 0, mq_maxmsg = mq_maxmsg attr,
                           mq_msgsize = mq_msgsize attr, mq_curmsgs = 0\<rparr>,
               mqh_head = 0, mqh_free = sizeof_mymq_hdr abi, mqh_nwait = 0, mqh_pid = 0,
               mqh_event = \<lparr>sigev_notify_signal = True, sigev_signo = 0, sigev_value = 0\<rparr>,
               mqh_msgs = ms\<rparr>)
        (mq_link_free abi (nat (s64 (MSGSIZE (mq_msgsize attr)))) (mq_filesize abi attr)
           (nat (mq_maxmsg attr - 1)) (sizeof_mymq_hdr abi) Map.empty))"

type_synonym mq_opened = "(mymq_info \<times> mymq_hdr option) mq_end \<times> mq_sys list"

text \<open>The labels \<^verbatim>\<open>pthreaderr\<close> and \<^verbatim>\<open>err\<close>: \<^verbatim>\<open>errno\<close> is saved over the clean-up.\<close>

definition mq_open_err :: "bool \<Rightarrow> bool \<Rightarrow> bool \<Rightarrow> errno \<Rightarrow> mq_opened" where
  "mq_open_err created mapped allocated e =
     (MReturn (Inl e),
      (if created then [SysUnlink] else []) @ (if mapped then [SysMunmap] else []) @
      (if allocated then [SysFree] else []) @ [SysClose])"

definition mq_open_create ::
  "mq_abi \<Rightarrow> 32 word \<Rightarrow> 32 word \<Rightarrow> mymq_attr option \<Rightarrow> mq_env \<Rightarrow> mq_opened" where
  "mq_open_create abi nonblock mode attr ev =
     (if (case attr of None \<Rightarrow> False | Some a \<Rightarrow> mq_maxmsg a \<le> 0 \<or> mq_msgsize a \<le> 0)
      then mq_open_err True False False EINVAL
      else let a = (case attr of None \<Rightarrow> defattr | Some a \<Rightarrow> a) in
        case e_lseek ev of Some e \<Rightarrow> mq_open_err True False False e
      | None \<Rightarrow> (case e_write ev of Some e \<Rightarrow> mq_open_err True False False e
      | None \<Rightarrow> (case e_mmap ev of Some e \<Rightarrow> mq_open_err True False False e
      | None \<Rightarrow> (case e_malloc ev of Some e \<Rightarrow> mq_open_err True True False e
      | None \<Rightarrow> (case mq_init_region abi a of None \<Rightarrow> (MFault, [])
      | Some h \<Rightarrow> (case e_mutexattr ev of Some e \<Rightarrow> mq_open_err True True True e
      | None \<Rightarrow> (case e_mutex ev of Some e \<Rightarrow> mq_open_err True True True e
      | None \<Rightarrow> (case e_condattr ev of Some e \<Rightarrow> mq_open_err True True True e
      | None \<Rightarrow> (case e_cond ev of Some e \<Rightarrow> mq_open_err True True True e
      | None \<Rightarrow> (case e_fchmod ev of Some e \<Rightarrow> mq_open_err True True True e
      | None \<Rightarrow> (MReturn (Inr (\<lparr>mqi_magic = MQI_MAGIC, mqi_flags = nonblock\<rparr>, Some h)),
                 [SysFchmod mode, SysClose])))))))))))"

text \<open>Waiting until the creator has turned off the user-execute bit.\<close>

datatype mq_waited = WReady | WAgain | WError errno | WTimedOut

fun mq_wait_init :: "bool \<Rightarrow> (nat \<Rightarrow> errno + 32 word) \<Rightarrow> nat \<Rightarrow> nat \<Rightarrow> mq_waited" where
  "mq_wait_init creat st i 0 = WTimedOut"
| "mq_wait_init creat st i (Suc tries) =
     (case st i of
        Inl e \<Rightarrow> if e = ENOENT \<and> creat then WAgain else WError e
      | Inr mode \<Rightarrow> if mode AND S_IXUSR = 0 then WReady
                    else mq_wait_init creat st (Suc i) tries)"

text \<open>The label \<^verbatim>\<open>exists\<close>: \<open>Inl\<close> with the calls made is a jump back to \<^verbatim>\<open>again\<close>.\<close>

definition mq_open_exists :: "32 word \<Rightarrow> bool \<Rightarrow> mq_env \<Rightarrow> mq_sys list + mq_opened" where
  "mq_open_exists nonblock creat ev =
     (case e_open ev of
        Some e \<Rightarrow> if e = ENOENT \<and> creat then Inl [] else Inr (mq_open_err False False False e)
      | None \<Rightarrow>
        (case mq_wait_init creat (e_stat ev) 0 MAX_TRIES of
           WAgain \<Rightarrow> Inl [SysClose]
         | WError e \<Rightarrow> Inr (mq_open_err False False False e)
         | WTimedOut \<Rightarrow> Inr (mq_open_err False False False ETIMEDOUT)
         | WReady \<Rightarrow>
             (case e_mmap ev of Some e \<Rightarrow> Inr (mq_open_err False False False e)
              | None \<Rightarrow>
                (case e_malloc ev of
                   Some e \<Rightarrow> (case mq_open_err False True False e of (r, cs) \<Rightarrow> Inr (r, SysClose # cs))
                 | None \<Rightarrow> Inr (MReturn (Inr (\<lparr>mqi_magic = MQI_MAGIC, mqi_flags = nonblock\<rparr>, None)),
                                [SysClose])))))"

text \<open>
  The whole call. \<^const>\<open>None\<close>: every one of the given passes jumped back to \<^verbatim>\<open>again\<close>.
  A returned region is the one this call created; without one the queue existed already.
\<close>

fun mymq_open ::
  "mq_abi \<Rightarrow> 32 word \<Rightarrow> 32 word \<Rightarrow> mymq_attr option \<Rightarrow> mq_env list \<Rightarrow> mq_opened option" where
  "mymq_open abi oflag0 mode0 attr [] = None"
| "mymq_open abi oflag0 mode0 attr (ev # evs) =
     (let nonblock = oflag0 AND O_NONBLOCK; oflag = oflag0 AND NOT O_NONBLOCK;
          creat = (oflag AND O_CREAT \<noteq> 0);
          exists = (case mq_open_exists nonblock creat ev of
                      Inr r \<Rightarrow> Some r
                    | Inl cs \<Rightarrow> map_option (\<lambda>(r, cs'). (r, cs @ cs'))
                                 (mymq_open abi oflag0 mode0 attr evs))
      in if creat then
           case e_creat ev of
             None \<Rightarrow> Some (mq_open_create abi nonblock (mode0 AND NOT S_IXUSR) attr ev)
           | Some e \<Rightarrow> if e = EEXIST \<and> oflag AND O_EXCL = 0 then exists
                       else Some (MReturn (Inl e), [])
         else exists)"

text \<open>
  Closing: unregister the process, unmap the region, mark the descriptor invalid.
  \<open>um\<close> is what \<^verbatim>\<open>munmap\<close> reports.
\<close>

definition mymq_close ::
  "mymq_info \<Rightarrow> rc \<Rightarrow> rc \<Rightarrow> int \<Rightarrow> mymq_hdr \<Rightarrow> mymq_hdr \<times> mymq_info \<times> mq_sys list \<times> (errno + unit)" where
  "mymq_close mqi lk um pid h =
     (if mqi_magic mqi \<noteq> MQI_MAGIC then (h, mqi, [], Inl EBADF)
      else case mymq_notify mqi lk pid (\<lambda>_. None) None h of
        (h', Inl e) \<Rightarrow> (h', mqi, [], Inl e)
      | (h', Inr _) \<Rightarrow>
          (case um of Some e \<Rightarrow> (h', mqi, [], Inl e)
           | None \<Rightarrow> (h', mqi\<lparr>mqi_magic := 0\<rparr>, [SysMunmap, SysFree], Inr ())))"

definition mymq_unlink :: "rc \<Rightarrow> mq_sys list \<times> (errno + unit)" where
  "mymq_unlink ul = (case ul of Some e \<Rightarrow> ([], Inl e) | None \<Rightarrow> ([SysUnlink], Inr ()))"

end
