(* ===== verification/Prio_Queue.thy ===== *)
theory Prio_Queue
  imports Prelude
begin

text \<open>
  Bounded priority queues as message queues offer them: the queue is a list of messages
  with their priorities, highest first, and messages of one priority in the order of their
  arrival. \<open>pq_insert\<close> is where a message goes, and the locale is the interface
  between an implementation and its users.
\<close>

section \<open>Insertion\<close>

definition pq_insert :: "32 word \<Rightarrow> 'm \<Rightarrow> (32 word \<times> 'm) list \<Rightarrow> (32 word \<times> 'm) list" where
  "pq_insert p m q = takeWhile (\<lambda>e. p \<le> fst e) q @ (p, m) # dropWhile (\<lambda>e. p \<le> fst e) q"

lemma pq_insert_length: "length (pq_insert p m q) = Suc (length q)"
  unfolding pq_insert_def
  by (metis add_Suc_right append_Cons length_Cons length_append takeWhile_dropWhile_id)

text \<open>Inserting one message after another sorts them, with those of equal priority in the
  order in which they were inserted.\<close>

lemma pq_insert_mset: "mset (pq_insert p m q) = add_mset (p, m) (mset q)"
  unfolding pq_insert_def
  by (metis mset_append mset.simps(2) takeWhile_dropWhile_id union_mset_add_mset_right)

lemma pq_insert_sorted:
  "sorted_wrt (\<lambda>x y. fst y \<le> fst x) q \<Longrightarrow> sorted_wrt (\<lambda>x y. fst y \<le> fst x) (pq_insert p m q)"
proof (induction q)
  case (Cons e q)
  then show ?case
    by (auto simp: pq_insert_def dest: set_takeWhileD set_dropWhileD)
qed (simp add: pq_insert_def)

lemma dropWhile_ge_no_equal:
  "sorted_wrt (\<lambda>x y. fst y \<le> fst x) q \<Longrightarrow>
   filter (\<lambda>e. fst e = p) (dropWhile (\<lambda>e. p \<le> fst e) q) = []" for p :: "32 word"
  by (induction q) (auto simp: filter_empty_conv)

lemma pq_insert_filter:
  assumes "sorted_wrt (\<lambda>x y. fst y \<le> fst x) q"
  shows "filter (\<lambda>e. fst e = p') (pq_insert p m q) =
         filter (\<lambda>e. fst e = p') q @ (if p = p' then [(p, m)] else [])"
proof (cases "p = p'")
  case True
  have "filter (\<lambda>e. fst e = p) q = filter (\<lambda>e. fst e = p) (takeWhile (\<lambda>e. p \<le> fst e) q)"
    using dropWhile_ge_no_equal [OF assms, of p]
    by (metis append_Nil2 filter_append takeWhile_dropWhile_id)
  then show ?thesis using True dropWhile_ge_no_equal [OF assms, of p] by (simp add: pq_insert_def)
next
  case False
  then show ?thesis unfolding pq_insert_def
    by simp (metis filter_append takeWhile_dropWhile_id)
qed

lemma pq_inserts:
  assumes "sorted_wrt (\<lambda>x y. fst y \<le> fst x) q"
  shows "sorted_wrt (\<lambda>x y. fst y \<le> fst x) (fold (\<lambda>(p, m). pq_insert p m) es q) \<and>
    mset (fold (\<lambda>(p, m). pq_insert p m) es q) = mset q + mset es \<and>
    filter (\<lambda>e. fst e = p') (fold (\<lambda>(p, m). pq_insert p m) es q) =
      filter (\<lambda>e. fst e = p') q @ filter (\<lambda>e. fst e = p') es"
  using assms
proof (induction es arbitrary: q)
  case (Cons e es)
  obtain p m where "e = (p, m)" by fastforce
  with Cons.IH [OF pq_insert_sorted [OF Cons.prems, of p m]] show ?case
    by (simp add: pq_insert_mset pq_insert_filter [OF Cons.prems])
qed simp

lemma pq_inserts_sort:
  "fold (\<lambda>(p, m). pq_insert p m) es [] = sort_key (\<lambda>e. - uint (fst e)) es"
proof -
  let ?r = "fold (\<lambda>(p, m). pq_insert p m) es []"
  note I = pq_inserts [of "[]" es]
  have "sorted_wrt (\<lambda>x y. fst y \<le> fst x) ?r" using I by simp
  then have "sorted (map (\<lambda>e. - uint (fst e)) ?r)"
    by (simp add: sorted_map word_le_def)
  moreover have "filter (\<lambda>x. - uint (fst k) = - uint (fst x)) ?r =
      filter (\<lambda>x. - uint (fst k) = - uint (fst x)) es" for k :: "32 word \<times> 'a"
    using I [of "fst k"] by (simp add: eq_commute word_uint_eq_iff [symmetric])
  ultimately show ?thesis
    using I by (intro properties_for_sort_key [symmetric]) simp_all
qed
section \<open>The interface\<close>

fun pq_puts :: "(32 word \<Rightarrow> 'm \<Rightarrow> 'q \<Rightarrow> 'q option) \<Rightarrow> (32 word \<times> 'm) list \<Rightarrow> 'q \<Rightarrow> 'q option" where
  "pq_puts put [] q = Some q"
| "pq_puts put ((p, m) # es) q = Option.bind (put p m q) (pq_puts put es)"

primrec pq_gets ::
  "('q \<Rightarrow> ((32 word \<times> 'm) \<times> 'q) option) \<Rightarrow> nat \<Rightarrow> 'q \<Rightarrow> (32 word \<times> 'm) list option" where
  "pq_gets get 0 q = Some []"
| "pq_gets get (Suc n) q = Option.bind (get q) (\<lambda>(e, q'). map_option ((#) e) (pq_gets get n q'))"

text \<open>
  What a user of a bounded priority queue relies on: a message that is put into a queue
  with room takes its place behind those of its own and of higher priority, and what is
  taken out is the first. The lemma on \<open>pq_puts\<close>
  and \<open>pq_gets\<close> holds of every implementation.
\<close>

locale prio_queue =
  fixes put :: "32 word \<Rightarrow> 'm \<Rightarrow> 'q \<Rightarrow> 'q option"
    and get :: "'q \<Rightarrow> ((32 word \<times> 'm) \<times> 'q) option"
    and contents :: "'q \<Rightarrow> (32 word \<times> 'm) list"
    and ok :: "'q \<Rightarrow> bool"
    and cap :: "'q \<Rightarrow> nat"
    and fits :: "'q \<Rightarrow> 'm \<Rightarrow> bool"
  assumes put_law: "ok q \<Longrightarrow> length (contents q) < cap q \<Longrightarrow> fits q m \<Longrightarrow>
      \<exists>q'. put p m q = Some q' \<and> ok q' \<and> contents q' = pq_insert p m (contents q) \<and>
           cap q' = cap q \<and> fits q' = fits q"
    and get_law: "ok q \<Longrightarrow> contents q = e # es \<Longrightarrow>
      \<exists>q'. get q = Some (e, q') \<and> ok q' \<and> contents q' = es"
begin

lemma puts_ok:
  assumes "ok q" "length (contents q) + length es \<le> cap q" "\<forall>(p, m) \<in> set es. fits q m"
  shows "\<exists>q'. pq_puts put es q = Some q' \<and> ok q' \<and>
     contents q' = fold (\<lambda>(p, m). pq_insert p m) es (contents q)"
  using assms
proof (induction es arbitrary: q)
  case (Cons e es)
  obtain p m where e: "e = (p, m)" by fastforce
  with Cons.prems obtain q' where q': "put p m q = Some q'" "ok q'"
    "contents q' = pq_insert p m (contents q)" "cap q' = cap q" "fits q' = fits q"
    using put_law [of q m p] by auto
  have "length (contents q') = Suc (length (contents q))"
    by (simp add: q'(3) pq_insert_length)
  then show ?case using Cons.IH [of q'] Cons.prems q' e by auto
qed simp

lemma gets_ok: "ok q \<Longrightarrow> pq_gets get (length (contents q)) q = Some (contents q)"
proof (induction "contents q" arbitrary: q)
  case (Cons e es)
  then obtain q' where "get q = Some (e, q')" "ok q'" "contents q' = es"
    using get_law [of q e es] by auto
  with Cons show ?case by (metis (no_types, lifting) bind.bind_lunit case_prod_conv pq_gets.simps(2) length_Cons option.map(2))
qed (metis pq_gets.simps(1) list.size(3))

lemma puts_gets:
  assumes "ok q" "contents q = []" "length es \<le> cap q" "\<forall>(p, m) \<in> set es. fits q m"
  shows "Option.bind (pq_puts put es q) (pq_gets get (length es)) = Some (sort_key (\<lambda>e. - uint (fst e)) es)"
proof -
  obtain q' where q': "pq_puts put es q = Some q'" "ok q'" "contents q' = fold (\<lambda>(p, m). pq_insert p m) es []"
    using puts_ok [of q es] assms by auto
  then show ?thesis using gets_ok [of q'] by (simp add: pq_inserts_sort)
qed

end
end
