(* ===== verification/Px_Mq_Inv.thy ===== *)
theory Px_Mq_Inv
  imports Px_Mq Prio_Queue
begin

text \<open>
  The message queues of \<^verbatim>\<open>Px_Mq\<close> implement a bounded priority queue. The
  representation invariant \<open>mq_wf\<close> is established by \<^verbatim>\<open>mymq_open\<close> and
  kept by every call and by every interleaving of the calls of several threads.
\<close>

unbundle bit_operations_syntax

section \<open>The queue a region holds\<close>

text \<open>
  \<open>mq_queue\<close> is the queue as its users see it: the messages with their priorities, in the
  order in which they will be received. \<open>mq_rep h qs fs\<close> says that the slots \<open>qs\<close> form
  the queue and the slots \<open>fs\<close> the free list, that these are all the slots, each large
  enough for a message, and that the queue is in descending order of priority.
\<close>

definition mq_msg :: "mymq_hdr \<Rightarrow> nat \<Rightarrow> mymsg_hdr" where
  "mq_msg h i = the (mqh_msgs h i)"

definition mq_entry :: "mymq_hdr \<Rightarrow> nat \<Rightarrow> 32 word \<times> byte list" where
  "mq_entry h i = (msg_prio (mq_msg h i), take (msg_len (mq_msg h i)) (msg_data (mq_msg h i)))"

definition mq_queue :: "mymq_hdr \<Rightarrow> (32 word \<times> byte list) list" where
  "mq_queue h = map (mq_entry h) (nodes (mq_next h) (nat (mq_curmsgs (mqh_attr h))) (mqh_head h))"

definition mq_rep :: "mymq_hdr \<Rightarrow> nat list \<Rightarrow> nat list \<Rightarrow> bool" where
  "mq_rep h qs fs \<longleftrightarrow>
     chain (mq_next h) (mqh_head h) qs \<and> chain (mq_next h) (mqh_free h) fs \<and>
     set qs \<inter> set fs = {} \<and> dom (mqh_msgs h) = set qs \<union> set fs \<and>
     mq_curmsgs (mqh_attr h) = int (length qs) \<and>
     mq_maxmsg (mqh_attr h) = int (length qs + length fs) \<and> 0 < mq_maxmsg (mqh_attr h) \<and>
     (\<forall>i \<in> dom (mqh_msgs h). mq_msgsize (mqh_attr h) \<le> int (length (msg_data (mq_msg h i)))) \<and>
     (\<forall>i \<in> set qs. msg_len (mq_msg h i) \<le> length (msg_data (mq_msg h i))) \<and>
     sorted_wrt (\<lambda>i j. msg_prio (mq_msg h j) \<le> msg_prio (mq_msg h i)) qs"

definition mq_wf :: "mymq_hdr \<Rightarrow> bool" where
  "mq_wf h \<longleftrightarrow> (\<exists>qs fs. mq_rep h qs fs)"

lemma mq_queue_rep: "mq_rep h qs fs \<Longrightarrow> mq_queue h = map (mq_entry h) qs"
  by (auto simp: mq_rep_def mq_queue_def nodes_chain [of _ _ qs])

lemma mq_repD:
  assumes "mq_rep h qs fs"
  shows "chain (mq_next h) (mqh_head h) qs" "chain (mq_next h) (mqh_free h) fs"
    "set qs \<inter> set fs = {}" "dom (mqh_msgs h) = set qs \<union> set fs"
    "mq_curmsgs (mqh_attr h) = int (length qs)"
    "mq_maxmsg (mqh_attr h) = int (length qs) + int (length fs)" "0 < mq_maxmsg (mqh_attr h)"
    "i \<in> dom (mqh_msgs h) \<Longrightarrow> mq_msgsize (mqh_attr h) \<le> int (length (msg_data (mq_msg h i)))"
    "i \<in> set qs \<Longrightarrow> msg_len (mq_msg h i) \<le> length (msg_data (mq_msg h i))"
    "sorted_wrt (\<lambda>i j. msg_prio (mq_msg h j) \<le> msg_prio (mq_msg h i)) qs"
  using assms unfolding mq_rep_def by auto

lemma mq_repI:
  assumes "chain (mq_next h) (mqh_head h) qs" "chain (mq_next h) (mqh_free h) fs"
    "set qs \<inter> set fs = {}" "dom (mqh_msgs h) = set qs \<union> set fs"
    "mq_curmsgs (mqh_attr h) = int (length qs)"
    "mq_maxmsg (mqh_attr h) = int (length qs) + int (length fs)" "0 < mq_maxmsg (mqh_attr h)"
    "\<And>i. i \<in> dom (mqh_msgs h) \<Longrightarrow> mq_msgsize (mqh_attr h) \<le> int (length (msg_data (mq_msg h i)))"
    "\<And>i. i \<in> set qs \<Longrightarrow> msg_len (mq_msg h i) \<le> length (msg_data (mq_msg h i))"
    "sorted_wrt (\<lambda>i j. msg_prio (mq_msg h j) \<le> msg_prio (mq_msg h i)) qs"
  shows "mq_rep h qs fs"
  using assms unfolding mq_rep_def by simp

lemma mq_find_place_chain:
  assumes "chain (\<lambda>i. case ms i of Some m \<Rightarrow> msg_next m | None \<Rightarrow> 0) index qs"
    and "set qs \<subseteq> dom ms"
  shows "mq_find_place ms prio p index =
    Some (last (p # takeWhile (\<lambda>i. prio \<le> msg_prio (the (ms i))) qs),
          case dropWhile (\<lambda>i. prio \<le> msg_prio (the (ms i))) qs of [] \<Rightarrow> 0 | i # _ \<Rightarrow> i)"
  using assms
proof (induction qs arbitrary: p index)
  case Nil
  then show ?case by (simp add: mq_find_place.simps)
next
  case (Cons a qs)
  then obtain m where "ms a = Some m" by auto
  with Cons show ?case
    by (cases "prio \<le> msg_prio m") (auto simp: mq_find_place.simps [of ms prio p a])
qed

text \<open>What a call does to the next pointers.\<close>

lemma mq_next_set_next:
  "p \<noteq> 0 \<Longrightarrow> p \<in> dom (mqh_msgs h) \<Longrightarrow> mq_next (mq_set_next p v h) = (mq_next h)(p := v)"
  by (auto simp: mq_next_def mq_set_next_def fun_eq_iff)

lemma mq_set_next_simps [simp]:
  "mqh_attr (mq_set_next p v h) = mqh_attr h"
  "mqh_free (mq_set_next p v h) = mqh_free h"
  "mqh_nwait (mq_set_next p v h) = mqh_nwait h"
  "mqh_pid (mq_set_next p v h) = mqh_pid h"
  "mqh_event (mq_set_next p v h) = mqh_event h"
  "mqh_head (mq_set_next p v h) = (if p = 0 then v else mqh_head h)"
  "dom (mqh_msgs (mq_set_next p v h)) = dom (mqh_msgs h)"
  by (auto simp: mq_set_next_def split: if_splits)

lemma mq_msg_set_next [simp]:
  assumes "i \<in> dom (mqh_msgs h)"
  shows "msg_prio (mq_msg (mq_set_next p v h) i) = msg_prio (mq_msg h i)"
    "msg_len (mq_msg (mq_set_next p v h) i) = msg_len (mq_msg h i)"
    "msg_data (mq_msg (mq_set_next p v h) i) = msg_data (mq_msg h i)"
  using assms by (auto simp: mq_msg_def mq_set_next_def)

lemma mq_link_new_eq:
  "f \<noteq> 0 \<Longrightarrow> p \<noteq> f \<Longrightarrow> mq_link_new p f index h = mq_set_next p f (mq_set_next f index h)"
  by (auto simp: mq_link_new_def mq_set_next_def fun_eq_iff)


lemma mq_next_link_new:
  assumes "f \<in> dom (mqh_msgs h)" "f \<noteq> 0" "p = 0 \<or> p \<in> dom (mqh_msgs h)" "p \<noteq> f"
  shows "mq_next (mq_link_new p f index h) =
    (if p = 0 then (mq_next h)(f := index) else (mq_next h)(f := index, p := f))"
proof (cases "p = 0")
  case True
  have "mq_next (mq_set_next 0 f (mq_set_next f index h)) = mq_next (mq_set_next f index h)"
    by (auto simp: mq_next_def mq_set_next_def fun_eq_iff)
  with True assms show ?thesis by (simp add: mq_link_new_eq mq_next_set_next)
next
  case False
  with assms show ?thesis by (simp add: mq_link_new_eq mq_next_set_next)
qed

lemma mq_fill_simps [simp]:
  "mqh_attr (mq_fill f nm ptr prio h) = mqh_attr h"
  "mqh_head (mq_fill f nm ptr prio h) = mqh_head h"
  "mqh_free (mq_fill f nm ptr prio h) = msg_next nm"
  "mqh_nwait (mq_fill f nm ptr prio h) = mqh_nwait h"
  "mqh_pid (mq_fill f nm ptr prio h) = mqh_pid h"
  "mqh_event (mq_fill f nm ptr prio h) = mqh_event h"
  "dom (mqh_msgs (mq_fill f nm ptr prio h)) = insert f (dom (mqh_msgs h))"
  "i \<noteq> f \<Longrightarrow> mq_msg (mq_fill f nm ptr prio h) i = mq_msg h i"
  "msg_prio (mq_msg (mq_fill f nm ptr prio h) f) = prio"
  "msg_len (mq_msg (mq_fill f nm ptr prio h) f) = length ptr"
  "msg_data (mq_msg (mq_fill f nm ptr prio h) f) = ptr @ drop (length ptr) (msg_data nm)"
  by (auto simp: mq_fill_def mq_msg_def)

lemma mq_next_fill [simp]:
  "f \<in> dom (mqh_msgs h) \<Longrightarrow> mq_next (mq_fill f (mq_msg h f) ptr prio h) = mq_next h"
  by (auto simp: mq_fill_def mq_next_def mq_msg_def fun_eq_iff)

lemma mq_msg_next: "i \<in> dom (mqh_msgs h) \<Longrightarrow> msg_next (mq_msg h i) = mq_next h i"
  by (auto simp: mq_next_def mq_msg_def)

lemma mymq_send_insert_eq:
  fixes prio :: "32 word"
  assumes rep: "mq_rep h qs (f # fs)" and len: "int (length ptr) \<le> mq_msgsize (mqh_attr h)"
  defines "A \<equiv> takeWhile (\<lambda>i. prio \<le> msg_prio (mq_msg h i)) qs"
    and "B \<equiv> dropWhile (\<lambda>i. prio \<le> msg_prio (mq_msg h i)) qs"
  shows "mymq_send_insert ptr prio h =
    (mq_add_curmsgs 1 (mq_link_new (last (0 # A)) f (hd0 B) (mq_fill f (mq_msg h f) ptr prio h)),
     if qs = [] then [Signal ()] else [], MReturn (Inr ()))"
proof -
  let ?h1 = "mq_fill f (mq_msg h f) ptr prio h"
  from rep have f: "mqh_free h = f" "f \<noteq> 0" "f \<in> dom (mqh_msgs h)" "f \<notin> set qs"
    and c: "chain (mq_next h) (mqh_head h) qs" and sub: "set qs \<subseteq> dom (mqh_msgs h)"
    and cur: "mq_curmsgs (mqh_attr h) = int (length qs)"
    by (auto simp: mq_rep_def)
  then have nm: "mqh_msgs h f = Some (mq_msg h f)" by (auto simp: mq_msg_def)
  have "mq_msgsize (mqh_attr h) \<le> int (length (msg_data (mq_msg h f)))"
    using rep f by (auto simp: mq_rep_def)
  with len have l: "\<not> length (msg_data (mq_msg h f)) < length ptr" by simp
  have P: "\<And>i. i \<in> set qs \<Longrightarrow> the (mqh_msgs ?h1 i) = mq_msg h i"
    using f by (auto simp: mq_fill_def mq_msg_def)
  have tw: "takeWhile (\<lambda>i. prio \<le> msg_prio (the (mqh_msgs ?h1 i))) qs = A"
    unfolding A_def using P by (intro takeWhile_cong) auto
  have dw: "dropWhile (\<lambda>i. prio \<le> msg_prio (the (mqh_msgs ?h1 i))) qs = B"
    unfolding B_def using P by (intro dropWhile_cong) auto
  have fp: "mq_find_place (mqh_msgs ?h1) prio 0 (mqh_head h) = Some (last (0 # A), hd0 B)"
  proof -
    have "chain (mq_next ?h1) (mqh_head h) qs" using c f by simp
    then have "chain (\<lambda>i. case mqh_msgs ?h1 i of Some m \<Rightarrow> msg_next m | None \<Rightarrow> 0) (mqh_head h) qs"
      by (simp add: mq_next_def [abs_def])
    moreover have "set qs \<subseteq> dom (mqh_msgs ?h1)" using sub by auto
    ultimately show ?thesis
      using mq_find_place_chain [of "mqh_msgs ?h1" "mqh_head h" qs prio 0]
      by (simp add: tw dw hd0_def)
  qed
  have "mqh_attr (mq_link_new p f i ?h1) = mqh_attr h" for p i
    by (simp add: mq_link_new_def)
  with f(1,2) nm l fp cur show ?thesis
    by (simp add: mymq_send_insert_def Let_def)
qed

lemma mq_add_curmsgs_simps [simp]:
  "mqh_head (mq_add_curmsgs d h) = mqh_head h"
  "mqh_free (mq_add_curmsgs d h) = mqh_free h"
  "mqh_nwait (mq_add_curmsgs d h) = mqh_nwait h"
  "mqh_pid (mq_add_curmsgs d h) = mqh_pid h"
  "mqh_event (mq_add_curmsgs d h) = mqh_event h"
  "mqh_msgs (mq_add_curmsgs d h) = mqh_msgs h"
  "mq_msg (mq_add_curmsgs d h) = mq_msg h"
  "mq_next (mq_add_curmsgs d h) = mq_next h"
  "mqh_attr (mq_add_curmsgs d h) = (mqh_attr h)\<lparr>mq_curmsgs := mq_curmsgs (mqh_attr h) + d\<rparr>"
  by (simp_all add: mq_add_curmsgs_def mq_next_def mq_msg_def fun_eq_iff)

lemma mq_link_new_simps [simp]:
  "mqh_attr (mq_link_new p f i h) = mqh_attr h"
  "mqh_free (mq_link_new p f i h) = mqh_free h"
  "mqh_nwait (mq_link_new p f i h) = mqh_nwait h"
  "mqh_pid (mq_link_new p f i h) = mqh_pid h"
  "mqh_event (mq_link_new p f i h) = mqh_event h"
  "f \<noteq> 0 \<Longrightarrow> mqh_head (mq_link_new p f i h) = (if p = 0 then f else mqh_head h)"
  "dom (mqh_msgs (mq_link_new p f i h)) = dom (mqh_msgs h)"
  by (simp_all add: mq_link_new_def)

lemma mq_msg_link_new [simp]:
  assumes "j \<in> dom (mqh_msgs h)"
  shows "msg_prio (mq_msg (mq_link_new p f i h) j) = msg_prio (mq_msg h j)"
    "msg_len (mq_msg (mq_link_new p f i h) j) = msg_len (mq_msg h j)"
    "msg_data (mq_msg (mq_link_new p f i h) j) = msg_data (mq_msg h j)"
  using assms by (simp_all add: mq_link_new_def)

lemma mq_rep_insert:
  fixes prio :: "32 word"
  assumes rep: "mq_rep h qs (f # fs)" and len: "int (length ptr) \<le> mq_msgsize (mqh_attr h)"
  defines "A \<equiv> takeWhile (\<lambda>i. prio \<le> msg_prio (mq_msg h i)) qs"
    and "B \<equiv> dropWhile (\<lambda>i. prio \<le> msg_prio (mq_msg h i)) qs"
  defines "h' \<equiv> mq_add_curmsgs 1 (mq_link_new (last (0 # A)) f (hd0 B) (mq_fill f (mq_msg h f) ptr prio h))"
  shows "mq_rep h' (A @ f # B) fs \<and> map (mq_entry h') (A @ f # B) = pq_insert prio ptr (map (mq_entry h) qs)"
proof -
  let ?h1 = "mq_fill f (mq_msg h f) ptr prio h"
  have qs: "qs = A @ B" by (simp add: A_def B_def)
  note D = mq_repD [OF rep]
  have c: "chain (mq_next h) (mqh_head h) (A @ B)" using D(1) by (simp add: qs)
  have cf: "chain (mq_next h) (mq_next h f) fs" and f: "f \<noteq> 0" using D(2) by auto
  have dj: "set A \<inter> set fs = {}" "set B \<inter> set fs = {}" "f \<notin> set A" "f \<notin> set B"
    using D(3) by (auto simp: qs)
  have dm: "dom (mqh_msgs h) = insert f (set A \<union> set B \<union> set fs)" using D(4) by (auto simp: qs)
  note f = f chain_hd_notin [OF cf] dj(3,4)
  have fd: "f \<in> dom (mqh_msgs h)" using dm by simp
  have A0: "0 \<notin> set A" using chain_nonnull [OF c] by simp
  have lastA: "last (0 # A) = 0 \<longleftrightarrow> A = []"
    using A0 by (cases A rule: rev_cases) auto
  have nx: "mq_next h' = (if A = [] then (mq_next h)(f := hd0 B) else (mq_next h)(f := hd0 B, last A := f))"
  proof -
    have "mq_next h' = mq_next (mq_link_new (last (0 # A)) f (hd0 B) ?h1)" by (simp add: h'_def)
    also have "\<dots> = (if last (0 # A) = 0 then (mq_next ?h1)(f := hd0 B)
                      else (mq_next ?h1)(f := hd0 B, last (0 # A) := f))"
      using f fd dm by (intro mq_next_link_new) (cases A rule: rev_cases; auto)+
    finally show ?thesis using fd by (simp only: lastA mq_next_fill) auto
  qed
  have hd: "mqh_head h' = (if A = [] then f else mqh_head h)"
    using f lastA by (simp add: h'_def)
  have cq: "chain (mq_next h') (mqh_head h') (A @ f # B)"
    using chain_splice [OF c, of f] f by (auto simp: nx hd)
  have cfr: "chain (mq_next h') (mqh_free h') fs"
  proof -
    have "chain (mq_next h') (mq_next h f) fs"
      using cf f dj by (cases A rule: rev_cases) (auto simp: nx)
    then show ?thesis using fd by (simp add: h'_def mq_msg_next)
  qed
  have dm': "dom (mqh_msgs h') = insert f (set A \<union> set B \<union> set fs)"
    using dm by (auto simp: h'_def)
  have old: "msg_prio (mq_msg h' i) = msg_prio (mq_msg h i)" "msg_len (mq_msg h' i) = msg_len (mq_msg h i)"
       "msg_data (mq_msg h' i) = msg_data (mq_msg h i)" if "i \<in> set A \<union> set B \<union> set fs" for i
    using that f dm fd unfolding h'_def by (cases "i = f"; simp)+
  have new: "msg_prio (mq_msg h' f) = prio" "msg_len (mq_msg h' f) = length ptr"
      "msg_data (mq_msg h' f) = ptr @ drop (length ptr) (msg_data (mq_msg h f))"
    by (simp_all add: h'_def)
  have "sorted_wrt (\<lambda>i j. msg_prio (mq_msg h' j) \<le> msg_prio (mq_msg h' i)) qs"
    using D(10) by (rule sorted_wrt_mono_rel [rotated]) (simp add: qs old)
  from sorted_wrt_insert_prio [OF this, of f]
  have "sorted_wrt (\<lambda>i j. msg_prio (mq_msg h' j) \<le> msg_prio (mq_msg h' i))
     (takeWhile (\<lambda>i. prio \<le> msg_prio (mq_msg h' i)) qs @ f # dropWhile (\<lambda>i. prio \<le> msg_prio (mq_msg h' i)) qs)"
    by (simp only: new)
  moreover have "takeWhile (\<lambda>i. prio \<le> msg_prio (mq_msg h' i)) qs = A"
    unfolding A_def by (rule takeWhile_cong) (auto simp: qs old)
  moreover have "dropWhile (\<lambda>i. prio \<le> msg_prio (mq_msg h' i)) qs = B"
    unfolding B_def by (rule dropWhile_cong) (auto simp: qs old)
  ultimately have srt: "sorted_wrt (\<lambda>i j. msg_prio (mq_msg h' j) \<le> msg_prio (mq_msg h' i)) (A @ f # B)"
    by simp
  have ent: "mq_entry h' i = mq_entry h i" if "i \<in> set A \<union> set B" for i
    using that by (simp add: mq_entry_def old)
  have entf: "mq_entry h' f = (prio, ptr)" by (simp add: mq_entry_def new)
  have mp: "map (mq_entry h') (A @ f # B) = pq_insert prio ptr (map (mq_entry h) qs)"
  proof -
    have "takeWhile (\<lambda>e. prio \<le> fst e) (map (mq_entry h) qs) = map (mq_entry h) A"
      "dropWhile (\<lambda>e. prio \<le> fst e) (map (mq_entry h) qs) = map (mq_entry h) B"
      by (simp_all add: takeWhile_map dropWhile_map A_def B_def mq_entry_def o_def)
    then show ?thesis by (simp add: pq_insert_def entf ent)
  qed
  have at: "mqh_attr h' = (mqh_attr h)\<lparr>mq_curmsgs := mq_curmsgs (mqh_attr h) + 1\<rparr>"
    by (simp add: h'_def)
  have "mq_rep h' (A @ f # B) fs"
  proof (rule mq_repI)
    fix i assume "i \<in> dom (mqh_msgs h')"
    then have "i = f \<or> i \<in> set A \<union> set B \<union> set fs" using dm' by auto
    then show "mq_msgsize (mqh_attr h') \<le> int (length (msg_data (mq_msg h' i)))"
    proof
      assume "i = f"
      then show ?thesis using D(8) [of f] fd len unfolding at by (simp add: new)
    next
      assume i: "i \<in> set A \<union> set B \<union> set fs"
      then show ?thesis using D(8) [of i] dm unfolding at by (simp add: old)
    qed
  next
    fix i assume "i \<in> set (A @ f # B)"
    then show "msg_len (mq_msg h' i) \<le> length (msg_data (mq_msg h' i))"
      using D(9) [of i] by (auto simp: old new qs)
  next
    show "mq_curmsgs (mqh_attr h') = int (length (A @ f # B))"
      "mq_maxmsg (mqh_attr h') = int (length (A @ f # B)) + int (length fs)" "0 < mq_maxmsg (mqh_attr h')"
      using D(5-7) unfolding at by (simp_all add: qs)
    show "dom (mqh_msgs h') = set (A @ f # B) \<union> set fs" unfolding dm' by auto
    show "set (A @ f # B) \<inter> set fs = {}" using dj f by auto
  qed (rule cq cfr srt)+
  with mp show ?thesis by blast
qed


text \<open>A queue that is not full has a free slot.\<close>

lemma mq_rep_not_full:
  assumes "mq_rep h qs fs" "\<not> mq_full h"
  obtains f fs' where "fs = f # fs'"
  using assms by (cases fs) (auto simp: mq_rep_def mq_full_def)

lemma mymq_send_insert_ok:
  assumes "mq_wf h" and "\<not> mq_full h" and "int (length ptr) \<le> mq_msgsize (mqh_attr h)"
  obtains h' where
    "mymq_send_insert ptr prio h = (h', if mq_queue h = [] then [Signal ()] else [], MReturn (Inr ()))"
    "mq_wf h'" "mq_queue h' = pq_insert prio ptr (mq_queue h)"
    "mqh_attr h' = (mqh_attr h)\<lparr>mq_curmsgs := mq_curmsgs (mqh_attr h) + 1\<rparr>"
    "mqh_nwait h' = mqh_nwait h" "mqh_pid h' = mqh_pid h" "mqh_event h' = mqh_event h"
proof -
  from assms(1) obtain qs fs0 where rep0: "mq_rep h qs fs0" by (auto simp: mq_wf_def)
  with assms(2) obtain f fs where rep: "mq_rep h qs (f # fs)"
    by (metis mq_rep_not_full)
  define A where "A = takeWhile (\<lambda>i. prio \<le> msg_prio (mq_msg h i)) qs"
  define B where "B = dropWhile (\<lambda>i. prio \<le> msg_prio (mq_msg h i)) qs"
  define h' where "h' = mq_add_curmsgs 1 (mq_link_new (last (0 # A)) f (hd0 B) (mq_fill f (mq_msg h f) ptr prio h))"
  have rep': "mq_rep h' (A @ f # B) fs"
    and q: "map (mq_entry h') (A @ f # B) = pq_insert prio ptr (map (mq_entry h) qs)"
    using mq_rep_insert [OF rep assms(3), of prio] unfolding h'_def A_def B_def by blast+
  from rep' have "mq_wf h'" unfolding mq_wf_def by blast
  moreover have "mq_queue h' = pq_insert prio ptr (mq_queue h)"
    unfolding mq_queue_rep [OF rep'] mq_queue_rep [OF rep] by (rule q)
  moreover have "mymq_send_insert ptr prio h = (h', if mq_queue h = [] then [Signal ()] else [], MReturn (Inr ()))"
    unfolding h'_def A_def B_def mymq_send_insert_eq [OF rep assms(3), of prio] mq_queue_rep [OF rep]
    by simp
  moreover have "mqh_attr h' = (mqh_attr h)\<lparr>mq_curmsgs := mq_curmsgs (mqh_attr h) + 1\<rparr>"
    "mqh_nwait h' = mqh_nwait h" "mqh_pid h' = mqh_pid h" "mqh_event h' = mqh_event h"
    unfolding h'_def by simp_all
  ultimately show ?thesis using that by blast
qed

lemma mymq_receive_remove_ok:
  assumes "mq_wf h" and "mq_curmsgs (mqh_attr h) \<noteq> 0"
  obtains h' p m q where
    "mq_queue h = (p, m) # q"
    "mymq_receive_remove h = (h', if mq_full h then [Signal ()] else [], MReturn (Inr (m, p)))"
    "mq_wf h'" "mq_queue h' = q"
    "mqh_attr h' = (mqh_attr h)\<lparr>mq_curmsgs := mq_curmsgs (mqh_attr h) - 1\<rparr>"
    "mqh_nwait h' = mqh_nwait h" "mqh_pid h' = mqh_pid h" "mqh_event h' = mqh_event h"
proof -
  from assms(1) obtain qs0 fs where rep0: "mq_rep h qs0 fs" by (auto simp: mq_wf_def)
  with assms(2) mq_repD(5) [OF rep0] obtain a qs where "qs0 = a # qs" by (cases qs0) auto
  with rep0 have rep: "mq_rep h (a # qs) fs" by simp
  define h' where "h' = mq_add_curmsgs (-1) ((mq_set_next a (mqh_free h) (h\<lparr>mqh_head := mq_next h a\<rparr>))\<lparr>mqh_free := a\<rparr>)"
  note D = mq_repD [OF rep]
  have a: "mqh_head h = a" "a \<noteq> 0" "a \<in> dom (mqh_msgs h)" "a \<notin> set qs" "a \<notin> set fs"
    using D(1,3,4) chain_hd_notin [of "mq_next h" a qs] by auto
  then obtain m0 where m0: "mqh_msgs h a = Some m0" by auto
  then have m: "mqh_msgs h a = Some (mq_msg h a)" by (simp add: mq_msg_def)
  have nx: "mq_next h' = (mq_next h)(a := mqh_free h)"
    using a m0 by (auto simp: h'_def mq_next_def mq_set_next_def fun_eq_iff)
  have msg: "msg_prio (mq_msg h' i) = msg_prio (mq_msg h i)" "msg_len (mq_msg h' i) = msg_len (mq_msg h i)"
     "msg_data (mq_msg h' i) = msg_data (mq_msg h i)" for i
    using a(2) m0 by (simp_all add: h'_def mq_msg_def mq_set_next_def)
  have dom: "dom (mqh_msgs h') = dom (mqh_msgs h)" by (auto simp: h'_def mq_set_next_def)
  have hd: "mqh_head h' = mq_next h a" "mqh_free h' = a" using a by (simp_all add: h'_def)
  have at: "mqh_attr h' = (mqh_attr h)\<lparr>mq_curmsgs := mq_curmsgs (mqh_attr h) - 1\<rparr>"
    and fr: "mqh_nwait h' = mqh_nwait h" "mqh_pid h' = mqh_pid h" "mqh_event h' = mqh_event h"
    by (simp_all add: h'_def)
  have "chain ((mq_next h)(a := mqh_free h)) (mq_next h a) qs"
    "chain ((mq_next h)(a := mqh_free h)) a (a # fs)" using D(1,2) a by simp_all
  moreover have "sorted_wrt (\<lambda>i j. msg_prio (mq_msg h j) \<le> msg_prio (mq_msg h i)) qs"
    using D(10) by simp
  moreover have "\<forall>i\<in>dom (mqh_msgs h). mq_msgsize (mqh_attr h) \<le> int (length (msg_data (mq_msg h i)))"
    "\<forall>i\<in>set qs. msg_len (mq_msg h i) \<le> length (msg_data (mq_msg h i))"
    using D(8,9) by simp_all
  ultimately have rep': "mq_rep h' qs (a # fs)"
    unfolding mq_rep_def nx dom hd msg at using D(3-7) a(4) by auto
  then have "mq_wf h'" unfolding mq_wf_def by blast
  moreover have "mq_queue h' = map (mq_entry h) qs"
    unfolding mq_queue_rep [OF rep'] by (simp add: mq_entry_def msg)
  moreover have "mymq_receive_remove h =
      (h', if mq_full h then [Signal ()] else [], MReturn (Inr (snd (mq_entry h a), fst (mq_entry h a))))"
    using D(5,6) D(9) [of a] a(1,2,3) m
    by (simp add: mymq_receive_remove_def Let_def mq_entry_def mq_full_def mq_msg_next h'_def)
  moreover have "mq_queue h = (fst (mq_entry h a), snd (mq_entry h a)) # map (mq_entry h) qs"
    by (simp add: mq_queue_rep [OF rep])
  ultimately show ?thesis
    using that at fr by blast
qed

section \<open>A new queue\<close>

primrec mq_slots :: "nat \<Rightarrow> nat \<Rightarrow> nat \<Rightarrow> nat list" where
  "mq_slots d 0 i = [i]"
| "mq_slots d (Suc n) i = i # mq_slots d n (i + d)"

lemma mq_slots_ge: "j \<in> set (mq_slots d n i) \<Longrightarrow> i \<le> j"
  by (induction n arbitrary: i) force+

lemma length_mq_slots [simp]: "length (mq_slots d n i) = Suc n"
  by (induction n arbitrary: i) simp_all

lemma mq_link_free_ok:
  assumes "int (i + n * (sizeof_mymsg_hdr abi + msz) + sizeof_mymsg_hdr abi) \<le> fsz"
    and "0 < i" and "0 < sizeof_mymsg_hdr abi + msz"
  shows "\<exists>ms'. mq_link_free abi msz fsz n i ms = Some ms' \<and>
     (\<forall>j. j \<notin> set (mq_slots (sizeof_mymsg_hdr abi + msz) n i) \<longrightarrow> ms' j = ms j) \<and>
     (\<forall>j \<in> set (mq_slots (sizeof_mymsg_hdr abi + msz) n i). \<exists>m. ms' j = Some m \<and> length (msg_data m) = msz) \<and>
     chain (\<lambda>j. case ms' j of Some m \<Rightarrow> msg_next m | None \<Rightarrow> 0) i (mq_slots (sizeof_mymsg_hdr abi + msz) n i)"
  using assms
proof (induction n arbitrary: i ms)
  case 0
  then show ?case by simp
next
  case (Suc n)
  let ?d = "sizeof_mymsg_hdr abi + msz"
  let ?ms = "ms(i \<mapsto> \<lparr>msg_next = i + ?d, msg_len = 0, msg_prio = 0, msg_data = replicate msz 0\<rparr>)"
  obtain ms' where ms': "mq_link_free abi msz fsz n (i + ?d) ?ms = Some ms'"
    and old: "\<forall>j. j \<notin> set (mq_slots ?d n (i + ?d)) \<longrightarrow> ms' j = ?ms j"
    and new: "\<forall>j \<in> set (mq_slots ?d n (i + ?d)). \<exists>m. ms' j = Some m \<and> length (msg_data m) = msz"
    and ch: "chain (\<lambda>j. case ms' j of Some m \<Rightarrow> msg_next m | None \<Rightarrow> 0) (i + ?d) (mq_slots ?d n (i + ?d))"
  proof -
    have "int (i + ?d + n * ?d + sizeof_mymsg_hdr abi) \<le> fsz"
      using Suc.prems(1) by (simp add: algebra_simps)
    then show ?thesis
      using that Suc.IH [of "i + ?d" ?ms] Suc.prems(2,3) by blast
  qed
  have i: "i \<notin> set (mq_slots ?d n (i + ?d))"
    using Suc.prems(3) mq_slots_ge [of i ?d n "i + ?d"] by auto
  then have msi: "ms' i = Some \<lparr>msg_next = i + ?d, msg_len = 0, msg_prio = 0, msg_data = replicate msz 0\<rparr>"
    using old by simp
  have "mq_link_free abi msz fsz (Suc n) i ms = Some ms'"
  proof -
    have "int (i + sizeof_mymsg_hdr abi) \<le> int (i + Suc n * ?d + sizeof_mymsg_hdr abi)" by simp
    then have "int (i + sizeof_mymsg_hdr abi) \<le> fsz" using Suc.prems(1) by (rule order_trans)
    then show ?thesis using ms' by simp
  qed
  moreover have "chain (\<lambda>j. case ms' j of Some m \<Rightarrow> msg_next m | None \<Rightarrow> 0) i (mq_slots ?d (Suc n) i)"
    using ch msi Suc.prems(2) by simp
  ultimately show ?case
    using old new msi i by auto
qed

definition mq_attr_fits :: "mq_abi \<Rightarrow> mymq_attr \<Rightarrow> bool" where
  "mq_attr_fits abi a \<longleftrightarrow> 0 < mq_maxmsg a \<and> mq_maxmsg a \<le> 2 ^ 31 \<and>
     0 < mq_msgsize a \<and> mq_msgsize a < 2 ^ 62 \<and>
     int (sizeof_mymq_hdr abi) + mq_maxmsg a * (int (sizeof_mymsg_hdr abi) + MSGSIZE (mq_msgsize a)) < 2 ^ 63"

lemma s64_id: "- (2 ^ 63) \<le> x \<Longrightarrow> x < 2 ^ 63 \<Longrightarrow> s64 x = x"
  by (simp add: s64_def)

lemma MSGSIZE_bounds: "0 < i \<Longrightarrow> i < 2 ^ 62 \<Longrightarrow> i \<le> MSGSIZE i \<and> MSGSIZE i < i + 8"
  unfolding MSGSIZE_def by (simp add: mod_pos_pos_trivial) presburger

lemma mq_init_region_ok:
  assumes "mq_attr_fits abi a" and "0 < sizeof_mymq_hdr abi"
  obtains h where "mq_init_region abi a = Some h" "mq_wf h" "mq_queue h = []"
    "mqh_attr h = \<lparr>mq_flags = 0, mq_maxmsg = mq_maxmsg a, mq_msgsize = mq_msgsize a, mq_curmsgs = 0\<rparr>"
    "mqh_nwait h = 0" "mqh_pid h = 0"
proof -
  let ?sh = "sizeof_mymsg_hdr abi" and ?i = "sizeof_mymq_hdr abi" and ?n = "nat (mq_maxmsg a - 1)"
  define msz where "msz = nat (MSGSIZE (mq_msgsize a))"
  have mb: "mq_msgsize a \<le> MSGSIZE (mq_msgsize a)" "0 < mq_msgsize a" "MSGSIZE (mq_msgsize a) < 2 ^ 63"
    using MSGSIZE_bounds [of "mq_msgsize a"] assms(1) by (auto simp: mq_attr_fits_def)
  then have sm: "s64 (MSGSIZE (mq_msgsize a)) = int msz" by (simp add: s64_id msz_def)
  have mx: "mq_maxmsg a = int (Suc ?n)" "mq_maxmsg a \<le> 2 ^ 31" using assms(1) by (auto simp: mq_attr_fits_def)
  have total: "int ?i + mq_maxmsg a * (int ?sh + int msz) < 2 ^ 63"
    using assms(1) mb by (simp add: mq_attr_fits_def msz_def)
  have "0 \<le> mq_maxmsg a * (int ?sh + int msz)"
    using assms(1) by (simp add: mq_attr_fits_def)
  then have fs: "mq_filesize abi a = int ?i + mq_maxmsg a * (int ?sh + int msz)"
    unfolding mq_filesize_def sm using total by (intro s64_id) linarith+
  have "int (?i + ?n * (?sh + msz) + ?sh) \<le> mq_filesize abi a"
  proof -
    have "mq_maxmsg a * (int ?sh + int msz) = int ?n * (int ?sh + int msz) + (int ?sh + int msz)"
      by (subst mx(1)) (simp only: of_nat_Suc distrib_right mult_1)
    then show ?thesis unfolding fs by simp
  qed
  moreover have "0 < ?sh + msz" using mb by (simp add: msz_def)
  ultimately obtain ms where ms: "mq_link_free abi msz (mq_filesize abi a) ?n ?i Map.empty = Some ms"
    and out: "\<forall>j. j \<notin> set (mq_slots (?sh + msz) ?n ?i) \<longrightarrow> ms j = None"
    and ins: "\<forall>j \<in> set (mq_slots (?sh + msz) ?n ?i). \<exists>m. ms j = Some m \<and> length (msg_data m) = msz"
    and ch: "chain (\<lambda>j. case ms j of Some m \<Rightarrow> msg_next m | None \<Rightarrow> 0) ?i (mq_slots (?sh + msz) ?n ?i)"
    using mq_link_free_ok [of ?i ?n abi msz "mq_filesize abi a" Map.empty] assms(2) by auto
  define h where "h = \<lparr>mqh_attr = \<lparr>mq_flags = 0, mq_maxmsg = mq_maxmsg a,
                         mq_msgsize = mq_msgsize a, mq_curmsgs = 0\<rparr>,
               mqh_head = 0, mqh_free = ?i, mqh_nwait = 0, mqh_pid = 0,
               mqh_event = \<lparr>sigev_notify_signal = True, sigev_signo = 0, sigev_value = 0\<rparr>, mqh_msgs = ms\<rparr>"
  have "mq_init_region abi a = Some h"
    using mx ms by (simp add: mq_init_region_def sm h_def)
  moreover have rep: "mq_rep h [] (mq_slots (?sh + msz) ?n ?i)"
  proof (rule mq_repI)
    show "chain (mq_next h) (mqh_free h) (mq_slots (?sh + msz) ?n ?i)"
      using ch by (simp add: h_def mq_next_def [abs_def])
    show dom: "dom (mqh_msgs h) = set [] \<union> set (mq_slots (?sh + msz) ?n ?i)"
      using out ins by (auto simp: h_def)
    fix j assume "j \<in> dom (mqh_msgs h)"
    with dom ins have "length (msg_data (mq_msg h j)) = msz" by (force simp: h_def mq_msg_def)
    with mb show "mq_msgsize (mqh_attr h) \<le> int (length (msg_data (mq_msg h j)))"
      by (simp add: h_def msz_def)
  qed (use assms(1) in \<open>simp_all add: h_def mq_attr_fits_def\<close>)
  moreover have "mq_wf h" using rep by (auto simp: mq_wf_def)
  moreover have "mq_queue h = []" by (simp add: mq_queue_rep [OF rep])
  ultimately show ?thesis using that by (simp add: h_def)
qed

section \<open>Sending and receiving as calls\<close>

lemma mq_pid_frame [simp]:
  "mq_rep (h\<lparr>mqh_pid := x\<rparr>) qs fs \<longleftrightarrow> mq_rep h qs fs"
  "mq_wf (h\<lparr>mqh_pid := x\<rparr>) \<longleftrightarrow> mq_wf h"
  "mq_queue (h\<lparr>mqh_pid := x\<rparr>) = mq_queue h"
  "mq_full (h\<lparr>mqh_pid := x\<rparr>) \<longleftrightarrow> mq_full h"
proof -
  have *: "mq_next (h\<lparr>mqh_pid := x\<rparr>) = mq_next h" "mq_msg (h\<lparr>mqh_pid := x\<rparr>) = mq_msg h"
    by (simp_all add: fun_eq_iff mq_next_def mq_msg_def)
  show "mq_rep (h\<lparr>mqh_pid := x\<rparr>) qs fs \<longleftrightarrow> mq_rep h qs fs" for qs fs
    by (simp add: mq_rep_def *)
  then show "mq_wf (h\<lparr>mqh_pid := x\<rparr>) \<longleftrightarrow> mq_wf h" by (simp add: mq_wf_def)
  show "mq_queue (h\<lparr>mqh_pid := x\<rparr>) = mq_queue h"
    by (simp add: mq_queue_def * mq_entry_def)
qed (simp add: mq_full_def)

lemma mq_notify_arrival_frame:
  assumes "mq_notify_arrival h = (h1, sigs)"
  shows "mq_wf h1 \<longleftrightarrow> mq_wf h" "mq_queue h1 = mq_queue h"
    "mqh_attr h1 = mqh_attr h" "mq_full h1 \<longleftrightarrow> mq_full h" "mqh_nwait h1 = mqh_nwait h"
    "mqh_event h1 = mqh_event h"
  using assms by (auto simp: mq_notify_arrival_def split: if_splits)

lemma mq_wf_curmsgs: "mq_wf h \<Longrightarrow> mq_curmsgs (mqh_attr h) = int (length (mq_queue h))"
  by (auto simp: mq_wf_def mq_queue_rep dest: mq_repD(5))

lemma mq_wf_cap: "mq_wf h \<Longrightarrow> mq_maxmsg (mqh_attr h) > 0"
  by (auto simp: mq_wf_def dest: mq_repD(7))

lemma mq_wf_bound: "mq_wf h \<Longrightarrow> int (length (mq_queue h)) \<le> mq_maxmsg (mqh_attr h)"
  by (auto simp: mq_wf_def mq_queue_rep mq_repD(6))

lemma mymq_send_ok:
  assumes "mq_wf h" and "\<not> mq_full h" and "int (length ptr) \<le> mq_msgsize (mqh_attr h)"
    and "mqi_magic mqi = MQI_MAGIC"
  obtains h' sigs where
    "mymq_send mqi None ptr prio h =
       (h', if mq_queue h = [] then [Signal ()] else [], sigs, MReturn (Inr ()))"
    "mq_wf h'" "mq_queue h' = pq_insert prio ptr (mq_queue h)"
    "mqh_attr h' = (mqh_attr h)\<lparr>mq_curmsgs := mq_curmsgs (mqh_attr h) + 1\<rparr>"
    "mqh_nwait h' = mqh_nwait h"
    "sigs = (if mq_queue h = [] then snd (mq_notify_arrival h) else [])"
    "mqh_pid h' = (if mq_queue h = [] then mqh_pid (fst (mq_notify_arrival h)) else mqh_pid h)"
proof (cases "mq_queue h = []")
  case True
  obtain h1 sigs where na: "mq_notify_arrival h = (h1, sigs)" by fastforce
  note F = mq_notify_arrival_frame [OF na]
  obtain h' where h': "mymq_send_insert ptr prio h1 = (h', if mq_queue h1 = [] then [Signal ()] else [], MReturn (Inr ()))"
    "mq_wf h'" "mq_queue h' = pq_insert prio ptr (mq_queue h1)"
    "mqh_attr h' = (mqh_attr h1)\<lparr>mq_curmsgs := mq_curmsgs (mqh_attr h1) + 1\<rparr>"
    "mqh_nwait h' = mqh_nwait h1" "mqh_pid h' = mqh_pid h1"
    using mymq_send_insert_ok [of h1 ptr prio] assms F by metis
  have "mymq_send mqi None ptr prio h = (h', [Signal ()], sigs, MReturn (Inr ()))"
    using assms(3,4) True mq_wf_curmsgs [OF assms(1)] h'(1) F na by (simp add: mymq_send_def)
  then show ?thesis using h'(2-) F(2,3,5) na True by (intro that [of h' sigs]) simp_all
next
  case False
  then have c: "mq_curmsgs (mqh_attr h) \<noteq> 0" using mq_wf_curmsgs [OF assms(1)] by simp
  obtain h' where h': "mymq_send_insert ptr prio h = (h', if mq_queue h = [] then [Signal ()] else [], MReturn (Inr ()))"
    "mq_wf h'" "mq_queue h' = pq_insert prio ptr (mq_queue h)"
    "mqh_attr h' = (mqh_attr h)\<lparr>mq_curmsgs := mq_curmsgs (mqh_attr h) + 1\<rparr>"
    "mqh_nwait h' = mqh_nwait h" "mqh_pid h' = mqh_pid h"
    by (rule mymq_send_insert_ok [OF assms(1-3)])
  have "mymq_send mqi None ptr prio h = (h', [], [], MReturn (Inr ()))"
    using assms(2-4) False c h'(1) by (simp add: mymq_send_def)
  then show ?thesis using h'(2-) False by (intro that [of h' "[]"]) simp_all
qed

lemma mymq_receive_ok:
  assumes "mq_wf h" and "mq_queue h \<noteq> []" and "mq_msgsize (mqh_attr h) \<le> int maxlen"
    and "mqi_magic mqi = MQI_MAGIC"
  obtains h' p m q where
    "mq_queue h = (p, m) # q"
    "mymq_receive mqi None maxlen h = (h', if mq_full h then [Signal ()] else [], MReturn (Inr (m, p)))"
    "mq_wf h'" "mq_queue h' = q"
    "mqh_attr h' = (mqh_attr h)\<lparr>mq_curmsgs := mq_curmsgs (mqh_attr h) - 1\<rparr>"
    "mqh_nwait h' = mqh_nwait h" "mqh_pid h' = mqh_pid h" "mqh_event h' = mqh_event h"
proof -
  have c: "mq_curmsgs (mqh_attr h) \<noteq> 0" using mq_wf_curmsgs [OF assms(1)] assms(2) by simp
  show ?thesis
  proof (rule mymq_receive_remove_ok [OF assms(1) c])
    fix h' p m q
    assume "mymq_receive_remove h = (h', if mq_full h then [Signal ()] else [], MReturn (Inr (m, p)))"
    then have "mymq_receive mqi None maxlen h = (h', if mq_full h then [Signal ()] else [], MReturn (Inr (m, p)))"
      using assms(3,4) c by (simp add: mymq_receive_def)
    moreover assume "mq_queue h = (p, m) # q" "mq_wf h'" "mq_queue h' = q"
      "mqh_attr h' = (mqh_attr h)\<lparr>mq_curmsgs := mq_curmsgs (mqh_attr h) - 1\<rparr>"
      "mqh_nwait h' = mqh_nwait h" "mqh_pid h' = mqh_pid h" "mqh_event h' = mqh_event h"
    ultimately show ?thesis using that by blast
  qed
qed

section \<open>The calls as a priority queue\<close>

definition mq_put :: "mymq_info \<Rightarrow> 32 word \<Rightarrow> byte list \<Rightarrow> mymq_hdr \<Rightarrow> mymq_hdr option" where
  "mq_put mqi prio ptr h =
     (case mymq_send mqi None ptr prio h of
        (h', ws, sigs, MReturn (Inr _)) \<Rightarrow> Some h' | _ \<Rightarrow> None)"

definition mq_get :: "mymq_info \<Rightarrow> nat \<Rightarrow> mymq_hdr \<Rightarrow> ((32 word \<times> byte list) \<times> mymq_hdr) option" where
  "mq_get mqi maxlen h =
     (case mymq_receive mqi None maxlen h of
        (h', ws, MReturn (Inr (m, p))) \<Rightarrow> Some ((p, m), h') | _ \<Rightarrow> None)"

abbreviation mq_desc :: "32 word \<Rightarrow> mymq_info" where
  "mq_desc fl \<equiv> \<lparr>mqi_magic = MQI_MAGIC, mqi_flags = fl\<rparr>"

interpretation mqpq: prio_queue "mq_put (mq_desc fl)" "mq_get (mq_desc fl) maxlen" mq_queue
  "\<lambda>h. mq_wf h \<and> mq_msgsize (mqh_attr h) \<le> int maxlen"
  "\<lambda>h. nat (mq_maxmsg (mqh_attr h))" "\<lambda>h m. int (length m) \<le> mq_msgsize (mqh_attr h)"
  for fl maxlen
proof (unfold_locales, goal_cases)
  case (1 q m p)
  then have "\<not> mq_full q" using mq_wf_curmsgs [of q] by (auto simp: mq_full_def)
  with 1 obtain h' sigs where
    "mymq_send (mq_desc fl) None m p q = (h', if mq_queue q = [] then [Signal ()] else [], sigs, MReturn (Inr ()))"
    "mq_wf h'" "mq_queue h' = pq_insert p m (mq_queue q)"
    "mqh_attr h' = (mqh_attr q)\<lparr>mq_curmsgs := mq_curmsgs (mqh_attr q) + 1\<rparr>"
    using mymq_send_ok [of q m "mq_desc fl" p] by (metis mymq_info.select_convs(1))
  with 1 show ?case by (simp add: mq_put_def)
next
  case (2 q e es)
  then obtain h' p m where
    "mymq_receive (mq_desc fl) None maxlen q = (h', if mq_full q then [Signal ()] else [], MReturn (Inr (m, p)))"
    "e = (p, m)" "mq_wf h'" "mq_queue h' = es"
    "mqh_attr h' = (mqh_attr q)\<lparr>mq_curmsgs := mq_curmsgs (mqh_attr q) - 1\<rparr>"
    using mymq_receive_ok [of q maxlen "mq_desc fl"]
    by (metis list.distinct(1) list.inject mymq_info.select_convs(1))
  with 2 show ?case by (simp add: mq_get_def)
qed

section \<open>The calls of several threads\<close>

text \<open>
  All threads share the region's mutex and its one condition variable. A call is at its
  start or at its return from \<^verbatim>\<open>pthread_cond_wait\<close>.
\<close>

datatype mq_call =
    KSend mymq_info "byte list" "32 word" | KSendWake "byte list" "32 word"
  | KReceive mymq_info nat | KReceiveWake

datatype mq_result = RSend "unit mq_end" | RReceive "(byte list \<times> 32 word) mq_end"

fun mq_body :: "(mymq_hdr, unit, mq_call, mq_result) body" where
  "mq_body t (KSend mqi ptr prio) h =
     (case mymq_send mqi None ptr prio h of
        (h', ws, sigs, e) \<Rightarrow> (h', ws, if e = MWait then Wait () (KSendWake ptr prio) else Return (RSend e)))"
| "mq_body t (KSendWake ptr prio) h =
     (case mymq_send_wake ptr prio h of
        (h', ws, e) \<Rightarrow> (h', ws, if e = MWait then Wait () (KSendWake ptr prio) else Return (RSend e)))"
| "mq_body t (KReceive mqi maxlen) h =
     (case mymq_receive mqi None maxlen h of
        (h', ws, e) \<Rightarrow> (h', ws, if e = MWait then Wait () KReceiveWake else Return (RReceive e)))"
| "mq_body t KReceiveWake h =
     (case mymq_receive_wake h of
        (h', ws, e) \<Rightarrow> (h', ws, if e = MWait then Wait () KReceiveWake else Return (RReceive e)))"

fun mq_may :: "tid \<Rightarrow> mq_call \<Rightarrow> mymq_hdr \<Rightarrow> bool" where
  "mq_may t (KSend mqi ptr prio) h = True"
| "mq_may t (KReceive mqi maxlen) h = True"
| "mq_may t k h = False"

fun mq_kok :: "mq_call \<Rightarrow> mymq_hdr \<Rightarrow> bool" where
  "mq_kok (KSendWake ptr prio) h \<longleftrightarrow> int (length ptr) \<le> mq_msgsize (mqh_attr h)"
| "mq_kok k h \<longleftrightarrow> True"

lemma mq_nwait_frame [simp]:
  "mq_wf (h\<lparr>mqh_nwait := x\<rparr>) \<longleftrightarrow> mq_wf h"
  "mq_queue (h\<lparr>mqh_nwait := x\<rparr>) = mq_queue h"
  "mq_full (h\<lparr>mqh_nwait := x\<rparr>) \<longleftrightarrow> mq_full h"
proof -
  have *: "mq_next (h\<lparr>mqh_nwait := x\<rparr>) = mq_next h" "mq_msg (h\<lparr>mqh_nwait := x\<rparr>) = mq_msg h"
    by (simp_all add: fun_eq_iff mq_next_def mq_msg_def)
  show "mq_wf (h\<lparr>mqh_nwait := x\<rparr>) \<longleftrightarrow> mq_wf h" by (simp add: mq_wf_def mq_rep_def *)
  show "mq_queue (h\<lparr>mqh_nwait := x\<rparr>) = mq_queue h"
    by (simp add: mq_queue_def * mq_entry_def)
qed (simp add: mq_full_def)

text \<open>Every branch of the two calls on a well-formed queue.\<close>

definition mq_safe :: "mq_result \<Rightarrow> bool" where
  "mq_safe r \<longleftrightarrow> r \<notin> {RSend MDump, RSend MFault, RReceive MDump, RReceive MFault}"

lemma mymq_send_wf:
  assumes "mq_wf h" and "mymq_send mqi None ptr prio h = (h', ws, sigs, e)"
  shows "mq_wf h' \<and> mq_msgsize (mqh_attr h') = mq_msgsize (mqh_attr h) \<and> e \<noteq> MDump \<and> e \<noteq> MFault \<and>
     (e = MWait \<longrightarrow> int (length ptr) \<le> mq_msgsize (mqh_attr h))"
proof (cases "mqi_magic mqi = MQI_MAGIC \<and> int (length ptr) \<le> mq_msgsize (mqh_attr h)")
  case True
  show ?thesis
  proof (cases "mq_full h")
    case True
    then have "mq_curmsgs (mqh_attr h) \<noteq> 0" using mq_wf_cap [OF assms(1)] by (simp add: mq_full_def)
    with True assms \<open>mqi_magic mqi = MQI_MAGIC \<and> _\<close> show ?thesis
      by (auto simp: mymq_send_def split: if_splits)
  next
    case False
    obtain h1 sigs1 where
      "mymq_send mqi None ptr prio h = (h1, if mq_queue h = [] then [Signal ()] else [], sigs1, MReturn (Inr ()))"
      "mq_wf h1" "mqh_attr h1 = (mqh_attr h)\<lparr>mq_curmsgs := mq_curmsgs (mqh_attr h) + 1\<rparr>"
      using mymq_send_ok [OF assms(1) False, of ptr mqi prio] True by metis
    with assms(2) show ?thesis by auto
  qed
next
  case False
  then show ?thesis using assms by (auto simp: mymq_send_def split: if_splits)
qed

lemma mymq_send_wake_wf:
  assumes "mq_wf h" and "int (length ptr) \<le> mq_msgsize (mqh_attr h)"
    and "mymq_send_wake ptr prio h = (h', ws, e)"
  shows "mq_wf h' \<and> mq_msgsize (mqh_attr h') = mq_msgsize (mqh_attr h) \<and> e \<noteq> MDump \<and> e \<noteq> MFault"
proof (cases "mq_full h")
  case False
  obtain h1 where
    "mymq_send_insert ptr prio h = (h1, if mq_queue h = [] then [Signal ()] else [], MReturn (Inr ()))"
    "mq_wf h1" "mqh_attr h1 = (mqh_attr h)\<lparr>mq_curmsgs := mq_curmsgs (mqh_attr h) + 1\<rparr>"
    using mymq_send_insert_ok [OF assms(1) False assms(2), of prio] by metis
  with assms(3) False show ?thesis by (auto simp: mymq_send_wake_def)
qed (use assms in \<open>auto simp: mymq_send_wake_def\<close>)

lemma mymq_receive_remove_wf:
  assumes "mq_wf h" and "mq_curmsgs (mqh_attr h) \<noteq> 0" and "mymq_receive_remove h = (h', ws, e)"
  shows "mq_wf h' \<and> mq_msgsize (mqh_attr h') = mq_msgsize (mqh_attr h) \<and> (\<exists>r. e = MReturn (Inr r))"
proof -
  obtain h1 p m where
    "mymq_receive_remove h = (h1, if mq_full h then [Signal ()] else [], MReturn (Inr (m, p)))"
    "mq_wf h1" "mqh_attr h1 = (mqh_attr h)\<lparr>mq_curmsgs := mq_curmsgs (mqh_attr h) - 1\<rparr>"
    using mymq_receive_remove_ok [OF assms(1,2)] by metis
  with assms(3) show ?thesis by auto
qed

lemma mymq_receive_wf:
  assumes "mq_wf h" and "mymq_receive mqi None maxlen h = (h', ws, e)"
  shows "mq_wf h' \<and> mq_msgsize (mqh_attr h') = mq_msgsize (mqh_attr h) \<and> e \<noteq> MDump \<and> e \<noteq> MFault"
  using assms mymq_receive_remove_wf [OF assms(1)]
  by (auto simp: mymq_receive_def split: if_splits)

lemma mymq_receive_wake_wf:
  assumes "mq_wf h" and "mymq_receive_wake h = (h', ws, e)"
  shows "mq_wf h' \<and> mq_msgsize (mqh_attr h') = mq_msgsize (mqh_attr h) \<and> e \<noteq> MDump \<and> e \<noteq> MFault"
  using assms mymq_receive_remove_wf [of "h\<lparr>mqh_nwait := mqh_nwait h - 1\<rparr>"]
  by (auto simp: mymq_receive_wake_def split: if_splits)

lemma mq_body_wf:
  assumes "mq_wf h" and "mq_kok k h" and "mq_body t k h = (h', ws, out)"
  shows "mq_wf h' \<and> mq_msgsize (mqh_attr h') = mq_msgsize (mqh_attr h) \<and>
    (\<forall>r. out = Return r \<longrightarrow> mq_safe r) \<and> (\<forall>c k'. out = Wait c k' \<longrightarrow> mq_kok k' h')"
proof (cases k)
  case (KSend mqi ptr prio)
  obtain h1 ws1 sigs e where "mymq_send mqi None ptr prio h = (h1, ws1, sigs, e)"
    by (metis prod_cases4)
  with mymq_send_wf [OF assms(1) this] assms(3) KSend show ?thesis
    by (auto simp: mq_safe_def split: if_splits)
next
  case (KSendWake ptr prio)
  obtain h1 ws1 e where "mymq_send_wake ptr prio h = (h1, ws1, e)" by (metis prod_cases3)
  with mymq_send_wake_wf [OF assms(1) _ this] assms(2,3) KSendWake show ?thesis
    by (auto simp: mq_safe_def split: if_splits)
next
  case (KReceive mqi maxlen)
  obtain h1 ws1 e where "mymq_receive mqi None maxlen h = (h1, ws1, e)" by (metis prod_cases3)
  with mymq_receive_wf [OF assms(1) this] assms(3) KReceive show ?thesis
    by (auto simp: mq_safe_def split: if_splits)
next
  case KReceiveWake
  obtain h1 ws1 e where "mymq_receive_wake h = (h1, ws1, e)" by (metis prod_cases3)
  with mymq_receive_wake_wf [OF assms(1) this] assms(3) KReceiveWake show ?thesis
    by (auto simp: mq_safe_def split: if_splits)
qed

interpretation mqmon: monitor_invariant mq_body mq_may mq_wf mq_kok
proof (unfold_locales, goal_cases)
  case (1 s t k)
  then show ?case by (cases k) simp_all
next
  case (2 s k t s' ws out)
  then show ?case using mq_body_wf by blast
next
  case (3 s k t s' ws c k')
  then show ?case using mq_body_wf by blast
next
  case (4 s k k0 t s' ws out)
  then have "mq_msgsize (mqh_attr s') = mq_msgsize (mqh_attr s)" using mq_body_wf by blast
  with 4(3) show ?case by (cases k0) simp_all
qed

end
