(* ===== verification/Px_Mq_Props.thy ===== *)
theory Px_Mq_Props
  imports Px_Mq_Inv
begin

text \<open>
  What the message queues promise: creation, the order of the messages, every branch of
  sending and receiving, safety under concurrency, and the clean-up after errors; and two
  properties in which the code falls short, a lost wake-up and an overflow.
\<close>

unbundle bit_operations_syntax

section \<open>Properties\<close>

text \<open>A small machine and queue for the examples.\<close>

abbreviation ex_abi :: mq_abi where
  "ex_abi \<equiv> \<lparr>sizeof_mymq_hdr = 128, sizeof_mymsg_hdr = 24\<rparr>"

abbreviation ex_attr :: mymq_attr where
  "ex_attr \<equiv> \<lparr>mq_flags = 0, mq_maxmsg = 3, mq_msgsize = 8, mq_curmsgs = 0\<rparr>"

lemma ex_attr_fits: "mq_attr_fits ex_abi ex_attr"
  by code_simp

abbreviation ex_env :: mq_env where
  "ex_env \<equiv> \<lparr>e_creat = None, e_lseek = None, e_write = None, e_mmap = None, e_malloc = None,
     e_mutexattr = None, e_mutex = None, e_condattr = None, e_cond = None, e_fchmod = None,
     e_open = None, e_stat = (\<lambda>_. Inr 0)\<rparr>"

definition mq_env_ok :: "mq_env \<Rightarrow> bool" where
  "mq_env_ok ev \<longleftrightarrow> e_creat ev = None \<and> e_lseek ev = None \<and> e_write ev = None \<and> e_mmap ev = None \<and>
     e_malloc ev = None \<and> e_mutexattr ev = None \<and> e_mutex ev = None \<and> e_condattr ev = None \<and>
     e_cond ev = None \<and> e_fchmod ev = None"

lemma oflag_creat: "(oflag AND NOT O_NONBLOCK) AND O_CREAT = oflag AND O_CREAT"
proof -
  have "NOT O_NONBLOCK AND O_CREAT = O_CREAT" by code_simp
  then show ?thesis by (simp add: and.assoc)
qed

text \<open>When every system call succeeds, \<^verbatim>\<open>mymq_open\<close> with \<^verbatim>\<open>O_CREAT\<close> and attributes
  whose file size does not overflow a \<^verbatim>\<open>long\<close> returns a descriptor of a well-formed empty
  queue of the requested capacity and message size, all of whose slots are free, and it
  clears the user-execute bit, which tells waiting openers that the queue is ready.\<close>

theorem mymq_open_creates:
  assumes "oflag AND O_CREAT \<noteq> 0" and "mq_env_ok ev"
    and "mq_attr_fits abi a" and "0 < sizeof_mymq_hdr abi"
  shows "\<exists>h. mymq_open abi oflag mode (Some a) (ev # evs) =
      Some (MReturn (Inr (\<lparr>mqi_magic = MQI_MAGIC, mqi_flags = oflag AND O_NONBLOCK\<rparr>, Some h)),
            [SysFchmod (mode AND NOT S_IXUSR), SysClose]) \<and>
    mq_wf h \<and> mq_queue h = [] \<and> \<not> mq_full h \<and> mqh_nwait h = 0 \<and> mqh_pid h = 0 \<and>
    mqh_attr h = \<lparr>mq_flags = 0, mq_maxmsg = mq_maxmsg a, mq_msgsize = mq_msgsize a, mq_curmsgs = 0\<rparr>"
proof -
  obtain h where h: "mq_init_region abi a = Some h" "mq_wf h" "mq_queue h = []"
    "mqh_attr h = \<lparr>mq_flags = 0, mq_maxmsg = mq_maxmsg a, mq_msgsize = mq_msgsize a, mq_curmsgs = 0\<rparr>"
    "mqh_nwait h = 0" "mqh_pid h = 0"
    using mq_init_region_ok [OF assms(3,4)] by metis
  have "\<not> mq_full h" "0 < mq_maxmsg a" "0 < mq_msgsize a"
    using assms(3) h(4) by (simp_all add: mq_full_def mq_attr_fits_def)
  with h assms(1,2) show ?thesis
    by (simp add: oflag_creat mq_open_create_def mq_env_ok_def Let_def)
qed

theorem mymq_open_creates_witness:
  "\<exists>h. mymq_open ex_abi (O_CREAT OR O_NONBLOCK) S_IXUSR (Some ex_attr) [ex_env] =
      Some (MReturn (Inr (\<lparr>mqi_magic = MQI_MAGIC, mqi_flags = O_NONBLOCK\<rparr>, Some h)),
            [SysFchmod 0, SysClose]) \<and> mq_wf h \<and> mq_queue h = []"
proof -
  have "(O_CREAT OR O_NONBLOCK) AND O_CREAT \<noteq> 0" "mq_env_ok ex_env"
    "(O_CREAT OR O_NONBLOCK) AND O_NONBLOCK = O_NONBLOCK" "S_IXUSR AND NOT S_IXUSR = 0"
    by code_simp+
  with mymq_open_creates [of "O_CREAT OR O_NONBLOCK" ex_env ex_abi ex_attr S_IXUSR "[]"] ex_attr_fits
  show ?thesis by auto
qed

text \<open>C5. Messages sent to an empty queue with room for them and then received come out in
  descending order of priority, and messages of the same priority in the order in which
  they were sent.\<close>

theorem mymq_sends_receives_sorted:
  assumes "mq_wf h" and "mq_queue h = []" and "int (length es) \<le> mq_maxmsg (mqh_attr h)"
    and "\<forall>(p, m) \<in> set es. int (length m) \<le> mq_msgsize (mqh_attr h)"
    and "mq_msgsize (mqh_attr h) \<le> int maxlen"
  shows "Option.bind (pq_puts (mq_put (mq_desc fl)) es h) (pq_gets (mq_get (mq_desc fl) maxlen) (length es)) =
    Some (sort_key (\<lambda>e. - uint (fst e)) es)"
  using mqpq.puts_gets [of h maxlen es fl] assms by auto

theorem mymq_sends_receives_sorted_witness:
  "\<exists>h. mq_init_region ex_abi ex_attr = Some h \<and>
    Option.bind (pq_puts (mq_put (mq_desc 0)) [(1, [65]), (7, [66, 67]), (1, [68])] h)
      (pq_gets (mq_get (mq_desc 0) 8) 3) = Some [(7, [66, 67]), (1, [65]), (1, [68])]"
proof -
  obtain h where h: "mq_init_region ex_abi ex_attr = Some h" "mq_wf h" "mq_queue h = []"
    "mqh_attr h = ex_attr"
    using mq_init_region_ok [OF ex_attr_fits] by force
  have "sort_key (\<lambda>e. - uint (fst e)) [(1 :: 32 word, [65]), (7, [66, 67]), (1, [68 :: byte])] =
    [(7, [66, 67]), (1, [65]), (1, [68])]" by code_simp
  with h mymq_sends_receives_sorted [of h "[(1, [65]), (7, [66, 67]), (1, [68])]" 8 0]
  show ?thesis by (auto simp: numeral_3_eq_3)
qed

text \<open>C25. \<^verbatim>\<open>mymq_send\<close> on a well-formed queue: a descriptor that is not one, a message that is
  too long, and a full queue in non-blocking mode are refused with the region unchanged; a
  full queue makes the caller wait; otherwise the message takes its place behind those of
  its own and of higher priority, and a waiter is signalled when the queue was empty.\<close>

theorem mymq_send_cases:
  assumes "mq_wf h"
  shows "case mymq_send mqi None ptr prio h of (h', ws, sigs, e) \<Rightarrow>
    if mqi_magic mqi \<noteq> MQI_MAGIC then (h', ws, sigs, e) = (h, [], [], MReturn (Inl EBADF))
    else if mq_msgsize (mqh_attr h) < int (length ptr) then (h', ws, sigs, e) = (h, [], [], MReturn (Inl EMSGSIZE))
    else if int (length (mq_queue h)) = mq_maxmsg (mqh_attr h) then
      (h', ws, sigs, e) = (h, [], [], if mqi_flags mqi AND O_NONBLOCK \<noteq> 0 then MReturn (Inl EAGAIN) else MWait)
    else e = MReturn (Inr ()) \<and> mq_wf h' \<and> mq_queue h' = pq_insert prio ptr (mq_queue h) \<and>
      mq_maxmsg (mqh_attr h') = mq_maxmsg (mqh_attr h) \<and> mq_msgsize (mqh_attr h') = mq_msgsize (mqh_attr h) \<and>
      ws = (if mq_queue h = [] then [Signal ()] else [])"
proof -
  have full: "mq_full h \<longleftrightarrow> int (length (mq_queue h)) = mq_maxmsg (mqh_attr h)"
    using mq_wf_curmsgs [OF assms] mq_wf_bound [OF assms] by (auto simp: mq_full_def)
  consider (bad) "mqi_magic mqi \<noteq> MQI_MAGIC \<or> mq_msgsize (mqh_attr h) < int (length ptr)"
    | (full) "mqi_magic mqi = MQI_MAGIC" "int (length ptr) \<le> mq_msgsize (mqh_attr h)" "mq_full h"
    | (room) "mqi_magic mqi = MQI_MAGIC" "int (length ptr) \<le> mq_msgsize (mqh_attr h)" "\<not> mq_full h"
    by linarith
  then show ?thesis
  proof cases
    case bad
    then show ?thesis by (auto simp: mymq_send_def)
  next
    case full
    then have "mq_curmsgs (mqh_attr h) \<noteq> 0" using mq_wf_cap [OF assms] by (simp add: mq_full_def)
    with full \<open>mq_full h \<longleftrightarrow> _\<close> show ?thesis by (simp add: mymq_send_def)
  next
    case room
    obtain h' sigs where
      "mymq_send mqi None ptr prio h = (h', if mq_queue h = [] then [Signal ()] else [], sigs, MReturn (Inr ()))"
      "mq_wf h'" "mq_queue h' = pq_insert prio ptr (mq_queue h)"
      "mqh_attr h' = (mqh_attr h)\<lparr>mq_curmsgs := mq_curmsgs (mqh_attr h) + 1\<rparr>"
      using mymq_send_ok [OF assms room(3,2,1), of prio] by metis
    with room full show ?thesis by simp
  qed
qed

theorem mymq_send_cases_witness:
  "\<exists>h h'. mq_init_region ex_abi ex_attr = Some h \<and>
     mymq_send (mq_desc 0) None [1, 2] 5 h = (h', [Signal ()], [], MReturn (Inr ())) \<and>
     mq_queue h' = [(5, [1, 2])]"
proof -
  obtain h where h: "mq_init_region ex_abi ex_attr = Some h" "mq_wf h" "mq_queue h = []"
    "mqh_attr h = ex_attr" "mqh_pid h = 0"
    using mq_init_region_ok [OF ex_attr_fits] by force
  obtain h' ws sigs e where s: "mymq_send (mq_desc 0) None [1, 2] 5 h = (h', ws, sigs, e)"
    by (metis prod_cases4)
  have "sigs = []" using s h(4,5)
    by (auto simp: mymq_send_def mq_notify_arrival_def split: prod.splits)
  with mymq_send_cases [OF h(2), of "mq_desc 0" "[1, 2]" 5] s h show ?thesis
    by (auto simp: pq_insert_def)
qed

text \<open>C26. \<^verbatim>\<open>mymq_receive\<close> on a well-formed queue: a bad descriptor, a buffer shorter than the
  queue's message size, and an empty queue in non-blocking mode are refused with the region
  unchanged; an empty queue makes the caller wait, counted in \<^verbatim>\<open>mqh_nwait\<close>; otherwise the
  first message is removed and returned, and a waiter is signalled when the queue was full.\<close>

theorem mymq_receive_cases:
  assumes "mq_wf h"
  shows "case mymq_receive mqi None maxlen h of (h', ws, e) \<Rightarrow>
    if mqi_magic mqi \<noteq> MQI_MAGIC then (h', ws, e) = (h, [], MReturn (Inl EBADF))
    else if int maxlen < mq_msgsize (mqh_attr h) then (h', ws, e) = (h, [], MReturn (Inl EMSGSIZE))
    else case mq_queue h of
      [] \<Rightarrow> (h', ws, e) = (if mqi_flags mqi AND O_NONBLOCK \<noteq> 0 then (h, [], MReturn (Inl EAGAIN))
                         else (h\<lparr>mqh_nwait := mqh_nwait h + 1\<rparr>, [], MWait))
    | (p, m) # q \<Rightarrow> e = MReturn (Inr (m, p)) \<and> mq_wf h' \<and> mq_queue h' = q \<and>
        mq_maxmsg (mqh_attr h') = mq_maxmsg (mqh_attr h) \<and> mq_msgsize (mqh_attr h') = mq_msgsize (mqh_attr h) \<and>
        ws = (if int (length (mq_queue h)) = mq_maxmsg (mqh_attr h) then [Signal ()] else [])"
proof -
  have full: "mq_full h \<longleftrightarrow> int (length (mq_queue h)) = mq_maxmsg (mqh_attr h)"
    using mq_wf_curmsgs [OF assms] mq_wf_bound [OF assms] by (auto simp: mq_full_def)
  consider (bad) "mqi_magic mqi \<noteq> MQI_MAGIC \<or> int maxlen < mq_msgsize (mqh_attr h)"
    | (empty) "mqi_magic mqi = MQI_MAGIC" "mq_msgsize (mqh_attr h) \<le> int maxlen" "mq_queue h = []"
    | (msg) "mqi_magic mqi = MQI_MAGIC" "mq_msgsize (mqh_attr h) \<le> int maxlen" "mq_queue h \<noteq> []"
    by linarith
  then show ?thesis
  proof cases
    case bad
    then show ?thesis by (auto simp: mymq_receive_def)
  next
    case empty
    then show ?thesis using mq_wf_curmsgs [OF assms] by (simp add: mymq_receive_def)
  next
    case msg
    obtain h' p m q where "mq_queue h = (p, m) # q"
      "mymq_receive mqi None maxlen h = (h', if mq_full h then [Signal ()] else [], MReturn (Inr (m, p)))"
      "mq_wf h'" "mq_queue h' = q"
      "mqh_attr h' = (mqh_attr h)\<lparr>mq_curmsgs := mq_curmsgs (mqh_attr h) - 1\<rparr>"
      using mymq_receive_ok [OF assms msg(3,2,1)] by metis
    with msg full show ?thesis by simp
  qed
qed

theorem mymq_receive_cases_witness:
  "\<exists>h. mq_init_region ex_abi ex_attr = Some h \<and>
     mymq_receive (mq_desc 0) None 8 h = (h\<lparr>mqh_nwait := 1\<rparr>, [], MWait) \<and>
     mymq_receive (mq_desc O_NONBLOCK) None 8 h = (h, [], MReturn (Inl EAGAIN))"
proof -
  obtain h where h: "mq_init_region ex_abi ex_attr = Some h" "mq_wf h" "mq_queue h = []"
    "mqh_attr h = ex_attr" "mqh_nwait h = 0"
    using mq_init_region_ok [OF ex_attr_fits] by force
  have "O_NONBLOCK \<noteq> 0" by code_simp
  with mymq_receive_cases [OF h(2), of "mq_desc 0" 8] mymq_receive_cases [OF h(2), of "mq_desc O_NONBLOCK" 8] h
  show ?thesis by (auto split: prod.splits)
qed

text \<open>C7. Whatever calls of \<^verbatim>\<open>mymq_send\<close> and \<^verbatim>\<open>mymq_receive\<close> the threads and processes
  make, however their critical sections interleave and whichever sleeper a signal wakes,
  the region stays well-formed and no call ever reaches the code's own consistency checks
  (\<^verbatim>\<open>err_dump\<close>) or an access outside the mapping.\<close>

theorem mymq_concurrent_safe:
  assumes "mon_reach mq_body mq_may sp h0 m" and "mq_wf h0"
  shows "mq_wf (mshared m) \<and>
    (\<forall>t k h' ws r. (t, k) \<in> set (mready m) \<or> mq_may t k (mshared m) \<longrightarrow>
       mq_body t k (mshared m) = (h', ws, Return r) \<longrightarrow> mq_safe r)"
  using mqmon.reach_inv [OF assms] mqmon.reach_runs [OF assms] mq_body_wf by blast

theorem mymq_concurrent_safe_witness:
  "\<exists>h m. mq_init_region ex_abi ex_attr = Some h \<and> mon_reach mq_body mq_may True h m \<and>
     (0, (), KReceiveWake) \<in> set (mwait m) \<and> mq_wf (mshared m)"
proof -
  obtain h where h: "mq_init_region ex_abi ex_attr = Some h" "mq_wf h" "mqh_attr h = ex_attr"
    using mq_init_region_ok [OF ex_attr_fits] by force
  have b: "mq_body 0 (KReceive (mq_desc 0) 8) h = (h\<lparr>mqh_nwait := mqh_nwait h + 1\<rparr>, [], Wait () KReceiveWake)"
    using h(3) by (simp add: mymq_receive_def)
  have "mon_step mq_body mq_may True (mon_init h)
     \<lparr>mshared = h\<lparr>mqh_nwait := mqh_nwait h + 1\<rparr>, mwait = [(0, (), KReceiveWake)], mready = []\<rparr>"
    using mon_step.enter [of 0 "mon_init h" mq_may "KReceive (mq_desc 0) 8" mq_body _ _ _ "[]" "[]" True] b
    by (simp add: mon_init_def mon_tids_def)
  then have r: "mon_reach mq_body mq_may True h
     \<lparr>mshared = h\<lparr>mqh_nwait := mqh_nwait h + 1\<rparr>, mwait = [(0, (), KReceiveWake)], mready = []\<rparr>"
    by (rule reach_step [OF reach_init])
  with mymq_concurrent_safe [OF r h(2)] h(1) show ?thesis by fastforce
qed

lemma mq_body_send:
  assumes "mq_wf h" and "length (mq_queue h) < nat (mq_maxmsg (mqh_attr h))" and "0 \<le> mq_msgsize (mqh_attr h)"
  obtains h' where
    "mq_body t (KSend (mq_desc 0) [] 0) h = (h', if mq_queue h = [] then [Signal ()] else [], Return (RSend (MReturn (Inr ()))))"
    "mq_wf h'" "mq_queue h' = pq_insert 0 [] (mq_queue h)" "mq_maxmsg (mqh_attr h') = mq_maxmsg (mqh_attr h)"
    "mq_msgsize (mqh_attr h') = mq_msgsize (mqh_attr h)"
proof -
  have "\<not> mq_full h" using assms(2) mq_wf_curmsgs [OF assms(1)] by (simp add: mq_full_def)
  moreover have "int (length ([] :: byte list)) \<le> mq_msgsize (mqh_attr h)" using assms(3) by simp
  moreover have "mqi_magic (mq_desc 0) = MQI_MAGIC" by simp
  ultimately obtain h' sigs where
    "mymq_send (mq_desc 0) None [] 0 h = (h', if mq_queue h = [] then [Signal ()] else [], sigs, MReturn (Inr ()))"
    "mq_wf h'" "mq_queue h' = pq_insert 0 [] (mq_queue h)"
    "mqh_attr h' = (mqh_attr h)\<lparr>mq_curmsgs := mq_curmsgs (mqh_attr h) + 1\<rparr>"
    using mymq_send_ok [OF assms(1), of "[]" "mq_desc 0" 0] by blast
  then show ?thesis using that [of h'] by simp
qed

lemma mq_body_receive_wake:
  assumes "mq_wf h" and "mq_queue h = (p, m) # q"
  obtains h' where
    "mq_body t KReceiveWake h = (h', if mq_full h then [Signal ()] else [], Return (RReceive (MReturn (Inr (m, p)))))"
    "mq_wf h'" "mq_queue h' = q"
proof -
  let ?h = "h\<lparr>mqh_nwait := mqh_nwait h - 1\<rparr>"
  have c: "mq_curmsgs (mqh_attr h) \<noteq> 0" using mq_wf_curmsgs [OF assms(1)] assms(2) by simp
  obtain h' where "mymq_receive_remove ?h = (h', if mq_full h then [Signal ()] else [], MReturn (Inr (m, p)))"
    "mq_wf h'" "mq_queue h' = q"
    using mymq_receive_remove_ok [of ?h] assms c by auto
  then show ?thesis using that [of h'] c by (simp add: mymq_receive_wake_def)
qed

text \<open>A wake-up can be lost. The queue signals a waiter only when a message arrives at an
  empty queue, so of two receivers that wait, two sends in a row wake one: the other sleeps
  on although the queue holds a message and no thread is left to wake it. This happens
  on every empty queue with room for three messages.\<close>

theorem mymq_send_lost_wakeup:
  assumes "mq_wf h" and "mq_queue h = []" and "3 \<le> mq_maxmsg (mqh_attr h)" and "0 \<le> mq_msgsize (mqh_attr h)"
  shows "\<exists>m. mon_reach mq_body mq_may False h m \<and> mready m = [] \<and>
     mwait m = [(1, (), KReceiveWake)] \<and> mq_queue (mshared m) \<noteq> []"
proof -
  let ?rcv = "KReceive (mq_desc 0) (nat (mq_msgsize (mqh_attr h)))"
  define h2 where "h2 = h\<lparr>mqh_nwait := mqh_nwait h + 2\<rparr>"
  have cur: "mq_curmsgs (mqh_attr h) = 0" using mq_wf_curmsgs [OF assms(1)] assms(2) by simp
  then have rcv: "mq_body t ?rcv (h\<lparr>mqh_nwait := x\<rparr>) = (h\<lparr>mqh_nwait := x + 1\<rparr>, [], Wait () KReceiveWake)" for t x
    by (simp add: mymq_receive_def)
  have r0: "mon_reach mq_body mq_may False h \<lparr>mshared = h\<lparr>mqh_nwait := mqh_nwait h\<rparr>, mwait = [], mready = []\<rparr>"
    using reach_init [of mq_body mq_may False h] by (simp add: mon_init_def)
  have r1: "mon_reach mq_body mq_may False h
      \<lparr>mshared = h\<lparr>mqh_nwait := mqh_nwait h + 1\<rparr>, mwait = [(0, (), KReceiveWake)], mready = []\<rparr>"
    using reach_enter [OF r0 rcv, of 0] by simp
  have r2: "mon_reach mq_body mq_may False h
      \<lparr>mshared = h2, mwait = [(0, (), KReceiveWake), (1, (), KReceiveWake)], mready = []\<rparr>"
    using reach_enter [OF r1 rcv, of 1] by (simp add: h2_def add.commute)
  have w2: "mq_wf h2" "mq_queue h2 = []" "mqh_attr h2 = mqh_attr h"
    using assms by (simp_all add: h2_def)
  obtain h3 where h3: "mq_body 2 (KSend (mq_desc 0) [] 0) h2 = (h3, [Signal ()], Return (RSend (MReturn (Inr ()))))"
    "mq_wf h3" "mq_queue h3 = [(0, [])]" "mq_maxmsg (mqh_attr h3) = mq_maxmsg (mqh_attr h)"
    "mq_msgsize (mqh_attr h3) = mq_msgsize (mqh_attr h)"
    using mq_body_send [OF w2(1), of 2] w2 assms(3,4) by (auto simp: pq_insert_def)
  have r3: "mon_reach mq_body mq_may False h
      \<lparr>mshared = h3, mwait = [(1, (), KReceiveWake)], mready = [(0, KReceiveWake)]\<rparr>"
    using reach_enter [OF r2 h3(1), of "[(1, (), KReceiveWake)]" "[(0, KReceiveWake)]"]
    by (simp add: wake_signal_one)
  obtain h4 where h4: "mq_body 2 (KSend (mq_desc 0) [] 0) h3 = (h4, [], Return (RSend (MReturn (Inr ()))))"
    "mq_wf h4" "mq_queue h4 = [(0, []), (0, [])]" "mq_maxmsg (mqh_attr h4) = mq_maxmsg (mqh_attr h)"
    using mq_body_send [OF h3(2), of 2] h3 assms(3,4) by (auto simp: pq_insert_def)
  have r4: "mon_reach mq_body mq_may False h
      \<lparr>mshared = h4, mwait = [(1, (), KReceiveWake)], mready = [(0, KReceiveWake)]\<rparr>"
    using reach_enter [OF r3 h4(1), of "[(1, (), KReceiveWake)]" "[(0, KReceiveWake)]"] by simp
  obtain h5 where h5: "mq_body 0 KReceiveWake h4 =
      (h5, if mq_full h4 then [Signal ()] else [], Return (RReceive (MReturn (Inr ([], 0)))))"
    "mq_queue h5 = [(0, [])]"
    using mq_body_receive_wake [OF h4(2,3), of 0] by auto
  have "\<not> mq_full h4"
    using h4(2-4) mq_wf_curmsgs [OF h4(2)] assms(3) by (simp add: mq_full_def)
  then have "mon_reach mq_body mq_may False h \<lparr>mshared = h5, mwait = [(1, (), KReceiveWake)], mready = []\<rparr>"
    using reach_resume [OF r4 h5(1), of "[(1, (), KReceiveWake)]" "[]"] by simp
  with h5(2) show ?thesis by fastforce
qed

theorem mymq_send_lost_wakeup_witness:
  "\<exists>h m. mq_init_region ex_abi ex_attr = Some h \<and> mon_reach mq_body mq_may False h m \<and>
     mready m = [] \<and> mwait m = [(1, (), KReceiveWake)] \<and> mq_queue (mshared m) \<noteq> []"
proof -
  obtain h where h: "mq_init_region ex_abi ex_attr = Some h" "mq_wf h" "mq_queue h = []" "mqh_attr h = ex_attr"
    using mq_init_region_ok [OF ex_attr_fits] by force
  then show ?thesis using mymq_send_lost_wakeup [of h] by auto
qed

lemma mq_link_free_fault:
  "fsz < int (i + sizeof_mymsg_hdr abi) \<Longrightarrow> mq_link_free abi msz fsz n i ms = None"
  by (cases n) simp_all

text \<open>The region's size is computed in 64-bit arithmetic. When the result wraps to less
  than the header and one slot, \<^verbatim>\<open>mymq_open\<close> does not report an error: it writes the
  free list outside the mapping.\<close>

theorem mymq_open_overflow_faults:
  assumes "oflag AND O_CREAT \<noteq> 0" and "mq_env_ok ev" and "0 < mq_maxmsg a" and "0 < mq_msgsize a"
    and "mq_filesize abi a < int (sizeof_mymq_hdr abi + sizeof_mymsg_hdr abi)"
  shows "mymq_open abi oflag mode (Some a) (ev # evs) = Some (MFault, [])"
proof -
  have "mq_init_region abi a = None"
    using mq_link_free_fault [OF assms(5)] by (simp add: mq_init_region_def)
  with assms(1-4) show ?thesis
    by (simp add: oflag_creat mq_open_create_def mq_env_ok_def Let_def)
qed

theorem mymq_open_overflow_faults_witness:
  "mymq_open ex_abi O_CREAT 0 (Some \<lparr>mq_flags = 0, mq_maxmsg = 2 ^ 31, mq_msgsize = 2 ^ 33 - 24, mq_curmsgs = 0\<rparr>) [ex_env] =
     Some (MFault, [])"
proof -
  have "O_CREAT AND O_CREAT \<noteq> 0" "mq_env_ok ex_env"
    "mq_filesize ex_abi \<lparr>mq_flags = 0, mq_maxmsg = 2 ^ 31, mq_msgsize = 2 ^ 33 - 24, mq_curmsgs = 0\<rparr> < int (128 + 24)"
    by code_simp+
  with mymq_open_overflow_faults [of O_CREAT ex_env "\<lparr>mq_flags = 0, mq_maxmsg = 2 ^ 31, mq_msgsize = 2 ^ 33 - 24, mq_curmsgs = 0\<rparr>" ex_abi 0 "[]"]
  show ?thesis by simp
qed

definition mq_open_mapped :: "mymq_attr option \<Rightarrow> mq_env \<Rightarrow> bool" where
  "mq_open_mapped attr ev \<longleftrightarrow>
     (case attr of None \<Rightarrow> True | Some a \<Rightarrow> 0 < mq_maxmsg a \<and> 0 < mq_msgsize a) \<and>
     e_lseek ev = None \<and> e_write ev = None \<and> e_mmap ev = None"

text \<open>A failed \<^verbatim>\<open>mymq_open\<close> undoes what it did: when it created the file, it unlinks it,
  unmaps it if it was mapped, and closes it, and it never clears the user-execute bit, so
  no process takes the half-built queue for a ready one. The error is the failing
  call's, or \<^verbatim>\<open>EINVAL\<close> for attributes that are not positive.\<close>

theorem mymq_open_create_fails:
  assumes "oflag AND O_CREAT \<noteq> 0" and "e_creat ev = None"
    and "mymq_open abi oflag mode attr (ev # evs) = Some (MReturn (Inl e), cs)"
  shows "cs = [SysUnlink] @ (if mq_open_mapped attr ev then [SysMunmap] else []) @
      (if mq_open_mapped attr ev \<and> e_malloc ev = None then [SysFree] else []) @ [SysClose] \<and>
    (e = EINVAL \<or> Some e \<in> {e_lseek ev, e_write ev, e_mmap ev, e_malloc ev, e_mutexattr ev,
       e_mutex ev, e_condattr ev, e_cond ev, e_fchmod ev})"
  using assms
  by (auto simp: oflag_creat mq_open_create_def mq_open_err_def mq_open_mapped_def Let_def
      split: if_splits option.splits)

theorem mymq_open_create_fails_witness:
  "\<exists>cs. mymq_open ex_abi O_CREAT 0 None [ex_env\<lparr>e_mmap := Some ENOMEM\<rparr>] = Some (MReturn (Inl ENOMEM), cs) \<and>
     SysUnlink \<in> set cs \<and> SysMunmap \<notin> set cs"
proof -
  have c: "O_CREAT AND O_CREAT \<noteq> 0" by code_simp
  have o: "mymq_open ex_abi O_CREAT 0 None [ex_env\<lparr>e_mmap := Some ENOMEM\<rparr>] =
      Some (MReturn (Inl ENOMEM), [SysUnlink, SysClose])"
    using c by (simp add: oflag_creat mq_open_create_def mq_open_err_def)
  from mymq_open_create_fails [OF c _ o] o show ?thesis by auto
qed

end
