(* ===== verification/Rwlock.thy ===== *)
theory Rwlock
  imports Monitor
begin

text \<open>
  The read-write locks of \<^verbatim>\<open>src/unpv22e/my_rwlock\<close>, a mutex, two condition variables
  and three counters, and the places in which \<^verbatim>\<open>src/unpv22e/my_rwlock_cancel\<close>
  differs from it. Readers share the lock, a writer has it alone, and a waiting writer keeps
  new readers out.
\<close>

section \<open>The lock and its operations\<close>

text \<open>\<^verbatim>\<open>rw_refcount\<close> is \<open>-1\<close> when a writer has the lock, else the number of readers.
  The counters are bounded by the number of threads.\<close>

record pthread_rwlock_t =
  rw_magic :: "32 word"
  rw_nwaitreaders :: int
  rw_nwaitwriters :: int
  rw_refcount :: int

definition RW_MAGIC :: "32 word" where "RW_MAGIC = 0x19283746"

definition PTHREAD_RWLOCK_INITIALIZER :: pthread_rwlock_t where
  "PTHREAD_RWLOCK_INITIALIZER =
     \<lparr>rw_magic = RW_MAGIC, rw_nwaitreaders = 0, rw_nwaitwriters = 0, rw_refcount = 0\<rparr>"

datatype rw_cond = CondReaders | CondWriters

text \<open>How a call ends or pauses: a result, a wait on its condition variable, or \<^verbatim>\<open>err_dump\<close>.\<close>

datatype rw_end = RwReturn rc | RwWait | RwDump

text \<open>The pthread objects an initialisation has made and not undone.\<close>

datatype rw_object = ObjMutex | ObjCond rw_cond

definition pthread_rwlock_init ::
  "bool \<Rightarrow> rc \<Rightarrow> rc \<Rightarrow> rc \<Rightarrow> pthread_rwlock_t \<Rightarrow> pthread_rwlock_t \<times> rw_object list \<times> rc" where
  "pthread_rwlock_init attr mi ri wi rw =
     (if attr then (rw, [], Some EINVAL)
      else case mi of Some e \<Rightarrow> (rw, [], Some e)
      | None \<Rightarrow> (case ri of Some e \<Rightarrow> (rw, removeAll ObjMutex [ObjMutex], Some e)
      | None \<Rightarrow> (case wi of
          Some e \<Rightarrow> (rw, removeAll ObjMutex (removeAll (ObjCond CondReaders) [ObjCond CondReaders, ObjMutex]), Some e)
        | None \<Rightarrow> (rw\<lparr>rw_nwaitreaders := 0, rw_nwaitwriters := 0, rw_refcount := 0, rw_magic := RW_MAGIC\<rparr>,
                   [ObjCond CondWriters, ObjCond CondReaders, ObjMutex], None))))"

definition pthread_rwlock_destroy :: "pthread_rwlock_t \<Rightarrow> pthread_rwlock_t \<times> rc" where
  "pthread_rwlock_destroy rw =
     (if rw_magic rw \<noteq> RW_MAGIC then (rw, Some EINVAL)
      else if rw_refcount rw \<noteq> 0 \<or> rw_nwaitreaders rw \<noteq> 0 \<or> rw_nwaitwriters rw \<noteq> 0
      then (rw, Some EBUSY)
      else (rw\<lparr>rw_magic := 0\<rparr>, None))"

text \<open>
  Each blocking call comes in three parts: its start, the test of the loop's condition,
  and its return from \<^verbatim>\<open>pthread_cond_wait\<close> with the result \<open>w\<close>. \<open>lk\<close> is what
  \<^verbatim>\<open>pthread_mutex_lock\<close> returned.
\<close>

definition rdlock_test :: "pthread_rwlock_t \<Rightarrow> pthread_rwlock_t \<times> rw_end" where
  "rdlock_test rw =
     (if rw_refcount rw < 0 \<or> rw_nwaitwriters rw > 0
      then (rw\<lparr>rw_nwaitreaders := rw_nwaitreaders rw + 1\<rparr>, RwWait)
      else (rw\<lparr>rw_refcount := rw_refcount rw + 1\<rparr>, RwReturn None))"

definition rdlock_wake :: "rc \<Rightarrow> pthread_rwlock_t \<Rightarrow> pthread_rwlock_t \<times> rw_end" where
  "rdlock_wake w rw =
     (let rw' = rw\<lparr>rw_nwaitreaders := rw_nwaitreaders rw - 1\<rparr>
      in case w of Some e \<Rightarrow> (rw', RwReturn (Some e)) | None \<Rightarrow> rdlock_test rw')"

definition pthread_rwlock_rdlock :: "rc \<Rightarrow> pthread_rwlock_t \<Rightarrow> pthread_rwlock_t \<times> rw_end" where
  "pthread_rwlock_rdlock lk rw =
     (if rw_magic rw \<noteq> RW_MAGIC then (rw, RwReturn (Some EINVAL))
      else case lk of Some e \<Rightarrow> (rw, RwReturn (Some e)) | None \<Rightarrow> rdlock_test rw)"

definition pthread_rwlock_tryrdlock :: "rc \<Rightarrow> pthread_rwlock_t \<Rightarrow> pthread_rwlock_t \<times> rw_end" where
  "pthread_rwlock_tryrdlock lk rw =
     (if rw_magic rw \<noteq> RW_MAGIC then (rw, RwReturn (Some EINVAL))
      else case lk of Some e \<Rightarrow> (rw, RwReturn (Some e))
      | None \<Rightarrow>
          if rw_refcount rw < 0 \<or> rw_nwaitwriters rw > 0 then (rw, RwReturn (Some EBUSY))
          else (rw\<lparr>rw_refcount := rw_refcount rw + 1\<rparr>, RwReturn None))"

definition wrlock_test :: "pthread_rwlock_t \<Rightarrow> pthread_rwlock_t \<times> rw_end" where
  "wrlock_test rw =
     (if rw_refcount rw \<noteq> 0
      then (rw\<lparr>rw_nwaitwriters := rw_nwaitwriters rw + 1\<rparr>, RwWait)
      else (rw\<lparr>rw_refcount := -1\<rparr>, RwReturn None))"

definition wrlock_wake :: "rc \<Rightarrow> pthread_rwlock_t \<Rightarrow> pthread_rwlock_t \<times> rw_end" where
  "wrlock_wake w rw =
     (let rw' = rw\<lparr>rw_nwaitwriters := rw_nwaitwriters rw - 1\<rparr>
      in case w of Some e \<Rightarrow> (rw', RwReturn (Some e)) | None \<Rightarrow> wrlock_test rw')"

definition pthread_rwlock_wrlock :: "rc \<Rightarrow> pthread_rwlock_t \<Rightarrow> pthread_rwlock_t \<times> rw_end" where
  "pthread_rwlock_wrlock lk rw =
     (if rw_magic rw \<noteq> RW_MAGIC then (rw, RwReturn (Some EINVAL))
      else case lk of Some e \<Rightarrow> (rw, RwReturn (Some e)) | None \<Rightarrow> wrlock_test rw)"

definition pthread_rwlock_trywrlock :: "rc \<Rightarrow> pthread_rwlock_t \<Rightarrow> pthread_rwlock_t \<times> rw_end" where
  "pthread_rwlock_trywrlock lk rw =
     (if rw_magic rw \<noteq> RW_MAGIC then (rw, RwReturn (Some EINVAL))
      else case lk of Some e \<Rightarrow> (rw, RwReturn (Some e))
      | None \<Rightarrow>
          if rw_refcount rw \<noteq> 0 then (rw, RwReturn (Some EBUSY))
          else (rw\<lparr>rw_refcount := -1\<rparr>, RwReturn None))"

text \<open>\<open>sg\<close> is what the signal or broadcast returns.\<close>

definition pthread_rwlock_unlock ::
  "rc \<Rightarrow> rc \<Rightarrow> pthread_rwlock_t \<Rightarrow> pthread_rwlock_t \<times> rw_cond wake list \<times> rw_end" where
  "pthread_rwlock_unlock lk sg rw =
     (if rw_magic rw \<noteq> RW_MAGIC then (rw, [], RwReturn (Some EINVAL))
      else case lk of Some e \<Rightarrow> (rw, [], RwReturn (Some e))
      | None \<Rightarrow>
          if rw_refcount rw > 0 \<or> rw_refcount rw = -1 then
            let rw' = rw\<lparr>rw_refcount := if rw_refcount rw > 0 then rw_refcount rw - 1 else 0\<rparr>
            in if rw_nwaitwriters rw' > 0 then
                 if rw_refcount rw' = 0 then (rw', [Signal CondWriters], RwReturn sg)
                 else (rw', [], RwReturn None)
               else if rw_nwaitreaders rw' > 0 then (rw', [Broadcast CondReaders], RwReturn sg)
               else (rw', [], RwReturn None)
          else (rw, [], RwDump))"

section \<open>The variant with cancellation\<close>

text \<open>
  A thread that is cancelled while it waits runs a clean-up handler with the mutex held.
  The blocking calls return 0 whatever happened, and the call for writing compares the
  result of \<^verbatim>\<open>pthread_mutex_lock\<close> with \<open>-1\<close>, which is no error number, so it goes on
  without the mutex.
\<close>

definition rwlock_cancelrdwait :: "pthread_rwlock_t \<Rightarrow> pthread_rwlock_t" where
  "rwlock_cancelrdwait rw = rw\<lparr>rw_nwaitreaders := rw_nwaitreaders rw - 1\<rparr>"

definition rwlock_cancelwrwait :: "pthread_rwlock_t \<Rightarrow> pthread_rwlock_t" where
  "rwlock_cancelwrwait rw = rw\<lparr>rw_nwaitwriters := rw_nwaitwriters rw - 1\<rparr>"

definition rdlock_wake_cancel :: "rc \<Rightarrow> pthread_rwlock_t \<Rightarrow> pthread_rwlock_t \<times> rw_end" where
  "rdlock_wake_cancel w rw =
     (let rw' = rw\<lparr>rw_nwaitreaders := rw_nwaitreaders rw - 1\<rparr>
      in case w of Some e \<Rightarrow> (rw', RwReturn None) | None \<Rightarrow> rdlock_test rw')"

definition rdlock_cancel :: "rc \<Rightarrow> pthread_rwlock_t \<Rightarrow> pthread_rwlock_t \<times> rw_end" where
  "rdlock_cancel lk rw =
     (if rw_magic rw \<noteq> RW_MAGIC then (rw, RwReturn (Some EINVAL))
      else case lk of Some e \<Rightarrow> (rw, RwReturn (Some e)) | None \<Rightarrow> rdlock_test rw)"

definition tryrdlock_cancel :: "rc \<Rightarrow> pthread_rwlock_t \<Rightarrow> pthread_rwlock_t \<times> rw_end" where
  "tryrdlock_cancel lk rw =
     (if rw_magic rw \<noteq> RW_MAGIC then (rw, RwReturn (Some EINVAL))
      else case lk of Some e \<Rightarrow> (rw, RwReturn (Some e))
      | None \<Rightarrow>
          if rw_refcount rw = -1 \<or> rw_nwaitwriters rw > 0 then (rw, RwReturn (Some EBUSY))
          else (rw\<lparr>rw_refcount := rw_refcount rw + 1\<rparr>, RwReturn None))"

definition wrlock_wake_cancel :: "rc \<Rightarrow> pthread_rwlock_t \<Rightarrow> pthread_rwlock_t \<times> rw_end" where
  "wrlock_wake_cancel w rw =
     (let rw' = rw\<lparr>rw_nwaitwriters := rw_nwaitwriters rw - 1\<rparr>
      in case w of Some e \<Rightarrow> (rw', RwReturn None) | None \<Rightarrow> wrlock_test rw')"

definition wrlock_cancel :: "rc \<Rightarrow> pthread_rwlock_t \<Rightarrow> pthread_rwlock_t \<times> rw_end" where
  "wrlock_cancel lk rw =
     (if rw_magic rw \<noteq> RW_MAGIC then (rw, RwReturn (Some EINVAL))
      else if rw_refcount rw \<noteq> 0 then (rw\<lparr>rw_nwaitwriters := rw_nwaitwriters rw + 1\<rparr>, RwWait)
      else case lk of Some e \<Rightarrow> (rw, RwReturn None) | None \<Rightarrow> (rw\<lparr>rw_refcount := -1\<rparr>, RwReturn None))"

definition unlock_cancel ::
  "rc \<Rightarrow> rc \<Rightarrow> pthread_rwlock_t \<Rightarrow> pthread_rwlock_t \<times> rw_cond wake list \<times> rw_end" where
  "unlock_cancel lk sg rw =
     (if rw_magic rw \<noteq> RW_MAGIC then (rw, [], RwReturn (Some EINVAL))
      else case lk of Some e \<Rightarrow> (rw, [], RwReturn (Some e))
      | None \<Rightarrow>
          if rw_refcount rw > 0 \<or> rw_refcount rw = -1 then
            let rw' = rw\<lparr>rw_refcount := if rw_refcount rw > 0 then rw_refcount rw - 1 else 0\<rparr>
            in if rw_nwaitwriters rw' > 0 then (rw', [Signal CondWriters], RwReturn sg)
               else if rw_nwaitreaders rw' > 0 then (rw', [Broadcast CondReaders], RwReturn sg)
               else (rw', [], RwReturn None)
          else (rw, [], RwDump))"

section \<open>The calls of several threads\<close>

text \<open>
  The state adds to the lock who holds it: \<open>st_readers\<close> with one entry per read lock
  held, \<open>st_writers\<close> likewise. A call that returns 0 changes them; the code never reads
  them.
\<close>

record rw_state =
  st_rw :: pthread_rwlock_t
  st_readers :: "tid list"
  st_writers :: "tid list"

datatype rw_call = KRdlock | KRdWake | KTryRd | KWrlock | KWrWake | KTryWr | KUnlock

definition rw_lock_outcome ::
  "tid \<Rightarrow> bool \<Rightarrow> rw_cond \<Rightarrow> rw_call \<Rightarrow> rw_state \<Rightarrow> pthread_rwlock_t \<times> rw_end \<Rightarrow>
   rw_state \<times> rw_cond wake list \<times> (rw_call, rw_cond, rw_end) outcome" where
  "rw_lock_outcome t write c k s r =
     (case r of (rw, e) \<Rightarrow>
        let s' = s\<lparr>st_rw := rw\<rparr>
        in (if e = RwReturn None
            then if write then s'\<lparr>st_writers := t # st_writers s\<rparr> else s'\<lparr>st_readers := t # st_readers s\<rparr>
            else s', [], if e = RwWait then Wait c k else Return e))"

fun rw_body :: "(rw_state, rw_cond, rw_call, rw_end) body" where
  "rw_body t KRdlock s = rw_lock_outcome t False CondReaders KRdWake s (pthread_rwlock_rdlock None (st_rw s))"
| "rw_body t KRdWake s = rw_lock_outcome t False CondReaders KRdWake s (rdlock_wake None (st_rw s))"
| "rw_body t KTryRd s = rw_lock_outcome t False CondReaders KRdWake s (pthread_rwlock_tryrdlock None (st_rw s))"
| "rw_body t KWrlock s = rw_lock_outcome t True CondWriters KWrWake s (pthread_rwlock_wrlock None (st_rw s))"
| "rw_body t KWrWake s = rw_lock_outcome t True CondWriters KWrWake s (wrlock_wake None (st_rw s))"
| "rw_body t KTryWr s = rw_lock_outcome t True CondWriters KWrWake s (pthread_rwlock_trywrlock None (st_rw s))"
| "rw_body t KUnlock s =
     (case pthread_rwlock_unlock None None (st_rw s) of (rw, ws, e) \<Rightarrow>
        let s' = s\<lparr>st_rw := rw\<rparr>
        in (if e = RwReturn None
            then if t \<in> set (st_writers s) then s'\<lparr>st_writers := remove1 t (st_writers s)\<rparr>
                 else s'\<lparr>st_readers := remove1 t (st_readers s)\<rparr>
            else s', ws, Return e))"

text \<open>Any thread may lock; only a thread that holds the lock may unlock it.\<close>

fun rw_may :: "tid \<Rightarrow> rw_call \<Rightarrow> rw_state \<Rightarrow> bool" where
  "rw_may t KRdWake s = False"
| "rw_may t KWrWake s = False"
| "rw_may t KUnlock s \<longleftrightarrow> t \<in> set (st_readers s) \<union> set (st_writers s)"
| "rw_may t k s = True"

section \<open>The invariant of an execution\<close>

text \<open>
  The invariant of an execution. \<open>rw_counts\<close>: the reference count and the holders agree,
  every pending call waits on its own condition variable, and the two counters are the
  numbers of pending calls. \<open>rw_live\<close>: when the lock is free and threads are asleep, a
  writer has been woken; when readers have it, a reader sleeps only because of a writer.
\<close>

definition rw_holders :: "rw_state \<Rightarrow> bool" where
  "rw_holders s \<longleftrightarrow>
     (st_writers s = [] \<and> rw_refcount (st_rw s) = int (length (st_readers s))) \<or>
     (\<exists>t. st_writers s = [t] \<and> st_readers s = [] \<and> rw_refcount (st_rw s) = -1)"

definition rw_counts :: "rw_state \<Rightarrow> (tid \<times> rw_cond \<times> rw_call) list \<Rightarrow> (tid \<times> rw_call) list \<Rightarrow> bool" where
  "rw_counts s w r \<longleftrightarrow>
     rw_holders s \<and> rw_magic (st_rw s) = RW_MAGIC \<and>
     (\<forall>(t, c, k) \<in> set w. c = CondReaders \<and> k = KRdWake \<or> c = CondWriters \<and> k = KWrWake) \<and>
     (\<forall>(t, k) \<in> set r. k = KRdWake \<or> k = KWrWake) \<and>
     rw_nwaitreaders (st_rw s) = int (pending ((=) KRdWake) (w, r)) \<and>
     rw_nwaitwriters (st_rw s) = int (pending ((=) KWrWake) (w, r))"

definition rw_live :: "rw_state \<Rightarrow> (tid \<times> rw_cond \<times> rw_call) list \<Rightarrow> (tid \<times> rw_call) list \<Rightarrow> bool" where
  "rw_live s w r \<longleftrightarrow>
     (rw_refcount (st_rw s) = 0 \<and> w \<noteq> [] \<longrightarrow> KWrWake \<in> snd ` set r) \<and>
     (rw_refcount (st_rw s) > 0 \<and> CondReaders \<in> (fst \<circ> snd) ` set w \<longrightarrow> rw_nwaitwriters (st_rw s) > 0)"

abbreviation rw_ok :: "rw_state \<Rightarrow> (tid \<times> rw_cond \<times> rw_call) list \<Rightarrow> (tid \<times> rw_call) list \<Rightarrow> bool" where
  "rw_ok s w r \<equiv> rw_counts s w r \<and> rw_live s w r"

lemma pending_pos: "pending P (w, r) > 0 \<longleftrightarrow> (\<exists>(t, c, k) \<in> set w. P k) \<or> (\<exists>(t, k) \<in> set r. P k)"
  by (auto simp: pending_def filter_empty_conv)

lemma rw_counts_nonneg: "rw_counts s w r \<Longrightarrow> rw_nwaitwriters (st_rw s) \<ge> 0 \<and> rw_nwaitreaders (st_rw s) \<ge> 0"
  by (simp add: rw_counts_def)

text \<open>With the lock free and a writer pending, a writer is ready.\<close>

lemma rw_free_writer:
  assumes "rw_ok s w r" "rw_refcount (st_rw s) = 0" "rw_nwaitwriters (st_rw s) > 0"
  shows "KWrWake \<in> snd ` set r"
proof (cases "w = []")
  case True
  from assms have "pending ((=) KWrWake) (w, r) > 0" by (simp add: rw_counts_def)
  with True show ?thesis unfolding pending_pos by force
qed (use assms in \<open>simp add: rw_live_def\<close>)

lemma rw_rd_ok:
  assumes "rw_ok s w r"
    and "rw_lock_outcome t False CondReaders KRdWake s (rdlock_test (st_rw s)) = (s', ws, out)"
  shows "ws = [] \<and> rw_ok s' (sleep_on t out w) r \<and> out \<noteq> Return RwDump"
proof (cases "rw_refcount (st_rw s) < 0 \<or> rw_nwaitwriters (st_rw s) > 0")
  case True
  then have s': "s' = s\<lparr>st_rw := (st_rw s)\<lparr>rw_nwaitreaders := rw_nwaitreaders (st_rw s) + 1\<rparr>\<rparr>"
    "ws = []" "out = Wait CondReaders KRdWake"
    using assms(2) by (auto simp: rw_lock_outcome_def rdlock_test_def)
  have "rw_counts s' (w @ [(t, CondReaders, KRdWake)]) r"
    using assms(1) by (auto simp: rw_counts_def rw_holders_def s')
  moreover have "rw_live s' (w @ [(t, CondReaders, KRdWake)]) r"
    using True rw_free_writer [OF assms(1)] rw_counts_nonneg [of s w r] assms(1)
    by (auto simp: rw_live_def s')
  ultimately show ?thesis using s' by simp
next
  case False
  then have s': "s' = s\<lparr>st_rw := (st_rw s)\<lparr>rw_refcount := rw_refcount (st_rw s) + 1\<rparr>,
                        st_readers := t # st_readers s\<rparr>" "ws = []" "out = Return (RwReturn None)"
    using assms(2) by (auto simp: rw_lock_outcome_def rdlock_test_def)
  have nw: "rw_nwaitwriters (st_rw s) = 0" using False rw_counts_nonneg [of s w r] assms(1) by auto
  then have "pending ((=) KWrWake) (w, r) = 0" using assms(1) by (simp add: rw_counts_def)
  then have "KWrWake \<notin> snd ` set r" using pending_pos [of "(=) KWrWake" w r] by force
  then have "rw_live s' w r"
    using assms(1) False nw by (auto simp: rw_live_def s')
  moreover have "rw_counts s' w r"
    using assms(1) False by (auto simp: rw_counts_def rw_holders_def s')
  ultimately show ?thesis using s' by simp
qed

lemma rw_wr_ok:
  assumes "rw_counts s w r"
    and "rw_lock_outcome t True CondWriters KWrWake s (wrlock_test (st_rw s)) = (s', ws, out)"
  shows "ws = [] \<and> rw_ok s' (sleep_on t out w) r \<and> out \<noteq> Return RwDump"
proof (cases "rw_refcount (st_rw s) \<noteq> 0")
  case True
  then have s': "s' = s\<lparr>st_rw := (st_rw s)\<lparr>rw_nwaitwriters := rw_nwaitwriters (st_rw s) + 1\<rparr>\<rparr>"
    "ws = []" "out = Wait CondWriters KWrWake"
    using assms(2) by (auto simp: rw_lock_outcome_def wrlock_test_def)
  have "rw_counts s' (w @ [(t, CondWriters, KWrWake)]) r"
    using assms(1) by (auto simp: rw_counts_def rw_holders_def s')
  moreover have "rw_live s' (w @ [(t, CondWriters, KWrWake)]) r"
    using True rw_counts_nonneg [OF assms(1)] by (auto simp: rw_live_def s')
  ultimately show ?thesis using s' by simp
next
  case False
  then have s': "s' = s\<lparr>st_rw := (st_rw s)\<lparr>rw_refcount := -1\<rparr>, st_writers := t # st_writers s\<rparr>"
    "ws = []" "out = Return (RwReturn None)"
    using assms(2) by (auto simp: rw_lock_outcome_def wrlock_test_def)
  then show ?thesis
    using assms(1) False by (auto simp: rw_counts_def rw_live_def rw_holders_def)
qed

lemma rw_counts_wake:
  assumes "rw_counts s w r" and "wake_steps ws (w, r) (w', r')"
  shows "rw_counts s w' r'"
proof -
  have "set w' \<subseteq> set w" using wake_steps_wait [OF assms(2)] by simp
  moreover have "k = KRdWake \<or> k = KWrWake" if "(t, k) \<in> set r'" for t k
  proof -
    have "(t, k) \<in> mon_calls (w, r)"
      using that wake_steps_calls [OF assms(2)] by (auto simp: mon_calls_def)
    then show ?thesis using assms(1) by (auto simp: rw_counts_def mon_calls_def)
  qed
  ultimately show ?thesis
    using assms(1) wake_steps_pending [OF assms(2)] by (auto simp: rw_counts_def)
qed

lemma rw_no_writer_asleep:
  "rw_counts s w r \<Longrightarrow> rw_nwaitwriters (st_rw s) = 0 \<Longrightarrow> (t, c, k) \<in> set w \<Longrightarrow> c = CondReaders"
  using pending_pos [of "(=) KWrWake" w r] by (force simp: rw_counts_def)

lemma rw_signal_writer:
  assumes "rw_counts s w r" "rw_nwaitwriters (st_rw s) > 0" "wake_step (Signal CondWriters) (w, r) (w', r')"
  shows "KWrWake \<in> snd ` set r'"
  using assms(3)
proof cases
  case signal_none
  have "pending ((=) KWrWake) (w, r) > 0" using assms(1,2) by (simp add: rw_counts_def)
  moreover have "\<not> (\<exists>(t, c, k) \<in> set w. KWrWake = k)"
    using signal_none assms(1) by (force simp: rw_counts_def)
  ultimately show ?thesis using signal_none unfolding pending_pos by force
next
  case (signal_one w1 t k w2)
  then have "k = KWrWake" using assms(1) by (simp add: rw_counts_def)
  then show ?thesis using signal_one by simp
qed

lemma rw_unlock_ok:
  assumes "rw_ok s w r" and "t \<in> set (st_readers s) \<union> set (st_writers s)"
    and "rw_body t KUnlock s = (s', ws, out)" and "wake_steps ws (w, r) (w', r')"
  shows "rw_ok s' (sleep_on t out w') r' \<and> out = Return (RwReturn None)"
proof -
  define rc where "rc = (if rw_refcount (st_rw s) > 0 then rw_refcount (st_rw s) - 1 else 0)"
  define nww where "nww = rw_nwaitwriters (st_rw s)"
  define nwr where "nwr = rw_nwaitreaders (st_rw s)"
  have cnt: "rw_counts s w r" using assms(1) by simp
  have ref: "rw_refcount (st_rw s) > 0 \<or> rw_refcount (st_rw s) = -1" "rw_magic (st_rw s) = RW_MAGIC"
    using cnt assms(2) by (auto simp: rw_counts_def rw_holders_def)
  let ?u = "(if nww > 0 then if rc = 0 then [Signal CondWriters] else []
            else if nwr > 0 then [Broadcast CondReaders] else [])"
  have u: "pthread_rwlock_unlock None None (st_rw s) = ((st_rw s)\<lparr>rw_refcount := rc\<rparr>, ?u, RwReturn None)"
    using ref by (auto simp: pthread_rwlock_unlock_def rc_def nww_def nwr_def Let_def)
  then have out: "out = Return (RwReturn None)" and ws: "ws = ?u"
    and s': "st_rw s' = (st_rw s)\<lparr>rw_refcount := rc\<rparr>"
    using assms(3) by (auto simp: Let_def)
  have "rw_holders s'"
  proof (cases "st_writers s = []")
    case True
    then have "s' = s\<lparr>st_rw := (st_rw s)\<lparr>rw_refcount := rc\<rparr>, st_readers := remove1 t (st_readers s)\<rparr>"
      "t \<in> set (st_readers s)" "rw_refcount (st_rw s) = int (length (st_readers s))"
      using assms(2,3) cnt by (simp_all add: u rw_counts_def rw_holders_def)
    moreover from this(2) have "length (st_readers s) = Suc (length (remove1 t (st_readers s)))"
      using length_pos_if_in_set [of t "st_readers s"] by (simp add: length_remove1)
    ultimately show ?thesis using True by (simp add: rw_holders_def rc_def)
  next
    case False
    then have "s' = s\<lparr>st_rw := (st_rw s)\<lparr>rw_refcount := rc\<rparr>, st_writers := []\<rparr>"
      "st_readers s = []" "rw_refcount (st_rw s) = -1"
      using assms(2,3) cnt by (auto simp: u rw_counts_def rw_holders_def)
    then show ?thesis by (simp add: rw_holders_def rc_def)
  qed
  then have cnt0: "rw_counts s' w r" using cnt by (simp add: rw_counts_def s')
  then have cnt': "rw_counts s' w' r'" using assms(4) by (rule rw_counts_wake)
  have rc: "rc \<ge> 0" using ref by (auto simp: rc_def)
  have "rw_live s' w' r'"
  proof (cases "nww > 0")
    case True
    then show ?thesis
      using assms(4) rw_signal_writer [OF cnt0, of w' r']
      by (auto simp: rw_live_def ws s' nww_def rc_def split: if_splits)
  next
    case False
    then have "nww = 0" using rw_counts_nonneg [OF cnt] by (simp add: nww_def)
    then have rd: "c = CondReaders" if "(x, c, k) \<in> set w" for x c k
      using rw_no_writer_asleep [OF cnt _ that] by (simp add: nww_def)
    have "w' = []"
    proof (cases "nwr > 0")
      case True
      with assms(4) False have "w' = filter (\<lambda>(t, d, k). d \<noteq> CondReaders) w" by (auto simp: ws)
      then show ?thesis using rd by (force simp: filter_empty_conv)
    next
      case False
      with cnt have "pending ((=) KRdWake) (w, r) = 0" by (simp add: rw_counts_def nwr_def)
      then have "\<not> (\<exists>(t, c, k) \<in> set w. KRdWake = k)"
        using pending_pos [of "(=) KRdWake" w r] by simp
      moreover have "k = KRdWake" if "(x, c, k) \<in> set w" for x c k
        using rd [OF that] cnt that by (auto simp: rw_counts_def)
      ultimately have "w = []" by (cases w) auto
      with assms(4) \<open>\<not> nww > 0\<close> False show ?thesis by (simp add: ws)
    qed
    then show ?thesis by (simp add: rw_live_def)
  qed
  with cnt' out show ?thesis by simp
qed

lemma rw_counts_resume:
  assumes "rw_counts s w (r1 @ (t, k) # r2)"
  shows "k = KRdWake \<Longrightarrow> rw_counts (s\<lparr>st_rw := (st_rw s)\<lparr>rw_nwaitreaders := rw_nwaitreaders (st_rw s) - 1\<rparr>\<rparr>) w (r1 @ r2)"
    and "k = KWrWake \<Longrightarrow> rw_counts (s\<lparr>st_rw := (st_rw s)\<lparr>rw_nwaitwriters := rw_nwaitwriters (st_rw s) - 1\<rparr>\<rparr>) w (r1 @ r2)"
    and "k = KRdWake \<or> k = KWrWake"
  using assms by (auto simp: rw_counts_def rw_holders_def)

lemma rw_lock_outcome_rw:
  "rw_lock_outcome t b c k (s\<lparr>st_rw := x\<rparr>) r = rw_lock_outcome t b c k s r"
  by (cases r) (simp add: rw_lock_outcome_def Let_def)

lemma rw_enter_ok:
  assumes "rw_ok s w r" and "rw_may t k s" and "rw_body t k s = (s', ws, out)"
    and "wake_steps ws (w, r) (w', r')"
  shows "rw_ok s' (sleep_on t out w') r' \<and> out \<noteq> Return RwDump"
proof -
  have m: "rw_magic (st_rw s) = RW_MAGIC" using assms(1) by (simp add: rw_counts_def)
  have rd: "ws = [] \<and> rw_ok s' (sleep_on t out w) r \<and> out \<noteq> Return RwDump"
    if "rw_lock_outcome t False CondReaders KRdWake s (rdlock_test (st_rw s)) = (s', ws, out)"
    using rw_rd_ok [OF assms(1) that] .
  have wr: "ws = [] \<and> rw_ok s' (sleep_on t out w) r \<and> out \<noteq> Return RwDump"
    if "rw_lock_outcome t True CondWriters KWrWake s (wrlock_test (st_rw s)) = (s', ws, out)"
    using rw_wr_ok [OF _ that] assms(1) by blast
  have busy: "ws = [] \<and> rw_ok s' (sleep_on t out w) r \<and> out \<noteq> Return RwDump"
    if "rw_lock_outcome t b c k' s (st_rw s, RwReturn (Some EBUSY)) = (s', ws, out)" for b c k'
    using that assms(1) by (auto simp: rw_lock_outcome_def)
  show ?thesis
  proof (cases k)
    case KRdlock
    then show ?thesis using rd assms(3,4) m by (auto simp: pthread_rwlock_rdlock_def)
  next
    case KTryRd
    then show ?thesis using rd busy assms(3,4) m
      by (auto simp: pthread_rwlock_tryrdlock_def rdlock_test_def split: if_splits)
  next
    case KWrlock
    then show ?thesis using wr assms(3,4) m by (auto simp: pthread_rwlock_wrlock_def)
  next
    case KTryWr
    then show ?thesis using wr busy assms(3,4) m
      by (auto simp: pthread_rwlock_trywrlock_def wrlock_test_def split: if_splits)
  next
    case KUnlock
    then show ?thesis using rw_unlock_ok [OF assms(1) _ _ assms(4), of t s' out] assms(2,3)
      by (metis outcome.inject(1) rw_end.distinct(3) rw_may.simps(3))
  qed (use assms(2) in simp_all)
qed

lemma rw_resume_ok:
  assumes "rw_ok s w (r1 @ (t, k) # r2)" and "rw_body t k s = (s', ws, out)"
    and "wake_steps ws (w, r1 @ r2) (w', r')"
  shows "rw_ok s' (sleep_on t out w') r' \<and> out \<noteq> Return RwDump"
proof (cases "k = KRdWake")
  case True
  let ?s = "s\<lparr>st_rw := (st_rw s)\<lparr>rw_nwaitreaders := rw_nwaitreaders (st_rw s) - 1\<rparr>\<rparr>"
  have "rw_counts ?s w (r1 @ r2)" using rw_counts_resume(1) [of s w r1 t k r2] assms(1) True by blast
  moreover have "rw_live ?s w (r1 @ r2)" using assms(1) True by (auto simp: rw_live_def)
  moreover have "rw_lock_outcome t False CondReaders KRdWake ?s (rdlock_test (st_rw ?s)) = (s', ws, out)"
    using assms(2) True by (simp add: rdlock_wake_def rw_lock_outcome_rw)
  ultimately have "ws = [] \<and> rw_ok s' (sleep_on t out w) (r1 @ r2) \<and> out \<noteq> Return RwDump"
    by (intro rw_rd_ok conjI)
  then show ?thesis using assms(3) by auto
next
  case False
  then have k: "k = KWrWake" using rw_counts_resume(3) [of s w r1 t k r2] assms(1) by blast
  let ?s = "s\<lparr>st_rw := (st_rw s)\<lparr>rw_nwaitwriters := rw_nwaitwriters (st_rw s) - 1\<rparr>\<rparr>"
  have "rw_counts ?s w (r1 @ r2)" using rw_counts_resume(2) [of s w r1 t k r2] assms(1) k by blast
  moreover have "rw_lock_outcome t True CondWriters KWrWake ?s (wrlock_test (st_rw ?s)) = (s', ws, out)"
    using assms(2) k by (simp add: wrlock_wake_def rw_lock_outcome_rw)
  ultimately have "ws = [] \<and> rw_ok s' (sleep_on t out w) (r1 @ r2) \<and> out \<noteq> Return RwDump"
    by (rule rw_wr_ok)
  then show ?thesis using assms(3) by auto
qed

lemma rw_spurious_ok:
  assumes "rw_ok s (w1 @ (t, c, k) # w2) r"
  shows "rw_ok s (w1 @ w2) ((t, k) # r)"
proof -
  have "rw_counts s (w1 @ w2) ((t, k) # r)"
    using assms pending_wake_mid [of "(=) KRdWake" w1 w2 t k r c] pending_wake_mid [of "(=) KWrWake" w1 w2 t k r c]
    by (auto simp: rw_counts_def)
  then show ?thesis using assms by (auto simp: rw_live_def)
qed

definition rw_initial :: "rw_state" where
  "rw_initial = \<lparr>st_rw = PTHREAD_RWLOCK_INITIALIZER, st_readers = [], st_writers = []\<rparr>"

interpretation rwmon: monitor_global rw_body rw_may rw_ok
proof (unfold_locales, goal_cases)
  case 1
  then show ?case using rw_enter_ok by blast
next
  case 2
  then show ?case using rw_resume_ok by blast
next
  case 3
  then show ?case using rw_spurious_ok by blast
qed

lemma rw_initial_ok: "rw_ok rw_initial [] []"
  by (simp add: rw_initial_def rw_counts_def rw_live_def rw_holders_def PTHREAD_RWLOCK_INITIALIZER_def)

lemmas rw_reach_ok = rwmon.reach_global [OF _ rw_initial_ok]

section \<open>Properties\<close>

text \<open>C9. Readers and writers exclude one another: in every state that threads can reach by
  locking, trying to lock and unlocking, at most one thread has the lock for writing, and
  then none has it for reading; and no call finds the impossible reference count on which
  \<^verbatim>\<open>pthread_rwlock_unlock\<close> stops the process.\<close>

theorem rwlock_exclusion:
  assumes "mon_reach rw_body rw_may sp rw_initial m"
  shows "length (st_writers (mshared m)) \<le> 1 \<and>
    (st_writers (mshared m) \<noteq> [] \<longrightarrow> st_readers (mshared m) = []) \<and>
    (\<forall>t k s' ws out. (t, k) \<in> set (mready m) \<or> rw_may t k (mshared m) \<longrightarrow>
       rw_body t k (mshared m) = (s', ws, out) \<longrightarrow> out \<noteq> Return RwDump)"
proof -
  have ok: "rw_ok (mshared m) (mwait m) (mready m)" using assms by (rule rw_reach_ok)
  have "out \<noteq> Return RwDump"
    if "(t, k) \<in> set (mready m) \<or> rw_may t k (mshared m)" "rw_body t k (mshared m) = (s', ws, out)" for t k s' ws out
  proof -
    have "(\<exists>r1 r2. mready m = r1 @ (t, k) # r2) \<or> rw_may t k (mshared m)"
      using that(1) by (auto dest: split_list)
    then consider r1 r2 where "mready m = r1 @ (t, k) # r2" | "rw_may t k (mshared m)" by blast
    then show ?thesis
    proof cases
      case 1
      obtain w' r' where "wake_steps ws (mwait m, r1 @ r2) (w', r')" using wake_steps_total by blast
      with rw_resume_ok [OF _ that(2), of "mwait m" r1 r2] ok 1 show ?thesis by simp
    next
      case 2
      obtain w' r' where "wake_steps ws (mwait m, mready m) (w', r')" using wake_steps_total by blast
      with rw_enter_ok [OF ok 2 that(2)] show ?thesis by blast
    qed
  qed
  with ok show ?thesis by (auto simp: rw_counts_def rw_holders_def)
qed

text \<open>An execution for the examples: thread 1 locks for writing, thread 2 waits to read,
  thread 3 waits to write, and thread 1 unlocks.\<close>

definition rw_example :: "(rw_state, rw_cond, rw_call) mon" where
  "rw_example =
     \<lparr>mshared = \<lparr>st_rw = \<lparr>rw_magic = RW_MAGIC, rw_nwaitreaders = 1, rw_nwaitwriters = 1, rw_refcount = 0\<rparr>,
                 st_readers = [], st_writers = []\<rparr>,
      mwait = [(2, CondReaders, KRdWake)], mready = [(3, KWrWake)]\<rparr>"

lemma rw_example_reach: "mon_reach rw_body rw_may sp rw_initial rw_example"
proof -
  let ?s = "\<lambda>nr nw. \<lparr>st_rw = \<lparr>rw_magic = RW_MAGIC, rw_nwaitreaders = nr, rw_nwaitwriters = nw, rw_refcount = -1\<rparr>,
                   st_readers = [], st_writers = [1 :: tid]\<rparr>"
  have 0: "mon_reach rw_body rw_may sp rw_initial \<lparr>mshared = rw_initial, mwait = [], mready = []\<rparr>"
    using reach_init [of rw_body rw_may sp rw_initial] by (simp add: mon_init_def)
  have b1: "rw_body 1 KWrlock rw_initial = (?s 0 0, [], Return (RwReturn None))"
    by (simp add: rw_initial_def PTHREAD_RWLOCK_INITIALIZER_def rw_lock_outcome_def
        pthread_rwlock_wrlock_def wrlock_test_def)
  have 1: "mon_reach rw_body rw_may sp rw_initial \<lparr>mshared = ?s 0 0, mwait = [], mready = []\<rparr>"
    using reach_enter [OF 0 b1, of "[]" "[]"] by simp
  have b2: "rw_body 2 KRdlock (?s 0 0) = (?s 1 0, [], Wait CondReaders KRdWake)"
    by (simp add: rw_lock_outcome_def pthread_rwlock_rdlock_def rdlock_test_def)
  have 2: "mon_reach rw_body rw_may sp rw_initial \<lparr>mshared = ?s 1 0, mwait = [(2, CondReaders, KRdWake)], mready = []\<rparr>"
    using reach_enter [OF 1 b2, of "[]" "[]"] by simp
  have b3: "rw_body 3 KWrlock (?s 1 0) = (?s 1 1, [], Wait CondWriters KWrWake)"
    by (simp add: rw_lock_outcome_def pthread_rwlock_wrlock_def wrlock_test_def)
  have 3: "mon_reach rw_body rw_may sp rw_initial
     \<lparr>mshared = ?s 1 1, mwait = [(2, CondReaders, KRdWake), (3, CondWriters, KWrWake)], mready = []\<rparr>"
    using reach_enter [OF 2 b3, of "[(2, CondReaders, KRdWake)]" "[]"] by simp
  have b4: "rw_body 1 KUnlock (?s 1 1) = (mshared rw_example, [Signal CondWriters], Return (RwReturn None))"
    by (simp add: rw_example_def pthread_rwlock_unlock_def)
  have "wake_step (Signal CondWriters) ([(2 :: tid, CondReaders, KRdWake), (3, CondWriters, KWrWake)], [])
     ([(2, CondReaders, KRdWake)], [(3, KWrWake)])"
    using signal_one [of CondWriters "[(2, CondReaders, KRdWake)]" 3 KWrWake "[]" "[]"] by simp
  then show ?thesis
    using reach_enter [OF 3 b4, of "[(2, CondReaders, KRdWake)]" "[(3, KWrWake)]"]
    by (simp add: rw_example_def)
qed

theorem rwlock_exclusion_witness:
  "mon_reach rw_body rw_may False rw_initial rw_example \<and> (3, KWrWake) \<in> set (mready rw_example) \<and>
   snd (snd (rw_body 3 KWrWake (mshared rw_example))) \<noteq> Return RwDump"
proof -
  have r: "(3, KWrWake) \<in> set (mready rw_example)" by (simp add: rw_example_def)
  then have "snd (snd (rw_body 3 KWrWake (mshared rw_example))) \<noteq> Return RwDump"
    using rwlock_exclusion [OF rw_example_reach [of False]] by (metis prod.collapse)
  with r rw_example_reach [of False] show ?thesis by simp
qed

text \<open>C11. No wake-up is lost. In every reachable state in which the lock is free and a thread
  is asleep in one of the calls, some writer has been woken and takes the lock when it
  next runs. And when readers have the lock, a reader is asleep only while a writer
  waits.\<close>

theorem rwlock_no_lost_wakeup:
  assumes "mon_reach rw_body rw_may sp rw_initial m"
  shows "(st_readers (mshared m) = [] \<and> st_writers (mshared m) = [] \<and> mwait m \<noteq> [] \<longrightarrow>
      (\<exists>t. (t, KWrWake) \<in> set (mready m) \<and>
         st_writers (fst (rw_body t KWrWake (mshared m))) = [t])) \<and>
    (st_readers (mshared m) \<noteq> [] \<and> (\<exists>t k. (t, CondReaders, k) \<in> set (mwait m)) \<longrightarrow>
      (\<exists>t. (t, KWrWake) \<in> mon_calls (mwait m, mready m)))"
proof -
  have ok: "rw_ok (mshared m) (mwait m) (mready m)" using assms by (rule rw_reach_ok)
  have 1: "\<exists>t. (t, KWrWake) \<in> set (mready m) \<and> st_writers (fst (rw_body t KWrWake (mshared m))) = [t]"
    if free: "st_readers (mshared m) = []" "st_writers (mshared m) = []" "mwait m \<noteq> []"
  proof -
    have "rw_refcount (st_rw (mshared m)) = 0" using ok free by (simp add: rw_counts_def rw_holders_def)
    moreover obtain t where "(t, KWrWake) \<in> set (mready m)"
      using ok free(3) calculation by (auto simp: rw_live_def)
    ultimately show ?thesis
      using free(2) by (auto simp: rw_lock_outcome_def wrlock_wake_def wrlock_test_def)
  qed
  have 2: "\<exists>t. (t, KWrWake) \<in> mon_calls (mwait m, mready m)"
    if "st_readers (mshared m) \<noteq> []" "(t, CondReaders, k) \<in> set (mwait m)" for t k
  proof -
    have "rw_refcount (st_rw (mshared m)) > 0" using ok that by (auto simp: rw_counts_def rw_holders_def)
    then have "rw_nwaitwriters (st_rw (mshared m)) > 0" using ok that(2) by (force simp: rw_live_def)
    then have "pending ((=) KWrWake) (mwait m, mready m) > 0" using ok by (simp add: rw_counts_def)
    then show ?thesis unfolding pending_pos by (force simp: mon_calls_def)
  qed
  from 1 2 show ?thesis by blast
qed

theorem rwlock_no_lost_wakeup_witness:
  "mon_reach rw_body rw_may False rw_initial rw_example \<and> mwait rw_example = [(2, CondReaders, KRdWake)] \<and>
   st_readers (mshared rw_example) = [] \<and> st_writers (mshared rw_example) = [] \<and>
   (\<exists>t. (t, KWrWake) \<in> set (mready rw_example))"
  using rwlock_no_lost_wakeup [OF rw_example_reach] rw_example_reach [of False]
  by (auto simp: rw_example_def)

text \<open>\<^verbatim>\<open>pthread_rwlock_destroy\<close> succeeds exactly when nobody holds the lock and no call is
  waiting, asleep or woken: the two waiter counters are exact in every reachable state.\<close>

theorem rwlock_destroy_iff:
  assumes "mon_reach rw_body rw_may sp rw_initial m"
  shows "snd (pthread_rwlock_destroy (st_rw (mshared m))) =
    (if st_readers (mshared m) = [] \<and> st_writers (mshared m) = [] \<and> mwait m = [] \<and> mready m = []
     then None else Some EBUSY)"
proof -
  have ok: "rw_counts (mshared m) (mwait m) (mready m)" using rw_reach_ok [OF assms] by blast
  have "rw_refcount (st_rw (mshared m)) = 0 \<longleftrightarrow> st_readers (mshared m) = [] \<and> st_writers (mshared m) = []"
    using ok by (auto simp: rw_counts_def rw_holders_def)
  moreover have "rw_nwaitreaders (st_rw (mshared m)) = 0 \<and> rw_nwaitwriters (st_rw (mshared m)) = 0 \<longleftrightarrow>
      mwait m = [] \<and> mready m = []"
  proof -
    have "pending ((=) KRdWake) (mwait m, mready m) > 0 \<or> pending ((=) KWrWake) (mwait m, mready m) > 0"
      if "mwait m \<noteq> [] \<or> mready m \<noteq> []"
      using that ok unfolding pending_pos rw_counts_def
      by (cases "mwait m"; cases "mready m") fastforce+
    then have "pending ((=) KRdWake) (mwait m, mready m) = 0 \<and> pending ((=) KWrWake) (mwait m, mready m) = 0 \<longleftrightarrow>
        mwait m = [] \<and> mready m = []"
      by (metis less_numeral_extra(3) pending_Nil)
    then show ?thesis using ok by (simp add: rw_counts_def)
  qed
  ultimately show ?thesis using ok by (auto simp: pthread_rwlock_destroy_def rw_counts_def)
qed

theorem rwlock_destroy_iff_witness:
  "snd (pthread_rwlock_destroy (st_rw (mshared rw_example))) = Some EBUSY \<and>
   mon_reach rw_body rw_may False rw_initial rw_example"
  using rwlock_destroy_iff [OF rw_example_reach] rw_example_reach [of False]
  by (simp add: rw_example_def)

text \<open>The variant with cancellation reports success for locks it did not take: when
  \<^verbatim>\<open>pthread_cond_wait\<close> fails, or when the mutex cannot be locked and the lock is free,
  its calls return 0 and leave the reference count as it is, where the other
  variant returns the error.\<close>

theorem rwlock_cancel_returns_zero:
  "rdlock_wake_cancel (Some e) rw = (rw\<lparr>rw_nwaitreaders := rw_nwaitreaders rw - 1\<rparr>, RwReturn None) \<and>
   wrlock_wake_cancel (Some e) rw = (rw\<lparr>rw_nwaitwriters := rw_nwaitwriters rw - 1\<rparr>, RwReturn None) \<and>
   (rw_magic rw = RW_MAGIC \<and> rw_refcount rw = 0 \<longrightarrow> wrlock_cancel (Some e) rw = (rw, RwReturn None)) \<and>
   snd (rdlock_wake (Some e) rw) = RwReturn (Some e) \<and> snd (wrlock_wake (Some e) rw) = RwReturn (Some e)"
  by (simp add: rdlock_wake_cancel_def wrlock_wake_cancel_def wrlock_cancel_def rdlock_wake_def wrlock_wake_def Let_def)

theorem rwlock_cancel_returns_zero_witness:
  "wrlock_cancel (Some EINVAL) PTHREAD_RWLOCK_INITIALIZER = (PTHREAD_RWLOCK_INITIALIZER, RwReturn None)"
  using rwlock_cancel_returns_zero [of EINVAL PTHREAD_RWLOCK_INITIALIZER]
  by (simp add: PTHREAD_RWLOCK_INITIALIZER_def)

text \<open>A failed \<^verbatim>\<open>pthread_rwlock_init\<close> undoes every pthread object it made and leaves the
  lock as it was; a successful one leaves a free lock with its mutex and both condition
  variables, on which locking for writing and destroying succeed.\<close>

theorem rwlock_init_all_or_nothing:
  "case pthread_rwlock_init attr mi ri wi rw of (rw', objs, r) \<Rightarrow>
     if r \<noteq> None then objs = [] \<and> rw' = rw
     else set objs = {ObjMutex, ObjCond CondReaders, ObjCond CondWriters} \<and> rw' = PTHREAD_RWLOCK_INITIALIZER \<and>
       snd (pthread_rwlock_wrlock None rw') = RwReturn None \<and> snd (pthread_rwlock_destroy rw') = None"
  by (auto simp: pthread_rwlock_init_def PTHREAD_RWLOCK_INITIALIZER_def pthread_rwlock_wrlock_def
      wrlock_test_def pthread_rwlock_destroy_def split: option.splits)

end
