(* ===== verification/Rwlock_Cancel.thy ===== *)
theory Rwlock_Cancel
  imports Rwlock
begin

text \<open>
  Executions of \<^verbatim>\<open>unpv22e/my_rwlock_cancel\<close> in which threads that wait are cancelled: the calls exclude
  one another and the counters stay exact, but a cancelled writer can take a wake-up with it.
\<close>

section \<open>Executions\<close>

fun rwc_body :: "(rw_state, rw_cond, rw_call, rw_end) body" where
  "rwc_body t KRdlock s = rw_lock_outcome t False CondReaders KRdWake s (rdlock_cancel None (st_rw s))"
| "rwc_body t KRdWake s = rw_lock_outcome t False CondReaders KRdWake s (rdlock_wake_cancel None (st_rw s))"
| "rwc_body t KTryRd s = rw_lock_outcome t False CondReaders KRdWake s (tryrdlock_cancel None (st_rw s))"
| "rwc_body t KWrlock s = rw_lock_outcome t True CondWriters KWrWake s (wrlock_cancel None (st_rw s))"
| "rwc_body t KWrWake s = rw_lock_outcome t True CondWriters KWrWake s (wrlock_wake_cancel None (st_rw s))"
| "rwc_body t KTryWr s = rw_lock_outcome t True CondWriters KWrWake s (pthread_rwlock_trywrlock None (st_rw s))"
| "rwc_body t KUnlock s =
     (case unlock_cancel None None (st_rw s) of (rw, ws, e) \<Rightarrow>
        let s' = s\<lparr>st_rw := rw\<rparr>
        in (if e = RwReturn None
            then if t \<in> set (st_writers s) then s'\<lparr>st_writers := remove1 t (st_writers s)\<rparr>
                 else s'\<lparr>st_readers := remove1 t (st_readers s)\<rparr>
            else s', ws, Return e))"

text \<open>The handler a cancelled thread runs, by the point at which it waits.\<close>

definition cancelled :: "rw_call \<Rightarrow> rw_state \<Rightarrow> rw_state" where
  "cancelled k s = s\<lparr>st_rw := if k = KRdWake then rwlock_cancelrdwait (st_rw s) else rwlock_cancelwrwait (st_rw s)\<rparr>"

text \<open>
  A thread may be cancelled while it sleeps, or when it was woken and does not have the mutex yet;
  the signal that woke it is then lost, which POSIX allows when no other thread sleeps on that
  condition variable, and only that case is taken here.
\<close>

inductive rwc_reach :: "(rw_state, rw_cond, rw_call) mon \<Rightarrow> bool" where
  rwc_init: "rwc_reach (mon_init rw_initial)"
| rwc_step: "rwc_reach m \<Longrightarrow> mon_step rwc_body rw_may True m m' \<Longrightarrow> rwc_reach m'"
| cancel_asleep: "rwc_reach m \<Longrightarrow> mwait m = w1 @ (t, c, k) # w2 \<Longrightarrow>
     rwc_reach (m\<lparr>mshared := cancelled k (mshared m), mwait := w1 @ w2\<rparr>)"
| cancel_woken: "rwc_reach m \<Longrightarrow> mready m = r1 @ (t, k) # r2 \<Longrightarrow>
     (\<forall>(u, c, k') \<in> set (mwait m). k' \<noteq> k) \<Longrightarrow>
     rwc_reach (m\<lparr>mshared := cancelled k (mshared m), mready := r1 @ r2\<rparr>)"

section \<open>The invariant\<close>

lemma rwc_lock_counts:
  assumes "rw_counts s w r"
  shows "rw_lock_outcome t False CondReaders KRdWake s (rdlock_test (st_rw s)) = (s', ws, out) \<Longrightarrow>
      ws = [] \<and> rw_counts s' (sleep_on t out w) r \<and> out \<noteq> Return RwDump"
    and "rw_lock_outcome t True CondWriters KWrWake s (wrlock_test (st_rw s)) = (s', ws, out) \<Longrightarrow>
      ws = [] \<and> rw_counts s' (sleep_on t out w) r \<and> out \<noteq> Return RwDump"
proof -
  show "ws = [] \<and> rw_counts s' (sleep_on t out w) r \<and> out \<noteq> Return RwDump"
    if "rw_lock_outcome t False CondReaders KRdWake s (rdlock_test (st_rw s)) = (s', ws, out)"
    using assms that by (auto simp: rw_counts_def rw_holders_def rw_lock_outcome_def rdlock_test_def split: if_splits)
  show "ws = [] \<and> rw_counts s' (sleep_on t out w) r \<and> out \<noteq> Return RwDump"
    if "rw_lock_outcome t True CondWriters KWrWake s (wrlock_test (st_rw s)) = (s', ws, out)"
    using rw_wr_ok [OF assms that] by blast
qed

lemma rwc_unlock_counts:
  assumes cnt: "rw_counts s w r" and h: "t \<in> set (st_readers s) \<union> set (st_writers s)"
    and b: "rwc_body t KUnlock s = (s', ws, out)" and wk: "wake_steps ws (w, r) (w', r')"
  shows "rw_counts s' (sleep_on t out w') r' \<and> out = Return (RwReturn None)"
proof -
  have ref: "rw_refcount (st_rw s) > 0 \<or> rw_refcount (st_rw s) = -1" "rw_magic (st_rw s) = RW_MAGIC"
    using cnt h by (auto simp: rw_counts_def rw_holders_def)
  define rc where "rc = (if rw_refcount (st_rw s) > 0 then rw_refcount (st_rw s) - 1 else 0)"
  have u: "unlock_cancel None None (st_rw s) = ((st_rw s)\<lparr>rw_refcount := rc\<rparr>,
      if rw_nwaitwriters (st_rw s) > 0 then [Signal CondWriters] else if rw_nwaitreaders (st_rw s) > 0 then [Broadcast CondReaders] else [], RwReturn None)"
    using ref by (auto simp: unlock_cancel_def rc_def Let_def)
  then have s': "out = Return (RwReturn None)" "st_rw s' = (st_rw s)\<lparr>rw_refcount := rc\<rparr>" using b by (auto simp: Let_def)
  have "rw_holders s'"
  proof (cases "st_writers s = []")
    case True
    then have "s' = s\<lparr>st_rw := (st_rw s)\<lparr>rw_refcount := rc\<rparr>, st_readers := remove1 t (st_readers s)\<rparr>"
      "t \<in> set (st_readers s)" "rw_refcount (st_rw s) = int (length (st_readers s))"
      using h b cnt by (simp_all add: u rw_counts_def rw_holders_def)
    moreover from this(2) have "length (st_readers s) = Suc (length (remove1 t (st_readers s)))"
      using length_pos_if_in_set [of t "st_readers s"] by (simp add: length_remove1)
    ultimately show ?thesis using True by (simp add: rw_holders_def rc_def)
  next
    case False
    then show ?thesis using h b cnt by (auto simp: u rw_counts_def rw_holders_def rc_def)
  qed
  then have "rw_counts s' w r" using cnt by (simp add: rw_counts_def s')
  then show ?thesis using rw_counts_wake [OF _ wk] s' by simp
qed

lemma rwc_enter_counts:
  assumes cnt: "rw_counts s w r" and "rw_may t k s" and b: "rwc_body t k s = (s', ws, out)" and wk: "wake_steps ws (w, r) (w', r')"
  shows "rw_counts s' (sleep_on t out w') r' \<and> out \<noteq> Return RwDump"
proof -
  have m: "rw_magic (st_rw s) = RW_MAGIC" "rw_refcount (st_rw s) \<ge> -1" using cnt by (auto simp: rw_counts_def rw_holders_def)
  note L = rwc_lock_counts [OF cnt, of t s' ws out]
  have busy: "ws = [] \<and> rw_counts s' (sleep_on t out w) r \<and> out \<noteq> Return RwDump"
    if "rw_lock_outcome t x c k' s (st_rw s, RwReturn (Some EBUSY)) = (s', ws, out)" for x c k'
    using that cnt by (auto simp: rw_lock_outcome_def)
  show ?thesis
  proof (cases k)
    case KRdlock
    then show ?thesis using L(1) b wk m by (auto simp: rdlock_cancel_def)
  next
    case KTryRd
    then show ?thesis using L(1) busy b wk m by (auto simp: tryrdlock_cancel_def rdlock_test_def split: if_splits)
  next
    case KWrlock
    have "wrlock_cancel None (st_rw s) = wrlock_test (st_rw s)" using m by (simp add: wrlock_cancel_def wrlock_test_def)
    then show ?thesis using L(2) b wk KWrlock by auto
  next
    case KTryWr
    then show ?thesis using L(2) busy b wk m by (auto simp: pthread_rwlock_trywrlock_def wrlock_test_def split: if_splits)
  next
    case KUnlock
    then show ?thesis using rwc_unlock_counts [OF cnt _ _ wk, of t s' out] assms(2) b by auto
  qed (use assms(2) in simp_all)
qed

lemma rwc_resume_counts:
  assumes cnt: "rw_counts s w (r1 @ (t, k) # r2)" and b: "rwc_body t k s = (s', ws, out)" and wk: "wake_steps ws (w, r1 @ r2) (w', r')"
  shows "rw_counts s' (sleep_on t out w') r' \<and> out \<noteq> Return RwDump"
proof -
  consider "k = KRdWake" | "k = KWrWake" using rw_counts_resume(3) [OF cnt] by blast
  then show ?thesis
  proof cases
    case 1
    show ?thesis using rwc_lock_counts(1) [OF rw_counts_resume(1) [OF cnt 1], of t s' ws out] b wk 1
      by (auto simp: rdlock_wake_cancel_def rw_lock_outcome_rw)
  next
    case 2
    show ?thesis using rwc_lock_counts(2) [OF rw_counts_resume(2) [OF cnt 2], of t s' ws out] b wk 2
      by (auto simp: wrlock_wake_cancel_def rw_lock_outcome_rw)
  qed
qed

interpretation rwcmon: monitor_global rwc_body rw_may rw_counts
proof (unfold_locales, goal_cases)
  case 1
  then show ?case using rwc_enter_counts by blast
next
  case 2
  then show ?case using rwc_resume_counts by blast
next
  case (3 s w1 t c k w2 r)
  then show ?case
    using pending_wake_mid [of "(=) KRdWake" w1 w2 t k r c] pending_wake_mid [of "(=) KWrWake" w1 w2 t k r c]
    by (auto simp: rw_counts_def)
qed

lemma cancel_counts:
  assumes "rw_counts s w (r1 @ (t, k) # r2)"
  shows "rw_counts (cancelled k s) w (r1 @ r2)"
  using rw_counts_resume [OF assms] by (auto simp: cancelled_def rwlock_cancelrdwait_def rwlock_cancelwrwait_def)

lemma rwc_reach_counts: "rwc_reach m \<Longrightarrow> rw_counts (mshared m) (mwait m) (mready m)"
proof (induction rule: rwc_reach.induct)
  case rwc_init
  then show ?case using rw_initial_ok by (simp add: mon_init_def)
next
  case (rwc_step m m')
  then show ?case using rwcmon.step_global by blast
next
  case (cancel_asleep m w1 t c k w2)
  have "rw_counts (mshared m) (w1 @ w2) ([] @ (t, k) # mready m)"
    using rwcmon.spurious_keeps [of "mshared m" w1 t c k w2 "mready m"] cancel_asleep by simp
  then show ?case using cancel_counts by fastforce
next
  case (cancel_woken m r1 t k r2)
  then show ?case using cancel_counts by simp
qed

section \<open>Properties\<close>

text \<open>
  C10. The variant for cancellation excludes readers and writers in every execution, with threads cancelled
  at any wait: at most one thread has the lock for writing, and then none for reading; the two
  counters are exactly the calls that wait, since the handlers correct them; and no call finds an
  impossible reference count.
\<close>

theorem rwlock_cancel_exclusion:
  assumes "rwc_reach m"
  shows "length (st_writers (mshared m)) \<le> 1 \<and> (st_writers (mshared m) \<noteq> [] \<longrightarrow> st_readers (mshared m) = []) \<and>
    rw_nwaitreaders (st_rw (mshared m)) = int (pending ((=) KRdWake) (mwait m, mready m)) \<and>
    rw_nwaitwriters (st_rw (mshared m)) = int (pending ((=) KWrWake) (mwait m, mready m)) \<and>
    (\<forall>t k s' ws out. (t, k) \<in> set (mready m) \<or> rw_may t k (mshared m) \<longrightarrow>
       rwc_body t k (mshared m) = (s', ws, out) \<longrightarrow> out \<noteq> Return RwDump)"
proof -
  note cnt = rwc_reach_counts [OF assms]
  have "out \<noteq> Return RwDump"
    if "(t, k) \<in> set (mready m) \<or> rw_may t k (mshared m)" "rwc_body t k (mshared m) = (s', ws, out)" for t k s' ws out
    using that(1)
  proof
    assume "(t, k) \<in> set (mready m)"
    then obtain r1 r2 where r: "mready m = r1 @ (t, k) # r2" by (auto dest: split_list)
    obtain w' r' where "wake_steps ws (mwait m, r1 @ r2) (w', r')" using wake_steps_total by blast
    then show ?thesis using rwc_resume_counts [OF cnt [unfolded r] that(2)] by simp
  next
    assume e: "rw_may t k (mshared m)"
    obtain w' r' where "wake_steps ws (mwait m, mready m) (w', r')" using wake_steps_total by blast
    then show ?thesis using rwc_enter_counts [OF cnt e that(2)] by simp
  qed
  then show ?thesis using cnt by (auto simp: rw_counts_def rw_holders_def)
qed

text \<open>
  An execution: thread 1 locks for writing, thread 2 waits to read, thread 3 waits to write, thread 1
  unlocks, and thread 3, which the signal has woken, is cancelled.
\<close>

definition rwc_stuck :: "(rw_state, rw_cond, rw_call) mon" where
  "rwc_stuck =
     \<lparr>mshared = \<lparr>st_rw = \<lparr>rw_magic = RW_MAGIC, rw_nwaitreaders = 1, rw_nwaitwriters = 0, rw_refcount = 0\<rparr>,
                 st_readers = [], st_writers = []\<rparr>,
      mwait = [(2, CondReaders, KRdWake)], mready = []\<rparr>"

lemma rwc_enter:
  assumes "rwc_reach \<lparr>mshared = s, mwait = w, mready = r\<rparr>" and "rwc_body t k s = (s', ws, out)"
    and "t \<notin> fst ` set w \<union> fst ` set r" "rw_may t k s" "wake_steps ws (w, r) (w', r')"
  shows "rwc_reach \<lparr>mshared = s', mwait = sleep_on t out w', mready = r'\<rparr>"
  using mon_step.enter [of t "\<lparr>mshared = s, mwait = w, mready = r\<rparr>" rw_may k rwc_body s' ws out w' r' True] assms
  by (auto simp: mon_tids_def intro: rwc_step)

lemma rwc_stuck_reach: "rwc_reach rwc_stuck"
proof -
  let ?s = "\<lambda>nr nw. \<lparr>st_rw = \<lparr>rw_magic = RW_MAGIC, rw_nwaitreaders = nr, rw_nwaitwriters = nw, rw_refcount = -1\<rparr>,
                   st_readers = [], st_writers = [1 :: tid]\<rparr>"
  let ?u = "\<lparr>st_rw = \<lparr>rw_magic = RW_MAGIC, rw_nwaitreaders = 1, rw_nwaitwriters = 1, rw_refcount = 0\<rparr>, st_readers = [], st_writers = []\<rparr>"
  have 0: "rwc_reach \<lparr>mshared = rw_initial, mwait = [], mready = []\<rparr>" using rwc_init by (simp add: mon_init_def)
  have b1: "rwc_body 1 KWrlock rw_initial = (?s 0 0, [], Return (RwReturn None))"
    by (simp add: rw_initial_def PTHREAD_RWLOCK_INITIALIZER_def rw_lock_outcome_def wrlock_cancel_def)
  have 1: "rwc_reach \<lparr>mshared = ?s 0 0, mwait = [], mready = []\<rparr>" using rwc_enter [OF 0 b1, of "[]" "[]"] by simp
  have b2: "rwc_body 2 KRdlock (?s 0 0) = (?s 1 0, [], Wait CondReaders KRdWake)"
    by (simp add: rw_lock_outcome_def rdlock_cancel_def rdlock_test_def)
  have 2: "rwc_reach \<lparr>mshared = ?s 1 0, mwait = [(2, CondReaders, KRdWake)], mready = []\<rparr>"
    using rwc_enter [OF 1 b2, of "[]" "[]"] by simp
  have b3: "rwc_body 3 KWrlock (?s 1 0) = (?s 1 1, [], Wait CondWriters KWrWake)"
    by (simp add: rw_lock_outcome_def wrlock_cancel_def)
  have 3: "rwc_reach \<lparr>mshared = ?s 1 1, mwait = [(2, CondReaders, KRdWake), (3, CondWriters, KWrWake)], mready = []\<rparr>"
    using rwc_enter [OF 2 b3, of "[(2, CondReaders, KRdWake)]" "[]"] by simp
  have b4: "rwc_body 1 KUnlock (?s 1 1) = (?u, [Signal CondWriters], Return (RwReturn None))"
    by (simp add: unlock_cancel_def)
  have "wake_step (Signal CondWriters) ([(2 :: tid, CondReaders, KRdWake), (3, CondWriters, KWrWake)], [])
     ([(2, CondReaders, KRdWake)], [(3, KWrWake)])"
    using signal_one [of CondWriters "[(2, CondReaders, KRdWake)]" 3 KWrWake "[]" "[]"] by simp
  then have "rwc_reach \<lparr>mshared = ?u, mwait = [(2, CondReaders, KRdWake)], mready = [(3, KWrWake)]\<rparr>"
    using rwc_enter [OF 3 b4, of "[(2, CondReaders, KRdWake)]" "[(3, KWrWake)]"] by simp
  then show ?thesis using cancel_woken [of "\<lparr>mshared = ?u, mwait = [(2, CondReaders, KRdWake)], mready = [(3, KWrWake)]\<rparr>" "[]" 3 KWrWake "[]"]
    by (simp add: rwc_stuck_def cancelled_def rwlock_cancelwrwait_def)
qed

theorem rwlock_cancel_exclusion_witness:
  "rwc_reach rwc_stuck \<and> rw_nwaitwriters (st_rw (mshared rwc_stuck)) = int (pending ((=) KWrWake) (mwait rwc_stuck, mready rwc_stuck))"
  using rwlock_cancel_exclusion [OF rwc_stuck_reach] rwc_stuck_reach by simp


end
