(* ===== verification/Px_Sem.thy ===== *)
theory Px_Sem
  imports Monitor
begin

text \<open>
  Three implementations of POSIX named semaphores: \<^verbatim>\<open>src/unpv22e/my_pxsem_mmap\<close> with a
  mutex and a condition variable in a mapped file, \<^verbatim>\<open>my_pxsem_fifo\<close> with the bytes in
  a FIFO, and \<^verbatim>\<open>my_pxsem_svsem\<close> with a System V semaphore. They share one contract,
  the locale \<open>counting_semaphore\<close>.
\<close>

unbundle bit_operations_syntax

text \<open>How a call ends, or pauses until another process changes the semaphore.\<close>

datatype 'r sem_end = SReturn "errno + 'r" | SBlock

section \<open>The mapped-file semaphore\<close>

record mysem_mmap =
  sem_count :: "32 word"
  sem_magic_mmap :: "32 word"

definition SEM_MAGIC_mmap :: "32 word" where "SEM_MAGIC_mmap = 0x67458923"

definition mysem_post_mmap :: "rc \<Rightarrow> mysem_mmap \<Rightarrow> mysem_mmap \<times> unit wake list \<times> unit sem_end" where
  "mysem_post_mmap lk sem =
     (if sem_magic_mmap sem \<noteq> SEM_MAGIC_mmap then (sem, [], SReturn (Inl EINVAL))
      else case lk of Some n \<Rightarrow> (sem, [], SReturn (Inl n))
      | None \<Rightarrow> (sem\<lparr>sem_count := sem_count sem + 1\<rparr>,
                 if sem_count sem = 0 then [Signal ()] else [], SReturn (Inr ())))"

text \<open>The loop's test, and the decrement once it is left.\<close>

definition mysem_wait_test :: "mysem_mmap \<Rightarrow> mysem_mmap \<times> unit wake list \<times> unit sem_end" where
  "mysem_wait_test sem =
     (if sem_count sem = 0 then (sem, [], SBlock)
      else (sem\<lparr>sem_count := sem_count sem - 1\<rparr>, [], SReturn (Inr ())))"

definition mysem_wait_mmap :: "rc \<Rightarrow> mysem_mmap \<Rightarrow> mysem_mmap \<times> unit wake list \<times> unit sem_end" where
  "mysem_wait_mmap lk sem =
     (if sem_magic_mmap sem \<noteq> SEM_MAGIC_mmap then (sem, [], SReturn (Inl EINVAL))
      else case lk of Some n \<Rightarrow> (sem, [], SReturn (Inl n)) | None \<Rightarrow> mysem_wait_test sem)"

definition mysem_trywait_mmap :: "rc \<Rightarrow> mysem_mmap \<Rightarrow> mysem_mmap \<times> (errno + unit)" where
  "mysem_trywait_mmap lk sem =
     (if sem_magic_mmap sem \<noteq> SEM_MAGIC_mmap then (sem, Inl EINVAL)
      else case lk of Some n \<Rightarrow> (sem, Inl n)
      | None \<Rightarrow> if sem_count sem > 0 then (sem\<lparr>sem_count := sem_count sem - 1\<rparr>, Inr ())
                else (sem, Inl EAGAIN))"

definition mysem_getvalue_mmap :: "rc \<Rightarrow> mysem_mmap \<Rightarrow> errno + int" where
  "mysem_getvalue_mmap lk sem =
     (if sem_magic_mmap sem \<noteq> SEM_MAGIC_mmap then Inl EINVAL
      else case lk of Some n \<Rightarrow> Inl n | None \<Rightarrow> Inr (sint (sem_count sem)))"

text \<open>
  Opening. As for the message queues, one \<open>sem_env\<close> per pass through the label
  \<^verbatim>\<open>again\<close> says what the system calls report, and the result lists the calls made.
\<close>

record sem_env =
  se_creat :: rc
  se_write :: rc
  se_mmap :: rc
  se_mutexattr :: rc
  se_mutex :: rc
  se_condattr :: rc
  se_cond :: rc
  se_fchmod :: rc
  se_open :: rc
  se_stat :: "nat \<Rightarrow> errno + 32 word"

datatype sem_sys = SMmap | SMunmap | SUnlink | SClose | SFchmod "32 word"

type_synonym sem_opened = "sem_sys list \<times> (errno + mysem_mmap option)"

definition sem_O_CREAT :: "32 word" where "sem_O_CREAT = 64"
definition sem_O_EXCL :: "32 word" where "sem_O_EXCL = 128"
definition sem_S_IXUSR :: "32 word" where "sem_S_IXUSR = 64"
definition sem_MAX_TRIES :: nat where "sem_MAX_TRIES = 10"

definition sem_open_err :: "bool \<Rightarrow> bool \<Rightarrow> errno \<Rightarrow> sem_opened" where
  "sem_open_err created mapped e =
     ((if created then [SUnlink] else []) @ (if mapped then [SMunmap] else []) @ [SClose], Inl e)"

definition sem_then :: "sem_sys list \<Rightarrow> sem_opened \<Rightarrow> sem_opened" where
  "sem_then cs r = (cs @ fst r, snd r)"

text \<open>\<open>mapped\<close>: an earlier pass left a mapping behind in \<^verbatim>\<open>sem\<close>.\<close>

definition sem_open_create ::
  "int \<Rightarrow> 32 word \<Rightarrow> 32 word \<Rightarrow> sem_env \<Rightarrow> bool \<Rightarrow> sem_opened" where
  "sem_open_create value_max mode value ev mapped =
     (case se_write ev of Some e \<Rightarrow> sem_open_err True mapped e
      | None \<Rightarrow> (case se_mmap ev of Some e \<Rightarrow> sem_open_err True False e
      | None \<Rightarrow> sem_then [SMmap]
         (case se_mutexattr ev of Some e \<Rightarrow> sem_open_err True True e
      | None \<Rightarrow> (case se_mutex ev of Some e \<Rightarrow> sem_open_err True True e
      | None \<Rightarrow> (case se_condattr ev of Some e \<Rightarrow> sem_open_err True True e
      | None \<Rightarrow> (case se_cond ev of Some e \<Rightarrow> sem_open_err True True e
      | None \<Rightarrow>
         if uint value > value_max then sem_open_err True True EINVAL
         else (case se_fchmod ev of Some e \<Rightarrow> sem_open_err True True e
      | None \<Rightarrow> ([SFchmod mode, SClose],
                 Inr (Some \<lparr>sem_count = value, sem_magic_mmap = SEM_MAGIC_mmap\<rparr>)))))))))"

fun sem_wait_init :: "bool \<Rightarrow> (nat \<Rightarrow> errno + 32 word) \<Rightarrow> nat \<Rightarrow> nat \<Rightarrow> sem_sys list + sem_opened" where
  "sem_wait_init creat st i 0 = Inr (sem_open_err False True ETIMEDOUT)"
| "sem_wait_init creat st i (Suc n) =
     (case st i of
        Inl e \<Rightarrow> if e = ENOENT \<and> creat then Inl [SClose] else Inr (sem_open_err False True e)
      | Inr mode \<Rightarrow> if mode AND sem_S_IXUSR = 0 then Inr ([SClose], Inr None)
                    else sem_wait_init creat st (Suc i) n)"

text \<open>\<open>Inl\<close>: a jump back to \<^verbatim>\<open>again\<close>, with the calls made and whether \<^verbatim>\<open>sem\<close> is mapped.\<close>

definition sem_open_exists ::
  "bool \<Rightarrow> sem_env \<Rightarrow> bool \<Rightarrow> (sem_sys list \<times> bool) + sem_opened" where
  "sem_open_exists creat ev mapped =
     (case se_open ev of
        Some e \<Rightarrow> if e = ENOENT \<and> creat then Inl ([], mapped) else Inr (sem_open_err False mapped e)
      | None \<Rightarrow>
        (case se_mmap ev of Some e \<Rightarrow> Inr (sem_open_err False False e)
         | None \<Rightarrow>
           (case sem_wait_init creat (se_stat ev) 0 sem_MAX_TRIES of
              Inl cs \<Rightarrow> Inl (SMmap # cs, True)
            | Inr r \<Rightarrow> Inr (sem_then [SMmap] r))))"

text \<open>
  The whole call; \<^const>\<open>None\<close> when every given pass jumped back. A returned semaphore
  is the one this call made; without one it existed already.
\<close>

fun mysem_open_mmap ::
  "int \<Rightarrow> 32 word \<Rightarrow> 32 word \<Rightarrow> 32 word \<Rightarrow> sem_env list \<Rightarrow> bool \<Rightarrow> sem_opened option" where
  "mysem_open_mmap value_max oflag mode0 value [] mapped = None"
| "mysem_open_mmap value_max oflag mode0 value (ev # evs) mapped =
     (let creat = (oflag AND sem_O_CREAT \<noteq> 0);
          exists = (case sem_open_exists creat ev mapped of
                      Inr r \<Rightarrow> Some r
                    | Inl (cs, mapped') \<Rightarrow>
                        map_option (sem_then cs) (mysem_open_mmap value_max oflag mode0 value evs mapped'))
      in if creat then
           case se_creat ev of
             None \<Rightarrow> Some (sem_open_create value_max (mode0 AND NOT sem_S_IXUSR) value ev mapped)
           | Some e \<Rightarrow> if e = EEXIST \<and> oflag AND sem_O_EXCL = 0 then exists else Some ([], Inl e)
         else exists)"

definition mysem_close_mmap :: "rc \<Rightarrow> mysem_mmap \<Rightarrow> sem_sys list \<times> (errno + unit)" where
  "mysem_close_mmap um sem =
     (if sem_magic_mmap sem \<noteq> SEM_MAGIC_mmap then ([], Inl EINVAL)
      else case um of Some e \<Rightarrow> ([], Inl e) | None \<Rightarrow> ([SMunmap], Inr ()))"

definition mysem_unlink_mmap :: "rc \<Rightarrow> sem_sys list \<times> (errno + unit)" where
  "mysem_unlink_mmap ul = (case ul of Some e \<Rightarrow> ([], Inl e) | None \<Rightarrow> ([SUnlink], Inr ()))"

section \<open>The FIFO semaphore\<close>

text \<open>
  The value is the number of bytes in the FIFO. The write end is non-blocking, so a write
  to a full pipe reports \<^verbatim>\<open>EAGAIN\<close>; the read end blocks, and since the process itself
  holds the write end, an empty pipe never reads as end of file.
\<close>

record mysem_fifo =
  fifo_bytes :: nat
  fifo_capacity :: nat
  sem_magic_fifo :: "32 word"

definition SEM_MAGIC_fifo :: "32 word" where "SEM_MAGIC_fifo = 0x89674523"

definition mysem_post_fifo :: "mysem_fifo \<Rightarrow> mysem_fifo \<times> unit sem_end" where
  "mysem_post_fifo sem =
     (if sem_magic_fifo sem \<noteq> SEM_MAGIC_fifo then (sem, SReturn (Inl EINVAL))
      else if fifo_bytes sem < fifo_capacity sem
      then (sem\<lparr>fifo_bytes := fifo_bytes sem + 1\<rparr>, SReturn (Inr ()))
      else (sem, SReturn (Inl EAGAIN)))"

definition mysem_wait_fifo :: "mysem_fifo \<Rightarrow> mysem_fifo \<times> unit sem_end" where
  "mysem_wait_fifo sem =
     (if sem_magic_fifo sem \<noteq> SEM_MAGIC_fifo then (sem, SReturn (Inl EINVAL))
      else if fifo_bytes sem > 0
      then (sem\<lparr>fifo_bytes := fifo_bytes sem - 1\<rparr>, SReturn (Inr ()))
      else (sem, SBlock))"

text \<open>The loop that writes the initial value; \<open>Inl\<close> when a write fails.\<close>

fun fifo_fill :: "nat \<Rightarrow> nat \<Rightarrow> nat \<Rightarrow> errno + nat" where
  "fifo_fill capacity bytes 0 = Inr bytes"
| "fifo_fill capacity bytes (Suc n) =
     (if bytes < capacity then fifo_fill capacity (bytes + 1) n else Inl EAGAIN)"

text \<open>
  \<open>mk\<close>, \<open>ma\<close>, \<open>o0\<close>, \<open>o1\<close>, \<open>gf\<close> and \<open>sf\<close> are what \<^verbatim>\<open>mkfifo\<close>, \<^verbatim>\<open>malloc\<close>, the two
  \<^verbatim>\<open>open\<close> calls and the two \<^verbatim>\<open>fcntl\<close> calls report; \<open>old\<close> is the number of bytes in
  a FIFO that exists. The list says whether the FIFO was unlinked.
\<close>

definition mysem_open_fifo ::
  "32 word \<Rightarrow> 32 word \<Rightarrow> nat \<Rightarrow> nat \<Rightarrow> rc \<Rightarrow> rc \<Rightarrow> rc \<Rightarrow> rc \<Rightarrow> rc \<Rightarrow> rc \<Rightarrow> sem_sys list \<times> (errno + mysem_fifo)" where
  "mysem_open_fifo oflag0 value capacity old mk ma o0 o1 gf sf =
     (if oflag0 AND sem_O_CREAT \<noteq> 0 \<and> mk \<noteq> None \<and> \<not> (mk = Some EEXIST \<and> oflag0 AND sem_O_EXCL = 0)
      then ([], Inl (the mk))
      else
        let created = (oflag0 AND sem_O_CREAT \<noteq> 0 \<and> mk = None);
            fail = (\<lambda>e. ((if created then [SUnlink] else []) @ [SClose, SClose], Inl e))
        in case ma of Some e \<Rightarrow> ([], Inl e)
        | None \<Rightarrow> (case o0 of Some e \<Rightarrow> fail e
        | None \<Rightarrow> (case o1 of Some e \<Rightarrow> fail e
        | None \<Rightarrow> (case gf of Some e \<Rightarrow> fail e
        | None \<Rightarrow> (case sf of Some e \<Rightarrow> fail e
        | None \<Rightarrow>
            if created then
              case fifo_fill capacity 0 (unat value) of
                Inl e \<Rightarrow> fail e
              | Inr n \<Rightarrow> ([], Inr \<lparr>fifo_bytes = n, fifo_capacity = capacity, sem_magic_fifo = SEM_MAGIC_fifo\<rparr>)
            else ([], Inr \<lparr>fifo_bytes = old, fifo_capacity = capacity, sem_magic_fifo = SEM_MAGIC_fifo\<rparr>))))))"

definition mysem_close_fifo :: "rc \<Rightarrow> rc \<Rightarrow> mysem_fifo \<Rightarrow> mysem_fifo \<times> (errno + unit)" where
  "mysem_close_fifo c0 c1 sem =
     (if sem_magic_fifo sem \<noteq> SEM_MAGIC_fifo then (sem, Inl EINVAL)
      else (sem\<lparr>sem_magic_fifo := 0\<rparr>,
            case c0 of Some e \<Rightarrow> Inl e | None \<Rightarrow> (case c1 of Some e \<Rightarrow> Inl e | None \<Rightarrow> Inr ())))"

definition mysem_unlink_fifo :: "rc \<Rightarrow> sem_sys list \<times> (errno + unit)" where
  "mysem_unlink_fifo ul = (case ul of Some e \<Rightarrow> ([], Inl e) | None \<Rightarrow> ([SUnlink], Inr ()))"

section \<open>The System V semaphore\<close>

text \<open>
  The kernel's semaphore: its value and whether an operation has been performed on it
  (\<^verbatim>\<open>sem_otime\<close>). \<open>semop1\<close> is \<^verbatim>\<open>semop\<close> with one operation; 34 is \<^verbatim>\<open>ERANGE\<close>.
\<close>

record svsem_set =
  sv_val :: int
  sv_otime :: bool

definition SEMVMX :: int where "SEMVMX = 32767"

definition semop1 :: "int \<Rightarrow> bool \<Rightarrow> svsem_set \<Rightarrow> svsem_set \<times> unit sem_end" where
  "semop1 sem_op nowait s =
     (if sem_op > 0 then
        if sv_val s + sem_op > SEMVMX then (s, SReturn (Inl (EOther 34)))
        else (s\<lparr>sv_val := sv_val s + sem_op, sv_otime := True\<rparr>, SReturn (Inr ()))
      else if sem_op < 0 \<and> sv_val s \<ge> - sem_op \<or> sem_op = 0 \<and> sv_val s = 0
      then (s\<lparr>sv_val := sv_val s + sem_op, sv_otime := True\<rparr>, SReturn (Inr ()))
      else if nowait then (s, SReturn (Inl EAGAIN)) else (s, SBlock))"

record mysem_svsem =
  sem_semid :: svsem_set
  sem_magic_svsem :: "32 word"

definition SEM_MAGIC_svsem :: "32 word" where "SEM_MAGIC_svsem = 0x45678923"

definition mysem_op_svsem :: "int \<Rightarrow> bool \<Rightarrow> mysem_svsem \<Rightarrow> mysem_svsem \<times> unit sem_end" where
  "mysem_op_svsem sem_op nowait sem =
     (if sem_magic_svsem sem \<noteq> SEM_MAGIC_svsem then (sem, SReturn (Inl EINVAL))
      else case semop1 sem_op nowait (sem_semid sem) of (s, e) \<Rightarrow> (sem\<lparr>sem_semid := s\<rparr>, e))"

definition mysem_post_svsem :: "mysem_svsem \<Rightarrow> mysem_svsem \<times> unit sem_end" where
  "mysem_post_svsem = mysem_op_svsem 1 False"

definition mysem_wait_svsem :: "mysem_svsem \<Rightarrow> mysem_svsem \<times> unit sem_end" where
  "mysem_wait_svsem = mysem_op_svsem (-1) False"

definition mysem_trywait_svsem :: "mysem_svsem \<Rightarrow> mysem_svsem \<times> unit sem_end" where
  "mysem_trywait_svsem = mysem_op_svsem (-1) True"

definition mysem_getvalue_svsem :: "rc \<Rightarrow> mysem_svsem \<Rightarrow> errno + int" where
  "mysem_getvalue_svsem ctl sem =
     (if sem_magic_svsem sem \<noteq> SEM_MAGIC_svsem then Inl EINVAL
      else case ctl of Some e \<Rightarrow> Inl e | None \<Rightarrow> Inr (sv_val (sem_semid sem)))"

definition mysem_close_svsem :: "mysem_svsem \<Rightarrow> mysem_svsem \<times> (errno + unit)" where
  "mysem_close_svsem sem =
     (if sem_magic_svsem sem \<noteq> SEM_MAGIC_svsem then (sem, Inl EINVAL)
      else (sem\<lparr>sem_magic_svsem := 0\<rparr>, Inr ()))"

text \<open>What the calls report to \<^verbatim>\<open>mysem_open\<close>; \<open>sv_stat i\<close> is the \<open>i\<close>-th \<^verbatim>\<open>IPC_STAT\<close>.\<close>

record sv_env =
  sv_open :: rc
  sv_ftok :: rc
  sv_semget_excl :: rc
  sv_setval :: rc
  sv_initop :: rc
  sv_ftok2 :: rc
  sv_semget :: rc
  sv_stat :: "nat \<Rightarrow> errno + svsem_set"
  sv_malloc :: rc

text \<open>The result says whether the error path removed the semaphore with \<^verbatim>\<open>IPC_RMID\<close>.\<close>

definition sv_finish :: "sv_env \<Rightarrow> svsem_set \<Rightarrow> bool \<times> (errno + mysem_svsem)" where
  "sv_finish ev s =
     (case sv_malloc ev of Some e \<Rightarrow> (True, Inl e)
      | None \<Rightarrow> (False, Inr \<lparr>sem_semid = s, sem_magic_svsem = SEM_MAGIC_svsem\<rparr>))"

fun sv_wait_init :: "sv_env \<Rightarrow> nat \<Rightarrow> nat \<Rightarrow> bool \<times> (errno + mysem_svsem)" where
  "sv_wait_init ev i 0 = (True, Inl ETIMEDOUT)"
| "sv_wait_init ev i (Suc n) =
     (case sv_stat ev i of
        Inl e \<Rightarrow> (True, Inl e)
      | Inr s \<Rightarrow> if sv_otime s then sv_finish ev s else sv_wait_init ev (Suc i) n)"

definition sv_open_exists :: "sv_env \<Rightarrow> bool \<times> (errno + mysem_svsem)" where
  "sv_open_exists ev =
     (case sv_ftok2 ev of Some e \<Rightarrow> (False, Inl e)
      | None \<Rightarrow> (case sv_semget ev of Some e \<Rightarrow> (False, Inl e)
      | None \<Rightarrow> sv_wait_init ev 0 sem_MAX_TRIES))"

definition mysem_open_svsem :: "32 word \<Rightarrow> 32 word \<Rightarrow> sv_env \<Rightarrow> bool \<times> (errno + mysem_svsem)" where
  "mysem_open_svsem oflag value ev =
     (if oflag AND sem_O_CREAT \<noteq> 0 then
        case sv_open ev of Some e \<Rightarrow> (False, Inl e)
      | None \<Rightarrow> (case sv_ftok ev of Some e \<Rightarrow> (False, Inl e)
      | None \<Rightarrow> (case sv_semget_excl ev of
          Some e \<Rightarrow> if e \<noteq> EEXIST \<or> oflag AND sem_O_EXCL \<noteq> 0 then (False, Inl e) else sv_open_exists ev
        | None \<Rightarrow> (case sv_setval ev of Some e \<Rightarrow> (True, Inl e)
          | None \<Rightarrow>
              if uint value > SEMVMX then (True, Inl EINVAL)
              else (case sv_initop ev of Some e \<Rightarrow> (True, Inl e)
              | None \<Rightarrow> sv_finish ev (fst (semop1 (uint value) False \<lparr>sv_val = 0, sv_otime = False\<rparr>))))))
      else sv_open_exists ev)"

definition mysem_unlink_svsem :: "rc \<Rightarrow> rc \<Rightarrow> rc \<Rightarrow> rc \<Rightarrow> sem_sys list \<times> bool \<times> (errno + unit)" where
  "mysem_unlink_svsem ft ul sg rm =
     (case ft of Some e \<Rightarrow> ([], False, Inl e)
      | None \<Rightarrow> (case ul of Some e \<Rightarrow> ([], False, Inl e)
      | None \<Rightarrow> (case sg of Some e \<Rightarrow> ([SUnlink], False, Inl e)
      | None \<Rightarrow> (case rm of Some e \<Rightarrow> ([SUnlink], False, Inl e)
      | None \<Rightarrow> ([SUnlink], True, Inr ())))))"

section \<open>The contract\<close>

text \<open>
  A counting semaphore: \<open>post\<close> adds one to the value while it is below \<open>cap\<close>, \<open>down\<close>
  takes one away, and does not return when the value is 0. The client of the contract is
  \<open>sem_run\<close>, any sequence of the two operations (\<^const>\<open>True\<close> is a post): it completes
  exactly when no prefix takes more than the initial value and the posts before it give.
\<close>

fun sem_run :: "('s \<Rightarrow> 's option) \<Rightarrow> ('s \<Rightarrow> 's option) \<Rightarrow> bool list \<Rightarrow> 's \<Rightarrow> 's option" where
  "sem_run post down [] s = Some s"
| "sem_run post down (b # bs) s = Option.bind (if b then post s else down s) (sem_run post down bs)"

definition sem_credit :: "bool list \<Rightarrow> int" where
  "sem_credit bs = int (length (filter id bs)) - int (length (filter Not bs))"

lemma sem_credit_simps [simp]:
  "sem_credit [] = 0" "sem_credit (b # bs) = (if b then 1 else -1) + sem_credit bs"
  by (simp_all add: sem_credit_def)

definition sem_allowed :: "int \<Rightarrow> int \<Rightarrow> bool list \<Rightarrow> bool" where
  "sem_allowed cap v bs \<longleftrightarrow> (\<forall>n \<le> length bs. 0 \<le> v + sem_credit (take n bs) \<and> v + sem_credit (take n bs) \<le> cap)"

lemma sem_allowed_Nil: "sem_allowed cap v [] \<longleftrightarrow> 0 \<le> v \<and> v \<le> cap"
  by (simp add: sem_allowed_def)

lemma sem_allowed_Cons:
  "sem_allowed cap v (b # bs) \<longleftrightarrow> 0 \<le> v \<and> v \<le> cap \<and> sem_allowed cap (v + (if b then 1 else -1)) bs"
proof -
  have "(\<forall>n \<le> Suc (length bs). P n) \<longleftrightarrow> P 0 \<and> (\<forall>n \<le> length bs. P (Suc n))" for P
    by (metis Suc_le_mono bot_nat_0.extremum nat.exhaust)
  then show ?thesis by (simp add: sem_allowed_def algebra_simps)
qed

locale counting_semaphore =
  fixes post down :: "'s \<Rightarrow> 's option"
    and val cap :: "'s \<Rightarrow> int"
    and ok :: "'s \<Rightarrow> bool"
  assumes val_range: "ok s \<Longrightarrow> 0 \<le> val s \<and> val s \<le> cap s"
    and post_law: "ok s \<Longrightarrow> val s < cap s \<Longrightarrow>
      \<exists>s'. post s = Some s' \<and> ok s' \<and> val s' = val s + 1 \<and> cap s' = cap s"
    and down_law: "ok s \<Longrightarrow> 0 < val s \<Longrightarrow>
      \<exists>s'. down s = Some s' \<and> ok s' \<and> val s' = val s - 1 \<and> cap s' = cap s"
    and down_blocks: "ok s \<Longrightarrow> val s = 0 \<Longrightarrow> down s = None"
begin

lemma run_completes:
  assumes "ok s" "sem_allowed (cap s) (val s) bs"
  shows "\<exists>s'. sem_run post down bs s = Some s' \<and> ok s' \<and> val s' = val s + sem_credit bs"
  using assms
proof (induction bs arbitrary: s)
  case (Cons b bs)
  show ?case
  proof (cases b)
    case True
    with Cons.prems have "sem_allowed (cap s) (val s + 1) bs" by (simp add: sem_allowed_Cons)
    moreover from this have "val s < cap s" by (cases bs) (simp_all add: sem_allowed_Nil sem_allowed_Cons)
    ultimately show ?thesis using True Cons.IH post_law [OF Cons.prems(1)] by force
  next
    case False
    with Cons.prems have "sem_allowed (cap s) (val s - 1) bs" by (simp add: sem_allowed_Cons)
    moreover from this have "0 < val s" by (cases bs) (simp_all add: sem_allowed_Nil sem_allowed_Cons)
    ultimately show ?thesis using False Cons.IH down_law [OF Cons.prems(1)] by force
  qed
qed simp

text \<open>A run that completes takes nothing that was not there.\<close>

lemma run_conserves:
  assumes "ok s" "sem_run post down bs s = Some s'" "val s + int (length bs) \<le> cap s"
  shows "ok s' \<and> val s' = val s + sem_credit bs \<and> sem_allowed (cap s) (val s) bs"
  using assms
proof (induction bs arbitrary: s)
  case Nil
  then show ?case using val_range by (simp add: sem_allowed_Nil)
next
  case (Cons b bs)
  have r: "0 \<le> val s \<and> val s \<le> cap s" using val_range Cons.prems(1) .
  show ?case
  proof (cases b)
    case True
    obtain s1 where s1: "post s = Some s1" "ok s1" "val s1 = val s + 1" "cap s1 = cap s"
      using post_law [OF Cons.prems(1)] Cons.prems(3) by auto
    then show ?thesis using Cons.IH [of s1] Cons.prems(2,3) True r by (simp add: sem_allowed_Cons)
  next
    case False
    with Cons.prems(2) down_blocks [OF Cons.prems(1)] have "0 < val s" using r by force
    then obtain s1 where s1: "down s = Some s1" "ok s1" "val s1 = val s - 1" "cap s1 = cap s"
      using down_law [OF Cons.prems(1)] by auto
    then show ?thesis using Cons.IH [of s1] Cons.prems(2,3) False r by (simp add: sem_allowed_Cons)
  qed
qed

end

section \<open>The three implementations meet the contract\<close>

definition sem_done :: "'s \<times> unit sem_end \<Rightarrow> 's option" where
  "sem_done r = (case r of (s, SReturn (Inr _)) \<Rightarrow> Some s | _ \<Rightarrow> None)"

definition up_mmap :: "mysem_mmap \<Rightarrow> mysem_mmap option" where
  "up_mmap sem = (case mysem_post_mmap None sem of (s, ws, e) \<Rightarrow> sem_done (s, e))"

definition down_mmap :: "mysem_mmap \<Rightarrow> mysem_mmap option" where
  "down_mmap sem = (case mysem_wait_mmap None sem of (s, ws, e) \<Rightarrow> sem_done (s, e))"

lemma uint_inc: "uint w < 2 ^ 32 - 1 \<Longrightarrow> uint (w + 1) = uint w + 1" for w :: "32 word"
  by (simp add: uint_word_ariths)

lemma uint_dec: "w \<noteq> 0 \<Longrightarrow> uint (w - 1) = uint w - 1" for w :: "32 word"
  by (metis uint_minus_simple_alt word_less_1 word_not_simps(1) linorder_not_less uint_1 word_le_def word_neq_0_conv)

lemma uint_range32: "0 \<le> uint w \<and> uint w \<le> 2 ^ 32 - 1" for w :: "32 word"
  using uint_lt2p [of w] by simp

interpretation sem_mmap: counting_semaphore up_mmap down_mmap "\<lambda>s. uint (sem_count s)" "\<lambda>s. 2 ^ 32 - 1"
  "\<lambda>s. sem_magic_mmap s = SEM_MAGIC_mmap"
proof (unfold_locales, goal_cases)
  case (1 s)
  show ?case by (rule uint_range32)
next
  case (2 s)
  then show ?case by (simp add: up_mmap_def mysem_post_mmap_def sem_done_def uint_inc)
next
  case (3 s)
  then have "sem_count s \<noteq> 0" by auto
  with 3 show ?case by (simp add: down_mmap_def mysem_wait_mmap_def mysem_wait_test_def sem_done_def uint_dec)
next
  case (4 s)
  then show ?case by (simp add: down_mmap_def mysem_wait_mmap_def mysem_wait_test_def sem_done_def uint_0_iff)
qed

interpretation sem_fifo: counting_semaphore "sem_done \<circ> mysem_post_fifo" "sem_done \<circ> mysem_wait_fifo"
  "\<lambda>s. int (fifo_bytes s)" "\<lambda>s. int (fifo_capacity s)"
  "\<lambda>s. sem_magic_fifo s = SEM_MAGIC_fifo \<and> fifo_bytes s \<le> fifo_capacity s"
  by unfold_locales (auto simp: sem_done_def mysem_post_fifo_def mysem_wait_fifo_def)

interpretation sem_svsem: counting_semaphore "sem_done \<circ> mysem_post_svsem" "sem_done \<circ> mysem_wait_svsem"
  "\<lambda>s. sv_val (sem_semid s)" "\<lambda>s. SEMVMX"
  "\<lambda>s. sem_magic_svsem s = SEM_MAGIC_svsem \<and> 0 \<le> sv_val (sem_semid s) \<and> sv_val (sem_semid s) \<le> SEMVMX"
  by unfold_locales (auto simp: sem_done_def mysem_post_svsem_def mysem_wait_svsem_def mysem_op_svsem_def semop1_def)

section \<open>Threads on one mapped semaphore\<close>

text \<open>The state adds to the semaphore how many posts and how many waits have returned.\<close>

record sem_state =
  ss_sem :: mysem_mmap
  ss_posts :: nat
  ss_waits :: nat

datatype sem_call = KPost | KWait | KWaitWake | KTryWait

definition sem_wait_outcome ::
  "sem_state \<Rightarrow> mysem_mmap \<times> unit wake list \<times> unit sem_end \<Rightarrow>
   sem_state \<times> unit wake list \<times> (sem_call, unit, unit sem_end) outcome" where
  "sem_wait_outcome s r =
     (case r of (sem, ws, e) \<Rightarrow>
        (if e = SReturn (Inr ()) then s\<lparr>ss_sem := sem, ss_waits := ss_waits s + 1\<rparr> else s\<lparr>ss_sem := sem\<rparr>,
         ws, if e = SBlock then Wait () KWaitWake else Return e))"

fun sem_body :: "(sem_state, unit, sem_call, unit sem_end) body" where
  "sem_body t KPost s =
     (case mysem_post_mmap None (ss_sem s) of (sem, ws, e) \<Rightarrow>
        (if e = SReturn (Inr ()) then s\<lparr>ss_sem := sem, ss_posts := ss_posts s + 1\<rparr> else s\<lparr>ss_sem := sem\<rparr>,
         ws, Return e))"
| "sem_body t KWait s = sem_wait_outcome s (mysem_wait_mmap None (ss_sem s))"
| "sem_body t KWaitWake s = sem_wait_outcome s (mysem_wait_test (ss_sem s))"
| "sem_body t KTryWait s =
     (case mysem_trywait_mmap None (ss_sem s) of (sem, r) \<Rightarrow>
        (if r = Inr () then s\<lparr>ss_sem := sem, ss_waits := ss_waits s + 1\<rparr> else s\<lparr>ss_sem := sem\<rparr>,
         [], Return (SReturn r)))"

text \<open>Nobody posts a semaphore that has reached the largest value.\<close>

fun sem_may :: "tid \<Rightarrow> sem_call \<Rightarrow> sem_state \<Rightarrow> bool" where
  "sem_may t KPost s \<longleftrightarrow> uint (sem_count (ss_sem s)) < 2 ^ 32 - 1"
| "sem_may t KWaitWake s \<longleftrightarrow> False"
| "sem_may t k s \<longleftrightarrow> True"

definition sem_inv :: "int \<Rightarrow> sem_state \<Rightarrow> bool" where
  "sem_inv v s \<longleftrightarrow> sem_magic_mmap (ss_sem s) = SEM_MAGIC_mmap \<and>
     uint (sem_count (ss_sem s)) + int (ss_waits s) = v + int (ss_posts s)"

definition sem_ok :: "int \<Rightarrow> sem_state \<Rightarrow> (tid \<times> unit \<times> sem_call) list \<Rightarrow> (tid \<times> sem_call) list \<Rightarrow> bool" where
  "sem_ok v s w r \<longleftrightarrow> sem_inv v s \<and> (\<forall>(t, k) \<in> mon_calls (w, r). k = KWaitWake)"

lemma sem_body_keeps:
  assumes "sem_inv v s" and "sem_may t k s \<or> k = KWaitWake" and "sem_body t k s = (s', ws, out)"
  shows "sem_inv v s' \<and> (\<forall>c k'. out = Wait c k' \<longrightarrow> k' = KWaitWake)"
proof (cases k)
  case KPost
  with assms show ?thesis by (auto simp: sem_inv_def mysem_post_mmap_def uint_inc)
next
  case KWait
  with assms show ?thesis
    by (auto simp: sem_inv_def mysem_wait_mmap_def sem_wait_outcome_def mysem_wait_test_def uint_dec split: if_splits)
next
  case KWaitWake
  with assms show ?thesis
    by (auto simp: sem_inv_def sem_wait_outcome_def mysem_wait_test_def uint_dec split: if_splits)
next
  case KTryWait
  with assms show ?thesis
    by (auto simp: sem_inv_def mysem_trywait_mmap_def uint_dec word_neq_0_conv [symmetric] split: if_splits)
qed

interpretation semmon: monitor_global sem_body sem_may "sem_ok v" for v
proof (unfold_locales, goal_cases)
  case (1 s w r t k s' ws out w' r')
  then have "sem_inv v s' \<and> (\<forall>c k'. out = Wait c k' \<longrightarrow> k' = KWaitWake)"
    using sem_body_keeps [of v s t k s' ws out] by (auto simp: sem_ok_def)
  with 1 wake_steps_calls [OF 1(4)] show ?case
    by (cases out) (auto simp: sem_ok_def mon_calls_def)
next
  case (2 s w r1 t k r2 s' ws out w' r')
  then have "sem_inv v s' \<and> (\<forall>c k'. out = Wait c k' \<longrightarrow> k' = KWaitWake)"
    using sem_body_keeps [of v s t k s' ws out] by (auto simp: sem_ok_def mon_calls_def)
  with 2 wake_steps_calls [OF 2(3)] show ?case
    by (cases out) (auto simp: sem_ok_def mon_calls_def)
next
  case (3 s w1 t c k w2 r)
  then show ?case by (auto simp: sem_ok_def mon_calls_def)
qed

section \<open>Properties\<close>

text \<open>The mapped-file semaphore counts: a sequence of posts and waits, none of which can
  take the value past the largest \<^verbatim>\<open>unsigned int\<close>, runs to its end exactly when no prefix
  waits more often than the initial value and the posts allow, and the value is then the
  initial one plus the posts minus the waits.\<close>

theorem mysem_mmap_counts:
  assumes "sem_magic_mmap s = SEM_MAGIC_mmap" and "uint (sem_count s) + int (length bs) \<le> 2 ^ 32 - 1"
  shows "case sem_run up_mmap down_mmap bs s of
      Some s' \<Rightarrow> sem_allowed (2 ^ 32 - 1) (uint (sem_count s)) bs \<and>
                 uint (sem_count s') = uint (sem_count s) + sem_credit bs
    | None \<Rightarrow> \<not> sem_allowed (2 ^ 32 - 1) (uint (sem_count s)) bs"
  using sem_mmap.run_conserves [OF assms(1), of bs] sem_mmap.run_completes [OF assms(1), of bs] assms(2)
  by (cases "sem_run up_mmap down_mmap bs s") auto

theorem mysem_mmap_counts_witness:
  "map_option sem_count (sem_run up_mmap down_mmap [True, False, False]
      \<lparr>sem_count = 1, sem_magic_mmap = SEM_MAGIC_mmap\<rparr>) = Some 0 \<and>
   sem_run up_mmap down_mmap [False, False, True] \<lparr>sem_count = 1, sem_magic_mmap = SEM_MAGIC_mmap\<rparr> = None"
  using mysem_mmap_counts [of "\<lparr>sem_count = 1, sem_magic_mmap = SEM_MAGIC_mmap\<rparr>" "[True, False, False]"]
    mysem_mmap_counts [of "\<lparr>sem_count = 1, sem_magic_mmap = SEM_MAGIC_mmap\<rparr>" "[False, False, True]"]
  by (auto simp: sem_allowed_Cons sem_allowed_Nil uint_0_iff split: option.splits)

text \<open>The FIFO semaphore counts in the same way, up to the capacity of the pipe.\<close>

theorem mysem_fifo_counts:
  assumes "sem_magic_fifo s = SEM_MAGIC_fifo" and "fifo_bytes s + length bs \<le> fifo_capacity s"
  shows "case sem_run (sem_done \<circ> mysem_post_fifo) (sem_done \<circ> mysem_wait_fifo) bs s of
      Some s' \<Rightarrow> sem_allowed (int (fifo_capacity s)) (int (fifo_bytes s)) bs \<and>
                 int (fifo_bytes s') = int (fifo_bytes s) + sem_credit bs
    | None \<Rightarrow> \<not> sem_allowed (int (fifo_capacity s)) (int (fifo_bytes s)) bs"
  using sem_fifo.run_conserves [of s bs] sem_fifo.run_completes [of s bs] assms
  by (cases "sem_run (sem_done \<circ> mysem_post_fifo) (sem_done \<circ> mysem_wait_fifo) bs s") auto

theorem mysem_fifo_counts_witness:
  "sem_run (sem_done \<circ> mysem_post_fifo) (sem_done \<circ> mysem_wait_fifo) [False, True]
     \<lparr>fifo_bytes = 0, fifo_capacity = 16, sem_magic_fifo = SEM_MAGIC_fifo\<rparr> = None"
  using mysem_fifo_counts [of "\<lparr>fifo_bytes = 0, fifo_capacity = 16, sem_magic_fifo = SEM_MAGIC_fifo\<rparr>" "[False, True]"]
  by (auto simp: sem_allowed_Cons split: option.splits)

text \<open>The System V semaphore counts in the same way, up to \<^verbatim>\<open>SEMVMX\<close>.\<close>

theorem mysem_svsem_counts:
  assumes "sem_magic_svsem s = SEM_MAGIC_svsem" and "0 \<le> sv_val (sem_semid s)"
    and "sv_val (sem_semid s) + int (length bs) \<le> SEMVMX"
  shows "case sem_run (sem_done \<circ> mysem_post_svsem) (sem_done \<circ> mysem_wait_svsem) bs s of
      Some s' \<Rightarrow> sem_allowed SEMVMX (sv_val (sem_semid s)) bs \<and>
                 sv_val (sem_semid s') = sv_val (sem_semid s) + sem_credit bs
    | None \<Rightarrow> \<not> sem_allowed SEMVMX (sv_val (sem_semid s)) bs"
  using sem_svsem.run_conserves [of s bs] sem_svsem.run_completes [of s bs] assms
  by (cases "sem_run (sem_done \<circ> mysem_post_svsem) (sem_done \<circ> mysem_wait_svsem) bs s") auto

theorem mysem_svsem_counts_witness:
  "\<exists>s'. sem_run (sem_done \<circ> mysem_post_svsem) (sem_done \<circ> mysem_wait_svsem) [True, True, False]
     \<lparr>sem_semid = \<lparr>sv_val = 0, sv_otime = True\<rparr>, sem_magic_svsem = SEM_MAGIC_svsem\<rparr> = Some s' \<and>
     sv_val (sem_semid s') = 1"
  using mysem_svsem_counts [of "\<lparr>sem_semid = \<lparr>sv_val = 0, sv_otime = True\<rparr>, sem_magic_svsem = SEM_MAGIC_svsem\<rparr>"
      "[True, True, False]"]
  by (auto simp: sem_allowed_Cons sem_allowed_Nil SEMVMX_def split: option.splits)

text \<open>C19. Threads that post and wait concurrently on one mapped-file semaphore never take more
  than was given: whenever the mutex is free, the value plus the waits that have returned is
  the initial value plus the posts that have returned.\<close>

theorem mysem_concurrent_conserves:
  assumes "mon_reach sem_body sem_may sp
     \<lparr>ss_sem = \<lparr>sem_count = v, sem_magic_mmap = SEM_MAGIC_mmap\<rparr>, ss_posts = 0, ss_waits = 0\<rparr> m"
  shows "uint (sem_count (ss_sem (mshared m))) + int (ss_waits (mshared m)) = uint v + int (ss_posts (mshared m)) \<and>
    int (ss_waits (mshared m)) \<le> uint v + int (ss_posts (mshared m))"
proof -
  have "sem_ok (uint v) (mshared m) (mwait m) (mready m)"
    by (rule semmon.reach_global [OF assms]) (simp add: sem_ok_def sem_inv_def mon_calls_def)
  then have "uint (sem_count (ss_sem (mshared m))) + int (ss_waits (mshared m)) =
      uint v + int (ss_posts (mshared m))" by (simp add: sem_ok_def sem_inv_def)
  moreover have "0 \<le> uint (sem_count (ss_sem (mshared m)))" by simp
  ultimately show ?thesis by linarith
qed

text \<open>The execution for the examples: two threads wait on a semaphore of value 0, a third posts
  it twice, and the first waiter takes one.\<close>

abbreviation sem_st :: "32 word \<Rightarrow> nat \<Rightarrow> nat \<Rightarrow> sem_state" where
  "sem_st c p w \<equiv> \<lparr>ss_sem = \<lparr>sem_count = c, sem_magic_mmap = SEM_MAGIC_mmap\<rparr>, ss_posts = p, ss_waits = w\<rparr>"

lemma sem_stuck_reach:
  "mon_reach sem_body sem_may sp (sem_st 0 0 0)
     \<lparr>mshared = sem_st 1 2 1, mwait = [(1, (), KWaitWake)], mready = []\<rparr>"
proof -
  have b: "sem_body t KWait (sem_st 0 0 0) = (sem_st 0 0 0, [], Wait () KWaitWake)" for t
    by (simp add: mysem_wait_mmap_def mysem_wait_test_def sem_wait_outcome_def)
  have 0: "mon_reach sem_body sem_may sp (sem_st 0 0 0) \<lparr>mshared = sem_st 0 0 0, mwait = [], mready = []\<rparr>"
    using reach_init [of sem_body sem_may sp "sem_st 0 0 0"] by (simp add: mon_init_def)
  have 1: "mon_reach sem_body sem_may sp (sem_st 0 0 0)
      \<lparr>mshared = sem_st 0 0 0, mwait = [(0, (), KWaitWake)], mready = []\<rparr>"
    using reach_enter [OF 0 b, of 0] by simp
  have 2: "mon_reach sem_body sem_may sp (sem_st 0 0 0)
      \<lparr>mshared = sem_st 0 0 0, mwait = [(0, (), KWaitWake), (1, (), KWaitWake)], mready = []\<rparr>"
    using reach_enter [OF 1 b, of 1] by simp
  have p1: "sem_body 2 KPost (sem_st 0 0 0) = (sem_st 1 1 0, [Signal ()], Return (SReturn (Inr ())))"
    and p2: "sem_body 2 KPost (sem_st 1 1 0) = (sem_st 2 2 0, [], Return (SReturn (Inr ())))"
    by (simp_all add: mysem_post_mmap_def)
  have 3: "mon_reach sem_body sem_may sp (sem_st 0 0 0)
      \<lparr>mshared = sem_st 1 1 0, mwait = [(1, (), KWaitWake)], mready = [(0, KWaitWake)]\<rparr>"
    using reach_enter [OF 2 p1, of "[(1, (), KWaitWake)]" "[(0, KWaitWake)]"] by (simp add: wake_signal_one)
  have 4: "mon_reach sem_body sem_may sp (sem_st 0 0 0)
      \<lparr>mshared = sem_st 2 2 0, mwait = [(1, (), KWaitWake)], mready = [(0, KWaitWake)]\<rparr>"
    using reach_enter [OF 3 p2, of "[(1, (), KWaitWake)]" "[(0, KWaitWake)]"] by simp
  have w: "sem_body 0 KWaitWake (sem_st 2 2 0) = (sem_st 1 2 1, [], Return (SReturn (Inr ())))"
    by (simp add: mysem_wait_test_def sem_wait_outcome_def)
  show ?thesis using reach_resume [OF 4 w, of "[(1, (), KWaitWake)]" "[]"] by simp
qed

theorem mysem_concurrent_conserves_witness:
  "mon_reach sem_body sem_may False (sem_st 0 0 0)
     \<lparr>mshared = sem_st 1 2 1, mwait = [(1, (), KWaitWake)], mready = []\<rparr> \<and> uint (1 :: 32 word) + 1 = 0 + 2"
  using mysem_concurrent_conserves [OF sem_stuck_reach [of False]] sem_stuck_reach [of False] by simp

text \<open>\<^verbatim>\<open>mysem_post\<close> of the mapped-file semaphore can lose a wake-up: it signals only when
  the value was 0, so of two sleeping waiters two posts in a row wake one. The other stays
  asleep with a positive value, no thread about to run, and every further post
  without a signal.\<close>

theorem mysem_post_lost_wakeup:
  "\<exists>m. mon_reach sem_body sem_may False (sem_st 0 0 0) m \<and> mready m = [] \<and>
     mwait m = [(1, (), KWaitWake)] \<and> sem_count (ss_sem (mshared m)) > 0 \<and>
     fst (snd (mysem_post_mmap None (ss_sem (mshared m)))) = []"
  using sem_stuck_reach [of False]
  by (intro exI conjI) (assumption | simp add: mysem_post_mmap_def)+

lemma sem_wait_init_cases:
  "case sem_wait_init creat st i n of
     Inl cs \<Rightarrow> creat \<and> cs = [SClose]
   | Inr (cs, Inl e) \<Rightarrow> cs = [SMunmap, SClose]
   | Inr (cs, Inr x) \<Rightarrow> cs = [SClose] \<and> x = None \<and> (\<exists>j md. i \<le> j \<and> j < i + n \<and> st j = Inr md \<and> md AND sem_S_IXUSR = 0)"
proof (induction n arbitrary: i)
  case (Suc n)
  show ?case
  proof (cases "st i")
    case (Inl e)
    then show ?thesis by (simp add: sem_open_err_def)
  next
    case (Inr md)
    show ?thesis
    proof (cases "md AND sem_S_IXUSR = 0")
      case True
      then show ?thesis using Inr by (simp add: exI [of _ i])
    next
      case False
      have "(\<exists>j md. Suc i \<le> j \<and> j < Suc i + n \<and> st j = Inr md \<and> md AND sem_S_IXUSR = 0) \<longrightarrow>
          (\<exists>j md. i \<le> j \<and> j < i + Suc n \<and> st j = Inr md \<and> md AND sem_S_IXUSR = 0)"
        by (metis Suc_leD add_Suc_right add_Suc)
      with Suc.IH [of "Suc i"] Inr False show ?thesis by (auto split: sum.splits prod.splits)
    qed
  qed
qed (simp add: sem_open_err_def)

definition sem_ready :: "sem_env list \<Rightarrow> bool" where
  "sem_ready evs \<longleftrightarrow> (\<exists>ev \<in> set evs. \<exists>i < sem_MAX_TRIES. \<exists>md. se_stat ev i = Inr md \<and> md AND sem_S_IXUSR = 0)"

lemma sem_open_exists_cases:
  "case sem_open_exists creat ev mapped of
     Inl (cs, b) \<Rightarrow> creat \<and> SUnlink \<notin> set cs
   | Inr (cs, Inl e) \<Rightarrow> SUnlink \<notin> set cs
   | Inr (cs, Inr x) \<Rightarrow> SUnlink \<notin> set cs \<and> x = None \<and> sem_ready [ev]"
  using sem_wait_init_cases [where creat = creat and st = "se_stat ev" and i = 0 and n = sem_MAX_TRIES]
  by (auto simp: sem_open_exists_def sem_open_err_def sem_then_def sem_ready_def
      split: option.splits sum.splits prod.splits)

lemma sem_open_create_cases:
  "case sem_open_create value_max md v ev mapped of
     (cs, Inl e) \<Rightarrow> SUnlink \<in> set cs
   | (cs, Inr x) \<Rightarrow> x = Some \<lparr>sem_count = v, sem_magic_mmap = SEM_MAGIC_mmap\<rparr> \<and> uint v \<le> value_max \<and>
       SFchmod md \<in> set cs \<and> SUnlink \<notin> set cs"
  by (auto simp: sem_open_create_def sem_open_err_def sem_then_def split: option.splits)

text \<open>Opening the mapped-file semaphore: whoever did not create it gets it only after the
  creator has cleared the user-execute bit; whoever created it gets the requested
  value, at most the system's maximum, with the bit cleared; and a failed call never
  removes a file that it did not create.\<close>

theorem mysem_open_mmap_result:
  assumes "mysem_open_mmap value_max oflag mode v evs mapped = Some (cs, r)"
  shows "case r of
      Inr (Some sem) \<Rightarrow> sem = \<lparr>sem_count = v, sem_magic_mmap = SEM_MAGIC_mmap\<rparr> \<and> uint v \<le> value_max \<and>
        SFchmod (mode AND NOT sem_S_IXUSR) \<in> set cs \<and> SUnlink \<notin> set cs
    | Inr None \<Rightarrow> SUnlink \<notin> set cs \<and> sem_ready evs
    | Inl e \<Rightarrow> SUnlink \<in> set cs \<longrightarrow> (\<exists>ev \<in> set evs. oflag AND sem_O_CREAT \<noteq> 0 \<and> se_creat ev = None)"
  using assms
proof (induction evs arbitrary: mapped cs)
  case (Cons ev evs)
  let ?creat = "oflag AND sem_O_CREAT \<noteq> 0"
  show ?case
  proof (cases "?creat \<and> se_creat ev = None")
    case True
    then show ?thesis
      using Cons.prems sem_open_create_cases [where value_max = value_max and md = "mode AND NOT sem_S_IXUSR" and v = v and ev = ev and mapped = mapped]
      by (auto split: sum.splits prod.splits)
  next
    case False
    show ?thesis
    proof (cases "?creat \<and> \<not> (se_creat ev = Some EEXIST \<and> oflag AND sem_O_EXCL = 0)")
      case True
      with False Cons.prems show ?thesis by (auto split: option.splits if_splits)
    next
      case ex: False
      then have e: "(case sem_open_exists ?creat ev mapped of Inr r \<Rightarrow> Some r
          | Inl (cs, mapped') \<Rightarrow> map_option (sem_then cs) (mysem_open_mmap value_max oflag mode v evs mapped')) = Some (cs, r)"
        using Cons.prems by (auto simp: Let_def split: if_splits)
      show ?thesis
      proof (cases "sem_open_exists ?creat ev mapped")
        case (Inr x)
        then show ?thesis
          using e sem_open_exists_cases [where creat = ?creat and ev = ev and mapped = mapped]
          by (auto simp: sem_ready_def split: sum.splits prod.splits)
      next
        case (Inl p)
        obtain cs0 b where p: "p = (cs0, b)" by fastforce
        with Inl e obtain cs1 where o: "mysem_open_mmap value_max oflag mode v evs b = Some (cs1, r)"
          and cs: "cs = cs0 @ cs1" by (auto simp: sem_then_def)
        have "SUnlink \<notin> set cs0" using sem_open_exists_cases [where creat = ?creat and ev = ev and mapped = mapped] Inl p by simp
        with Cons.IH [OF o] cs show ?thesis by (auto simp: sem_ready_def split: sum.splits option.splits)
      qed
    qed
  qed
qed simp

theorem mysem_open_mmap_result_witness:
  "mysem_open_mmap 100 sem_O_CREAT 0 7
     [\<lparr>se_creat = None, se_write = None, se_mmap = None, se_mutexattr = None, se_mutex = None, se_condattr = None,
       se_cond = None, se_fchmod = None, se_open = None, se_stat = (\<lambda>_. Inr 0)\<rparr>] False =
   Some ([SMmap, SFchmod 0, SClose], Inr (Some \<lparr>sem_count = 7, sem_magic_mmap = SEM_MAGIC_mmap\<rparr>)) \<and> uint (7 :: 32 word) \<le> 100"
proof -
  let ?ev = "\<lparr>se_creat = None, se_write = None, se_mmap = None, se_mutexattr = None, se_mutex = None, se_condattr = None,
       se_cond = None, se_fchmod = None, se_open = None, se_stat = (\<lambda>_. Inr 0)\<rparr>"
  have o: "mysem_open_mmap 100 sem_O_CREAT 0 7 [?ev] False =
      Some ([SMmap, SFchmod 0, SClose], Inr (Some \<lparr>sem_count = 7, sem_magic_mmap = SEM_MAGIC_mmap\<rparr>))"
    by (simp add: sem_O_CREAT_def sem_open_create_def sem_then_def)
  from mysem_open_mmap_result [OF o] o show ?thesis by simp
qed

text \<open>The System V variant removes semaphores it did not create: when an existing semaphore is
  not initialised in time, or its state cannot be read, or memory runs out, the error
  path of \<^verbatim>\<open>mysem_open\<close> deletes it with \<^verbatim>\<open>IPC_RMID\<close>.\<close>

theorem mysem_open_svsem_removes_others:
  assumes "oflag AND sem_O_CREAT = 0" and "sv_ftok2 ev = None" and "sv_semget ev = None"
    and "mysem_open_svsem oflag v ev = (rmid, Inl e)"
  shows "rmid"
proof -
  have "sv_wait_init ev i n = (rmid, Inl e) \<Longrightarrow> rmid" for i n
    by (induction ev i n rule: sv_wait_init.induct)
       (auto simp: sv_finish_def split: sum.splits option.splits if_splits)
  then show ?thesis using assms by (simp add: mysem_open_svsem_def sv_open_exists_def)
qed

theorem mysem_open_svsem_removes_others_witness:
  "mysem_open_svsem 0 0 \<lparr>sv_open = None, sv_ftok = None, sv_semget_excl = None, sv_setval = None, sv_initop = None,
     sv_ftok2 = None, sv_semget = None, sv_stat = (\<lambda>_. Inr \<lparr>sv_val = 0, sv_otime = False\<rparr>), sv_malloc = None\<rparr> =
   (True, Inl ETIMEDOUT)"
proof -
  let ?ev = "\<lparr>sv_open = None, sv_ftok = None, sv_semget_excl = None, sv_setval = None, sv_initop = None,
     sv_ftok2 = None, sv_semget = None, sv_stat = (\<lambda>_. Inr \<lparr>sv_val = 0, sv_otime = False\<rparr>), sv_malloc = None\<rparr>"
  have t: "sv_wait_init ?ev i n = (True, Inl ETIMEDOUT)" for i n
    by (induction n arbitrary: i) simp_all
  then have o: "mysem_open_svsem 0 0 ?ev = (True, Inl ETIMEDOUT)"
    by (simp add: mysem_open_svsem_def sv_open_exists_def)
  from mysem_open_svsem_removes_others [OF _ _ _ o] o show ?thesis by simp
qed

end
