(* ===== verification/C_Text.thy ===== *)
theory C_Text
  imports Prelude
begin

text \<open>
  Numbers as text: what \<^verbatim>\<open>sprintf\<close> prints for the decimal and hexadecimal conversions the
  programs use, and what \<^verbatim>\<open>atol\<close> reads.
\<close>

section \<open>Decimal text\<close>

text \<open>What \<^verbatim>\<open>sprintf\<close> prints for \<^verbatim>\<open>%lld\<close> and for \<^verbatim>\<open>%*lld\<close>, of numbers that are not
  negative, and what \<^verbatim>\<open>atol\<close> reads.\<close>

definition digit :: "nat \<Rightarrow> char" where
  "digit d = char_of (48 + d)"

fun dec :: "nat \<Rightarrow> string" where
  "dec n = (if n < 10 then [digit n] else dec (n div 10) @ [digit (n mod 10)])"

declare dec.simps [simp del]

definition pad :: "nat \<Rightarrow> nat \<Rightarrow> string" where
  "pad w n = replicate (w - length (dec n)) CHR '' '' @ dec n"

definition is_digit :: "char \<Rightarrow> bool" where
  "is_digit c \<longleftrightarrow> 48 \<le> (of_char c :: nat) \<and> (of_char c :: nat) \<le> 57"

definition is_space :: "char \<Rightarrow> bool" where
  "is_space c \<longleftrightarrow> c = CHR '' '' \<or> (9 \<le> (of_char c :: nat) \<and> (of_char c :: nat) \<le> 13)"

definition digits_val :: "string \<Rightarrow> int" where
  "digits_val ds = foldl (\<lambda>v c. 10 * v + (int (of_char c) - 48)) 0 ds"

definition atol :: "string \<Rightarrow> int" where
  "atol s =
     (case dropWhile is_space s of
        [] \<Rightarrow> 0
      | c # cs \<Rightarrow>
          if c = CHR ''-'' then - digits_val (takeWhile is_digit cs)
          else if c = CHR ''+'' then digits_val (takeWhile is_digit cs)
          else digits_val (takeWhile is_digit (c # cs)))"

lemma of_char_digit: "d < 10 \<Longrightarrow> (of_char (digit d) :: nat) = 48 + d"
  by (simp add: digit_def)

lemma is_digit_digit [simp]: "d < 10 \<Longrightarrow> is_digit (digit d)"
  by (simp add: is_digit_def of_char_digit)

lemma dec_nonempty [simp]: "dec n \<noteq> []"
  by (subst dec.simps) simp

lemma dec_digits: "c \<in> set (dec n) \<Longrightarrow> is_digit c"
proof (induction n rule: dec.induct)
  case (1 n)
  then show ?case by (subst (asm) dec.simps) (auto split: if_splits)
qed

lemma not_is_digit [simp]:
  "\<not> is_digit CHR '':''" "\<not> is_digit CHR '' ''" "\<not> is_digit CHR 0x0A" "\<not> is_digit CHR 0x00"
  "\<not> is_digit CHR ''-''" "\<not> is_digit CHR ''+''"
  by (simp_all add: is_digit_def)

lemma dec_chars [simp]:
  "CHR '':'' \<notin> set (dec n)" "CHR '' '' \<notin> set (dec n)" "CHR 0x0A \<notin> set (dec n)" "CHR 0x00 \<notin> set (dec n)"
  using dec_digits [of _ n] not_is_digit by blast+

lemma digits_val_snoc: "digits_val (ds @ [c]) = 10 * digits_val ds + (int (of_char c) - 48)"
  by (simp add: digits_val_def)

lemma digits_val_dec: "digits_val (dec n) = int n"
proof (induction n rule: dec.induct)
  case (1 n)
  show ?case
  proof (cases "n < 10")
    case True
    then show ?thesis by (subst dec.simps) (simp add: digits_val_def of_char_digit)
  next
    case False
    then have "digits_val (dec n) = 10 * int (n div 10) + int (n mod 10)"
      using 1 by (subst dec.simps) (simp add: digits_val_snoc of_char_digit)
    then show ?thesis by presburger
  qed
qed

lemma is_space_digit: "is_digit c \<Longrightarrow> \<not> is_space c"
  by (auto simp: is_digit_def is_space_def)

lemma atol_digits:
  assumes "\<forall>c \<in> set ds. is_digit c" and "ds \<noteq> []" and "rest = [] \<or> \<not> is_digit (hd rest)"
  shows "atol (replicate k CHR '' '' @ ds @ rest) = digits_val ds"
proof -
  obtain c cs where ds: "ds = c # cs" using assms(2) by (cases ds) auto
  have c: "is_digit c" using assms(1) ds by simp
  have "dropWhile is_space (replicate k CHR '' '' @ xs) = dropWhile is_space xs" for xs
    by (induction k) (simp_all add: is_space_def)
  then have "dropWhile is_space (replicate k CHR '' '' @ ds @ rest) = ds @ rest"
    using is_space_digit [OF c] by (simp add: ds)
  moreover have "takeWhile is_digit (ds @ rest) = ds"
    using assms(1,3) by (cases rest) (auto simp: takeWhile_append)
  moreover have "c \<noteq> CHR ''-''" "c \<noteq> CHR ''+''" using c not_is_digit by auto
  ultimately show ?thesis by (simp add: atol_def ds)
qed

lemma atol_pad [simp]: "atol (pad w n) = int n"
  using atol_digits [of "dec n" "[]" "w - length (dec n)"] dec_digits digits_val_dec
  by (simp add: pad_def)

lemma atol_dec [simp]: "atol (dec n) = int n"
  using atol_digits [of "dec n" "[]" 0] dec_digits digits_val_dec by simp

lemma length_dec: "n < 10 ^ Suc k \<Longrightarrow> length (dec n) \<le> Suc k"
proof (induction k arbitrary: n)
  case 0
  then show ?case by (subst dec.simps) simp
next
  case (Suc k)
  then show ?case
    using Suc.IH [of "n div 10"] by (subst dec.simps) (simp add: less_mult_imp_div_less)
qed

lemma length_pad: "n < 10 ^ w \<Longrightarrow> 0 < w \<Longrightarrow> length (pad w n) = w"
  using length_dec [of n "w - 1"] by (simp add: pad_def)


end
