(* ===== verification/Db.thy ===== *)
theory Db
  imports C_Text
begin

text \<open>
  The database library \<^verbatim>\<open>src/apue.3e/db/db.c\<close>: an index file with a free list, a table
  of hash chains and index records, all in ASCII, and a data file. The model is at the
  level of the files' characters. \<^verbatim>\<open>err_dump\<close> and \<^verbatim>\<open>err_quit\<close>, which end the
  process, are the value \<^const>\<open>None\<close>, as is a search along a chain that runs in a
  circle.
\<close>

section \<open>Constants and state\<close>

definition IDXLEN_SZ :: nat where "IDXLEN_SZ = 4"
definition PTR_SZ :: nat where "PTR_SZ = 7"
definition PTR_MAX :: int where "PTR_MAX = 9999999"
definition NHASH_DEF :: nat where "NHASH_DEF = 137"
definition FREE_OFF :: nat where "FREE_OFF = 0"
definition HASH_OFF :: nat where "HASH_OFF = PTR_SZ"
definition IDXLEN_MIN :: nat where "IDXLEN_MIN = 6"
definition IDXLEN_MAX :: nat where "IDXLEN_MAX = 1024"
definition DATLEN_MIN :: nat where "DATLEN_MIN = 2"
definition DATLEN_MAX :: nat where "DATLEN_MAX = 1024"

abbreviation SEP :: char where "SEP \<equiv> CHR '':''"
abbreviation SPACE :: char where "SPACE \<equiv> CHR '' ''"
abbreviation NEWLINE :: char where "NEWLINE \<equiv> CHR 0x0A"
abbreviation NUL :: char where "NUL \<equiv> CHR 0x00"

text \<open>The string a C program sees in a buffer.\<close>

definition cstr :: "string \<Rightarrow> string" where
  "cstr s = takeWhile (\<lambda>c. c \<noteq> NUL) s"

datatype db_fd = IdxFd | DatFd

datatype db_lock = ReadLock | WriteLock

text \<open>
  The two files, the offset of the index file's descriptor, the record locks held (start
  and length, where length 0 is to the end of the file), and the members of the
  structure. \<^verbatim>\<open>idxbuf\<close> and \<^verbatim>\<open>datbuf\<close> are the strings in the two buffers.
\<close>

record DB =
  idxfile :: string
  datfile :: string
  idxpos :: nat
  locks :: "(db_fd \<times> nat \<times> nat \<times> db_lock) list"
  idxbuf :: string
  datbuf :: string
  idxoff :: nat
  idxlen :: nat
  datoff :: nat
  datlen :: nat
  ptrval :: int
  ptroff :: nat
  chainoff :: nat
  hashoff :: nat
  nhash :: nat
  cnt_delok :: nat
  cnt_delerr :: nat
  cnt_fetchok :: nat
  cnt_fetcherr :: nat
  cnt_nextrec :: nat
  cnt_stor1 :: nat
  cnt_stor2 :: nat
  cnt_stor3 :: nat
  cnt_stor4 :: nat
  cnt_storerr :: nat

definition writew_lock :: "db_fd \<Rightarrow> nat \<Rightarrow> nat \<Rightarrow> DB \<Rightarrow> DB" where
  "writew_lock fd off len db = db\<lparr>locks := (fd, off, len, WriteLock) # locks db\<rparr>"

definition readw_lock :: "db_fd \<Rightarrow> nat \<Rightarrow> nat \<Rightarrow> DB \<Rightarrow> DB" where
  "readw_lock fd off len db = db\<lparr>locks := (fd, off, len, ReadLock) # locks db\<rparr>"

definition un_lock :: "db_fd \<Rightarrow> nat \<Rightarrow> nat \<Rightarrow> DB \<Rightarrow> DB" where
  "un_lock fd off len db =
     db\<lparr>locks := filter (\<lambda>(f, a, n, _). \<not> (f = fd \<and> a = off \<and> n = len)) (locks db)\<rparr>"

text \<open>Writing \<open>bs\<close> at an offset of a file; a gap beyond the end is filled with zeros.\<close>

definition write_at :: "nat \<Rightarrow> string \<Rightarrow> string \<Rightarrow> string" where
  "write_at off bs f =
     take off f @ replicate (off - length f) NUL @ bs @ drop (off + length bs) f"

section \<open>Reading and writing fields and records\<close>

definition db_readptr :: "DB \<Rightarrow> nat \<Rightarrow> (int \<times> DB) option" where
  "db_readptr db offset =
     (if length (idxfile db) < offset + PTR_SZ then None
      else Some (atol (take PTR_SZ (drop offset (idxfile db))), db\<lparr>idxpos := offset + PTR_SZ\<rparr>))"

definition db_writeptr :: "DB \<Rightarrow> nat \<Rightarrow> int \<Rightarrow> DB option" where
  "db_writeptr db offset ptrv =
     (if ptrv < 0 \<or> ptrv > PTR_MAX then None
      else Some (db\<lparr>idxfile := write_at offset (pad PTR_SZ (nat ptrv)) (idxfile db),
                    idxpos := offset + PTR_SZ\<rparr>))"

text \<open>The key, the data offset and the data length of the text of an index record.\<close>

definition db_split_record :: "string \<Rightarrow> (string \<times> nat \<times> nat) option" where
  "db_split_record s =
     (if SEP \<notin> set s then None
      else
        let ptr1 = tl (dropWhile (\<lambda>c. c \<noteq> SEP) s)
        in if SEP \<notin> set ptr1 then None
           else
             let ptr2 = tl (dropWhile (\<lambda>c. c \<noteq> SEP) ptr1);
                 doff = atol (takeWhile (\<lambda>c. c \<noteq> SEP) ptr1); dlen = atol ptr2
             in if SEP \<in> set ptr2 \<or> doff < 0 \<or> dlen \<le> 0 \<or> dlen > int DATLEN_MAX then None
                else Some (takeWhile (\<lambda>c. c \<noteq> SEP) s, nat doff, nat dlen))"

text \<open>The offset 0 means the current offset; the result is -1 at the end of the file.\<close>

definition db_readidx :: "DB \<Rightarrow> nat \<Rightarrow> (int \<times> DB) option" where
  "db_readidx db offset =
     (let pos = (if offset = 0 then idxpos db else offset);
          db1 = db\<lparr>idxoff := pos\<rparr>;
          rest = drop pos (idxfile db)
      in if length rest < PTR_SZ + IDXLEN_SZ then
           if rest = [] \<and> offset = 0 then Some (-1, db1\<lparr>idxpos := pos\<rparr>) else None
         else
           let pv = atol (take PTR_SZ rest); len = atol (take IDXLEN_SZ (drop PTR_SZ rest))
           in if len < int IDXLEN_MIN \<or> len > int IDXLEN_MAX then None
              else
                let n = nat len; buf = take n (drop (PTR_SZ + IDXLEN_SZ) rest)
                in if length buf \<noteq> n \<or> last buf \<noteq> NEWLINE then None
                   else case db_split_record (cstr (butlast buf)) of
                     None \<Rightarrow> None
                   | Some (key, doff, dlen) \<Rightarrow>
                       Some (pv, db1\<lparr>ptrval := pv, idxlen := n, idxbuf := key, datoff := doff, datlen := dlen,
                                     idxpos := pos + PTR_SZ + IDXLEN_SZ + n\<rparr>))"

definition db_readdat :: "DB \<Rightarrow> (string \<times> DB) option" where
  "db_readdat db =
     (let buf = take (datlen db) (drop (datoff db) (datfile db))
      in if length buf \<noteq> datlen db \<or> last buf \<noteq> NEWLINE then None
         else Some (cstr (butlast buf), db\<lparr>datbuf := cstr (butlast buf)\<rparr>))"

text \<open>The argument \<open>at\<close> is an offset (\<^verbatim>\<open>SEEK_SET\<close>), or \<^const>\<open>None\<close> for the end of the file.\<close>

definition db_writedat :: "DB \<Rightarrow> string \<Rightarrow> nat option \<Rightarrow> DB" where
  "db_writedat db data at =
     (let db0 = (if at = None then writew_lock DatFd 0 0 db else db);
          off = (case at of Some o' \<Rightarrow> o' | None \<Rightarrow> length (datfile db));
          db1 = db0\<lparr>datoff := off, datlen := length data + 1,
                    datfile := write_at off (data @ [NEWLINE]) (datfile db)\<rparr>
      in if at = None then un_lock DatFd 0 0 db1 else db1)"

definition db_writeidx :: "DB \<Rightarrow> string \<Rightarrow> nat option \<Rightarrow> int \<Rightarrow> DB option" where
  "db_writeidx db key at ptrv =
     (if ptrv < 0 \<or> ptrv > PTR_MAX then None
      else
        let buf = key @ SEP # dec (datoff db) @ SEP # dec (datlen db) @ [NEWLINE];
            len = length buf;
            lock = (nhash db + 1) * PTR_SZ + 1
        in if len < IDXLEN_MIN \<or> len > IDXLEN_MAX then None
           else
             let db0 = (if at = None then writew_lock IdxFd lock 0 db else db);
                 off = (case at of Some o' \<Rightarrow> o' | None \<Rightarrow> length (idxfile db));
                 db1 = db0\<lparr>ptrval := ptrv, idxbuf := buf, idxoff := off,
                           idxfile := write_at off (pad PTR_SZ (nat ptrv) @ pad IDXLEN_SZ len @ buf) (idxfile db),
                           idxpos := off + PTR_SZ + IDXLEN_SZ + len\<rparr>
             in Some (if at = None then un_lock IdxFd lock 0 db1 else db1))"

section \<open>Searching\<close>

text \<open>
  A character is a signed \<^verbatim>\<open>char\<close>; the product is an \<^verbatim>\<open>int\<close>, and the sum an
  \<^verbatim>\<open>unsigned long\<close>.
\<close>

fun db_hash_sum :: "int \<Rightarrow> 64 word \<Rightarrow> string \<Rightarrow> 64 word" where
  "db_hash_sum i hval [] = hval"
| "db_hash_sum i hval (c # cs) =
     db_hash_sum (i + 1) (hval + word_of_int (sint (word_of_int (int (of_char c)) :: 8 word) * i)) cs"

definition db_hash :: "DB \<Rightarrow> string \<Rightarrow> nat" where
  "db_hash db key = unat (db_hash_sum 1 0 key) mod nhash db"

text \<open>The loop of \<^verbatim>\<open>_db_find_and_lock\<close>; the result is the offset found, or 0.\<close>

partial_function (option) db_find_loop :: "string \<Rightarrow> int \<Rightarrow> DB \<Rightarrow> (int \<times> DB) option" where
  "db_find_loop key offset db =
     (if offset = 0 then Some (0, db)
      else if offset < 0 then None
      else case db_readidx db (nat offset) of
        None \<Rightarrow> None
      | Some (nextoffset, db1) \<Rightarrow>
          if idxbuf db1 = key then Some (offset, db1)
          else db_find_loop key nextoffset (db1\<lparr>ptroff := nat offset\<rparr>))"

definition db_find_and_lock :: "DB \<Rightarrow> string \<Rightarrow> bool \<Rightarrow> (int \<times> DB) option" where
  "db_find_and_lock db key writelock =
     (let off = db_hash db key * PTR_SZ + hashoff db;
          db1 = db\<lparr>chainoff := off, ptroff := off\<rparr>;
          db2 = (if writelock then writew_lock IdxFd off 1 db1 else readw_lock IdxFd off 1 db1)
      in case db_readptr db2 off of
           None \<Rightarrow> None
         | Some (offset, db3) \<Rightarrow>
             (case db_find_loop key offset db3 of
                None \<Rightarrow> None
              | Some (o', db4) \<Rightarrow> Some (if o' = 0 then -1 else 0, db4)))"

partial_function (option) db_findfree_loop ::
  "nat \<Rightarrow> nat \<Rightarrow> nat \<Rightarrow> int \<Rightarrow> DB \<Rightarrow> (nat \<times> int \<times> DB) option" where
  "db_findfree_loop keylen dlen saveoffset offset db =
     (if offset = 0 then Some (saveoffset, 0, db)
      else if offset < 0 then None
      else case db_readidx db (nat offset) of
        None \<Rightarrow> None
      | Some (nextoffset, db1) \<Rightarrow>
          if length (idxbuf db1) = keylen \<and> datlen db1 = dlen then Some (saveoffset, offset, db1)
          else db_findfree_loop keylen dlen (nat offset) nextoffset db1)"

definition db_findfree :: "DB \<Rightarrow> nat \<Rightarrow> nat \<Rightarrow> (int \<times> DB) option" where
  "db_findfree db keylen dlen =
     (case db_readptr (writew_lock IdxFd FREE_OFF 1 db) FREE_OFF of
        None \<Rightarrow> None
      | Some (offset, db1) \<Rightarrow>
          (case db_findfree_loop keylen dlen FREE_OFF offset db1 of
             None \<Rightarrow> None
           | Some (saveoffset, o', db2) \<Rightarrow>
               if o' = 0 then Some (-1, un_lock IdxFd FREE_OFF 1 db2)
               else (case db_writeptr db2 saveoffset (ptrval db2) of
                       None \<Rightarrow> None
                     | Some db3 \<Rightarrow> Some (0, un_lock IdxFd FREE_OFF 1 db3))))"

section \<open>The operations\<close>

definition db_dodelete :: "DB \<Rightarrow> DB option" where
  "db_dodelete db =
     (let blanks = replicate (datlen db - 1) SPACE;
          db1 = db\<lparr>datbuf := blanks, idxbuf := replicate (length (idxbuf db)) SPACE\<rparr>;
          db2 = db_writedat (writew_lock IdxFd FREE_OFF 1 db1) blanks (Some (datoff db))
      in case db_readptr db2 FREE_OFF of
           None \<Rightarrow> None
         | Some (freeptr, db3) \<Rightarrow>
             let saveptr = ptrval db3
             in case db_writeidx db3 (idxbuf db3) (Some (idxoff db3)) freeptr of
                  None \<Rightarrow> None
                | Some db4 \<Rightarrow>
                    (case db_writeptr db4 FREE_OFF (int (idxoff db4)) of
                       None \<Rightarrow> None
                     | Some db5 \<Rightarrow>
                         (case db_writeptr db5 (ptroff db5) saveptr of
                            None \<Rightarrow> None
                          | Some db6 \<Rightarrow> Some (un_lock IdxFd FREE_OFF 1 db6))))"

definition db_fetch :: "DB \<Rightarrow> string \<Rightarrow> (string option \<times> DB) option" where
  "db_fetch db key =
     (case db_find_and_lock db key False of
        None \<Rightarrow> None
      | Some (rc, db1) \<Rightarrow>
          if rc < 0 then Some (None, un_lock IdxFd (chainoff db1) 1 (db1\<lparr>cnt_fetcherr := cnt_fetcherr db1 + 1\<rparr>))
          else (case db_readdat db1 of
                  None \<Rightarrow> None
                | Some (s, db2) \<Rightarrow>
                    Some (Some s, un_lock IdxFd (chainoff db2) 1 (db2\<lparr>cnt_fetchok := cnt_fetchok db2 + 1\<rparr>))))"

definition db_delete :: "DB \<Rightarrow> string \<Rightarrow> (int \<times> DB) option" where
  "db_delete db key =
     (case db_find_and_lock db key True of
        None \<Rightarrow> None
      | Some (rc, db1) \<Rightarrow>
          if rc = 0 then
            (case db_dodelete db1 of
               None \<Rightarrow> None
             | Some db2 \<Rightarrow> Some (0, un_lock IdxFd (chainoff db2) 1 (db2\<lparr>cnt_delok := cnt_delok db2 + 1\<rparr>)))
          else Some (-1, un_lock IdxFd (chainoff db1) 1 (db1\<lparr>cnt_delerr := cnt_delerr db1 + 1\<rparr>)))"

definition DB_INSERT :: int where "DB_INSERT = 1"
definition DB_REPLACE :: int where "DB_REPLACE = 2"
definition DB_STORE :: int where "DB_STORE = 3"

text \<open>A new record goes to the end of the files, or into the free record \<open>db_findfree\<close> found.\<close>

definition db_store_append :: "DB \<Rightarrow> string \<Rightarrow> string \<Rightarrow> int \<Rightarrow> DB option" where
  "db_store_append db key data ptrv =
     (case db_writeidx (db_writedat db data None) key None ptrv of
        None \<Rightarrow> None
      | Some db1 \<Rightarrow> db_writeptr db1 (chainoff db1) (int (idxoff db1)))"

definition db_store_reuse :: "DB \<Rightarrow> string \<Rightarrow> string \<Rightarrow> int \<Rightarrow> DB option" where
  "db_store_reuse db key data ptrv =
     (let db0 = db_writedat db data (Some (datoff db))
      in case db_writeidx db0 key (Some (idxoff db0)) ptrv of
           None \<Rightarrow> None
         | Some db1 \<Rightarrow> db_writeptr db1 (chainoff db1) (int (idxoff db1)))"

definition db_store_new :: "DB \<Rightarrow> string \<Rightarrow> string \<Rightarrow> DB option" where
  "db_store_new db key data =
     (case db_readptr db (chainoff db) of
        None \<Rightarrow> None
      | Some (ptrv, db1) \<Rightarrow>
          (case db_findfree db1 (length key) (length data + 1) of
             None \<Rightarrow> None
           | Some (rc, db2) \<Rightarrow>
               if rc < 0
               then map_option (\<lambda>d. d\<lparr>cnt_stor1 := cnt_stor1 d + 1\<rparr>) (db_store_append db2 key data ptrv)
               else map_option (\<lambda>d. d\<lparr>cnt_stor2 := cnt_stor2 d + 1\<rparr>) (db_store_reuse db2 key data ptrv)))"

definition db_store_replace :: "DB \<Rightarrow> string \<Rightarrow> string \<Rightarrow> DB option" where
  "db_store_replace db key data =
     (if length data + 1 \<noteq> datlen db then
        (case db_dodelete db of
           None \<Rightarrow> None
         | Some db1 \<Rightarrow>
             (case db_readptr db1 (chainoff db1) of
                None \<Rightarrow> None
              | Some (ptrv, db2) \<Rightarrow>
                  map_option (\<lambda>d. d\<lparr>cnt_stor3 := cnt_stor3 d + 1\<rparr>) (db_store_append db2 key data ptrv)))
      else let db1 = db_writedat db data (Some (datoff db)) in Some (db1\<lparr>cnt_stor4 := cnt_stor4 db1 + 1\<rparr>))"

text \<open>The result is the return value with the error number it sets, if any.\<close>

definition db_store :: "DB \<Rightarrow> string \<Rightarrow> string \<Rightarrow> int \<Rightarrow> ((int \<times> rc) \<times> DB) option" where
  "db_store db key data flag =
     (if flag \<noteq> DB_INSERT \<and> flag \<noteq> DB_REPLACE \<and> flag \<noteq> DB_STORE then Some ((-1, Some EINVAL), db)
      else if length data + 1 < DATLEN_MIN \<or> length data + 1 > DATLEN_MAX then None
      else case db_find_and_lock db key True of
        None \<Rightarrow> None
      | Some (rc, db1) \<Rightarrow>
          if rc < 0 then
            if flag = DB_REPLACE
            then Some ((-1, Some ENOENT), un_lock IdxFd (chainoff db1) 1 (db1\<lparr>cnt_storerr := cnt_storerr db1 + 1\<rparr>))
            else map_option (\<lambda>d. ((0, None), un_lock IdxFd (chainoff d) 1 d)) (db_store_new db1 key data)
          else
            if flag = DB_INSERT
            then Some ((1, None), un_lock IdxFd (chainoff db1) 1 (db1\<lparr>cnt_storerr := cnt_storerr db1 + 1\<rparr>))
            else map_option (\<lambda>d. ((0, None), un_lock IdxFd (chainoff d) 1 d)) (db_store_replace db1 key data))"

definition db_rewind :: "DB \<Rightarrow> DB" where
  "db_rewind db = (let offset = (nhash db + 1) * PTR_SZ + 1 in db\<lparr>idxoff := offset, idxpos := offset\<rparr>)"

text \<open>The loop that skips records whose key is blank; the result is whether a record was read.\<close>

partial_function (option) db_nextrec_loop :: "DB \<Rightarrow> (bool \<times> DB) option" where
  "db_nextrec_loop db =
     (case db_readidx db 0 of
        None \<Rightarrow> None
      | Some (r, db1) \<Rightarrow>
          if r < 0 then Some (False, db1)
          else if (\<forall>c \<in> set (idxbuf db1). c = SPACE) then db_nextrec_loop db1
          else Some (True, db1))"

definition db_nextrec :: "DB \<Rightarrow> ((string \<times> string) option \<times> DB) option" where
  "db_nextrec db =
     (case db_nextrec_loop (readw_lock IdxFd FREE_OFF 1 db) of
        None \<Rightarrow> None
      | Some (found, db1) \<Rightarrow>
          if \<not> found then Some (None, un_lock IdxFd FREE_OFF 1 db1)
          else (case db_readdat db1 of
                  None \<Rightarrow> None
                | Some (s, db2) \<Rightarrow>
                    let db3 = db2\<lparr>cnt_nextrec := cnt_nextrec db2 + 1\<rparr>
                    in Some (Some (idxbuf db3, s), un_lock IdxFd FREE_OFF 1 db3)))"

section \<open>Opening and closing\<close>

text \<open>
  \<open>idx\<close> and \<open>dat\<close> are the contents of the two files as \<^verbatim>\<open>open\<close> finds or creates
  them, and \<^const>\<open>None\<close> when it fails. \<^verbatim>\<open>O_TRUNC\<close> empties them. The buffers hold
  what \<^verbatim>\<open>calloc\<close> and \<^verbatim>\<open>malloc\<close> leave; \<open>[]\<close> stands for it.
\<close>

definition db_alloc :: "DB" where
  "db_alloc = \<lparr>idxfile = [], datfile = [], idxpos = 0, locks = [], idxbuf = [], datbuf = [], idxoff = 0,
     idxlen = 0, datoff = 0, datlen = 0, ptrval = 0, ptroff = 0, chainoff = 0, hashoff = 0, nhash = 0,
     cnt_delok = 0, cnt_delerr = 0, cnt_fetchok = 0, cnt_fetcherr = 0, cnt_nextrec = 0, cnt_stor1 = 0,
     cnt_stor2 = 0, cnt_stor3 = 0, cnt_stor4 = 0, cnt_storerr = 0\<rparr>"

text \<open>The free list pointer and the hash table of an empty database.\<close>

definition db_init_text :: string where
  "db_init_text = concat (replicate (NHASH_DEF + 1) (pad PTR_SZ 0)) @ [NEWLINE]"

definition db_open :: "bool \<Rightarrow> bool \<Rightarrow> string option \<Rightarrow> string option \<Rightarrow> DB option" where
  "db_open creat trunc idx dat =
     (case (idx, dat) of
        (Some i, Some d) \<Rightarrow>
          let i0 = (if trunc then [] else i); d0 = (if trunc then [] else d);
              db = db_alloc\<lparr>nhash := NHASH_DEF, hashoff := HASH_OFF, idxfile := i0, datfile := d0\<rparr>;
              db1 = (if creat \<and> trunc then
                       let dbl = writew_lock IdxFd 0 0 db;
                           dbw = (if idxfile dbl = [] then dbl\<lparr>idxfile := db_init_text, idxpos := length db_init_text\<rparr> else dbl)
                       in un_lock IdxFd 0 0 dbw
                     else db)
          in Some (db_rewind db1)
      | _ \<Rightarrow> None)"
text \<open>Closing releases the descriptors, the locks and the memory; the two files remain.\<close>

definition db_close :: "DB \<Rightarrow> string \<times> string" where
  "db_close db = (idxfile db, datfile db)"

section \<open>The program t4\<close>

text \<open>\<^verbatim>\<open>src/apue.3e/db/t4.c\<close>: the two files at its exit, \<^const>\<open>None\<close> when it ends in an error.\<close>

definition t4_main :: "string option \<Rightarrow> string option \<Rightarrow> (string \<times> string) option" where
  "t4_main idx dat =
     (case db_open True True idx dat of
        None \<Rightarrow> None
      | Some db \<Rightarrow>
          (case db_store db ''Alpha'' ''data1'' DB_INSERT of
             None \<Rightarrow> None
           | Some ((r, e), db1) \<Rightarrow>
               if r \<noteq> 0 then None
               else case db_store db1 ''beta'' ''Data for beta'' DB_INSERT of
                 None \<Rightarrow> None
               | Some ((r, e), db2) \<Rightarrow>
                   if r \<noteq> 0 then None
                   else case db_store db2 ''gamma'' ''record3'' DB_INSERT of
                     None \<Rightarrow> None
                   | Some ((r, e), db3) \<Rightarrow> if r \<noteq> 0 then None else Some (db_close db3)))"

declare db_find_loop.simps [code] db_findfree_loop.simps [code] db_nextrec_loop.simps [code]

end
