(* ===== verification/Db_Text.thy ===== *)
theory Db_Text
  imports Db
begin

text \<open>
  The text of the database files: an index record prints and reads back, and a write changes the part of a file it covers and no other.
\<close>

section \<open>Fields of a file\<close>

definition fld :: "string \<Rightarrow> nat \<Rightarrow> string \<Rightarrow> bool" where
  "fld f off s \<longleftrightarrow> off + length s \<le> length f \<and> take (length s) (drop off f) = s"

lemma fld_append: "fld f off (s @ t) \<longleftrightarrow> fld f off s \<and> fld f (off + length s) t"
proof -
  have "take (length s + length t) (drop off f) =
      take (length s) (drop off f) @ take (length t) (drop (off + length s) f)"
    by (simp add: take_add add.commute)
  moreover have "length (take (length s) (drop off f)) = length s" if "off + length s \<le> length f"
    using that by simp
  ultimately show ?thesis unfolding fld_def
    by (metis add.assoc add_leD1 append_eq_append_conv length_append)
qed

lemma length_write_at: "off \<le> length f \<Longrightarrow> length (write_at off s f) = max (length f) (off + length s)"
  by (simp add: write_at_def)

lemma fld_write_same: "off \<le> length f \<Longrightarrow> fld (write_at off s f) off s"
  by (simp add: fld_def write_at_def)

lemma fld_write_other:
  assumes "fld f p s" and "off \<le> length f" and "p + length s \<le> off \<or> off + length t \<le> p"
  shows "fld (write_at off t f) p s"
proof -
  have bound: "p + length s \<le> length f" using assms(1) by (simp add: fld_def)
  have len: "p + length s \<le> length (write_at off t f)"
    using assms(1,2) by (auto simp: fld_def length_write_at)
  have "take (length s) (drop p (write_at off t f)) = take (length s) (drop p f)"
  proof (rule nth_equalityI)
    show "length (take (length s) (drop p (write_at off t f))) = length (take (length s) (drop p f))"
      using len assms(1) by (simp add: fld_def)
    fix i assume "i < length (take (length s) (drop p (write_at off t f)))"
    then have i: "i < length s" by simp
    have "write_at off t f ! (p + i) = f ! (p + i)"
      using assms(2,3) i assms(1) by (auto simp: write_at_def nth_append fld_def)
    then show "take (length s) (drop p (write_at off t f)) ! i = take (length s) (drop p f) ! i"
      using i len bound by simp
  qed
  with assms(1) len show ?thesis by (simp add: fld_def)
qed

section \<open>Index records\<close>

record ibody =
  b_key :: string
  b_datoff :: nat
  b_datlen :: nat

definition b_text :: "ibody \<Rightarrow> string" where
  "b_text b = b_key b @ SEP # dec (b_datoff b) @ SEP # dec (b_datlen b) @ [NEWLINE]"

definition b_enc :: "ibody \<Rightarrow> string" where
  "b_enc b = pad IDXLEN_SZ (length (b_text b)) @ b_text b"

definition b_ok :: "ibody \<Rightarrow> bool" where
  "b_ok b \<longleftrightarrow> SEP \<notin> set (b_key b) \<and> NUL \<notin> set (b_key b) \<and>
     IDXLEN_MIN \<le> length (b_text b) \<and> length (b_text b) \<le> IDXLEN_MAX \<and>
     0 < b_datlen b \<and> b_datlen b \<le> DATLEN_MAX"

lemma db_split_record_text:
  assumes "SEP \<notin> set key" and "0 < l" and "l \<le> DATLEN_MAX"
  shows "db_split_record (key @ SEP # dec d @ SEP # dec l) = Some (key, d, l)"
proof -
  have sep: "dropWhile (\<lambda>c. c \<noteq> SEP) (s @ SEP # xs) = SEP # xs \<and> takeWhile (\<lambda>c. c \<noteq> SEP) (s @ SEP # xs) = s"
    if "SEP \<notin> set s" for s xs
    using that by (induction s) auto
  then show ?thesis
    using assms by (simp add: db_split_record_def)
qed

lemma length_b_enc: "b_ok b \<Longrightarrow> length (b_enc b) = IDXLEN_SZ + length (b_text b)"
  by (simp add: b_enc_def b_ok_def length_pad IDXLEN_SZ_def IDXLEN_MAX_def)

text \<open>Reading a record whose key is any string, as far as the search for its separators.\<close>

lemma db_readidx_split:
  assumes "fld (idxfile db) p (pad PTR_SZ v @ b_enc b)" and "v < 10 ^ PTR_SZ"
    and "IDXLEN_MIN \<le> length (b_text b)" "length (b_text b) \<le> IDXLEN_MAX" "NUL \<notin> set (b_key b)"
    and "p = (if off = 0 then idxpos db else off)"
  shows "db_readidx db off =
    (case db_split_record (b_key b @ SEP # dec (b_datoff b) @ SEP # dec (b_datlen b)) of
       None \<Rightarrow> None
     | Some (key, doff, dlen) \<Rightarrow>
         Some (int v, db\<lparr>idxoff := p, ptrval := int v, idxlen := length (b_text b), idxbuf := key,
                    datoff := doff, datlen := dlen, idxpos := p + PTR_SZ + IDXLEN_SZ + length (b_text b)\<rparr>))"
proof -
  let ?f = "idxfile db" and ?n = "length (b_text b)"
  have lp: "length (pad PTR_SZ v) = PTR_SZ" using assms(2) by (simp add: length_pad PTR_SZ_def)
  have ll: "length (pad IDXLEN_SZ ?n) = IDXLEN_SZ"
    using assms(4) by (simp add: length_pad IDXLEN_SZ_def IDXLEN_MAX_def)
  have "fld ?f p (pad PTR_SZ v)" "fld ?f (p + PTR_SZ) (pad IDXLEN_SZ ?n)" "fld ?f (p + PTR_SZ + IDXLEN_SZ) (b_text b)"
    using assms(1) by (simp_all add: fld_append b_enc_def lp ll)
  then have f: "take PTR_SZ (drop p ?f) = pad PTR_SZ v" "take IDXLEN_SZ (drop (p + PTR_SZ) ?f) = pad IDXLEN_SZ ?n"
    "take ?n (drop (p + PTR_SZ + IDXLEN_SZ) ?f) = b_text b" "p + PTR_SZ + IDXLEN_SZ + ?n \<le> length ?f"
    by (simp_all add: fld_def lp ll)
  have "butlast (b_text b) = b_key b @ SEP # dec (b_datoff b) @ SEP # dec (b_datlen b)"
    by (simp add: b_text_def butlast_append)
  moreover have "cstr (b_key b @ SEP # dec (b_datoff b) @ SEP # dec (b_datlen b)) =
      b_key b @ SEP # dec (b_datoff b) @ SEP # dec (b_datlen b)"
    using assms(5) dec_chars(4) unfolding cstr_def
    by (intro takeWhile_eq_all_conv [THEN iffD2]) auto
  ultimately have split: "cstr (butlast (b_text b)) = b_key b @ SEP # dec (b_datoff b) @ SEP # dec (b_datlen b)" by simp
  have last: "last (b_text b) = NEWLINE" by (simp add: b_text_def)
  have "\<not> length (drop p ?f) < PTR_SZ + IDXLEN_SZ" using f(4) by simp
  moreover have "drop (PTR_SZ + IDXLEN_SZ) (drop p ?f) = drop (p + PTR_SZ + IDXLEN_SZ) ?f"
    "drop PTR_SZ (drop p ?f) = drop (p + PTR_SZ) ?f"
    by (simp_all add: ac_simps)
  ultimately show ?thesis
    using assms(3,4) f split last unfolding db_readidx_def assms(6) [symmetric] Let_def
    by (simp split: option.splits prod.splits)
qed

lemma db_readidx_record:
  assumes "fld (idxfile db) p (pad PTR_SZ v @ b_enc b)" and "v < 10 ^ PTR_SZ" and "b_ok b"
    and "p = (if off = 0 then idxpos db else off)"
  shows "db_readidx db off =
    Some (int v, db\<lparr>idxoff := p, ptrval := int v, idxlen := length (b_text b), idxbuf := b_key b,
                    datoff := b_datoff b, datlen := b_datlen b, idxpos := p + PTR_SZ + length (b_enc b)\<rparr>)"
proof -
  have e: "p + PTR_SZ + length (b_enc b) = p + PTR_SZ + IDXLEN_SZ + length (b_text b)"
    using length_b_enc [OF assms(3)] by simp
  have "db_split_record (b_key b @ SEP # dec (b_datoff b) @ SEP # dec (b_datlen b)) = Some (b_key b, b_datoff b, b_datlen b)"
    using assms(3) by (simp add: db_split_record_text b_ok_def)
  with db_readidx_split [OF assms(1,2) _ _ _ assms(4)] assms(3) show ?thesis unfolding e by (simp add: b_ok_def)
qed

lemma db_readptr_field:
  assumes "fld (idxfile db) p (pad PTR_SZ v)" and "v < 10 ^ PTR_SZ"
  shows "db_readptr db p = Some (int v, db\<lparr>idxpos := p + PTR_SZ\<rparr>)"
proof -
  have "length (pad PTR_SZ v) = PTR_SZ" using assms(2) by (simp add: length_pad PTR_SZ_def)
  with assms(1) show ?thesis by (simp add: db_readptr_def fld_def)
qed

end

