(* ===== verification/Db_Rep.thy ===== *)
theory Db_Rep
  imports Db_Text
begin

text \<open>
  What the two files of a database hold: chain pointers at known offsets, the bodies of
  index records that lie end to end after the hash table, and data records that do not
  overlap. The lemmas say how the writes of the library change these contents.
\<close>

section \<open>Records that lie end to end\<close>

fun tiles :: "(nat \<Rightarrow> nat) \<Rightarrow> nat \<Rightarrow> nat list \<Rightarrow> nat \<Rightarrow> bool" where
  "tiles len a [] e \<longleftrightarrow> a = e"
| "tiles len a (x # xs) e \<longleftrightarrow> x = a \<and> tiles len (a + len a) xs e"

lemma tiles_le: "tiles len a xs e \<Longrightarrow> a \<le> e"
  by (induction xs arbitrary: a) fastforce+

lemma tiles_mem: "tiles len a xs e \<Longrightarrow> x \<in> set xs \<Longrightarrow> a \<le> x \<and> x + len x \<le> e"
proof (induction xs arbitrary: a)
  case (Cons y ys)
  then show ?case using tiles_le [of len "a + len a" ys e] by fastforce
qed simp

lemma tiles_disjoint:
  "tiles len a xs e \<Longrightarrow> x \<in> set xs \<Longrightarrow> y \<in> set xs \<Longrightarrow> x \<noteq> y \<Longrightarrow> x + len x \<le> y \<or> y + len y \<le> x"
proof (induction xs arbitrary: a)
  case (Cons z zs)
  then show ?case using tiles_mem [of len "a + len a" zs e] by fastforce
qed simp

lemma tiles_snoc: "tiles len a xs e \<Longrightarrow> tiles len a (xs @ [e]) (e + len e)"
  by (induction xs arbitrary: a) auto

lemma tiles_cong: "(\<And>x. x \<in> set xs \<Longrightarrow> len x = len' x) \<Longrightarrow> tiles len a xs e = tiles len' a xs e"
proof (induction xs arbitrary: a)
  case (Cons x xs)
  then have "tiles len (a + len a) xs e = tiles len' (a + len a) xs e" by (metis list.set_intros(2))
  with Cons show ?case by (metis list.set_intros(1) tiles.simps(2))
qed simp

lemma tiles_unique: "tiles len a xs e \<Longrightarrow> tiles len a xs e' \<Longrightarrow> e = e'"
  by (induction xs arbitrary: a) auto

section \<open>The index file\<close>

text \<open>
  Pointers are at the offsets 0, 7, \<dots>, 959 (the free list and the hash table) and at the
  start of every index record; \<open>P\<close> gives their values and \<open>B\<close> the rest of the record at an
  offset. \<open>os\<close> are the offsets of the records, in the order of the file.
\<close>

definition hslots :: "nat set" where
  "hslots = (\<lambda>i. i * PTR_SZ) ` {..NHASH_DEF}"

definition HDR_END :: nat where "HDR_END = (NHASH_DEF + 1) * PTR_SZ + 1"

definition irep :: "string \<Rightarrow> (nat \<Rightarrow> nat) \<Rightarrow> (nat \<Rightarrow> ibody) \<Rightarrow> nat list \<Rightarrow> bool" where
  "irep f P B os \<longleftrightarrow>
     (\<forall>p \<in> hslots \<union> set os. fld f p (pad PTR_SZ (P p)) \<and> P p < 10 ^ PTR_SZ) \<and>
     (\<forall>p \<in> set os. fld f (p + PTR_SZ) (b_enc (B p)) \<and> b_ok (B p)) \<and>
     tiles (\<lambda>p. PTR_SZ + length (b_enc (B p))) HDR_END os (length f)"

lemma length_pad_ptr: "v < 10 ^ PTR_SZ \<Longrightarrow> length (pad PTR_SZ v) = PTR_SZ"
  by (simp add: length_pad PTR_SZ_def)

lemma hslots_bound: "p \<in> hslots \<Longrightarrow> p + PTR_SZ < HDR_END"
  by (auto simp: hslots_def HDR_END_def PTR_SZ_def NHASH_DEF_def)

lemma hslots_apart: "p \<in> hslots \<Longrightarrow> q \<in> hslots \<Longrightarrow> p \<noteq> q \<Longrightarrow> p + PTR_SZ \<le> q \<or> q + PTR_SZ \<le> p"
  by (auto simp: hslots_def PTR_SZ_def)

lemma irep_tiles: "irep f P B os \<Longrightarrow> tiles (\<lambda>p. PTR_SZ + length (b_enc (B p))) HDR_END os (length f)"
  by (simp add: irep_def)

lemma irep_slot_range:
  assumes "irep f P B os" "p \<in> hslots \<union> set os"
  shows "p + PTR_SZ \<le> length f"
  using assms tiles_mem [OF irep_tiles [OF assms(1)], of p] tiles_le [OF irep_tiles [OF assms(1)]]
    hslots_bound [of p] by auto

lemma irep_order_ge: "irep f P B os \<Longrightarrow> p \<in> set os \<Longrightarrow> HDR_END \<le> p"
  using tiles_mem [OF irep_tiles] by blast

text \<open>Slots do not overlap one another, nor the bodies of records.\<close>

lemma irep_slots_apart:
  assumes "irep f P B os" "p \<in> hslots \<union> set os" "q \<in> hslots \<union> set os" "p \<noteq> q"
  shows "p + PTR_SZ \<le> q \<or> q + PTR_SZ \<le> p"
proof -
  have "p + PTR_SZ \<le> q \<or> q + PTR_SZ \<le> p" if "p \<in> set os" "q \<in> set os"
    using tiles_disjoint [OF irep_tiles [OF assms(1)] that assms(4)] by auto
  moreover have "x + PTR_SZ \<le> y" if "x \<in> hslots" "y \<in> set os" for x y
    using hslots_bound [OF that(1)] irep_order_ge [OF assms(1) that(2)] by simp
  ultimately show ?thesis using assms(2-4) hslots_apart by blast
qed

lemma irep_slot_body_apart:
  assumes "irep f P B os" "p \<in> hslots \<union> set os" "q \<in> set os"
  shows "p + PTR_SZ \<le> q + PTR_SZ \<or> q + PTR_SZ + length (b_enc (B q)) \<le> p"
proof (cases "p \<in> set os \<and> p \<noteq> q")
  case True
  then show ?thesis using tiles_disjoint [OF irep_tiles [OF assms(1)], of p q] assms(3) by auto
next
  case False
  then show ?thesis using assms hslots_bound [of p] irep_order_ge [of f P B os q] by fastforce
qed

lemma irep_write_ptr:
  assumes "irep f P B os" "p \<in> hslots \<union> set os" "v < 10 ^ PTR_SZ"
  shows "irep (write_at p (pad PTR_SZ v) f) (P(p := v)) B os"
proof -
  let ?f = "write_at p (pad PTR_SZ v) f"
  have p: "p + PTR_SZ \<le> length f" using irep_slot_range [OF assms(1,2)] .
  then have len: "length ?f = length f" by (simp add: length_write_at length_pad_ptr assms(3))
  have "fld ?f q (pad PTR_SZ ((P(p := v)) q)) \<and> (P(p := v)) q < 10 ^ PTR_SZ"
    if "q \<in> hslots \<union> set os" for q
  proof (cases "q = p")
    case True
    then show ?thesis using p assms(3) by (simp add: fld_write_same)
  next
    case False
    have q: "fld f q (pad PTR_SZ (P q))" "P q < 10 ^ PTR_SZ" using assms(1) that by (auto simp: irep_def)
    then have "fld ?f q (pad PTR_SZ (P q))"
      using irep_slots_apart [OF assms(1) that assms(2) False] p assms(3)
      by (intro fld_write_other) (auto simp: length_pad_ptr)
    with q False show ?thesis by simp
  qed
  moreover have "fld ?f (q + PTR_SZ) (b_enc (B q)) \<and> b_ok (B q)" if "q \<in> set os" for q
  proof -
    have "fld f (q + PTR_SZ) (b_enc (B q))" "b_ok (B q)" using assms(1) that by (auto simp: irep_def)
    moreover have "q + PTR_SZ + length (b_enc (B q)) \<le> p \<or> p + PTR_SZ \<le> q + PTR_SZ"
      using irep_slot_body_apart [OF assms(1,2) that] by auto
    ultimately show ?thesis using p assms(3) by (auto simp: length_pad_ptr intro!: fld_write_other)
  qed
  moreover have "tiles (\<lambda>p. PTR_SZ + length (b_enc (B p))) HDR_END os (length ?f)"
    using irep_tiles [OF assms(1)] len by simp
  ultimately show ?thesis unfolding irep_def by blast
qed

text \<open>Rewriting a record by one of the same length.\<close>

lemma irep_write_record:
  assumes "irep f P B os" "p \<in> set os" "v < 10 ^ PTR_SZ" "b_ok b" "length (b_enc b) = length (b_enc (B p))"
  shows "irep (write_at p (pad PTR_SZ v @ b_enc b) f) (P(p := v)) (B(p := b)) os"
proof -
  let ?f = "write_at p (pad PTR_SZ v @ b_enc b) f"
  let ?n = "PTR_SZ + length (b_enc b)"
  have t: "tiles (\<lambda>p. PTR_SZ + length (b_enc (B p))) HDR_END os (length f)" using irep_tiles [OF assms(1)] .
  have p: "p + ?n \<le> length f" using tiles_mem [OF t assms(2)] assms(5) by auto
  then have len: "length ?f = length f" by (simp add: length_write_at length_pad_ptr assms(3))
  have apart: "q + n \<le> p \<or> p + ?n \<le> q"
    if "q \<in> hslots \<and> n = PTR_SZ \<or> q \<in> set os \<and> q \<noteq> p \<and> n = PTR_SZ + length (b_enc (B q))" for q n
    using that tiles_disjoint [OF t assms(2), of q] assms(5) hslots_bound [of q] irep_order_ge [OF assms(1,2)] by auto
  have self: "fld ?f p (pad PTR_SZ v) \<and> fld ?f (p + PTR_SZ) (b_enc b)"
    using fld_write_same [of p f "pad PTR_SZ v @ b_enc b"] p assms(3) by (simp add: fld_append length_pad_ptr)
  have "fld ?f q (pad PTR_SZ ((P(p := v)) q)) \<and> (P(p := v)) q < 10 ^ PTR_SZ"
    if q: "q \<in> hslots \<union> set os" for q
  proof (cases "q = p")
    case False
    have "fld f q (pad PTR_SZ (P q))" "P q < 10 ^ PTR_SZ" using assms(1) q by (auto simp: irep_def)
    moreover have "q + PTR_SZ \<le> p \<or> p + ?n \<le> q"
      using q False apart [of q PTR_SZ] apart [of q "PTR_SZ + length (b_enc (B q))"] by auto
    ultimately show ?thesis
      using False p assms(3) by (auto simp: length_pad_ptr intro!: fld_write_other)
  qed (use self assms(3) in simp)
  moreover have "fld ?f (q + PTR_SZ) (b_enc ((B(p := b)) q)) \<and> b_ok ((B(p := b)) q)" if q: "q \<in> set os" for q
  proof (cases "q = p")
    case False
    have "fld f (q + PTR_SZ) (b_enc (B q))" "b_ok (B q)" using assms(1) q by (auto simp: irep_def)
    moreover have "q + PTR_SZ + length (b_enc (B q)) \<le> p \<or> p + ?n \<le> q"
      using q False apart [of q "PTR_SZ + length (b_enc (B q))"] by auto
    ultimately show ?thesis
      using False p assms(3) by (auto simp: length_pad_ptr intro!: fld_write_other)
  qed (use self assms(4) in simp)
  moreover have "tiles (\<lambda>q. PTR_SZ + length (b_enc ((B(p := b)) q))) HDR_END os (length ?f)"
    unfolding len using t assms(5)
    by (subst tiles_cong [where len' = "\<lambda>p. PTR_SZ + length (b_enc (B p))"]) auto
  ultimately show ?thesis unfolding irep_def by blast
qed

text \<open>A record at the end of the file.\<close>

lemma irep_append_record:
  assumes "irep f P B os" "v < 10 ^ PTR_SZ" "b_ok b"
  shows "irep (write_at (length f) (pad PTR_SZ v @ b_enc b) f) (P(length f := v)) (B(length f := b)) (os @ [length f])"
    and "length f \<notin> set os" and "length f \<notin> hslots"
proof -
  let ?f = "write_at (length f) (pad PTR_SZ v @ b_enc b) f" and ?e = "length f"
  have t: "tiles (\<lambda>p. PTR_SZ + length (b_enc (B p))) HDR_END os ?e" using irep_tiles [OF assms(1)] .
  have fresh: "q + PTR_SZ \<le> ?e" if "q \<in> hslots \<union> set os" for q using irep_slot_range [OF assms(1) that] .
  then show no: "?e \<notin> set os" and nh: "?e \<notin> hslots" by (fastforce simp: PTR_SZ_def)+
  have keep: "fld f q s \<Longrightarrow> fld ?f q s" for q s
    by (rule fld_write_other) (auto simp: fld_def)
  have self: "fld ?f ?e (pad PTR_SZ v) \<and> fld ?f (?e + PTR_SZ) (b_enc b)"
    using fld_write_same [of ?e f "pad PTR_SZ v @ b_enc b"] assms(2) by (simp add: fld_append length_pad_ptr)
  have "fld ?f q (pad PTR_SZ ((P(?e := v)) q)) \<and> (P(?e := v)) q < 10 ^ PTR_SZ"
    if "q \<in> hslots \<union> set (os @ [?e])" for q
    using that self assms(1,2) keep unfolding irep_def by (cases "q = ?e") auto
  moreover have "fld ?f (q + PTR_SZ) (b_enc ((B(?e := b)) q)) \<and> b_ok ((B(?e := b)) q)" if "q \<in> set (os @ [?e])" for q
    using that self assms(1,3) keep unfolding irep_def by (cases "q = ?e") auto
  moreover have "tiles (\<lambda>q. PTR_SZ + length (b_enc ((B(?e := b)) q))) HDR_END (os @ [?e]) (length ?f)"
  proof -
    have "tiles (\<lambda>q. PTR_SZ + length (b_enc ((B(?e := b)) q))) HDR_END os ?e"
      using t no by (subst tiles_cong [where len' = "\<lambda>p. PTR_SZ + length (b_enc (B p))"]) auto
    then show ?thesis
      using tiles_snoc [of "\<lambda>q. PTR_SZ + length (b_enc ((B(?e := b)) q))"] assms(2)
      by (fastforce simp: length_write_at length_pad_ptr)
  qed
  ultimately show "irep ?f (P(?e := v)) (B(?e := b)) (os @ [?e])" unfolding irep_def by blast
qed

section \<open>The data file\<close>

text \<open>\<open>D\<close> gives the data of the record at an offset of the index file.\<close>

definition drep :: "string \<Rightarrow> (nat \<Rightarrow> ibody) \<Rightarrow> (nat \<Rightarrow> string) \<Rightarrow> nat list \<Rightarrow> bool" where
  "drep g B D os \<longleftrightarrow>
     (\<forall>p \<in> set os. fld g (b_datoff (B p)) (D p @ [NEWLINE]) \<and> b_datlen (B p) = length (D p) + 1 \<and> NUL \<notin> set (D p)) \<and>
     (\<forall>p \<in> set os. \<forall>q \<in> set os. p \<noteq> q \<longrightarrow>
        b_datoff (B p) + b_datlen (B p) \<le> b_datoff (B q) \<or> b_datoff (B q) + b_datlen (B q) \<le> b_datoff (B p))"

lemma drep_write_record:
  assumes "drep g B D os" "p \<in> set os" "length d = length (D p)" "NUL \<notin> set d"
    and "\<And>q. b_datoff (B' q) = b_datoff (B q) \<and> b_datlen (B' q) = b_datlen (B q)"
  shows "drep (write_at (b_datoff (B p)) (d @ [NEWLINE]) g) B' (D(p := d)) os"
proof -
  let ?g = "write_at (b_datoff (B p)) (d @ [NEWLINE]) g"
  have p: "b_datoff (B p) \<le> length g" "b_datlen (B p) = length d + 1"
    using assms(1-3) by (auto simp: drep_def fld_def)
  have "fld ?g (b_datoff (B q)) ((D(p := d)) q @ [NEWLINE]) \<and> b_datlen (B q) = length ((D(p := d)) q) + 1 \<and>
      NUL \<notin> set ((D(p := d)) q)" if q: "q \<in> set os" for q
  proof (cases "q = p")
    case True
    then show ?thesis using p assms(4) by (simp add: fld_write_same)
  next
    case False
    have d: "fld g (b_datoff (B q)) (D q @ [NEWLINE])" "b_datlen (B q) = length (D q) + 1" "NUL \<notin> set (D q)"
      "b_datoff (B q) + b_datlen (B q) \<le> b_datoff (B p) \<or> b_datoff (B p) + b_datlen (B p) \<le> b_datoff (B q)"
      using assms(1,2) q False unfolding drep_def by blast+
    then have "fld ?g (b_datoff (B q)) (D q @ [NEWLINE])" using p by (intro fld_write_other) auto
    with d False show ?thesis by simp
  qed
  moreover have "b_datoff (B' q) = b_datoff (B q)" "b_datlen (B' q) = b_datlen (B q)" for q
    using assms(5) by auto
  ultimately show ?thesis using assms(1) unfolding drep_def by metis
qed

lemma drep_append:
  assumes "drep g B D os" "e \<notin> set os" "NUL \<notin> set d" "b_datoff b = length g" "b_datlen b = length d + 1"
  shows "drep (write_at (length g) (d @ [NEWLINE]) g) (B(e := b)) (D(e := d)) (os @ [e])"
proof -
  let ?g = "write_at (length g) (d @ [NEWLINE]) g"
  have keep: "fld g q s \<Longrightarrow> fld ?g q s" for q s
    by (rule fld_write_other) (auto simp: fld_def)
  have e: "b_datoff (B q) + b_datlen (B q) \<le> length g" if "q \<in> set os" for q
    using assms(1) that by (auto simp: drep_def fld_def)
  have ne: "q \<noteq> e" if "q \<in> set os" for q using that assms(2) by blast
  show ?thesis unfolding drep_def
  proof (intro conjI ballI impI, goal_cases)
    case (1 q) then show ?case
      using assms keep fld_write_same [of "length g" g "d @ [NEWLINE]"] ne by (auto simp: drep_def)
  next
    case (2 q) then show ?case using assms ne by (auto simp: drep_def)
  next
    case (3 q) then show ?case using assms ne by (auto simp: drep_def)
  next
    case (4 q r) then show ?case using assms(1,4,5) e ne by (auto simp: drep_def)
  qed
qed

end
