(* ===== verification/Db_Inv.thy ===== *)
theory Db_Inv
  imports Db_Rep
begin

text \<open>
  The linked structure of a database: the free list and the hash chains, and the mapping
  from keys to data they stand for. The first part is about the structure alone, the
  second about the library's functions on files that hold it.
\<close>

section \<open>The free list and the hash chains\<close>

definition H :: "string \<Rightarrow> nat" where
  "H k = unat (db_hash_sum 1 0 k) mod NHASH_DEF"

abbreviation slot :: "nat \<Rightarrow> nat" where "slot i \<equiv> i * PTR_SZ + HASH_OFF"

definition blank :: "string \<Rightarrow> bool" where
  "blank s \<longleftrightarrow> (\<forall>c \<in> set s. c = SPACE)"

definition live :: "(nat \<Rightarrow> nat list) \<Rightarrow> nat set" where
  "live cs = (\<Union>i < NHASH_DEF. set (cs i))"

definition lrep :: "(nat \<Rightarrow> nat) \<Rightarrow> (nat \<Rightarrow> ibody) \<Rightarrow> nat list \<Rightarrow> (nat \<Rightarrow> nat list) \<Rightarrow> bool" where
  "lrep P B fs cs \<longleftrightarrow>
     chain P (P FREE_OFF) fs \<and> (\<forall>p \<in> set fs. blank (b_key (B p)) \<and> HDR_END \<le> p \<and> p \<notin> live cs) \<and>
     (\<forall>i < NHASH_DEF. chain P (P (slot i)) (cs i) \<and> inj_on (\<lambda>p. b_key (B p)) (set (cs i)) \<and>
        (\<forall>p \<in> set (cs i). H (b_key (B p)) = i \<and> \<not> blank (b_key (B p)) \<and> HDR_END \<le> p))"

lemma live_I: "i < NHASH_DEF \<Longrightarrow> p \<in> set (cs i) \<Longrightarrow> p \<in> live cs"
  by (auto simp: live_def)

lemma H_less: "H k < NHASH_DEF"
  by (simp add: H_def NHASH_DEF_def)

lemma slot_hslots: "i < NHASH_DEF \<Longrightarrow> slot i \<in> hslots"
  by (auto simp: hslots_def HASH_OFF_def image_iff intro!: bexI [of _ "Suc i"])

lemma free_hslots: "FREE_OFF \<in> hslots"
  by (auto simp: hslots_def FREE_OFF_def image_iff intro!: bexI [of _ 0])

lemma PTR_SZ_pos [simp]: "0 < PTR_SZ" "PTR_SZ \<noteq> 0"
  by (simp_all add: PTR_SZ_def)

lemma slot_inj: "slot i = slot j \<longleftrightarrow> i = j"
  by (simp_all add: PTR_SZ_def)

lemma slot_nonzero [simp]: "slot i \<noteq> FREE_OFF" "FREE_OFF \<noteq> slot i"
  by (simp_all add: HASH_OFF_def PTR_SZ_def FREE_OFF_def)

lemma node_not_slot: "HDR_END \<le> p \<Longrightarrow> q \<in> hslots \<Longrightarrow> p \<noteq> q"
  using hslots_bound [of q] by auto

lemma lrep_nodes:
  assumes "lrep P B fs cs" "p \<in> set fs \<union> live cs"
  shows "HDR_END \<le> p" "p \<noteq> FREE_OFF" "i < NHASH_DEF \<Longrightarrow> p \<noteq> slot i"
proof -
  show h: "HDR_END \<le> p" using assms by (auto simp: lrep_def live_def)
  show "p \<noteq> FREE_OFF" using node_not_slot [OF h free_hslots] .
  show "i < NHASH_DEF \<Longrightarrow> p \<noteq> slot i" using node_not_slot [OF h slot_hslots] .
qed

lemma lrep_chain_nodes:
  assumes "lrep P B fs cs" "i < NHASH_DEF"
  shows "FREE_OFF \<notin> set (cs i)" "j < NHASH_DEF \<Longrightarrow> slot j \<notin> set (cs i)" "set (cs i) \<inter> set fs = {}"
proof -
  show "FREE_OFF \<notin> set (cs i)" using lrep_nodes(2) [OF assms(1)] live_I [OF assms(2)] by blast
  show "j < NHASH_DEF \<Longrightarrow> slot j \<notin> set (cs i)" using lrep_nodes(3) [OF assms(1)] live_I [OF assms(2)] by blast
  show "set (cs i) \<inter> set fs = {}" using assms(1) live_I [OF assms(2), of _ cs] unfolding lrep_def by blast
qed

lemma lrep_chains_apart:
  assumes "lrep P B fs cs" "i < NHASH_DEF" "j < NHASH_DEF" "i \<noteq> j"
  shows "set (cs i) \<inter> set (cs j) = {}"
proof -
  have "H (b_key (B p)) = i \<and> H (b_key (B p)) = j" if "p \<in> set (cs i)" "p \<in> set (cs j)" for p
    using assms(1-3) that unfolding lrep_def by blast
  with assms(4) show ?thesis by blast
qed

text \<open>Removing the node after a prefix of a list, and putting a node at its front.\<close>

lemma chain_unlink:
  assumes "chain P (P h) (A @ a # R)" "h \<notin> set (A @ a # R)"
  shows "chain (P(last (h # A) := P a)) ((P(last (h # A) := P a)) h) (A @ R)"
proof (cases A rule: rev_cases)
  case Nil
  then show ?thesis using assms chain_hd_notin [of P a R] by auto
next
  case (snoc us b)
  then have "h \<noteq> b" using assms(2) by auto
  then show ?thesis using snoc chain_remove_after [of P "P h" us b a R] assms(1) by simp
qed

lemma chain_push:
  assumes "chain P (P h) xs" "a \<notin> set xs" "h \<notin> set xs" "a \<noteq> h" "a \<noteq> 0"
  shows "chain (P(a := P h, h := a)) ((P(a := P h, h := a)) h) (a # xs)"
  using assms by auto

lemma chain_other:
  assumes "chain P (P h) xs" "p \<noteq> h" "p \<notin> set xs"
  shows "chain (P(p := v)) ((P(p := v)) h) xs"
  using assms by auto

lemma lrep_unfree:
  assumes "lrep P B (A @ a # R) cs"
  shows "lrep (P(last (FREE_OFF # A) := P a)) B (A @ R) cs"
    and "a \<notin> set (A @ R)" "a \<notin> live cs" "HDR_END \<le> a"
proof -
  let ?p = "last (FREE_OFF # A)"
  have c: "chain P (P FREE_OFF) (A @ a # R)" using assms by (simp add: lrep_def)
  show "a \<notin> set (A @ R)" using chain_distinct [OF c] by auto
  show "a \<notin> live cs" "HDR_END \<le> a" using assms by (auto simp: lrep_def)
  have n: "FREE_OFF \<notin> set (A @ a # R)" using lrep_nodes(2) [OF assms] by blast
  have p: "?p = FREE_OFF \<or> ?p \<in> set A" by (cases A rule: rev_cases) auto
  have "chain (P(?p := P a)) ((P(?p := P a)) (slot i)) (cs i)" if i: "i < NHASH_DEF" for i
  proof (rule chain_other)
    show "chain P (P (slot i)) (cs i)" using assms i by (simp add: lrep_def)
    show "?p \<noteq> slot i" using p lrep_nodes(3) [OF assms _ i] by auto
    have "FREE_OFF \<notin> set (cs i)" using lrep_nodes(2) [OF assms, of FREE_OFF] i by (auto simp: live_def)
    moreover have "q \<notin> set (cs i)" if "q \<in> set A" for q using assms that i by (auto simp: lrep_def live_def)
    ultimately show "?p \<notin> set (cs i)" using p by auto
  qed
  then show "lrep (P(?p := P a)) B (A @ R) cs"
    using assms chain_unlink [OF c n] by (auto simp: lrep_def)
qed

lemma lrep_push:
  assumes "lrep P B fs cs" "HDR_END \<le> a" "a \<notin> set fs \<union> live cs" "\<not> blank (b_key b)"
    and "\<forall>p \<in> set (cs (H (b_key b))). b_key (B p) \<noteq> b_key b"
  shows "lrep (P(a := P (slot (H (b_key b))), slot (H (b_key b)) := a)) (B(a := b)) fs
     (cs(H (b_key b) := a # cs (H (b_key b))))"
proof -
  let ?h = "H (b_key b)" let ?P = "P(a := P (slot ?h), slot ?h := a)"
  have h: "?h < NHASH_DEF" by (rule H_less)
  have a: "a \<noteq> FREE_OFF" "a \<noteq> slot i" "a \<noteq> 0" if "i < NHASH_DEF" for i
    using node_not_slot [OF assms(2)] free_hslots slot_hslots [OF that] by (auto simp: FREE_OFF_def)
  have ac: "a \<notin> set (cs i)" if "i < NHASH_DEF" for i using assms(3) that by (auto simp: live_def)
  have s: "slot ?h \<notin> set fs" "slot ?h \<notin> set (cs i)" if "i < NHASH_DEF" for i
    using lrep_nodes(3) [OF assms(1) _ h] that by (auto simp: live_def)
  have free: "chain ?P (?P FREE_OFF) fs"
    using assms(1,3) a [OF h] s [OF h] by (simp add: lrep_def)
  have chains: "chain ?P (?P (slot i)) ((cs(?h := a # cs ?h)) i)" if i: "i < NHASH_DEF" for i
  proof (cases "i = ?h")
    case True
    have "chain P (P (slot ?h)) (cs ?h)" using assms(1) h by (simp add: lrep_def)
    then show ?thesis using True chain_push [of P "slot ?h" "cs ?h" a] ac [OF h] s(2) [OF h] a [OF h] by simp
  next
    case False
    then have "chain P (P (slot i)) (cs i)" "slot i \<noteq> slot ?h"
      using assms(1) i by (simp_all add: lrep_def slot_inj)
    then show ?thesis using False ac [OF i] s(2) [OF i] a [OF i] by simp
  qed
  have "live (cs(?h := a # cs ?h)) = insert a (live cs)" using h by (auto simp: live_def split: if_splits)
  then have fr: "\<forall>p \<in> set fs. blank (b_key ((B(a := b)) p)) \<and> HDR_END \<le> p \<and> p \<notin> live (cs(?h := a # cs ?h))"
    using assms(1,3) by (auto simp: lrep_def)
  have "inj_on (\<lambda>p. b_key ((B(a := b)) p)) (set ((cs(?h := a # cs ?h)) i)) \<and>
      (\<forall>p \<in> set ((cs(?h := a # cs ?h)) i). H (b_key ((B(a := b)) p)) = i \<and> \<not> blank (b_key ((B(a := b)) p)) \<and> HDR_END \<le> p)"
    if i: "i < NHASH_DEF" for i
  proof -
    have "inj_on (\<lambda>p. b_key (B p)) (set (cs i))" using assms(1) i by (simp add: lrep_def)
    then have "inj_on (\<lambda>p. b_key ((B(a := b)) p)) (set (cs i))"
      using ac [OF i] by (subst inj_on_cong [where g = "\<lambda>p. b_key (B p)"]) auto
    then show ?thesis
      using assms i ac [OF i] by (auto simp: lrep_def)
  qed
  with free chains fr show ?thesis unfolding lrep_def by blast
qed

lemma live_delete:
  assumes "lrep P B fs cs" "h < NHASH_DEF" "cs h = A @ a # R"
  shows "live (cs(h := A @ R)) = live cs - {a}"
proof -
  have "chain P (P (slot h)) (A @ a # R)" using assms unfolding lrep_def by metis
  then have "set (A @ R) = set (cs h) - {a}" using chain_distinct [of P "P (slot h)"] assms(3) by fastforce
  moreover have "a \<notin> set (cs i)" if "i < NHASH_DEF" "i \<noteq> h" for i
    using lrep_chains_apart [OF assms(1) that(1) assms(2) that(2)] assms(3) by auto
  ultimately show ?thesis using assms(2) by (auto simp: live_def split: if_splits)
qed

lemma live_push: "h < NHASH_DEF \<Longrightarrow> live (cs(h := a # cs h)) = insert a (live cs)"
  by (auto simp: live_def split: if_splits)

lemma lrep_delete:
  assumes "lrep P B fs cs" "h < NHASH_DEF" "cs h = A @ a # R" "blank (b_key b)"
  shows "lrep (P(a := P FREE_OFF, FREE_OFF := a, last (slot h # A) := P a)) (B(a := b)) (a # fs)
     (cs(h := A @ R))"
proof -
  let ?p = "last (slot h # A)" let ?P = "P(a := P FREE_OFF, FREE_OFF := a, ?p := P a)"
  let ?cs = "cs(h := A @ R)"
  have c: "chain P (P (slot h)) (A @ a # R)" using assms(1-3) unfolding lrep_def by metis
  have d: "distinct (A @ a # R)" using chain_distinct [OF c] .
  have al: "a \<in> live cs" using assms(2,3) by (intro live_I [of h]) simp_all
  have a: "HDR_END \<le> a" "a \<noteq> FREE_OFF" "a \<notin> set fs" "\<And>i. i < NHASH_DEF \<Longrightarrow> a \<noteq> slot i"
    using assms(1) al lrep_nodes [OF assms(1), of a] by (auto simp: lrep_def)
  have p: "?p = slot h \<or> ?p \<in> set A" by (cases A rule: rev_cases) auto
  have pl: "?p = slot h \<or> ?p \<in> live cs" using p assms(2,3) live_I [of h ?p cs] by auto
  have pn: "?p \<noteq> a" "?p \<noteq> FREE_OFF" "?p \<notin> set fs"
  proof -
    show "?p \<noteq> a" using p d a(4) [OF assms(2)] by auto
    show "?p \<noteq> FREE_OFF" using pl lrep_nodes(2) [OF assms(1), of ?p] by auto
    show "?p \<notin> set fs" using pl lrep_nodes(3) [OF assms(1) _ assms(2), of ?p] assms(1) by (auto simp: lrep_def)
  qed
  have fsn: "FREE_OFF \<notin> set fs" using lrep_nodes(2) [OF assms(1), of FREE_OFF] by auto
  have "chain P (P FREE_OFF) fs" using assms(1) by (simp add: lrep_def)
  then have free: "chain ?P (?P FREE_OFF) (a # fs)"
    using a pn fsn by (auto simp: FREE_OFF_def)
  have lv: "live ?cs = live cs - {a}" by (rule live_delete [OF assms(1-3)])
  have chains: "chain ?P (?P (slot i)) (?cs i)" if i: "i < NHASH_DEF" for i
  proof (cases "i = h")
    case True
    have n: "slot h \<notin> set (A @ a # R)" "FREE_OFF \<notin> set (A @ a # R)"
      using lrep_chain_nodes [OF assms(1,2)] assms(2,3) by auto
    have "chain (P(?p := P a)) ((P(?p := P a)) (slot h)) (A @ R)" using chain_unlink [OF c n(1)] .
    then have ch: "chain (P(?p := P a, a := P FREE_OFF, FREE_OFF := a)) ((P(?p := P a, a := P FREE_OFF, FREE_OFF := a)) (slot h)) (A @ R)"
      using d n(2) a(4) [OF assms(2)] by simp
    have eq: "P(?p := P a, a := P FREE_OFF, FREE_OFF := a) = ?P" using pn by (auto simp: fun_eq_iff)
    have cs: "?cs h = A @ R" by simp
    show ?thesis unfolding True cs using ch unfolding eq .
  next
    case False
    have "chain P (P (slot i)) (cs i)" using assms(1) i by (simp add: lrep_def)
    moreover have "?p \<noteq> slot i" "?p \<notin> set (cs i)"
      using p lrep_chains_apart [OF assms(1) i assms(2) False] assms(3) lrep_chain_nodes(2) [OF assms(1,2) i]
        lrep_chain_nodes(2) [OF assms(1) i assms(2)] False by (auto simp: slot_inj)
    moreover have "FREE_OFF \<notin> set (cs i)" using lrep_chain_nodes(1) [OF assms(1) i] .
    moreover have "a \<notin> set (cs i)" using lrep_chains_apart [OF assms(1) i assms(2) False] assms(3) by auto
    ultimately show ?thesis using False a(4) [OF i] by simp
  qed
  have "inj_on (\<lambda>p. b_key ((B(a := b)) p)) (set (?cs i)) \<and>
      (\<forall>p \<in> set (?cs i). H (b_key ((B(a := b)) p)) = i \<and> \<not> blank (b_key ((B(a := b)) p)) \<and> HDR_END \<le> p)"
    if i: "i < NHASH_DEF" for i
  proof -
    have sub1: "set (?cs i) \<subseteq> set (cs i)" using assms(3) by (cases "i = h") auto
    have sub2: "a \<notin> set (?cs i)" using live_I [OF i, of a ?cs] unfolding lv by blast
    note sub = sub1 sub2
    have "inj_on (\<lambda>p. b_key (B p)) (set (cs i))" using assms(1) i by (simp add: lrep_def)
    then have "inj_on (\<lambda>p. b_key (B p)) (set (?cs i))" using sub(1) inj_on_subset by blast
    then have "inj_on (\<lambda>p. b_key ((B(a := b)) p)) (set (?cs i))"
      using sub(2) by (subst inj_on_cong [where g = "\<lambda>p. b_key (B p)"]) auto
    moreover have "H (b_key ((B(a := b)) p)) = i \<and> \<not> blank (b_key ((B(a := b)) p)) \<and> HDR_END \<le> p"
      if "p \<in> set (?cs i)" for p
    proof -
      have "p \<noteq> a" "p \<in> set (cs i)" using that sub by blast+
      then show ?thesis using assms(1) i unfolding lrep_def by simp
    qed
    ultimately show ?thesis by blast
  qed
  moreover have "\<forall>p \<in> set (a # fs). blank (b_key ((B(a := b)) p)) \<and> HDR_END \<le> p \<and> p \<notin> live ?cs"
    using assms(1,4) a lv by (auto simp: lrep_def)
  ultimately show ?thesis using free chains unfolding lrep_def by blast
qed

section \<open>The mapping\<close>

definition db_map :: "(nat \<Rightarrow> ibody) \<Rightarrow> (nat \<Rightarrow> string) \<Rightarrow> (nat \<Rightarrow> nat list) \<Rightarrow> string \<rightharpoonup> string" where
  "db_map B D cs k = map_of (map (\<lambda>p. (b_key (B p), D p)) (cs (H k))) k"

lemma db_map_push:
  assumes "a \<notin> live cs"
  shows "db_map (B(a := b)) (D(a := d)) (cs(H (b_key b) := a # cs (H (b_key b)))) =
     (db_map B D cs)(b_key b \<mapsto> d)"
proof (rule ext)
  fix k
  define B' D' where "B' = B(a := b)" and "D' = D(a := d)"
  have "a \<notin> set (cs (H k))" using assms H_less [of k] by (auto simp: live_def)
  then have eq: "map (\<lambda>p. (b_key (B' p), D' p)) (cs (H k)) = map (\<lambda>p. (b_key (B p), D p)) (cs (H k))"
    by (intro map_cong) (auto simp: B'_def D'_def)
  have "B' a = b" "D' a = d" by (simp_all add: B'_def D'_def)
  with eq have "db_map B' D' (cs(H (b_key b) := a # cs (H (b_key b)))) k = ((db_map B D cs)(b_key b \<mapsto> d)) k"
    by (cases "H k = H (b_key b)") (auto simp: db_map_def simp del: map_eq_conv)
  then show "db_map (B(a := b)) (D(a := d)) (cs(H (b_key b) := a # cs (H (b_key b)))) k =
     ((db_map B D cs)(b_key b \<mapsto> d)) k" by (simp only: B'_def D'_def)
qed

lemma map_of_key_notin: "(\<forall>p \<in> set xs. f p \<noteq> k) \<Longrightarrow> map_of (map (\<lambda>p. (f p, g p)) xs) k = None"
  by (auto simp: map_of_eq_None_iff)

lemma db_map_delete:
  assumes "lrep P B fs cs" "cs (H (b_key (B a))) = A @ a # R"
  shows "db_map (B(a := b)) (D(a := d)) (cs(H (b_key (B a)) := A @ R)) = (db_map B D cs)(b_key (B a) := None)"
proof (rule ext)
  fix k
  let ?h = "H (b_key (B a))"
  have c: "chain P (P (slot ?h)) (A @ a # R)" using assms H_less unfolding lrep_def by metis
  then have dist: "distinct (A @ a # R)" by (rule chain_distinct)
  have na: "a \<notin> set ((cs(?h := A @ R)) (H k))" for k
    using lrep_chains_apart [OF assms(1) H_less H_less, of k "b_key (B a)"] assms(2) dist by auto
  define B' D' where "B' = B(a := b)" and "D' = D(a := d)"
  have eq: "map (\<lambda>p. (b_key (B' p), D' p)) ((cs(?h := A @ R)) (H k)) =
      map (\<lambda>p. (b_key (B p), D p)) ((cs(?h := A @ R)) (H k))"
    using na [of k] by (intro map_cong) (auto simp: B'_def D'_def)
  have inj: "inj_on (\<lambda>p. b_key (B p)) (set (A @ a # R))" using assms H_less unfolding lrep_def by metis
  have ne: "b_key (B p) \<noteq> b_key (B a)" if "p \<in> set (A @ R)" for p
  proof
    assume "b_key (B p) = b_key (B a)"
    then have "p = a" using inj_onD [OF inj, of p a] that by auto
    then show False using that dist by auto
  qed
  have out: "k \<noteq> b_key (B a) \<Longrightarrow> map_of (map (\<lambda>p. (b_key (B p), D p)) (A @ a # R)) k = map_of (map (\<lambda>p. (b_key (B p), D p)) (A @ R)) k"
    by (simp add: map_add_def split: option.split)
  have "db_map B' D' (cs(?h := A @ R)) k = ((db_map B D cs)(b_key (B a) := None)) k"
  proof (cases "k = b_key (B a)")
    case True
    then show ?thesis using map_of_key_notin [of "A @ R" "\<lambda>p. b_key (B p)" k D] ne eq by (simp add: db_map_def del: map_eq_conv)
  next
    case False
    then show ?thesis using eq out assms(2) by (cases "H k = ?h") (simp_all add: db_map_def del: map_eq_conv)
  qed
  then show "db_map (B(a := b)) (D(a := d)) (cs(?h := A @ R)) k = ((db_map B D cs)(b_key (B a) := None)) k"
    by (simp only: B'_def D'_def)
qed

lemma db_map_overwrite:
  assumes "lrep P B fs cs" "a \<in> set (cs (H (b_key (B a))))"
  shows "db_map B (D(a := d)) cs = (db_map B D cs)(b_key (B a) \<mapsto> d)"
proof (rule ext)
  fix k
  obtain A R where AR: "cs (H (b_key (B a))) = A @ a # R" using assms(2) by (meson split_list)
  have "chain P (P (slot (H (b_key (B a))))) (A @ a # R)" using assms(1) AR H_less unfolding lrep_def by metis
  then have dist: "distinct (A @ a # R)" by (rule chain_distinct)
  have inj: "inj_on (\<lambda>p. b_key (B p)) (set (A @ a # R))" using assms(1) AR H_less unfolding lrep_def by metis
  have A: "b_key (B p) \<noteq> b_key (B a)" if "p \<in> set A" for p
    using inj_onD [OF inj, of p a] that dist by auto
  define D' where "D' = D(a := d)"
  have upd: "map (\<lambda>p. (b_key (B p), D' p)) xs = map (\<lambda>p. (b_key (B p), D p)) xs" if "a \<notin> set xs" for xs
    using that by (intro map_cong) (auto simp: D'_def)
  have "D' a = d" by (simp add: D'_def)
  have "db_map B D' cs k = ((db_map B D cs)(b_key (B a) \<mapsto> d)) k"
  proof (cases "H k = H (b_key (B a))")
    case True
    have "map_of (map (\<lambda>p. (b_key (B p), D p)) A) (b_key (B a)) = None" using A by (intro map_of_key_notin) auto
    then show ?thesis
      using dist True AR upd [of A] upd [of R] \<open>D' a = d\<close>
      by (auto simp: db_map_def map_add_def simp del: map_eq_conv split: option.splits)
  next
    case False
    then have "a \<notin> set (cs (H k))"
      using lrep_chains_apart [OF assms(1) H_less H_less] assms(2) by blast
    with upd [of "cs (H k)"] False show ?thesis by (auto simp: db_map_def simp del: map_eq_conv)
  qed
  then show "db_map B (D(a := d)) cs k = ((db_map B D cs)(b_key (B a) \<mapsto> d)) k" by (simp only: D'_def)
qed

lemma db_map_find:
  assumes "lrep P B fs cs"
  shows "cs (H k) = A @ a # R \<Longrightarrow> b_key (B a) = k \<Longrightarrow> db_map B D cs k = Some (D a)"
    and "\<forall>p \<in> set (cs (H k)). b_key (B p) \<noteq> k \<Longrightarrow> db_map B D cs k = None"
proof -
  assume cs: "cs (H k) = A @ a # R" and k: "b_key (B a) = k"
  have "chain P (P (slot (H k))) (A @ a # R)" using assms cs H_less unfolding lrep_def by metis
  then have dist: "distinct (A @ a # R)" by (rule chain_distinct)
  have inj: "inj_on (\<lambda>p. b_key (B p)) (set (A @ a # R))" using assms cs H_less unfolding lrep_def by metis
  have "\<forall>p \<in> set A. b_key (B p) \<noteq> k" using k dist inj_onD [OF inj, of _ a] by auto
  then have "map_of (map (\<lambda>p. (b_key (B p), D p)) A) k = None" by (rule map_of_key_notin)
  then show "db_map B D cs k = Some (D a)" using cs k by (simp add: db_map_def map_add_def)
next
  assume "\<forall>p \<in> set (cs (H k)). b_key (B p) \<noteq> k"
  then show "db_map B D cs k = None" unfolding db_map_def by (rule map_of_key_notin)
qed

end
