(* ===== verification/Db_Ops.thy ===== *)
theory Db_Ops
  imports Db_Inv
begin

text \<open>
  The functions of \<^verbatim>\<open>db.c\<close> on files that hold the structure of Db_Inv: what each finds,
  which structure it leaves, and how the mapping from keys to data changes.
\<close>

section \<open>Databases that hold a structure\<close>

definition db_struct ::
  "DB \<Rightarrow> (nat \<Rightarrow> nat) \<Rightarrow> (nat \<Rightarrow> ibody) \<Rightarrow> (nat \<Rightarrow> string) \<Rightarrow> nat list \<Rightarrow> nat list \<Rightarrow> (nat \<Rightarrow> nat list) \<Rightarrow> bool" where
  "db_struct db P B D os fs cs \<longleftrightarrow>
     nhash db = NHASH_DEF \<and> hashoff db = HASH_OFF \<and> irep (idxfile db) P B os \<and> drep (datfile db) B D os \<and>
     lrep P B fs cs \<and> set os = set fs \<union> live cs"

definition db_rep :: "DB \<Rightarrow> (string \<rightharpoonup> string) \<Rightarrow> bool" where
  "db_rep db m \<longleftrightarrow>
     locks db = [] \<and> (\<exists>P B D os fs cs. db_struct db P B D os fs cs \<and> m = db_map B D cs)"

text \<open>Two states with the same files and the same place in the table.\<close>

definition same_files :: "DB \<Rightarrow> DB \<Rightarrow> bool" where
  "same_files db db' \<longleftrightarrow> idxfile db' = idxfile db \<and> datfile db' = datfile db \<and> nhash db' = nhash db \<and>
     hashoff db' = hashoff db \<and> chainoff db' = chainoff db \<and> locks db' = locks db"

lemma same_files_refl [simp]: "same_files db db"
  by (simp add: same_files_def)

lemma same_files_trans: "same_files a b \<Longrightarrow> same_files b c \<Longrightarrow> same_files a c"
  by (simp add: same_files_def)

lemma db_struct_same: "same_files db db' \<Longrightarrow> db_struct db' P B D os fs cs = db_struct db P B D os fs cs"
  by (simp add: same_files_def db_struct_def)

lemma db_structD:
  assumes "db_struct db P B D os fs cs"
  shows "nhash db = NHASH_DEF" "hashoff db = HASH_OFF" "irep (idxfile db) P B os" "drep (datfile db) B D os"
    "lrep P B fs cs" "set os = set fs \<union> live cs"
  using assms by (simp_all add: db_struct_def)

text \<open>The state after the record at \<open>a\<close> was read.\<close>

definition at_rec :: "(nat \<Rightarrow> nat) \<Rightarrow> (nat \<Rightarrow> ibody) \<Rightarrow> nat \<Rightarrow> DB \<Rightarrow> DB" where
  "at_rec P B a db = db\<lparr>idxoff := a, ptrval := int (P a), idxlen := length (b_text (B a)), idxbuf := b_key (B a),
     datoff := b_datoff (B a), datlen := b_datlen (B a), idxpos := a + PTR_SZ + length (b_enc (B a))\<rparr>"

lemma at_rec_simps [simp]:
  "idxfile (at_rec P B a db) = idxfile db" "datfile (at_rec P B a db) = datfile db"
  "nhash (at_rec P B a db) = nhash db" "hashoff (at_rec P B a db) = hashoff db"
  "chainoff (at_rec P B a db) = chainoff db" "locks (at_rec P B a db) = locks db"
  "idxbuf (at_rec P B a db) = b_key (B a)" "idxoff (at_rec P B a db) = a"
  "datoff (at_rec P B a db) = b_datoff (B a)" "datlen (at_rec P B a db) = b_datlen (B a)"
  "ptrval (at_rec P B a db) = int (P a)" "ptroff (at_rec P B a db) = ptroff db"
  "at_rec P B a (at_rec P B b db) = at_rec P B a db"
  "(at_rec P B a db)\<lparr>ptroff := x\<rparr> = at_rec P B a (db\<lparr>ptroff := x\<rparr>)"
  by (simp_all add: at_rec_def)

lemma readidx_struct:
  assumes "irep (idxfile db) P B os" "a \<in> set os" "0 < a"
  shows "db_readidx db a = Some (int (P a), at_rec P B a db)"
proof -
  have "fld (idxfile db) a (pad PTR_SZ (P a))" "P a < 10 ^ PTR_SZ" "fld (idxfile db) (a + PTR_SZ) (b_enc (B a))" "b_ok (B a)"
    using assms(1,2) by (auto simp: irep_def)
  then show ?thesis
    using assms(3) db_readidx_record [of db a "P a" "B a" a] by (simp add: fld_append length_pad_ptr at_rec_def)
qed

lemma readptr_struct:
  "irep (idxfile db) P B os \<Longrightarrow> p \<in> hslots \<union> set os \<Longrightarrow> db_readptr db p = Some (int (P p), db\<lparr>idxpos := p + PTR_SZ\<rparr>)"
  using db_readptr_field [of db p "P p"] by (auto simp: irep_def)

lemma irep_nonzero: "irep f P B os \<Longrightarrow> a \<in> set os \<Longrightarrow> 0 < a"
  using irep_order_ge [of f P B os a] by (auto simp: HDR_END_def)

section \<open>Searching a chain\<close>

lemma find_loop_found:
  assumes "irep (idxfile db) P B os" "chain P p (A @ a # R)" "set (A @ a # R) \<subseteq> set os"
    and "\<forall>q \<in> set A. b_key (B q) \<noteq> key" "b_key (B a) = key"
  shows "db_find_loop key (int p) db = Some (int a, at_rec P B a (db\<lparr>ptroff := last (ptroff db # A)\<rparr>))"
  using assms
proof (induction A arbitrary: p db)
  case Nil
  then show ?case
    using readidx_struct [OF Nil(1), of a] irep_nonzero [OF Nil(1), of a]
    by (subst db_find_loop.simps) (simp add: at_rec_def)
next
  case (Cons q A)
  let ?db = "(at_rec P B q db)\<lparr>ptroff := q\<rparr>"
  have "db_find_loop key (int (P q)) ?db = Some (int a, at_rec P B a (?db\<lparr>ptroff := last (ptroff ?db # A)\<rparr>))"
    using Cons.prems by (intro Cons.IH) simp_all
  moreover have "(?db\<lparr>ptroff := last (ptroff ?db # A)\<rparr>) = at_rec P B q (db\<lparr>ptroff := last (ptroff db # q # A)\<rparr>)" by simp
  ultimately show ?case
    using Cons.prems readidx_struct [OF Cons(2), of q] irep_nonzero [OF Cons(2), of q]
    by (subst db_find_loop.simps) simp
qed

lemma find_loop_absent:
  assumes "irep (idxfile db) P B os" "chain P p xs" "set xs \<subseteq> set os" "\<forall>q \<in> set xs. b_key (B q) \<noteq> key"
  shows "\<exists>db'. db_find_loop key (int p) db = Some (0, db') \<and> same_files db db'"
  using assms
proof (induction xs arbitrary: p db)
  case Nil
  then show ?case by (subst db_find_loop.simps) simp
next
  case (Cons q xs)
  let ?db = "(at_rec P B q db)\<lparr>ptroff := q\<rparr>"
  have "\<exists>db'. db_find_loop key (int (P q)) ?db = Some (0, db') \<and> same_files ?db db'"
    using Cons.prems by (intro Cons.IH) simp_all
  then show ?case
    using Cons.prems readidx_struct [OF Cons(2), of q] irep_nonzero [OF Cons(2), of q]
    by (subst db_find_loop.simps) (auto simp: same_files_def)
qed

lemma chain_sub:
  assumes "db_struct db P B D os fs cs" "i < NHASH_DEF"
  shows "chain P (P (slot i)) (cs i)" "set (cs i) \<subseteq> set os"
  using assms by (auto simp: db_struct_def lrep_def live_def)

lemma db_hash_H: "nhash db = NHASH_DEF \<Longrightarrow> db_hash db key = H key"
  by (simp add: db_hash_def H_def)

text \<open>The state in which \<^verbatim>\<open>_db_find_and_lock\<close> searches the chain.\<close>

definition locked :: "bool \<Rightarrow> string \<Rightarrow> DB \<Rightarrow> DB" where
  "locked w key db = db\<lparr>chainoff := slot (H key), ptroff := slot (H key),
     locks := (IdxFd, slot (H key), 1, if w then WriteLock else ReadLock) # locks db\<rparr>"

lemma find_and_lock_eq:
  assumes "db_struct db P B D os fs cs"
  shows "db_find_and_lock db key w =
    (case db_find_loop key (int (P (slot (H key)))) ((locked w key db)\<lparr>idxpos := slot (H key) + PTR_SZ\<rparr>) of
       None \<Rightarrow> None | Some (o', db4) \<Rightarrow> Some (if o' = 0 then -1 else 0, db4))"
proof -
  have s: "slot (H key) \<in> hslots \<union> set os" using slot_hslots [OF H_less] by blast
  have "db_readptr (locked w key db) (slot (H key)) =
      Some (int (P (slot (H key))), (locked w key db)\<lparr>idxpos := slot (H key) + PTR_SZ\<rparr>)"
    using readptr_struct [OF _ s, of "locked w key db" P B] db_structD(3) [OF assms] by (simp add: locked_def)
  then show ?thesis
    using db_structD(1,2) [OF assms]
    by (cases w) (simp_all add: db_find_and_lock_def db_hash_H Let_def locked_def writew_lock_def readw_lock_def)
qed

lemma find_and_lock_found:
  assumes "db_struct db P B D os fs cs" "cs (H key) = A @ a # R" "b_key (B a) = key"
  shows "db_find_and_lock db key w = Some (0, at_rec P B a ((locked w key db)\<lparr>ptroff := last (slot (H key) # A)\<rparr>))"
proof -
  let ?db = "(locked w key db)\<lparr>idxpos := slot (H key) + PTR_SZ\<rparr>"
  note c = chain_sub [OF assms(1) H_less, of key]
  have inj: "inj_on (\<lambda>p. b_key (B p)) (set (cs (H key)))"
    using db_structD(5) [OF assms(1)] H_less unfolding lrep_def by blast
  have "\<forall>q \<in> set A. b_key (B q) \<noteq> key"
    using inj_onD [OF inj, of _ a] assms(2,3) chain_distinct [OF c(1)] by auto
  then have "db_find_loop key (int (P (slot (H key)))) ?db =
      Some (int a, at_rec P B a (?db\<lparr>ptroff := last (ptroff ?db # A)\<rparr>))"
    using c assms db_structD(3) [OF assms(1)] by (intro find_loop_found [where os = os and R = R]) (auto simp: locked_def)
  moreover have "a \<noteq> 0" using chain_nonnull [OF c(1)] assms(2) by auto
  ultimately show ?thesis
    unfolding find_and_lock_eq [OF assms(1)] by (simp add: locked_def at_rec_def)
qed

lemma find_and_lock_absent:
  assumes "db_struct db P B D os fs cs" "\<forall>q \<in> set (cs (H key)). b_key (B q) \<noteq> key"
  shows "\<exists>db'. db_find_and_lock db key w = Some (-1, db') \<and> same_files (locked w key db) db'"
proof -
  let ?db = "(locked w key db)\<lparr>idxpos := slot (H key) + PTR_SZ\<rparr>"
  note c = chain_sub [OF assms(1) H_less, of key]
  obtain db' where "db_find_loop key (int (P (slot (H key)))) ?db = Some (0, db')" "same_files ?db db'"
    using find_loop_absent [of ?db, OF _ c assms(2)] db_structD(3) [OF assms(1)] by (auto simp: locked_def)
  then show ?thesis unfolding find_and_lock_eq [OF assms(1)] by (auto simp: same_files_def)
qed

section \<open>Fetching\<close>

lemma readdat_struct:
  assumes "drep (datfile db) B D os" "a \<in> set os" "datoff db = b_datoff (B a)" "datlen db = b_datlen (B a)"
  shows "db_readdat db = Some (D a, db\<lparr>datbuf := D a\<rparr>)"
proof -
  have d: "fld (datfile db) (datoff db) (D a @ [NEWLINE])" "datlen db = length (D a) + 1" "NUL \<notin> set (D a)"
    using assms by (auto simp: drep_def)
  then have "take (datlen db) (drop (datoff db) (datfile db)) = D a @ [NEWLINE]" by (simp add: fld_def)
  moreover have "cstr (D a) = D a" using d(3) by (simp add: cstr_def) (metis takeWhile_eq_all_conv)
  ultimately show ?thesis using d(2) by (simp add: db_readdat_def)
qed

lemma locks_un_lock_locked:
  "locks db' = locks (locked w key db) \<Longrightarrow> locks db = [] \<Longrightarrow> locks (un_lock IdxFd (slot (H key)) (Suc 0) db') = []"
  by (simp add: locked_def un_lock_def)

lemma un_lock_simps [simp]:
  "idxfile (un_lock fd a n db) = idxfile db" "datfile (un_lock fd a n db) = datfile db"
  "nhash (un_lock fd a n db) = nhash db" "hashoff (un_lock fd a n db) = hashoff db"
  "chainoff (un_lock fd a n db) = chainoff db" "idxoff (un_lock fd a n db) = idxoff db"
  "datoff (un_lock fd a n db) = datoff db" "datlen (un_lock fd a n db) = datlen db"
  "idxbuf (un_lock fd a n db) = idxbuf db" "ptrval (un_lock fd a n db) = ptrval db"
  "idxpos (un_lock fd a n db) = idxpos db" "ptroff (un_lock fd a n db) = ptroff db"
  by (simp_all add: un_lock_def)

lemma locked_simps [simp]:
  "idxfile (locked w key db) = idxfile db" "datfile (locked w key db) = datfile db"
  "nhash (locked w key db) = nhash db" "hashoff (locked w key db) = hashoff db"
  "chainoff (locked w key db) = slot (H key)"
  by (simp_all add: locked_def)

text \<open>The two outcomes of a search, from the mapping.\<close>

lemma db_rep_cases:
  assumes "db_struct db P B D os fs cs"
  obtains (found) A a R where "cs (H key) = A @ a # R" "b_key (B a) = key" "a \<in> set os" "db_map B D cs key = Some (D a)"
  | (absent) "\<forall>q \<in> set (cs (H key)). b_key (B q) \<noteq> key" "db_map B D cs key = None"
proof (cases "\<forall>q \<in> set (cs (H key)). b_key (B q) \<noteq> key")
  case True
  show ?thesis by (rule absent [OF True db_map_find(2) [OF db_structD(5) [OF assms] True]])
next
  case False
  then obtain a where a: "a \<in> set (cs (H key))" "b_key (B a) = key" by blast
  then obtain A R where AR: "cs (H key) = A @ a # R" by (meson split_list)
  have "a \<in> set os" using chain_sub(2) [OF assms H_less, of key] a(1) by blast
  then show ?thesis by (rule found [OF AR a(2) _ db_map_find(1) [OF db_structD(5) [OF assms] AR a(2)]])
qed

lemma db_rep_I:
  "db_struct db P B D os fs cs \<Longrightarrow> locks db = [] \<Longrightarrow> m = db_map B D cs \<Longrightarrow> db_rep db m"
  unfolding db_rep_def by blast

lemma db_struct_cong:
  "idxfile db' = idxfile db \<Longrightarrow> datfile db' = datfile db \<Longrightarrow> nhash db' = nhash db \<Longrightarrow> hashoff db' = hashoff db \<Longrightarrow>
   db_struct db' P B D os fs cs = db_struct db P B D os fs cs"
  by (simp add: db_struct_def)

lemma fetch_rep:
  assumes "db_rep db m"
  shows "\<exists>db'. db_fetch db key = Some (m key, db') \<and> db_rep db' m \<and> idxfile db' = idxfile db \<and> datfile db' = datfile db"
proof -
  obtain P B D os fs cs where s: "db_struct db P B D os fs cs" "m = db_map B D cs" and l: "locks db = []"
    using assms unfolding db_rep_def by blast
  have keep: "db_rep db' m" if "idxfile db' = idxfile db" "datfile db' = datfile db" "nhash db' = nhash db"
    "hashoff db' = hashoff db" "locks db' = []" for db'
    using db_rep_I [OF _ that(5) s(2)] s(1) db_struct_cong [OF that(1-4)] by simp
  from s(1) show ?thesis
  proof (cases rule: db_rep_cases [where key = key])
    case (found A a R)
    let ?db = "at_rec P B a ((locked False key db)\<lparr>ptroff := last (slot (H key) # A)\<rparr>)"
    let ?db' = "un_lock IdxFd (slot (H key)) 1 (?db\<lparr>datbuf := D a, cnt_fetchok := cnt_fetchok ?db + 1\<rparr>)"
    have "db_readdat ?db = Some (D a, ?db\<lparr>datbuf := D a\<rparr>)"
      using db_structD(4) [OF s(1)] found(3) by (intro readdat_struct [where B = B]) simp_all
    then have "db_fetch db key = Some (m key, ?db')"
      using find_and_lock_found [OF s(1) found(1,2), of False] found(4) s(2) by (simp add: db_fetch_def)
    moreover have "db_rep ?db' m" by (rule keep) (simp_all add: l locks_un_lock_locked)
    ultimately show ?thesis by (intro exI [of _ ?db']) simp
  next
    case absent
    obtain db1 where f: "db_find_and_lock db key False = Some (-1, db1)" "same_files (locked False key db) db1"
      using find_and_lock_absent [OF s(1) absent(1)] by blast
    let ?db' = "un_lock IdxFd (slot (H key)) 1 (db1\<lparr>cnt_fetcherr := cnt_fetcherr db1 + 1\<rparr>)"
    have "db_fetch db key = Some (m key, ?db')" using f absent(2) s(2) by (simp add: db_fetch_def same_files_def)
    moreover have "db_rep ?db' m" using f(2) by (intro keep) (simp_all add: l locks_un_lock_locked same_files_def)
    ultimately show ?thesis using f(2) by (intro exI [of _ ?db']) (simp add: same_files_def)
  qed
qed

section \<open>Deleting\<close>

lemma chain_pred: "chain P (P h) (A @ a # R) \<Longrightarrow> P (last (h # A)) = a"
  by (cases A rule: rev_cases) (auto simp: chain_append)

lemma writedat_at:
  "db_writedat db d (Some off) =
     db\<lparr>datoff := off, datlen := length d + 1, datfile := write_at off (d @ [NEWLINE]) (datfile db)\<rparr>"
  by (simp add: db_writedat_def)

lemma ptr_bound: "v < 10 ^ PTR_SZ \<longleftrightarrow> int v \<le> PTR_MAX"
  by (auto simp: PTR_SZ_def PTR_MAX_def)

lemma writeptr_ok:
  "v < 10 ^ PTR_SZ \<Longrightarrow>
   db_writeptr db p (int v) = Some (db\<lparr>idxfile := write_at p (pad PTR_SZ v) (idxfile db), idxpos := p + PTR_SZ\<rparr>)"
  by (simp add: db_writeptr_def ptr_bound)

lemma writeidx_at:
  assumes "v < 10 ^ PTR_SZ" "b_ok b" "datoff db = b_datoff b" "datlen db = b_datlen b" "b_key b = key"
  shows "db_writeidx db key (Some off) (int v) =
    Some (db\<lparr>ptrval := int v, idxbuf := b_text b, idxoff := off,
             idxfile := write_at off (pad PTR_SZ v @ b_enc b) (idxfile db),
             idxpos := off + PTR_SZ + IDXLEN_SZ + length (b_text b)\<rparr>)"
proof -
  have t: "key @ SEP # dec (datoff db) @ SEP # dec (datlen db) @ [NEWLINE] = b_text b"
    using assms(3-5) by (simp add: b_text_def)
  show ?thesis using assms(1,2) unfolding db_writeidx_def t
    by (simp add: ptr_bound b_ok_def b_enc_def Let_def)
qed

definition blanked :: "ibody \<Rightarrow> ibody" where
  "blanked b = b\<lparr>b_key := replicate (length (b_key b)) SPACE\<rparr>"

lemma blanked_simps [simp]:
  "b_datoff (blanked b) = b_datoff b" "b_datlen (blanked b) = b_datlen b" "blank (b_key (blanked b))"
  "length (b_text (blanked b)) = length (b_text b)" "b_ok b \<Longrightarrow> b_ok (blanked b)"
  "length (b_key (blanked b)) = length (b_key b)"
  by (simp_all add: blanked_def blank_def b_text_def b_ok_def)

text \<open>The two files after a deletion.\<close>

definition del_idx :: "(nat \<Rightarrow> nat) \<Rightarrow> (nat \<Rightarrow> ibody) \<Rightarrow> nat \<Rightarrow> nat \<Rightarrow> string \<Rightarrow> string" where
  "del_idx P B a p f = write_at p (pad PTR_SZ (P a)) (write_at FREE_OFF (pad PTR_SZ a)
     (write_at a (pad PTR_SZ (P FREE_OFF) @ b_enc (blanked (B a))) f))"

definition del_dat :: "(nat \<Rightarrow> ibody) \<Rightarrow> nat \<Rightarrow> string \<Rightarrow> string" where
  "del_dat B a g = write_at (b_datoff (B a)) (replicate (b_datlen (B a) - 1) SPACE @ [NEWLINE]) g"

lemma dodelete_eval:
  assumes "irep (idxfile db) P B os" "a \<in> set os" "a < 10 ^ PTR_SZ"
    and at: "idxoff db = a" "idxbuf db = b_key (B a)" "datoff db = b_datoff (B a)" "datlen db = b_datlen (B a)"
      "ptrval db = int (P a)" "ptroff db = p"
  shows "\<exists>db'. db_dodelete db = Some db' \<and> idxfile db' = del_idx P B a p (idxfile db) \<and>
     datfile db' = del_dat B a (datfile db) \<and> chainoff db' = chainoff db \<and> nhash db' = nhash db \<and> hashoff db' = hashoff db \<and>
     locks db' = filter (\<lambda>(f, p, n, _). \<not> (f = IdxFd \<and> p = FREE_OFF \<and> n = 1)) (locks db)"
proof -
  let ?b = "blanked (B a)" and ?d = "replicate (b_datlen (B a) - 1) SPACE"
  have bP: "P FREE_OFF < 10 ^ PTR_SZ" "P a < 10 ^ PTR_SZ"
    using assms(1,2) free_hslots unfolding irep_def by blast+
  have "b_ok (B a)" using assms(1,2) by (simp add: irep_def)
  then have bok: "b_ok ?b" "0 < b_datlen (B a)" by (simp, simp add: b_ok_def)
  define db1 where "db1 = db\<lparr>datbuf := ?d, idxbuf := b_key ?b, locks := (IdxFd, FREE_OFF, 1, WriteLock) # locks db,
    datfile := del_dat B a (datfile db)\<rparr>"
  define db3 where "db3 = db1\<lparr>idxpos := FREE_OFF + PTR_SZ\<rparr>"
  define db4 where "db4 = db3\<lparr>ptrval := int (P FREE_OFF), idxbuf := b_text ?b, idxoff := a,
    idxfile := write_at a (pad PTR_SZ (P FREE_OFF) @ b_enc ?b) (idxfile db),
    idxpos := a + PTR_SZ + IDXLEN_SZ + length (b_text ?b)\<rparr>"
  define db5 where "db5 = db4\<lparr>idxfile := write_at FREE_OFF (pad PTR_SZ a) (idxfile db4), idxpos := FREE_OFF + PTR_SZ\<rparr>"
  define db6 where "db6 = db5\<lparr>idxfile := write_at p (pad PTR_SZ (P a)) (idxfile db5), idxpos := p + PTR_SZ\<rparr>"
  have e1: "db_writedat (writew_lock IdxFd FREE_OFF 1 (db\<lparr>datbuf := replicate (datlen db - 1) SPACE,
      idxbuf := replicate (length (idxbuf db)) SPACE\<rparr>)) (replicate (datlen db - 1) SPACE) (Some (datoff db)) = db1"
    using at(2-4) bok(2) by (cases db) (simp add: writedat_at db1_def del_dat_def writew_lock_def blanked_def)
  have e2: "db_readptr db1 FREE_OFF = Some (int (P FREE_OFF), db3)"
    using assms(1) free_hslots readptr_struct [of db1 P B os FREE_OFF] by (simp add: db1_def db3_def)
  have d3: "idxbuf db3 = b_key ?b" "idxoff db3 = a" "datoff db3 = b_datoff ?b" "datlen db3 = b_datlen ?b"
      "idxfile db3 = idxfile db" "ptroff db3 = p" "ptrval db3 = int (P a)"
    by (simp_all add: db3_def db1_def at)
  have e4: "db_writeidx db3 (idxbuf db3) (Some (idxoff db3)) (int (P FREE_OFF)) = Some db4"
    unfolding d3(1,2) db4_def by (rule writeidx_at [OF bP(1) bok(1) d3(3,4) refl, of a, unfolded d3(5)])
  have e5: "db_writeptr db4 FREE_OFF (int (idxoff db4)) = Some db5"
    unfolding db5_def by (subst writeptr_ok [OF assms(3), symmetric]) (simp add: db4_def)
  have e6: "db_writeptr db5 (ptroff db5) (ptrval db3) = Some db6"
    unfolding db6_def d3(7) by (subst writeptr_ok [OF bP(2), symmetric]) (simp add: db5_def db4_def d3(6))
  have "db_dodelete db = Some (un_lock IdxFd FREE_OFF 1 db6)"
    unfolding db_dodelete_def Let_def e1 e2 option.case prod.case e4 e5 e6 ..
  then show ?thesis
    by (simp add: db6_def db5_def db4_def db3_def db1_def del_idx_def un_lock_def)
qed

lemma dodelete_struct:
  assumes s: "db_struct db P B D os fs cs" and h: "h < NHASH_DEF" "cs h = A @ a # R"
    and at: "idxoff db = a" "idxbuf db = b_key (B a)" "datoff db = b_datoff (B a)" "datlen db = b_datlen (B a)"
      "ptrval db = int (P a)" "ptroff db = last (slot h # A)"
  shows "\<exists>db'. db_dodelete db = Some db' \<and>
     db_struct db' (P(a := P FREE_OFF, FREE_OFF := a, last (slot h # A) := P a)) (B(a := blanked (B a)))
       (D(a := replicate (length (D a)) SPACE)) os (a # fs) (cs(h := A @ R)) \<and>
     chainoff db' = chainoff db \<and> locks db' = filter (\<lambda>(f, p, n, _). \<not> (f = IdxFd \<and> p = FREE_OFF \<and> n = 1)) (locks db) \<and>
     length (idxfile db') = length (idxfile db) \<and> length (datfile db') = length (datfile db)"
proof -
  let ?p = "last (slot h # A)" and ?b = "blanked (B a)" and ?d = "replicate (length (D a)) SPACE"
  let ?P = "P(a := P FREE_OFF, FREE_OFF := a, ?p := P a)" and ?f = "del_idx P B a ?p (idxfile db)"
  note sD = db_structD [OF s]
  have aos: "a \<in> set os" using chain_sub(2) [OF s h(1)] h(2) by auto
  have c: "chain P (P (slot h)) (A @ a # R)" using chain_sub(1) [OF s h(1)] h(2) by simp
  have pslot: "?p \<in> hslots \<union> set os"
    using chain_sub(2) [OF s h(1)] h(2) slot_hslots [OF h(1)] by (cases A rule: rev_cases) auto
  have bounds: "P q < 10 ^ PTR_SZ" if "q \<in> hslots \<union> set os" for q using sD(3) that by (auto simp: irep_def)
  have ba: "a < 10 ^ PTR_SZ" using bounds [OF pslot] chain_pred [OF c] by simp
  have bok: "b_ok (B a)" using sD(3) aos by (auto simp: irep_def)
  have i: "irep ?f ?P (B(a := ?b)) os" unfolding del_idx_def
    using sD(3) aos bounds free_hslots pslot ba bok
    by (intro irep_write_ptr irep_write_record) (simp_all add: length_b_enc)
  have lf: "length ?f = length (idxfile db)"
  proof -
    have "length (b_enc ((B(a := ?b)) p)) = length (b_enc (B p))" for p using bok by (simp add: length_b_enc)
    then show ?thesis using irep_tiles [OF i] tiles_unique [OF irep_tiles [OF sD(3)]] by simp
  qed
  have d: "del_dat B a (datfile db) = write_at (b_datoff (B a)) (?d @ [NEWLINE]) (datfile db)"
    using sD(4) aos by (simp add: del_dat_def drep_def)
  have g: "drep (del_dat B a (datfile db)) (B(a := ?b)) (D(a := ?d)) os" unfolding d
    using sD(4) aos by (intro drep_write_record) simp_all
  have lg: "length (del_dat B a (datfile db)) = length (datfile db)"
    using sD(4) aos by (auto simp: d drep_def fld_def length_write_at)
  have l: "lrep ?P (B(a := ?b)) (a # fs) (cs(h := A @ R))" using lrep_delete [OF sD(5) h] by simp
  have "set os = set (a # fs) \<union> live (cs(h := A @ R))"
    using live_delete [OF sD(5) h] sD(6) aos live_I [OF h(1), of a cs] h(2) by auto
  moreover obtain db' where "db_dodelete db = Some db'" "idxfile db' = ?f"
     "datfile db' = del_dat B a (datfile db)" "chainoff db' = chainoff db" "nhash db' = nhash db" "hashoff db' = hashoff db"
     "locks db' = filter (\<lambda>(f, p, n, _). \<not> (f = IdxFd \<and> p = FREE_OFF \<and> n = 1)) (locks db)"
    using dodelete_eval [OF sD(3) aos ba at] by blast
  ultimately show ?thesis using i g l lf lg sD(1,2) by (intro exI [of _ db']) (simp add: db_struct_def)
qed

text \<open>What a search that found its key and then \<^verbatim>\<open>_db_dodelete\<close> leave.\<close>

lemma find_dodelete:
  assumes s: "db_struct db P B D os fs cs" and l: "locks db = []"
    and f: "cs (H key) = A @ a # R" "b_key (B a) = key"
  obtains db1 db2 P' B' D' where "db_find_and_lock db key True = Some (0, db1)" "datlen db1 = length (D a) + 1"
    "db_dodelete db1 = Some db2" "db_struct db2 P' B' D' os (a # fs) (cs(H key := A @ R))"
    "db_map B' D' (cs(H key := A @ R)) = (db_map B D cs)(key := None)"
    "\<forall>q \<in> set (A @ R). b_key (B' q) \<noteq> key"
    "chainoff db2 = slot (H key)" "locks db2 = locks (locked True key db)"
    "length (idxfile db2) = length (idxfile db)" "length (datfile db2) = length (datfile db)"
proof -
  let ?db = "at_rec P B a ((locked True key db)\<lparr>ptroff := last (slot (H key) # A)\<rparr>)"
  let ?P = "P(a := P FREE_OFF, FREE_OFF := a, last (slot (H key) # A) := P a)" and ?B = "B(a := blanked (B a))"
    and ?D = "D(a := replicate (length (D a)) SPACE)" and ?cs = "cs(H key := A @ R)"
  note sD = db_structD [OF s]
  have s1: "db_struct ?db P B D os fs cs" using s db_struct_cong [of ?db db] by simp
  obtain db2 where d: "db_dodelete ?db = Some db2" "db_struct db2 ?P ?B ?D os (a # fs) ?cs"
     "chainoff db2 = chainoff ?db" "locks db2 = filter (\<lambda>(f, p, n, _). \<not> (f = IdxFd \<and> p = FREE_OFF \<and> n = 1)) (locks ?db)"
     "length (idxfile db2) = length (idxfile ?db)" "length (datfile db2) = length (datfile ?db)"
    using dodelete_struct [OF s1 H_less f(1)] by auto
  have m: "db_map ?B ?D ?cs = (db_map B D cs)(key := None)"
    using db_map_delete [OF sD(5), of a A R "blanked (B a)" D] f by simp
  have k: "\<forall>q \<in> set (A @ R). b_key (?B q) \<noteq> key"
  proof
    fix q assume q: "q \<in> set (A @ R)"
    have inj: "inj_on (\<lambda>p. b_key (B p)) (set (cs (H key)))" using sD(5) H_less unfolding lrep_def by blast
    have "q \<noteq> a" using q chain_distinct [OF chain_sub(1) [OF s H_less, of key]] f(1) by auto
    then show "b_key (?B q) \<noteq> key" using inj_onD [OF inj, of q a] q f by auto
  qed
  have lk: "locks db2 = locks (locked True key db)" using d(4) l by (simp add: locked_def)
  have dl: "datlen ?db = length (D a) + 1" using sD(4) chain_sub(2) [OF s H_less, of key] f(1) by (auto simp: drep_def)
  show thesis
    by (rule that [OF find_and_lock_found [OF s f] dl d(1,2) m k]) (use d lk in simp_all)
qed

lemma delete_rep:
  assumes "db_rep db m"
  shows "\<exists>db'. db_delete db key = Some (if m key = None then -1 else 0, db') \<and> db_rep db' (m(key := None)) \<and>
    length (idxfile db') = length (idxfile db) \<and> length (datfile db') = length (datfile db)"
proof -
  obtain P B D os fs cs where s: "db_struct db P B D os fs cs" "m = db_map B D cs" and l: "locks db = []"
    using assms unfolding db_rep_def by blast
  from s(1) show ?thesis
  proof (cases rule: db_rep_cases [where key = key])
    case (found A a R)
    obtain db1 db2 P' B' D' where d: "db_find_and_lock db key True = Some (0, db1)" "db_dodelete db1 = Some db2"
      "db_struct db2 P' B' D' os (a # fs) (cs(H key := A @ R))" "db_map B' D' (cs(H key := A @ R)) = (db_map B D cs)(key := None)"
      "chainoff db2 = slot (H key)" "locks db2 = locks (locked True key db)"
      "length (idxfile db2) = length (idxfile db)" "length (datfile db2) = length (datfile db)"
      using find_dodelete [OF s(1) l found(1,2)] by metis
    let ?db = "un_lock IdxFd (slot (H key)) 1 (db2\<lparr>cnt_delok := cnt_delok db2 + 1\<rparr>)"
    have "db_delete db key = Some (0, ?db)" using d by (simp add: db_delete_def)
    moreover have "db_rep ?db (m(key := None))"
      by (rule db_rep_I [OF _ _ d(4) [symmetric, folded s(2)]])
        (use d(3) db_struct_cong [of ?db db2] in simp, use d(6) l in \<open>simp add: locks_un_lock_locked\<close>)
    ultimately show ?thesis using found(4) s(2) d(7,8) by (intro exI [of _ ?db]) simp
  next
    case absent
    obtain db1 where f: "db_find_and_lock db key True = Some (-1, db1)" "same_files (locked True key db) db1"
      using find_and_lock_absent [OF s(1) absent(1)] by blast
    let ?db = "un_lock IdxFd (slot (H key)) 1 (db1\<lparr>cnt_delerr := cnt_delerr db1 + 1\<rparr>)"
    have "db_delete db key = Some (-1, ?db)" using f by (simp add: db_delete_def same_files_def)
    moreover have "db_rep ?db m"
      by (rule db_rep_I [OF _ _ s(2)])
        (use f(2) s(1) db_struct_cong [of ?db db] in \<open>simp add: same_files_def\<close>, use f(2) l in \<open>simp add: locks_un_lock_locked same_files_def\<close>)
    moreover have "m(key := None) = m" using absent(2) s(2) by auto
    ultimately show ?thesis using f(2) absent(2) s(2) by (intro exI [of _ ?db]) (simp add: same_files_def)
  qed
qed

section \<open>Storing a new record\<close>

definition key_ok :: "string \<Rightarrow> bool" where
  "key_ok key \<longleftrightarrow> \<not> blank key \<and> SEP \<notin> set key \<and> NUL \<notin> set key \<and> length key \<le> 1000"

definition dat_ok :: "string \<Rightarrow> bool" where
  "dat_ok data \<longleftrightarrow> 1 \<le> length data \<and> length data < DATLEN_MAX \<and> NUL \<notin> set data"

text \<open>The next record of each file starts where a pointer of seven digits reaches.\<close>

definition db_room :: "DB \<Rightarrow> bool" where
  "db_room db \<longleftrightarrow> int (length (idxfile db)) \<le> PTR_MAX \<and> length (datfile db) < 10 ^ 10"

lemma length_dec_pos: "1 \<le> length (dec n)"
  using dec_nonempty [of n] by (cases "dec n") auto

lemma new_body_ok:
  assumes "key_ok key" "dat_ok data" "off < 10 ^ 10"
  shows "b_ok \<lparr>b_key = key, b_datoff = off, b_datlen = length data + 1\<rparr>"
proof -
  have "length (dec off) \<le> 10" "length (dec (length data + 1)) \<le> 4"
    using assms length_dec [of off 9] length_dec [of "length data + 1" 3] by (simp_all add: dat_ok_def DATLEN_MAX_def)
  moreover have "1 \<le> length key" using assms(1) by (cases key) (simp_all add: key_ok_def blank_def)
  ultimately show ?thesis
    using assms length_dec_pos [of off] length_dec_pos [of "length data + 1"]
    by (simp add: b_ok_def b_text_def key_ok_def dat_ok_def IDXLEN_MIN_def IDXLEN_MAX_def)
qed

lemma length_new_enc:
  "b_ok b \<Longrightarrow> PTR_SZ + length (b_enc b) \<le> 1035"
  by (simp add: length_b_enc b_ok_def PTR_SZ_def IDXLEN_SZ_def IDXLEN_MAX_def)

lemma un_lock_again: "\<forall>n t. (fd, p, n, t) \<notin> set ls \<Longrightarrow> filter (\<lambda>(f, a, n, _). \<not> (f = fd \<and> a = p \<and> n = k)) ls = ls"
  by (auto simp: filter_id_conv)

definition append_lock :: nat where "append_lock = (NHASH_DEF + 1) * PTR_SZ + 1"

lemma append_eval:
  assumes "v < 10 ^ PTR_SZ" "length (idxfile db) < 10 ^ PTR_SZ" "nhash db = NHASH_DEF"
    and "b = \<lparr>b_key = key, b_datoff = length (datfile db), b_datlen = length data + 1\<rparr>" "b_ok b"
    and "\<forall>n t. (IdxFd, append_lock, n, t) \<notin> set (locks db)" "\<forall>p n t. (DatFd, p, n, t) \<notin> set (locks db)"
  shows "\<exists>db'. db_store_append db key data (int v) = Some db' \<and>
    idxfile db' = write_at (chainoff db) (pad PTR_SZ (length (idxfile db)))
      (write_at (length (idxfile db)) (pad PTR_SZ v @ b_enc b) (idxfile db)) \<and>
    datfile db' = write_at (length (datfile db)) (data @ [NEWLINE]) (datfile db) \<and>
    chainoff db' = chainoff db \<and> nhash db' = nhash db \<and> hashoff db' = hashoff db \<and> locks db' = locks db"
proof -
  define db1 where "db1 = db\<lparr>datoff := length (datfile db), datlen := length data + 1,
    datfile := write_at (length (datfile db)) (data @ [NEWLINE]) (datfile db)\<rparr>"
  define db2 where "db2 = db1\<lparr>ptrval := int v, idxbuf := b_text b, idxoff := length (idxfile db),
    idxfile := write_at (length (idxfile db)) (pad PTR_SZ v @ b_enc b) (idxfile db),
    idxpos := length (idxfile db) + PTR_SZ + IDXLEN_SZ + length (b_text b)\<rparr>"
  define db3 where "db3 = db2\<lparr>idxfile := write_at (chainoff db) (pad PTR_SZ (length (idxfile db))) (idxfile db2),
    idxpos := chainoff db + PTR_SZ\<rparr>"
  have e1: "db_writedat db data None = db1"
    using un_lock_again [of DatFd 0 "locks db" 0] assms(7)
    by (cases db) (simp add: db_writedat_def Let_def db1_def writew_lock_def un_lock_def)
  have t: "key @ SEP # dec (datoff db1) @ SEP # dec (datlen db1) @ [NEWLINE] = b_text b"
    using assms(4) by (simp add: b_text_def db1_def)
  have e2: "db_writeidx db1 key None (int v) = Some db2"
    using assms(1,3,5) un_lock_again [of IdxFd append_lock "locks db" 0] assms(6) unfolding db_writeidx_def t
    by (cases db) (simp add: ptr_bound b_ok_def b_enc_def Let_def writew_lock_def un_lock_def db2_def db1_def append_lock_def)
  have e3: "db_writeptr db2 (chainoff db2) (int (idxoff db2)) = Some db3"
    unfolding db3_def by (subst writeptr_ok [OF assms(2), symmetric]) (simp add: db2_def db1_def)
  have "db_store_append db key data (int v) = Some db3"
    unfolding db_store_append_def e1 e2 option.case e3 ..
  then show ?thesis by (simp add: db3_def db2_def db1_def)
qed

lemma append_struct:
  assumes s: "db_struct db P B D os fs cs" and k: "key_ok key" "dat_ok data" "db_room db"
    and a: "\<forall>q \<in> set (cs (H key)). b_key (B q) \<noteq> key"
    and c: "chainoff db = slot (H key)" "\<forall>n t. (IdxFd, append_lock, n, t) \<notin> set (locks db)" "\<forall>p n t. (DatFd, p, n, t) \<notin> set (locks db)"
  shows "\<exists>db' P' B' D' cs'. db_store_append db key data (int (P (slot (H key)))) = Some db' \<and>
    db_struct db' P' B' D' (os @ [length (idxfile db)]) fs cs' \<and> db_map B' D' cs' = (db_map B D cs)(key \<mapsto> data) \<and>
    chainoff db' = chainoff db \<and> locks db' = locks db \<and>
    length (idxfile db') \<le> length (idxfile db) + 1035 \<and> length (datfile db') \<le> length (datfile db) + 1024"
proof -
  note sD = db_structD [OF s]
  let ?e = "length (idxfile db)" and ?v = "P (slot (H key))" and ?b = "\<lparr>b_key = key, b_datoff = length (datfile db), b_datlen = length data + 1\<rparr>"
  let ?P = "P(?e := ?v, slot (H key) := ?e)" and ?B = "B(?e := ?b)" and ?D = "D(?e := data)" and ?cs = "cs(H key := ?e # cs (H key))"
  have sl: "slot (H key) \<in> hslots" by (rule slot_hslots [OF H_less])
  have bv: "?v < 10 ^ PTR_SZ" using sD(3) sl by (simp add: irep_def)
  have be: "?e < 10 ^ PTR_SZ" using k(3) by (simp add: db_room_def ptr_bound)
  have bok: "b_ok ?b" using new_body_ok [OF k(1,2)] k(3) by (simp add: db_room_def)
  note ap = irep_append_record [OF sD(3) bv bok]
  have i: "irep (write_at (slot (H key)) (pad PTR_SZ ?e) (write_at ?e (pad PTR_SZ ?v @ b_enc ?b) (idxfile db))) ?P ?B (os @ [?e])"
    using ap(1) sl be by (intro irep_write_ptr) auto
  have g: "drep (write_at (length (datfile db)) (data @ [NEWLINE]) (datfile db)) ?B ?D (os @ [?e])"
    using k(2) by (intro drep_append [OF sD(4) ap(2)]) (simp_all add: dat_ok_def)
  have fr: "?e \<notin> set fs \<union> live cs" using ap(2) sD(6) by simp
  have "HDR_END \<le> ?e" using tiles_le [OF irep_tiles [OF sD(3)]] .
  then have l: "lrep ?P ?B fs ?cs" using lrep_push [OF sD(5) _ fr, of ?b] k(1) a by (simp add: key_ok_def)
  have m: "db_map ?B ?D ?cs = (db_map B D cs)(key \<mapsto> data)" using db_map_push [of ?e cs B ?b D data] fr by simp
  have o: "set (os @ [?e]) = set fs \<union> live ?cs" using sD(6) live_push [OF H_less, of cs key ?e] by auto
  have lens: "length (write_at (slot (H key)) (pad PTR_SZ ?e) (write_at ?e (pad PTR_SZ ?v @ b_enc ?b) (idxfile db))) \<le> ?e + 1035"
    using length_new_enc [OF bok] irep_slot_range [OF sD(3), of "slot (H key)"] sl bv be
    by (simp add: length_write_at length_pad_ptr)
  have ld: "length (write_at (length (datfile db)) (data @ [NEWLINE]) (datfile db)) \<le> length (datfile db) + 1024"
    using k(2) by (simp add: length_write_at dat_ok_def DATLEN_MAX_def)
  obtain db' where e: "db_store_append db key data (int ?v) = Some db'"
    "idxfile db' = write_at (slot (H key)) (pad PTR_SZ ?e) (write_at ?e (pad PTR_SZ ?v @ b_enc ?b) (idxfile db))"
    "datfile db' = write_at (length (datfile db)) (data @ [NEWLINE]) (datfile db)"
    "chainoff db' = chainoff db" "nhash db' = nhash db" "hashoff db' = hashoff db" "locks db' = locks db"
    using append_eval [OF bv be sD(1) refl bok c(2,3)] c(1) by auto
  have "db_struct db' ?P ?B ?D (os @ [?e]) fs ?cs"
    using i g l o sD(1,2) e by (simp add: db_struct_def)
  then show ?thesis using e m lens ld by metis
qed

section \<open>The free list\<close>

lemma findfree_loop_found:
  assumes "irep (idxfile db) P B os" "chain P p (A @ a # R)" "set (A @ a # R) \<subseteq> set os"
    and "\<forall>q \<in> set A. \<not> (length (b_key (B q)) = n \<and> b_datlen (B q) = dl)" "length (b_key (B a)) = n" "b_datlen (B a) = dl"
  shows "db_findfree_loop n dl sv (int p) db = Some (last (sv # A), int a, at_rec P B a db)"
  using assms
proof (induction A arbitrary: p db sv)
  case Nil
  then show ?case
    using readidx_struct [OF Nil(1), of a] irep_nonzero [OF Nil(1), of a]
    by (subst db_findfree_loop.simps) simp
next
  case (Cons q A)
  have "db_findfree_loop n dl q (int (P q)) (at_rec P B q db) = Some (last (q # A), int a, at_rec P B a (at_rec P B q db))"
    using Cons.prems by (intro Cons.IH) simp_all
  then show ?case
    using Cons.prems readidx_struct [OF Cons(2), of q] irep_nonzero [OF Cons(2), of q]
    by (subst db_findfree_loop.simps) auto
qed

lemma findfree_loop_none:
  assumes "irep (idxfile db) P B os" "chain P p xs" "set xs \<subseteq> set os"
    and "\<forall>q \<in> set xs. \<not> (length (b_key (B q)) = n \<and> b_datlen (B q) = dl)"
  shows "\<exists>sv' db'. db_findfree_loop n dl sv (int p) db = Some (sv', 0, db') \<and> same_files db db'"
  using assms
proof (induction xs arbitrary: p db sv)
  case Nil
  then show ?case by (subst db_findfree_loop.simps) simp
next
  case (Cons q xs)
  have "\<exists>sv' db'. db_findfree_loop n dl q (int (P q)) (at_rec P B q db) = Some (sv', 0, db') \<and> same_files (at_rec P B q db) db'"
    using Cons.prems by (intro Cons.IH) simp_all
  then show ?case
    using Cons.prems readidx_struct [OF Cons(2), of q] irep_nonzero [OF Cons(2), of q]
    by (subst db_findfree_loop.simps) (auto simp: same_files_def)
qed

text \<open>
  \<^verbatim>\<open>_db_findfree\<close> either leaves the files, or unlinks a free record with the lengths
  asked for and leaves the structure positioned on it.
\<close>

lemma findfree_struct:
  assumes s: "db_struct db P B D os fs cs" and l: "\<forall>n t. (IdxFd, FREE_OFF, n, t) \<notin> set (locks db)"
  obtains (none) db' where "db_findfree db n dl = Some (-1, db')" "same_files db db'"
  | (unlinked) A a R db' where "db_findfree db n dl = Some (0, db')" "fs = A @ a # R"
     "length (b_key (B a)) = n" "b_datlen (B a) = dl" "idxoff db' = a" "datoff db' = b_datoff (B a)"
     "idxfile db' = write_at (last (FREE_OFF # A)) (pad PTR_SZ (P a)) (idxfile db)" "datfile db' = datfile db"
     "nhash db' = nhash db" "hashoff db' = hashoff db" "chainoff db' = chainoff db" "locks db' = locks db"
proof -
  note sD = db_structD [OF s]
  let ?db = "(writew_lock IdxFd FREE_OFF 1 db)\<lparr>idxpos := FREE_OFF + PTR_SZ\<rparr>"
  have r: "db_readptr (writew_lock IdxFd FREE_OFF 1 db) FREE_OFF = Some (int (P FREE_OFF), ?db)"
    using readptr_struct [of "writew_lock IdxFd FREE_OFF 1 db" P B os FREE_OFF] sD(3) free_hslots by (simp add: writew_lock_def)
  have i: "irep (idxfile ?db) P B os" using sD(3) by (simp add: writew_lock_def)
  have c: "chain P (P FREE_OFF) fs" "set fs \<subseteq> set os" using sD(5,6) by (auto simp: lrep_def)
  have lk: "locks db' = locks ?db \<Longrightarrow> locks (un_lock IdxFd FREE_OFF 1 db') = locks db" for db'
    using un_lock_again [of IdxFd FREE_OFF "locks db" 1] l by (simp add: un_lock_def writew_lock_def)
  show thesis
  proof (cases "\<exists>q \<in> set fs. length (b_key (B q)) = n \<and> b_datlen (B q) = dl")
    case False
    then have "\<forall>q \<in> set fs. \<not> (length (b_key (B q)) = n \<and> b_datlen (B q) = dl)" by blast
    from findfree_loop_none [OF i c this, of FREE_OFF] obtain sv' db'
      where d: "db_findfree_loop n dl FREE_OFF (int (P FREE_OFF)) ?db = Some (sv', 0, db')" "same_files ?db db'" by blast
    have e: "db_findfree db n dl = Some (-1, un_lock IdxFd FREE_OFF 1 db')"
      unfolding db_findfree_def r option.case prod.case d(1) by simp
    show thesis by (rule none [OF e]) (use d(2) lk [of db'] in \<open>simp add: same_files_def writew_lock_def\<close>)
  next
    case True
    then obtain A a R where A: "fs = A @ a # R" "length (b_key (B a)) = n \<and> b_datlen (B a) = dl"
      "\<forall>q \<in> set A. \<not> (length (b_key (B q)) = n \<and> b_datlen (B q) = dl)"
      by (rule split_list_first_propE)
    have f: "db_findfree_loop n dl FREE_OFF (int (P FREE_OFF)) ?db = Some (last (FREE_OFF # A), int a, at_rec P B a ?db)"
      using c A by (intro findfree_loop_found [OF i, where R = R]) auto
    have a: "a \<noteq> 0" "P a < 10 ^ PTR_SZ" using chain_nonnull [OF c(1)] A(1) c(2) sD(3) by (auto simp: irep_def)
    have w: "db_writeptr (at_rec P B a ?db) (last (FREE_OFF # A)) (ptrval (at_rec P B a ?db)) =
      Some ((at_rec P B a ?db)\<lparr>idxfile := write_at (last (FREE_OFF # A)) (pad PTR_SZ (P a)) (idxfile ?db), idxpos := last (FREE_OFF # A) + PTR_SZ\<rparr>)"
      (is "_ = Some ?db'")
      using writeptr_ok [OF a(2)] by simp
    have e: "db_findfree db n dl = Some (0, un_lock IdxFd FREE_OFF 1 ?db')"
      unfolding db_findfree_def r option.case prod.case f w using a(1) by simp
    show thesis by (rule unlinked [OF e A(1)]) (use A(2) lk [of ?db'] in \<open>simp_all add: writew_lock_def\<close>)
  qed
qed

lemma reuse_eval:
  assumes "v < 10 ^ PTR_SZ" "idxoff db < 10 ^ PTR_SZ" "b_ok b" "b_key b = key" "b_datoff b = datoff db" "b_datlen b = length data + 1"
  shows "\<exists>db'. db_store_reuse db key data (int v) = Some db' \<and>
    idxfile db' = write_at (chainoff db) (pad PTR_SZ (idxoff db)) (write_at (idxoff db) (pad PTR_SZ v @ b_enc b) (idxfile db)) \<and>
    datfile db' = write_at (datoff db) (data @ [NEWLINE]) (datfile db) \<and>
    chainoff db' = chainoff db \<and> nhash db' = nhash db \<and> hashoff db' = hashoff db \<and> locks db' = locks db"
proof -
  define db1 where "db1 = db_writedat db data (Some (datoff db))"
  have d1: "datoff db1 = b_datoff b" "datlen db1 = b_datlen b" "idxoff db1 = idxoff db" "idxfile db1 = idxfile db"
    using assms(5,6) by (simp_all add: db1_def writedat_at)
  define db2 where "db2 = db1\<lparr>ptrval := int v, idxbuf := b_text b, idxoff := idxoff db,
    idxfile := write_at (idxoff db) (pad PTR_SZ v @ b_enc b) (idxfile db),
    idxpos := idxoff db + PTR_SZ + IDXLEN_SZ + length (b_text b)\<rparr>"
  have e1: "db_writeidx db1 key (Some (idxoff db1)) (int v) = Some db2"
    unfolding db2_def using writeidx_at [OF assms(1,3) d1(1,2) assms(4)] d1(3,4) by simp
  have e2: "db_writeptr db2 (chainoff db2) (int (idxoff db2)) =
      Some (db2\<lparr>idxfile := write_at (chainoff db2) (pad PTR_SZ (idxoff db)) (idxfile db2), idxpos := chainoff db2 + PTR_SZ\<rparr>)"
    using writeptr_ok [OF assms(2)] by (simp add: db2_def)
  show ?thesis
    unfolding db_store_reuse_def Let_def db1_def [symmetric] e1 option.case e2
    by (simp add: db2_def db1_def writedat_at)
qed

lemma reuse_body_ok:
  assumes "b_ok b0" "length (b_key b0) = length key" "b_datlen b0 = length data + 1" "key_ok key"
  shows "b_ok (b0\<lparr>b_key := key\<rparr>)" "length (b_enc (b0\<lparr>b_key := key\<rparr>)) = length (b_enc b0)"
proof -
  have t: "length (b_text (b0\<lparr>b_key := key\<rparr>)) = length (b_text b0)" using assms(2) by (simp add: b_text_def)
  then show "b_ok (b0\<lparr>b_key := key\<rparr>)" using assms by (simp add: b_ok_def key_ok_def)
  then show "length (b_enc (b0\<lparr>b_key := key\<rparr>)) = length (b_enc b0)" using assms(1) t by (simp add: length_b_enc)
qed

lemma reuse_struct:
  assumes s: "db_struct db P B D os fs cs" and k: "key_ok key" "dat_ok data"
    and a: "\<forall>q \<in> set (cs (H key)). b_key (B q) \<noteq> key"
    and f: "fs = A @ a # R" "length (b_key (B a)) = length key" "b_datlen (B a) = length data + 1"
    and d: "idxoff db2 = a" "datoff db2 = b_datoff (B a)"
      "idxfile db2 = write_at (last (FREE_OFF # A)) (pad PTR_SZ (P a)) (idxfile db)" "datfile db2 = datfile db"
      "nhash db2 = nhash db" "hashoff db2 = hashoff db" "chainoff db2 = slot (H key)"
  shows "\<exists>db' P' B' D' cs'. db_store_reuse db2 key data (int (P (slot (H key)))) = Some db' \<and>
    db_struct db' P' B' D' os (A @ R) cs' \<and> db_map B' D' cs' = (db_map B D cs)(key \<mapsto> data) \<and>
    chainoff db' = chainoff db2 \<and> locks db' = locks db2 \<and>
    length (idxfile db') = length (idxfile db) \<and> length (datfile db') = length (datfile db)"
proof -
  note sD = db_structD [OF s]
  let ?h = "slot (H key)" and ?p = "last (FREE_OFF # A)" and ?b = "(B a)\<lparr>b_key := key\<rparr>"
  let ?v = "P ?h" let ?P1 = "P(?p := P a)" let ?P = "?P1(a := ?v, ?h := a)" and ?B = "B(a := ?b)" and ?D = "D(a := data)"
  let ?cs = "cs(H key := a # cs (H key))" and ?f1 = "write_at ?p (pad PTR_SZ (P a)) (idxfile db)"
  let ?f = "write_at ?h (pad PTR_SZ a) (write_at a (pad PTR_SZ ?v @ b_enc ?b) ?f1)"
  have sl: "?h \<in> hslots" by (rule slot_hslots [OF H_less])
  have aos: "a \<in> set os" "set A \<subseteq> set os" using sD(6) f(1) by auto
  have pin: "?p \<in> hslots \<union> set os" using aos(2) free_hslots by (cases A rule: rev_cases) auto
  have bounds: "P q < 10 ^ PTR_SZ" if "q \<in> hslots \<union> set os" for q using sD(3) that by (auto simp: irep_def)
  have c: "chain P (P FREE_OFF) (A @ a # R)" using sD(5) f(1) by (simp add: lrep_def)
  have ba: "a < 10 ^ PTR_SZ" using bounds [OF pin] chain_pred [OF c] by simp
  have bok: "b_ok (B a)" using sD(3) aos by (simp add: irep_def)
  note nb = reuse_body_ok [OF bok f(2,3) k(1)]
  have i: "irep ?f ?P ?B os"
    using sD(3) pin sl aos(1) bounds ba nb by (intro irep_write_ptr irep_write_record) simp_all
  have lf: "length ?f = length (idxfile db)"
  proof -
    have "length (b_enc (?B p)) = length (b_enc (B p))" for p using nb(2) by simp
    then show ?thesis using irep_tiles [OF i] tiles_unique [OF irep_tiles [OF sD(3)]] by simp
  qed
  have dl: "length data = length (D a)" using sD(4) aos(1) f(3) by (simp add: drep_def)
  have g: "drep (write_at (b_datoff (B a)) (data @ [NEWLINE]) (datfile db)) ?B ?D os"
    using k(2) dl by (intro drep_write_record [OF sD(4) aos(1)]) (simp_all add: dat_ok_def)
  have lg: "length (write_at (b_datoff (B a)) (data @ [NEWLINE]) (datfile db)) = length (datfile db)"
    using sD(4) aos f(3) by (auto simp: drep_def fld_def length_write_at)
  note u = lrep_unfree [OF sD(5) [unfolded f(1)]]
  have ph: "?P1 ?h = ?v" using node_not_slot [OF _ sl, of ?p] lrep_nodes(1) [OF sD(5)] f(1)
    by (cases A rule: rev_cases) auto
  have l: "lrep ?P ?B (A @ R) ?cs" using lrep_push [OF u(1), of a ?b] u k(1) a ph by (simp add: key_ok_def)
  have m: "db_map ?B ?D ?cs = (db_map B D cs)(key \<mapsto> data)" using db_map_push [of a cs B ?b D data] u(3) by simp
  have o: "set os = set (A @ R) \<union> live ?cs" using sD(6) live_push [OF H_less, of cs key a] f(1) by auto
  obtain db' where e: "db_store_reuse db2 key data (int ?v) = Some db'" "idxfile db' = ?f"
    "datfile db' = write_at (b_datoff (B a)) (data @ [NEWLINE]) (datfile db)"
    "chainoff db' = chainoff db2" "nhash db' = nhash db" "hashoff db' = hashoff db" "locks db' = locks db2"
    using reuse_eval [of ?v db2 ?b key data] bounds sl ba nb(1) d f(3) by auto
  have "db_struct db' ?P ?B ?D os (A @ R) ?cs" using i g l o sD(1,2) e by (simp add: db_struct_def)
  then show ?thesis using e m lf lg by metis
qed

section \<open>The three kinds of store\<close>

definition chain_locked :: "string \<Rightarrow> DB \<Rightarrow> bool" where
  "chain_locked key db \<longleftrightarrow> chainoff db = slot (H key) \<and> locks db = [(IdxFd, slot (H key), 1, WriteLock)]"

lemma chain_lockedD:
  assumes "chain_locked key db"
  shows "chainoff db = slot (H key)" "\<forall>n t. (IdxFd, append_lock, n, t) \<notin> set (locks db)"
    "\<forall>p n t. (DatFd, p, n, t) \<notin> set (locks db)" "\<forall>n t. (IdxFd, FREE_OFF, n, t) \<notin> set (locks db)"
proof -
  have "slot (H key) + PTR_SZ < HDR_END" by (rule hslots_bound [OF slot_hslots [OF H_less]])
  then have "append_lock \<noteq> slot (H key)" by (simp add: append_lock_def HDR_END_def)
  then show "chainoff db = slot (H key)" "\<forall>n t. (IdxFd, append_lock, n, t) \<notin> set (locks db)"
    "\<forall>p n t. (DatFd, p, n, t) \<notin> set (locks db)" "\<forall>n t. (IdxFd, FREE_OFF, n, t) \<notin> set (locks db)"
    using assms by (auto simp: chain_locked_def)
qed

lemma chain_locked_cong: "chainoff db' = chainoff db \<Longrightarrow> locks db' = locks db \<Longrightarrow> chain_locked key db' = chain_locked key db"
  by (simp add: chain_locked_def)

text \<open>The state a writing function leaves while it holds the lock of the chain.\<close>

definition stored :: "string \<Rightarrow> (string \<rightharpoonup> string) \<Rightarrow> DB \<Rightarrow> DB \<Rightarrow> bool" where
  "stored key m db db' \<longleftrightarrow> (\<exists>P B D os fs cs. db_struct db' P B D os fs cs \<and> db_map B D cs = m) \<and> chain_locked key db' \<and>
     length (idxfile db') \<le> length (idxfile db) + 1035 \<and> length (datfile db') \<le> length (datfile db) + 1024"

lemma stored_I:
  "db_struct db' P B D os fs cs \<Longrightarrow> db_map B D cs = m \<Longrightarrow> chain_locked key db' \<Longrightarrow>
   length (idxfile db') \<le> length (idxfile db) + 1035 \<Longrightarrow> length (datfile db') \<le> length (datfile db) + 1024 \<Longrightarrow> stored key m db db'"
  unfolding stored_def by blast

lemma stored_cong:
  assumes "stored key m db db1" "idxfile db' = idxfile db1" "datfile db' = datfile db1" "nhash db' = nhash db1"
    "hashoff db' = hashoff db1" "chainoff db' = chainoff db1" "locks db' = locks db1"
  shows "stored key m db db'"
  using assms db_struct_cong [OF assms(2-5)] chain_locked_cong [OF assms(6,7)] by (simp add: stored_def)

lemma stored_un_lock:
  assumes "stored key m db db'"
  shows "db_rep (un_lock IdxFd (chainoff db') 1 db') m"
proof -
  obtain P B D os fs cs where s: "db_struct db' P B D os fs cs" "db_map B D cs = m" and l: "chain_locked key db'"
    using assms unfolding stored_def by blast
  have "db_struct (un_lock IdxFd (chainoff db') 1 db') P B D os fs cs" using s(1) db_struct_cong [of "un_lock IdxFd (chainoff db') 1 db'" db'] by simp
  moreover have "locks (un_lock IdxFd (chainoff db') 1 db') = []" using l by (simp add: un_lock_def chain_locked_def)
  ultimately show ?thesis using s(2) db_rep_I by metis
qed

lemma store_new_struct:
  assumes s: "db_struct db P B D os fs cs" and k: "key_ok key" "dat_ok data" "db_room db"
    and a: "\<forall>q \<in> set (cs (H key)). b_key (B q) \<noteq> key" and c: "chain_locked key db"
  shows "\<exists>db'. db_store_new db key data = Some db' \<and> stored key ((db_map B D cs)(key \<mapsto> data)) db db'"
proof -
  note sD = db_structD [OF s]
  have sl: "slot (H key) \<in> hslots" by (rule slot_hslots [OF H_less])
  let ?db1 = "db\<lparr>idxpos := slot (H key) + PTR_SZ\<rparr>" and ?v = "int (P (slot (H key)))"
  have r: "db_readptr db (chainoff db) = Some (?v, ?db1)"
    using readptr_struct [OF sD(3), of "slot (H key)"] sl chain_lockedD(1) [OF c] by simp
  have s1: "db_struct ?db1 P B D os fs cs" using s by (simp add: db_struct_def)
  have c1: "chain_locked key ?db1" using c by (simp add: chain_locked_def)
  show ?thesis
  proof (cases rule: findfree_struct [OF s1 chain_lockedD(4) [OF c1], of "length key" "length data + 1"])
    case (1 db2)
    have s2: "db_struct db2 P B D os fs cs" and c2: "chain_locked key db2" and k2: "db_room db2"
      using 1(2) s1 c1 k(3) db_struct_same [OF 1(2)] chain_locked_cong [of db2 ?db1 key] by (auto simp: same_files_def db_room_def)
    obtain db3 P' B' D' cs' where e: "db_store_append db2 key data ?v = Some db3"
      "db_struct db3 P' B' D' (os @ [length (idxfile db2)]) fs cs'" "db_map B' D' cs' = (db_map B D cs)(key \<mapsto> data)"
      "chainoff db3 = chainoff db2" "locks db3 = locks db2" "length (idxfile db3) \<le> length (idxfile db2) + 1035"
      "length (datfile db3) \<le> length (datfile db2) + 1024"
      using append_struct [OF s2 k(1,2) k2 a chain_lockedD(1-3) [OF c2]] by blast
    have "stored key ((db_map B D cs)(key \<mapsto> data)) db db3"
      using e 1(2) c2 chain_locked_cong [OF e(4,5), of key] by (intro stored_I [OF e(2,3)]) (simp_all add: same_files_def)
    then have "stored key ((db_map B D cs)(key \<mapsto> data)) db (db3\<lparr>cnt_stor1 := cnt_stor1 db3 + 1\<rparr>)" by (rule stored_cong) simp_all
    then show ?thesis using r 1(1) e(1) by (simp add: db_store_new_def)
  next
    case (2 A b R db2)
    obtain db3 P' B' D' cs' where e: "db_store_reuse db2 key data ?v = Some db3"
      "db_struct db3 P' B' D' os (A @ R) cs'" "db_map B' D' cs' = (db_map B D cs)(key \<mapsto> data)"
      "chainoff db3 = chainoff db2" "locks db3 = locks db2" "length (idxfile db3) = length (idxfile ?db1)"
      "length (datfile db3) = length (datfile ?db1)"
      using reuse_struct [OF s1 k(1,2) a 2(2-10) trans [OF 2(11) chain_lockedD(1) [OF c1]]] by blast
    have "stored key ((db_map B D cs)(key \<mapsto> data)) db db3"
      using e 2(11,12) c1 chain_locked_cong [of db3 ?db1 key] by (intro stored_I [OF e(2,3)]) simp_all
    then have "stored key ((db_map B D cs)(key \<mapsto> data)) db (db3\<lparr>cnt_stor2 := cnt_stor2 db3 + 1\<rparr>)" by (rule stored_cong) simp_all
    then show ?thesis using r 2(1) e(1) by (simp add: db_store_new_def)
  qed
qed

lemma store_overwrite:
  assumes s: "db_struct db P B D os fs cs" and f: "a \<in> set (cs (H key))" "b_key (B a) = key" and k: "dat_ok data" "length data = length (D a)"
    and d: "chain_locked key db" "datoff db = b_datoff (B a)"
  shows "stored key ((db_map B D cs)(key \<mapsto> data)) db (db_writedat db data (Some (datoff db)))"
proof -
  let ?db = "db_writedat db data (Some (datoff db))"
  note sD = db_structD [OF s]
  have aos: "a \<in> set os" using chain_sub(2) [OF s H_less] f(1) by blast
  have g: "drep (write_at (b_datoff (B a)) (data @ [NEWLINE]) (datfile db)) B (D(a := data)) os"
    using k by (intro drep_write_record [OF sD(4) aos]) (simp_all add: dat_ok_def)
  have "length (datfile ?db) = length (datfile db)"
    using sD(4) aos k(2) by (auto simp: writedat_at d(2) drep_def fld_def length_write_at)
  moreover have "db_map B (D(a := data)) cs = (db_map B D cs)(key \<mapsto> data)"
    using db_map_overwrite [OF sD(5), of a D data] f by simp
  moreover have "db_struct ?db P B (D(a := data)) os fs cs"
    using g sD d(2) by (simp add: db_struct_def writedat_at)
  moreover have "chain_locked key ?db" using d(1) by (simp add: chain_locked_def writedat_at)
  ultimately show ?thesis by (intro stored_I) (simp_all add: writedat_at)
qed

lemma store_replace_struct:
  assumes s: "db_struct db P B D os fs cs" and l: "locks db = []" and k: "key_ok key" "dat_ok data" "db_room db"
    and f: "cs (H key) = A @ a # R" "b_key (B a) = key"
  shows "\<exists>db1 db2. db_find_and_lock db key True = Some (0, db1) \<and> db_store_replace db1 key data = Some db2 \<and>
    stored key ((db_map B D cs)(key \<mapsto> data)) db db2"
proof (cases "length data = length (D a)")
  case True
  let ?db1 = "at_rec P B a ((locked True key db)\<lparr>ptroff := last (slot (H key) # A)\<rparr>)"
  let ?db2 = "db_writedat ?db1 data (Some (datoff ?db1))"
  note e = find_and_lock_found [OF s f, of True]
  have s1: "db_struct ?db1 P B D os fs cs" using s db_struct_cong [of ?db1 db] by simp
  have "chain_locked key ?db1" using l by (simp add: chain_locked_def locked_def)
  then have "stored key ((db_map B D cs)(key \<mapsto> data)) ?db1 ?db2"
    using f k(2) True by (intro store_overwrite [OF s1]) simp_all
  then have "stored key ((db_map B D cs)(key \<mapsto> data)) db ?db2" by (simp add: stored_def)
  then have "stored key ((db_map B D cs)(key \<mapsto> data)) db (?db2\<lparr>cnt_stor4 := cnt_stor4 ?db2 + 1\<rparr>)" by (rule stored_cong) simp_all
  moreover have "datlen ?db1 = length data + 1"
    using db_structD(4) [OF s] chain_sub(2) [OF s H_less, of key] f(1) True by (auto simp: drep_def)
  then have "db_store_replace ?db1 key data = Some (?db2\<lparr>cnt_stor4 := cnt_stor4 ?db2 + 1\<rparr>)"
    unfolding db_store_replace_def Let_def by simp
  ultimately show ?thesis using e by blast
next
  case False
  obtain db1 db2 P' B' D' where d: "db_find_and_lock db key True = Some (0, db1)" "datlen db1 = length (D a) + 1"
    "db_dodelete db1 = Some db2" "db_struct db2 P' B' D' os (a # fs) (cs(H key := A @ R))"
    "db_map B' D' (cs(H key := A @ R)) = (db_map B D cs)(key := None)" "\<forall>q \<in> set (A @ R). b_key (B' q) \<noteq> key"
    "chainoff db2 = slot (H key)" "locks db2 = locks (locked True key db)"
    "length (idxfile db2) = length (idxfile db)" "length (datfile db2) = length (datfile db)"
    by (rule find_dodelete [OF s l f])
  let ?db3 = "db2\<lparr>idxpos := slot (H key) + PTR_SZ\<rparr>" and ?cs = "cs(H key := A @ R)"
  have s3: "db_struct ?db3 P' B' D' os (a # fs) ?cs" using d(4) by (simp add: db_struct_def)
  have c3: "chain_locked key ?db3" using d(7,8) l by (simp add: chain_locked_def locked_def)
  have r: "db_readptr db2 (chainoff db2) = Some (int (P' (slot (H key))), ?db3)"
    using readptr_struct [OF db_structD(3) [OF d(4)], of "slot (H key)"] slot_hslots [OF H_less, of key] d(7) by simp
  have a3: "\<forall>q \<in> set (?cs (H key)). b_key (B' q) \<noteq> key" using d(6) by simp
  have "db_room ?db3" using k(3) d(9,10) by (simp add: db_room_def)
  from append_struct [OF s3 k(1,2) this a3 chain_lockedD(1-3) [OF c3]]
  obtain db4 P4 B4 D4 cs4 where e: "db_store_append ?db3 key data (int (P' (slot (H key)))) = Some db4"
    "db_struct db4 P4 B4 D4 (os @ [length (idxfile ?db3)]) (a # fs) cs4"
    "db_map B4 D4 cs4 = (db_map B' D' ?cs)(key \<mapsto> data)" "chainoff db4 = chainoff ?db3" "locks db4 = locks ?db3"
    "length (idxfile db4) \<le> length (idxfile ?db3) + 1035" "length (datfile db4) \<le> length (datfile ?db3) + 1024"
    by blast
  have m: "db_map B4 D4 cs4 = (db_map B D cs)(key \<mapsto> data)" using e(3) d(5) by simp
  have "stored key ((db_map B D cs)(key \<mapsto> data)) db db4"
    using e(6,7) d(9,10) c3 chain_locked_cong [OF e(4,5), of key] by (intro stored_I [OF e(2) m]) simp_all
  then have "stored key ((db_map B D cs)(key \<mapsto> data)) db (db4\<lparr>cnt_stor3 := cnt_stor3 db4 + 1\<rparr>)" by (rule stored_cong) simp_all
  moreover have "db_store_replace db1 key data = Some (db4\<lparr>cnt_stor3 := cnt_stor3 db4 + 1\<rparr>)"
    using d(2,3) False r e(1) by (simp add: db_store_replace_def)
  ultimately show ?thesis using d(1) by blast
qed

text \<open>What \<^verbatim>\<open>db_store\<close> promises: its result and error number, and the new mapping.\<close>

definition store_spec :: "(string \<rightharpoonup> string) \<Rightarrow> string \<Rightarrow> string \<Rightarrow> int \<Rightarrow> (int \<times> rc) \<times> (string \<rightharpoonup> string)" where
  "store_spec m key data flag =
     (if flag = DB_REPLACE \<and> m key = None then ((-1, Some ENOENT), m)
      else if flag = DB_INSERT \<and> m key \<noteq> None then ((1, None), m)
      else ((0, None), m(key \<mapsto> data)))"

lemma db_flags [simp]: "DB_INSERT \<noteq> DB_REPLACE" "DB_REPLACE \<noteq> DB_INSERT"
  by (simp_all add: DB_INSERT_def DB_REPLACE_def)

lemma store_keeps:
  assumes s: "db_struct db P B D os fs cs" and l: "locks db = []"
    and d: "idxfile db1 = idxfile db" "datfile db1 = datfile db" "nhash db1 = nhash db" "hashoff db1 = hashoff db"
      "chainoff db1 = slot (H key)" "locks db1 = locks (locked True key db)"
  shows "db_rep (un_lock IdxFd (chainoff db1) 1 (db1\<lparr>cnt_storerr := n\<rparr>)) (db_map B D cs)"
proof -
  let ?db = "un_lock IdxFd (chainoff db1) 1 (db1\<lparr>cnt_storerr := n\<rparr>)"
  have "db_struct ?db P B D os fs cs" using s d db_struct_cong [of ?db db] by simp
  moreover have "locks ?db = []" using d l by (simp add: un_lock_def locked_def)
  ultimately show ?thesis using db_rep_I by blast
qed

lemma store_rep:
  assumes "db_rep db m" and k: "key_ok key" "dat_ok data" "db_room db" and fl: "flag \<in> {DB_INSERT, DB_REPLACE, DB_STORE}"
  shows "\<exists>db'. db_store db key data flag = Some (fst (store_spec m key data flag), db') \<and>
     db_rep db' (snd (store_spec m key data flag)) \<and>
     length (idxfile db') \<le> length (idxfile db) + 1035 \<and> length (datfile db') \<le> length (datfile db) + 1024"
proof -
  obtain P B D os fs cs where s: "db_struct db P B D os fs cs" and m: "m = db_map B D cs" and l: "locks db = []"
    using assms(1) unfolding db_rep_def by blast
  have g: "(flag \<noteq> DB_INSERT \<and> flag \<noteq> DB_REPLACE \<and> flag \<noteq> DB_STORE) = False"
    "(length data + 1 < DATLEN_MIN \<or> length data + 1 > DATLEN_MAX) = False"
    using fl k(2) by (auto simp: dat_ok_def DATLEN_MIN_def DATLEN_MAX_def)
  note eval = db_store_def [of db key data flag, unfolded g if_False]
  from s show ?thesis
  proof (cases rule: db_rep_cases [where key = key])
    case (found A a R)
    obtain db1 where d: "db_find_and_lock db key True = Some (0, db1)" "idxfile db1 = idxfile db" "datfile db1 = datfile db"
      "nhash db1 = nhash db" "hashoff db1 = hashoff db" "chainoff db1 = slot (H key)" "locks db1 = locks (locked True key db)"
      using find_and_lock_found [OF s found(1,2), of True] by auto
    show ?thesis
    proof (cases "flag = DB_INSERT")
      case True
      have "db_rep (un_lock IdxFd (chainoff db1) 1 (db1\<lparr>cnt_storerr := cnt_storerr db1 + 1\<rparr>)) m"
        unfolding m by (rule store_keeps [OF s l d(2-7)])
      then show ?thesis using True found(4) m eval d by (simp add: store_spec_def)
    next
      case False
      obtain db2 where e: "db_store_replace db1 key data = Some db2" "stored key (m(key \<mapsto> data)) db db2"
        using store_replace_struct [OF s l k found(1,2)] d(1) m by auto
      have "db_store db key data flag = Some ((0, None), un_lock IdxFd (chainoff db2) 1 db2)"
        using eval d(1) e(1) False by simp
      then show ?thesis using stored_un_lock [OF e(2)] e(2) False found(4) m by (simp add: store_spec_def stored_def)
    qed
  next
    case absent
    obtain db1 where f: "db_find_and_lock db key True = Some (-1, db1)" "same_files (locked True key db) db1"
      using find_and_lock_absent [OF s absent(1)] by blast
    have d: "idxfile db1 = idxfile db" "datfile db1 = datfile db" "nhash db1 = nhash db" "hashoff db1 = hashoff db"
      "chainoff db1 = slot (H key)" "locks db1 = locks (locked True key db)"
      using f(2) by (simp_all add: same_files_def)
    show ?thesis
    proof (cases "flag = DB_REPLACE")
      case True
      have "db_rep (un_lock IdxFd (chainoff db1) 1 (db1\<lparr>cnt_storerr := cnt_storerr db1 + 1\<rparr>)) m"
        unfolding m by (rule store_keeps [OF s l d])
      then show ?thesis using True absent(2) m eval f(1) d by (simp add: store_spec_def)
    next
      case False
      have s1: "db_struct db1 P B D os fs cs" using s db_struct_cong [OF d(1-4)] by simp
      have "chain_locked key db1" "db_room db1" using d l k(3) by (simp_all add: chain_locked_def locked_def db_room_def)
      from store_new_struct [OF s1 k(1,2) this(2) absent(1) this(1)]
      obtain db2 where e: "db_store_new db1 key data = Some db2" "stored key (m(key \<mapsto> data)) db1 db2" using m by blast
      have "db_store db key data flag = Some ((0, None), un_lock IdxFd (chainoff db2) 1 db2)"
        using eval f(1) e(1) False by simp
      then show ?thesis using stored_un_lock [OF e(2)] e(2) False absent(2) m d(1,2) by (simp add: store_spec_def stored_def)
    qed
  qed
qed

end
