(* ===== verification/Refine.thy ===== *)
theory Refine
  imports Prelude
begin

text \<open>
  Refinement of a specification by an implementation whose operations may fail when it has
  grown too large: as long as there is room, each operation returns what the specification
  returns, and it grows by a bounded amount.
\<close>

text \<open>A sequence of calls, on the implementation and on the specification.\<close>

primrec run_calls :: "('s \<Rightarrow> 'op \<Rightarrow> ('r \<times> 's) option) \<Rightarrow> 's \<Rightarrow> 'op list \<Rightarrow> ('r list \<times> 's) option" where
  "run_calls step s [] = Some ([], s)"
| "run_calls step s (op # ops) =
     (case step s op of None \<Rightarrow> None | Some (r, s') \<Rightarrow> map_option (apfst (Cons r)) (run_calls step s' ops))"

primrec run_spec :: "('a \<Rightarrow> 'op \<Rightarrow> 'r \<times> 'a) \<Rightarrow> 'a \<Rightarrow> 'op list \<Rightarrow> 'r list \<times> 'a" where
  "run_spec spec a [] = ([], a)"
| "run_spec spec a (op # ops) = apfst (Cons (fst (spec a op))) (run_spec spec (snd (spec a op)) ops)"

text \<open>Calls that the specification allows at each point of the sequence.\<close>

primrec run_ok :: "('a \<Rightarrow> 'op \<Rightarrow> bool) \<Rightarrow> ('a \<Rightarrow> 'op \<Rightarrow> 'r \<times> 'a) \<Rightarrow> 'a \<Rightarrow> 'op list \<Rightarrow> bool" where
  "run_ok valid spec a [] \<longleftrightarrow> True"
| "run_ok valid spec a (op # ops) \<longleftrightarrow> valid a op \<and> run_ok valid spec (snd (spec a op)) ops"

lemma run_ok_const: "run_ok (\<lambda>_. P) spec a ops \<longleftrightarrow> (\<forall>op \<in> set ops. P op)"
  by (induction ops arbitrary: a) auto

lemma run_spec_append:
  "run_spec spec a (xs @ ys) =
     (fst (run_spec spec a xs) @ fst (run_spec spec (snd (run_spec spec a xs)) ys), snd (run_spec spec (snd (run_spec spec a xs)) ys))"
  by (induction xs arbitrary: a) (simp_all add: apfst_def map_prod_def split: prod.split)

lemma run_ok_append: "run_ok valid spec a (xs @ ys) \<longleftrightarrow> run_ok valid spec a xs \<and> run_ok valid spec (snd (run_spec spec a xs)) ys"
  by (induction xs arbitrary: a) auto

lemma length_run_spec [simp]: "length (fst (run_spec spec a xs)) = length xs"
  by (induction xs arbitrary: a) simp_all

locale bounded_refinement =
  fixes rep :: "'s \<Rightarrow> 'a \<Rightarrow> bool"
    and step :: "'s \<Rightarrow> 'op \<Rightarrow> ('r \<times> 's) option"
    and spec :: "'a \<Rightarrow> 'op \<Rightarrow> 'r \<times> 'a"
    and valid :: "'a \<Rightarrow> 'op \<Rightarrow> bool"
    and used :: "'s \<Rightarrow> nat"
    and room growth :: nat
  assumes step_refines: "rep s a \<Longrightarrow> valid a op \<Longrightarrow> used s \<le> room \<Longrightarrow>
    \<exists>s'. step s op = Some (fst (spec a op), s') \<and> rep s' (snd (spec a op)) \<and> used s' \<le> used s + growth"
begin

lemma run_refines:
  assumes "rep s a" "run_ok valid spec a ops" "used s + length ops * growth \<le> room + growth"
  shows "\<exists>s'. run_calls step s ops = Some (fst (run_spec spec a ops), s') \<and> rep s' (snd (run_spec spec a ops)) \<and>
    used s' \<le> used s + length ops * growth"
  using assms
proof (induction ops arbitrary: s a)
  case Nil
  then show ?case by simp
next
  case (Cons op ops)
  then obtain s1 where s1: "step s op = Some (fst (spec a op), s1)" "rep s1 (snd (spec a op))" "used s1 \<le> used s + growth"
    using step_refines [of s a op] by auto
  then have "used s1 + length ops * growth \<le> room + growth" using Cons.prems(3) by simp
  from Cons.IH [OF s1(2) _ this] Cons.prems(2) obtain s2 where
    "run_calls step s1 ops = Some (fst (run_spec spec (snd (spec a op)) ops), s2)" "rep s2 (snd (run_spec spec (snd (spec a op)) ops))"
    "used s2 \<le> used s1 + length ops * growth" by auto
  then show ?case using s1 by (auto simp: apfst_def map_prod_def split: prod.splits)
qed

end

end
