(* ===== verification/Db_Props.thy ===== *)
theory Db_Props
  imports Db_Ops Refine
begin

text \<open>
  The database library as a store of strings under keys: what opening, fetching, storing,
  deleting and scanning do to the mapping the files hold.
\<close>

section \<open>Reading the records in the order of the file\<close>

lemma readidx_next:
  assumes "irep (idxfile db) P B os" "idxpos db = a" "a \<in> set os"
  shows "db_readidx db 0 = Some (int (P a), at_rec P B a db)"
proof -
  have "fld (idxfile db) a (pad PTR_SZ (P a))" "P a < 10 ^ PTR_SZ" "fld (idxfile db) (a + PTR_SZ) (b_enc (B a))" "b_ok (B a)"
    using assms(1,3) by (auto simp: irep_def)
  then show ?thesis
    unfolding at_rec_def using assms(2) by (intro db_readidx_record) (simp_all add: fld_append length_pad_ptr)
qed

lemma readidx_end: "idxpos db = length (idxfile db) \<Longrightarrow> db_readidx db 0 = Some (-1, db\<lparr>idxoff := idxpos db\<rparr>)"
  by (cases db) (simp add: db_readidx_def PTR_SZ_def Let_def)

abbreviation rec_len :: "(nat \<Rightarrow> ibody) \<Rightarrow> nat \<Rightarrow> nat" where
  "rec_len B p \<equiv> PTR_SZ + length (b_enc (B p))"

text \<open>\<open>rest db B os xs\<close>: the records from the current offset to the end of the file are \<open>xs\<close>.\<close>

definition rest :: "DB \<Rightarrow> (nat \<Rightarrow> ibody) \<Rightarrow> nat list \<Rightarrow> nat list \<Rightarrow> bool" where
  "rest db B os xs \<longleftrightarrow> tiles (rec_len B) (idxpos db) xs (length (idxfile db)) \<and> set xs \<subseteq> set os"

lemma nextrec_blank:
  assumes "db_struct db P B D os fs cs" "rest db B os (a # xs)" "blank (b_key (B a))"
  shows "db_nextrec db = db_nextrec (at_rec P B a db)" "rest (at_rec P B a db) B os xs"
proof -
  have a: "a \<in> set os" "idxpos db = a" using assms(2) by (auto simp: rest_def)
  have r: "db_readidx (readw_lock IdxFd FREE_OFF 1 db) 0 = Some (int (P a), at_rec P B a (readw_lock IdxFd FREE_OFF 1 db))"
    using db_structD(3) [OF assms(1)] a by (intro readidx_next [where os = os]) (simp_all add: readw_lock_def)
  have "db_nextrec_loop (readw_lock IdxFd FREE_OFF 1 db) = db_nextrec_loop (at_rec P B a (readw_lock IdxFd FREE_OFF 1 db))"
    using r assms(3) by (subst db_nextrec_loop.simps) (simp add: blank_def)
  also have "at_rec P B a (readw_lock IdxFd FREE_OFF 1 db) = readw_lock IdxFd FREE_OFF 1 (at_rec P B a db)"
    by (simp add: at_rec_def readw_lock_def)
  finally show "db_nextrec db = db_nextrec (at_rec P B a db)" by (simp add: db_nextrec_def)
  show "rest (at_rec P B a db) B os xs" using assms(2) a(2) by (simp add: rest_def at_rec_def add.assoc)
qed

lemma nextrec_live:
  assumes s: "db_struct db P B D os fs cs" and l: "locks db = []" and r: "rest db B os (a # xs)" and b: "\<not> blank (b_key (B a))"
  shows "\<exists>db'. db_nextrec db = Some (Some (b_key (B a), D a), db') \<and> db_struct db' P B D os fs cs \<and> locks db' = [] \<and>
    rest db' B os xs"
proof -
  let ?dl = "readw_lock IdxFd FREE_OFF 1 db" let ?db1 = "at_rec P B a ?dl"
  have a: "a \<in> set os" "idxpos db = a" using r by (auto simp: rest_def)
  have "db_readidx ?dl 0 = Some (int (P a), ?db1)"
    using db_structD(3) [OF s] a by (intro readidx_next [where os = os]) (simp_all add: readw_lock_def)
  then have e: "db_nextrec_loop ?dl = Some (True, ?db1)"
    using b by (subst db_nextrec_loop.simps) (auto simp: blank_def)
  have d: "db_readdat ?db1 = Some (D a, ?db1\<lparr>datbuf := D a\<rparr>)"
    using db_structD(4) [OF s] a(1) by (intro readdat_struct [where B = B and os = os]) (simp_all add: readw_lock_def)
  let ?db' = "un_lock IdxFd FREE_OFF 1 (?db1\<lparr>datbuf := D a, cnt_nextrec := cnt_nextrec ?db1 + 1\<rparr>)"
  have "db_nextrec db = Some (Some (b_key (B a), D a), ?db')"
    unfolding db_nextrec_def e option.case prod.case not_True_eq_False if_False d Let_def by simp
  moreover have "db_struct ?db' P B D os fs cs" using s by (simp add: db_struct_def readw_lock_def)
  moreover have "locks ?db' = []" using l by (simp add: un_lock_def readw_lock_def)
  moreover have "rest ?db' B os xs" using r a(2) by (simp add: rest_def at_rec_def readw_lock_def add.assoc)
  ultimately show ?thesis by blast
qed

lemma nextrec_end:
  assumes s: "db_struct db P B D os fs cs" and l: "locks db = []" and r: "rest db B os []"
  shows "\<exists>db'. db_nextrec db = Some (None, db') \<and> db_struct db' P B D os fs cs \<and> locks db' = []"
proof -
  let ?dl = "readw_lock IdxFd FREE_OFF 1 db"
  have "db_readidx ?dl 0 = Some (-1, ?dl\<lparr>idxoff := idxpos ?dl\<rparr>)"
    using r by (intro readidx_end) (simp add: rest_def readw_lock_def)
  then have "db_nextrec_loop ?dl = Some (False, ?dl\<lparr>idxoff := idxpos ?dl\<rparr>)"
    by (subst db_nextrec_loop.simps) simp
  then have "db_nextrec db = Some (None, un_lock IdxFd FREE_OFF 1 (?dl\<lparr>idxoff := idxpos ?dl\<rparr>))"
    by (simp add: db_nextrec_def)
  then show ?thesis using s l by (simp add: db_struct_def readw_lock_def un_lock_def)
qed

text \<open>A scan: \<^verbatim>\<open>db_nextrec\<close> is called until it returns a null pointer.\<close>

inductive db_scan :: "DB \<Rightarrow> (string \<times> string) list \<Rightarrow> DB \<Rightarrow> bool" where
  scan_end: "db_nextrec db = Some (None, db') \<Longrightarrow> db_scan db [] db'"
| scan_rec: "db_nextrec db = Some (Some kv, db1) \<Longrightarrow> db_scan db1 kvs db' \<Longrightarrow> db_scan db (kv # kvs) db'"

lemma scan_skip:
  assumes "db_nextrec db = db_nextrec db1" "db_scan db1 kvs db'"
  shows "db_scan db kvs db'"
  using assms(2)
proof cases
  case scan_end
  then show ?thesis using assms(1) by (auto intro: db_scan.scan_end)
next
  case (scan_rec kv db2 ys)
  then show ?thesis using assms(1) db_scan.scan_rec by metis
qed

lemma scan_rest:
  assumes "db_struct db P B D os fs cs" "locks db = []" "rest db B os xs"
  shows "\<exists>db'. db_scan db (map (\<lambda>p. (b_key (B p), D p)) (filter (\<lambda>p. \<not> blank (b_key (B p))) xs)) db' \<and>
    db_struct db' P B D os fs cs \<and> locks db' = []"
  using assms
proof (induction xs arbitrary: db)
  case Nil
  then show ?case using nextrec_end [OF Nil] by (auto intro: scan_end)
next
  case (Cons a xs)
  show ?case
  proof (cases "blank (b_key (B a))")
    case True
    have "db_struct (at_rec P B a db) P B D os fs cs" "locks (at_rec P B a db) = []" using Cons.prems(1,2) by (simp_all add: db_struct_def)
    then show ?thesis
      using Cons.IH [OF _ _ nextrec_blank(2) [OF Cons.prems(1,3) True]] scan_skip [OF nextrec_blank(1) [OF Cons.prems(1,3) True]] True by auto
  next
    case False
    obtain db1 where n: "db_nextrec db = Some (Some (b_key (B a), D a), db1)" "db_struct db1 P B D os fs cs"
      "locks db1 = []" "rest db1 B os xs" using nextrec_live [OF Cons.prems False] by blast
    from Cons.IH [OF n(2-4)] scan_rec [OF n(1)] False show ?thesis by auto
  qed
qed

lemma tiles_distinct: "tiles len a xs e \<Longrightarrow> (\<And>x. 0 < len x) \<Longrightarrow> distinct xs"
proof (induction xs arbitrary: a)
  case (Cons x xs)
  then have t: "tiles len (a + len a) xs e" "x = a" by auto
  have "x \<notin> set xs" using tiles_mem [OF t(1), of x] t(2) Cons.prems(2) [of a] by auto
  moreover have "distinct xs" by (rule Cons.IH [OF t(1) Cons.prems(2)])
  ultimately show ?case by simp
qed simp

lemma struct_blank:
  assumes "db_struct db P B D os fs cs" "p \<in> set os"
  shows "blank (b_key (B p)) \<longleftrightarrow> p \<notin> live cs"
  using db_structD(5,6) [OF assms(1)] assms(2) by (auto simp: lrep_def live_def)

lemma struct_inj:
  assumes "db_struct db P B D os fs cs"
  shows "inj_on (\<lambda>p. b_key (B p)) (live cs)"
proof (rule inj_onI)
  fix p q assume pq: "p \<in> live cs" "q \<in> live cs" "b_key (B p) = b_key (B q)"
  then obtain i j where i: "i < NHASH_DEF" "p \<in> set (cs i)" and j: "j < NHASH_DEF" "q \<in> set (cs j)" by (auto simp: live_def)
  have "H (b_key (B p)) = i" "H (b_key (B q)) = j" "inj_on (\<lambda>p. b_key (B p)) (set (cs i))"
    using db_structD(5) [OF assms] i j unfolding lrep_def by blast+
  then show "p = q" using pq i j by (auto dest: inj_onD)
qed

lemma struct_map:
  assumes s: "db_struct db P B D os fs cs" and d: "distinct os"
  defines "kvs \<equiv> map (\<lambda>p. (b_key (B p), D p)) (filter (\<lambda>p. \<not> blank (b_key (B p))) os)"
  shows "distinct (map fst kvs)" "map_of kvs = db_map B D cs"
proof -
  let ?ps = "filter (\<lambda>p. \<not> blank (b_key (B p))) os"
  have ps: "set ?ps = live cs" using struct_blank [OF s] db_structD(6) [OF s] by auto
  have "map fst kvs = map (\<lambda>p. b_key (B p)) ?ps" by (simp add: kvs_def comp_def)
  moreover have "distinct (map (\<lambda>p. b_key (B p)) ?ps)"
    using struct_inj [OF s] d ps by (simp only: distinct_map) simp
  ultimately show dk: "distinct (map fst kvs)" by simp
  show "map_of kvs = db_map B D cs"
  proof (rule ext)
    fix k
    from s show "map_of kvs k = db_map B D cs k"
    proof (cases rule: db_rep_cases [where key = k])
      case (found A a R)
      then have "a \<in> live cs" using live_I [OF H_less, of a cs k] by simp
      then have "a \<in> set ?ps" using ps by blast
      then have "(b_key (B a), D a) \<in> set kvs" unfolding kvs_def set_map by (rule imageI)
      then show ?thesis using found dk by simp
    next
      case absent
      have "k \<notin> fst ` set kvs"
      proof
        assume "k \<in> fst ` set kvs"
        then obtain p where p: "p \<in> live cs" "b_key (B p) = k" using ps by (auto simp: kvs_def)
        then obtain i where i: "i < NHASH_DEF" "p \<in> set (cs i)" by (auto simp: live_def)
        then have "H (b_key (B p)) = i" using db_structD(5) [OF s] unfolding lrep_def by blast
        then show False using absent(1) p i by blast
      qed
      then show ?thesis using absent(2) by (simp add: map_of_eq_None_iff)
    qed
  qed
qed

lemma scan_rep:
  assumes "db_rep db m"
  shows "\<exists>kvs db'. db_scan (db_rewind db) kvs db' \<and> distinct (map fst kvs) \<and> map_of kvs = m \<and> db_rep db' m"
proof -
  obtain P B D os fs cs where s: "db_struct db P B D os fs cs" and m: "m = db_map B D cs" and l: "locks db = []"
    using assms unfolding db_rep_def by blast
  have t: "tiles (rec_len B) HDR_END os (length (idxfile db))" using irep_tiles [OF db_structD(3) [OF s]] .
  have s1: "db_struct (db_rewind db) P B D os fs cs" "locks (db_rewind db) = []" "rest (db_rewind db) B os os"
    using s l t by (simp_all add: db_struct_def db_rewind_def rest_def HDR_END_def Let_def)
  have "distinct os" by (rule tiles_distinct [OF t]) simp
  from struct_map [OF s this] scan_rest [OF s1] m show ?thesis using db_rep_I by blast
qed

section \<open>Opening and closing\<close>

lemma fld_concat_replicate: "i < n \<Longrightarrow> fld (concat (replicate n s) @ t) (i * length s) s"
proof -
  assume "i < n"
  then have "replicate n s = replicate i s @ s # replicate (n - i - 1) s"
    using replicate_add [of i "Suc (n - i - 1)" s] by simp
  then show ?thesis by (simp add: fld_def length_concat sum_list_replicate)
qed

lemma open_new_rep: "\<exists>db. db_open True True (Some i) (Some d) = Some db \<and> db_rep db Map.empty \<and>
    length (idxfile db) = HDR_END \<and> datfile db = []"
proof -
  let ?B = "\<lambda>_. \<lparr>b_key = [], b_datoff = 0, b_datlen = 0\<rparr>"
  let ?db = "db_rewind (un_lock IdxFd 0 0 (writew_lock IdxFd 0 0
     (db_alloc\<lparr>nhash := NHASH_DEF, hashoff := HASH_OFF, idxfile := db_init_text, idxpos := length db_init_text\<rparr>)))"
  have lp: "length (pad PTR_SZ 0) = PTR_SZ" by (simp add: length_pad_ptr)
  have len: "length db_init_text = HDR_END"
    by (simp add: db_init_text_def length_concat sum_list_replicate lp HDR_END_def)
  have "fld db_init_text p (pad PTR_SZ 0)" if "p \<in> hslots" for p
    using that fld_concat_replicate [of _ "NHASH_DEF + 1" "pad PTR_SZ 0" "[NEWLINE]"] lp
    by (auto simp: hslots_def db_init_text_def)
  then have "irep db_init_text (\<lambda>_. 0) ?B []" using len by (simp add: irep_def)
  moreover have "lrep (\<lambda>_. 0) ?B [] (\<lambda>_. [])" by (simp add: lrep_def)
  ultimately have "db_struct ?db (\<lambda>_. 0) ?B (\<lambda>_. []) [] [] (\<lambda>_. [])"
    by (simp add: db_struct_def db_rewind_def Let_def writew_lock_def db_alloc_def drep_def live_def)
  moreover have "locks ?db = []" by (simp add: db_rewind_def Let_def un_lock_def writew_lock_def db_alloc_def)
  moreover have "Map.empty = db_map ?B (\<lambda>_. []) (\<lambda>_. [])" by (simp add: fun_eq_iff db_map_def)
  ultimately have "db_rep ?db Map.empty" by (rule db_rep_I)
  moreover have "db_open True True (Some i) (Some d) = Some ?db"
    by (simp add: db_open_def Let_def writew_lock_def un_lock_def db_alloc_def)
  moreover have "length (idxfile ?db) = HDR_END" "datfile ?db = []"
    using len by (simp_all add: db_rewind_def Let_def writew_lock_def db_alloc_def)
  ultimately show ?thesis by blast
qed

lemma reopen_rep:
  assumes "db_rep db m"
  shows "\<exists>db'. db_open creat False (Some (fst (db_close db))) (Some (snd (db_close db))) = Some db' \<and> db_rep db' m"
proof -
  obtain P B D os fs cs where s: "db_struct db P B D os fs cs" and m: "m = db_map B D cs"
    using assms unfolding db_rep_def by blast
  let ?db = "db_rewind (db_alloc\<lparr>nhash := NHASH_DEF, hashoff := HASH_OFF, idxfile := idxfile db, datfile := datfile db\<rparr>)"
  have "db_struct ?db P B D os fs cs" using s by (simp add: db_struct_def db_rewind_def Let_def)
  moreover have "locks ?db = []" by (simp add: db_rewind_def Let_def db_alloc_def)
  ultimately have "db_rep ?db m" using m by (intro db_rep_I)
  then show ?thesis by (simp add: db_open_def db_close_def Let_def)
qed

section \<open>Sequences of calls\<close>

datatype db_call = Fetch string | Delete string | Store string string int

datatype db_result = Fetched "string option" | Returned int rc

definition db_step :: "DB \<Rightarrow> db_call \<Rightarrow> (db_result \<times> DB) option" where
  "db_step db c =
     (case c of
        Fetch key \<Rightarrow> map_option (apfst Fetched) (db_fetch db key)
      | Delete key \<Rightarrow> map_option (apfst (\<lambda>r. Returned r None)) (db_delete db key)
      | Store key data flag \<Rightarrow> map_option (apfst (case_prod Returned)) (db_store db key data flag))"

definition db_spec :: "(string \<rightharpoonup> string) \<Rightarrow> db_call \<Rightarrow> db_result \<times> (string \<rightharpoonup> string)" where
  "db_spec m c =
     (case c of
        Fetch key \<Rightarrow> (Fetched (m key), m)
      | Delete key \<Rightarrow> (Returned (if m key = None then -1 else 0) None, m(key := None))
      | Store key data flag \<Rightarrow> apfst (case_prod Returned) (store_spec m key data flag))"

definition call_ok :: "db_call \<Rightarrow> bool" where
  "call_ok c \<longleftrightarrow>
     (case c of Store key data flag \<Rightarrow> key_ok key \<and> dat_ok data \<and> flag \<in> {DB_INSERT, DB_REPLACE, DB_STORE} | _ \<Rightarrow> True)"

text \<open>The larger of the two files, of which the index file limits the growth.\<close>

definition db_used :: "DB \<Rightarrow> nat" where
  "db_used db = max (length (idxfile db)) (length (datfile db))"

lemma db_step_refines:
  assumes "db_rep db m" "call_ok c" "db_used db \<le> nat PTR_MAX"
  shows "\<exists>db'. db_step db c = Some (fst (db_spec m c), db') \<and> db_rep db' (snd (db_spec m c)) \<and> db_used db' \<le> db_used db + 1035"
proof (cases c)
  case (Fetch key)
  then show ?thesis using fetch_rep [OF assms(1), of key] by (auto simp: db_step_def db_spec_def db_used_def)
next
  case (Delete key)
  then show ?thesis using delete_rep [OF assms(1), of key] by (auto simp: db_step_def db_spec_def db_used_def)
next
  case (Store key data flag)
  then have k: "key_ok key" "dat_ok data" "flag \<in> {DB_INSERT, DB_REPLACE, DB_STORE}" using assms(2) by (simp_all add: call_ok_def)
  have "db_room db" using assms(3) by (auto simp: db_room_def db_used_def PTR_MAX_def)
  from store_rep [OF assms(1) k(1,2) this k(3)] Store show ?thesis
    by (auto simp: db_step_def db_spec_def db_used_def apfst_def map_prod_def split: prod.splits)
qed

interpretation db_calls: bounded_refinement db_rep db_step db_spec "\<lambda>_. call_ok" db_used "nat PTR_MAX" 1035
  by unfold_locales (rule db_step_refines)

abbreviation db_run :: "DB \<Rightarrow> db_call list \<Rightarrow> (db_result list \<times> DB) option" where
  "db_run \<equiv> run_calls db_step"

section \<open>Properties\<close>

text \<open>
  C1. A database that was just created answers every sequence of up to 9600 calls as a
  finite mapping does: the results are those of the mapping, no call ends the process, and
  afterwards the files hold the mapping and no lock is left. The keys are strings of at
  most 1000 characters that are not blank and hold no colon, the data strings of 1 to 1023
  characters.
\<close>

theorem db_calls_refine_map:
  assumes "\<forall>c \<in> set calls. call_ok c" "length calls \<le> 9600"
  shows "\<exists>db db'. db_open True True (Some i) (Some d) = Some db \<and>
    db_run db calls = Some (fst (run_spec db_spec Map.empty calls), db') \<and>
    db_rep db' (snd (run_spec db_spec Map.empty calls))"
proof -
  obtain db where db: "db_open True True (Some i) (Some d) = Some db" "db_rep db Map.empty" "length (idxfile db) = HDR_END" "datfile db = []"
    using open_new_rep by blast
  have "db_used db + length calls * 1035 \<le> nat PTR_MAX + 1035"
    using assms(2) db(3,4) by (simp add: db_used_def HDR_END_def PTR_MAX_def NHASH_DEF_def PTR_SZ_def)
  with db_calls.run_refines [OF db(2), unfolded run_ok_const, OF assms(1)] db(1) show ?thesis by blast
qed

theorem db_calls_refine_map_witness:
  "\<exists>db db'. db_open True True (Some []) (Some []) = Some db \<and>
    db_run db [Store ''k'' ''v'' DB_INSERT, Store ''k'' ''w'' DB_INSERT, Fetch ''k'', Delete ''k'', Fetch ''k''] =
      Some ([Returned 0 None, Returned 1 None, Fetched (Some ''v''), Returned 0 None, Fetched None], db')"
proof -
  have ok: "\<forall>c \<in> set [Store ''k'' ''v'' DB_INSERT, Store ''k'' ''w'' DB_INSERT, Fetch ''k'', Delete ''k'', Fetch ''k'']. call_ok c"
    by (simp add: call_ok_def key_ok_def dat_ok_def blank_def DATLEN_MAX_def)
  show ?thesis
    using db_calls_refine_map [OF ok, of "[]" "[]"] by (simp add: db_spec_def store_spec_def DB_REPLACE_def DB_INSERT_def, blast)
qed

text \<open>
  C2. On a database with room for one more record \<^verbatim>\<open>db_store\<close> returns -1 and sets
  \<^verbatim>\<open>ENOENT\<close> when it is to replace a record that is not there, 1 when it is to insert one
  that is, and otherwise 0 with the data stored under the key and no other key changed.
\<close>

theorem db_store_meets_spec:
  assumes "db_rep db m" "key_ok key" "dat_ok data" "db_room db" "flag \<in> {DB_INSERT, DB_REPLACE, DB_STORE}"
  shows "\<exists>db'. db_store db key data flag = Some (fst (store_spec m key data flag), db') \<and>
     db_rep db' (snd (store_spec m key data flag))"
  using store_rep [OF assms] by blast

theorem db_store_meets_spec_witness:
  "\<exists>db db'. db_open True True (Some []) (Some []) = Some db \<and> db_store db ''k'' ''v'' DB_REPLACE = Some ((-1, Some ENOENT), db')"
proof -
  obtain db where db: "db_open True True (Some []) (Some []) = Some db" "db_rep db Map.empty" "length (idxfile db) = HDR_END" "datfile db = []"
    using open_new_rep by blast
  have "db_room db" using db(3,4) by (simp add: db_room_def HDR_END_def PTR_MAX_def NHASH_DEF_def PTR_SZ_def)
  then show ?thesis
    using db_store_meets_spec [OF db(2), of "''k''" "''v''" DB_REPLACE] db(1)
    by (auto simp: store_spec_def key_ok_def dat_ok_def blank_def DATLEN_MAX_def)
qed

text \<open>
  C20. A scan of the database ends, and it returns every key with its data exactly once:
  \<^verbatim>\<open>db_rewind\<close> and then \<^verbatim>\<open>db_nextrec\<close> until it returns a null pointer lists the mapping.
  It leaves the files as they are.
\<close>

theorem db_scan_lists_map:
  assumes "db_rep db m"
  shows "\<exists>kvs db'. db_scan (db_rewind db) kvs db' \<and> distinct (map fst kvs) \<and> map_of kvs = m \<and> db_rep db' m"
  using scan_rep [OF assms] .

theorem db_scan_lists_map_witness:
  "\<exists>db kvs db'. db_open True True (Some []) (Some []) = Some db \<and> db_scan (db_rewind db) kvs db' \<and> map_of kvs = Map.empty"
proof -
  obtain db where "db_open True True (Some []) (Some []) = Some db" "db_rep db Map.empty" using open_new_rep by blast
  then show ?thesis using db_scan_lists_map [of db Map.empty] by blast
qed



lemma writeidx_SomeD:
  assumes "db_writeidx db key (Some off) ptrv = Some db1" "b = \<lparr>b_key = key, b_datoff = datoff db, b_datlen = datlen db\<rparr>"
  shows "0 \<le> ptrv" "nat ptrv < 10 ^ PTR_SZ" "IDXLEN_MIN \<le> length (b_text b)" "length (b_text b) \<le> IDXLEN_MAX"
    "idxfile db1 = write_at off (pad PTR_SZ (nat ptrv) @ b_enc b) (idxfile db)"
  using assms by (auto simp: db_writeidx_def b_text_def b_enc_def Let_def PTR_MAX_def PTR_SZ_def split: if_splits)

text \<open>
  \<^verbatim>\<open>_db_readidx\<close> reads back what \<^verbatim>\<open>_db_writeidx\<close> wrote: the chain pointer, the key and
  the offset and length of the data, for every key without a colon that the length check
  lets through.
\<close>

theorem db_index_record_roundtrip:
  assumes "db_writeidx db key (Some off) ptrv = Some db1" "0 < off" "off \<le> length (idxfile db)"
    and "SEP \<notin> set key" "NUL \<notin> set key" "0 < datlen db" "datlen db \<le> DATLEN_MAX"
  shows "\<exists>db2. db_readidx db1 off = Some (ptrv, db2) \<and> idxbuf db2 = key \<and> datoff db2 = datoff db \<and> datlen db2 = datlen db \<and>
    ptrval db2 = ptrv \<and> idxoff db2 = off"
proof -
  let ?b = "\<lparr>b_key = key, b_datoff = datoff db, b_datlen = datlen db\<rparr>"
  note w = writeidx_SomeD [OF assms(1) refl]
  have f: "fld (idxfile db1) off (pad PTR_SZ (nat ptrv) @ b_enc ?b)"
    unfolding w(5) by (rule fld_write_same [OF assms(3)])
  have "b_ok ?b" using w(3,4) assms(4-7) by (simp add: b_ok_def)
  from db_readidx_record [OF f w(2) this, of off] assms(2) w(1) show ?thesis by simp
qed

theorem db_index_record_roundtrip_witness:
  "\<exists>db2. db_readidx (the (db_writeidx (db_alloc\<lparr>idxfile := ''x'', datlen := 5, datoff := 12\<rparr>) ''key'' (Some 1) 42)) 1 = Some (42, db2) \<and>
     idxbuf db2 = ''key'' \<and> datoff db2 = 12 \<and> datlen db2 = 5"
proof -
  let ?db = "db_alloc\<lparr>idxfile := ''x'', datlen := 5, datoff := 12\<rparr>"
  have "dec 12 = ''12''" "dec 5 = ''5''" by code_simp+
  then have "db_writeidx ?db ''key'' (Some 1) 42 = Some (the (db_writeidx ?db ''key'' (Some 1) 42))"
    by (simp add: db_writeidx_def Let_def PTR_MAX_def IDXLEN_MIN_def IDXLEN_MAX_def)
  from db_index_record_roundtrip [OF this] show ?thesis by (simp add: DATLEN_MAX_def) blast
qed

lemma split_record_colon:
  assumes "SEP \<in> set key"
  shows "db_split_record (key @ SEP # dec d @ SEP # dec l) = None"
proof -
  obtain k1 k2 where k: "key = k1 @ SEP # k2" "SEP \<notin> set k1" using split_list_first [OF assms] by blast
  have sep: "dropWhile (\<lambda>c. c \<noteq> SEP) (s @ SEP # xs) = SEP # xs" if "SEP \<notin> set s" for s xs
    using that by (induction s) auto
  have "SEP \<in> set (tl (dropWhile (\<lambda>c. c \<noteq> SEP) (k2 @ SEP # dec d @ SEP # dec l)))"
  proof (cases "SEP \<in> set k2")
    case True
    then obtain u v where "k2 = u @ SEP # v" "SEP \<notin> set u" using split_list_first by metis
    then show ?thesis by (simp add: sep)
  qed (simp add: sep)
  then show ?thesis using k by (simp add: db_split_record_def sep)
qed
text \<open>
  A key that holds a colon is accepted by \<^verbatim>\<open>_db_writeidx\<close>, but the record cannot be
  read: \<^verbatim>\<open>_db_readidx\<close> finds too many separators and ends the process. Every later search
  of the chain the record is on does so.
\<close>

theorem db_colon_key_unreadable:
  assumes "db_writeidx db key (Some off) ptrv = Some db1" "0 < off" "off \<le> length (idxfile db)"
    and "SEP \<in> set key" "NUL \<notin> set key"
  shows "db_readidx db1 off = None"
proof -
  let ?b = "\<lparr>b_key = key, b_datoff = datoff db, b_datlen = datlen db\<rparr>"
  note w = writeidx_SomeD [OF assms(1) refl]
  have f: "fld (idxfile db1) off (pad PTR_SZ (nat ptrv) @ b_enc ?b)"
    unfolding w(5) by (rule fld_write_same [OF assms(3)])
  from db_readidx_split [OF f w(2-4), of off] assms(2,5) show ?thesis
    using split_record_colon [OF assms(4)] by simp
qed

theorem db_colon_key_unreadable_witness:
  "db_readidx (the (db_writeidx (db_alloc\<lparr>idxfile := ''x'', datlen := 5, datoff := 12\<rparr>) ''a:b'' (Some 1) 42)) 1 = None"
proof -
  let ?db = "db_alloc\<lparr>idxfile := ''x'', datlen := 5, datoff := 12\<rparr>"
  have "dec 12 = ''12''" "dec 5 = ''5''" by code_simp+
  then have "db_writeidx ?db ''a:b'' (Some 1) 42 = Some (the (db_writeidx ?db ''a:b'' (Some 1) 42))"
    by (simp add: db_writeidx_def Let_def PTR_MAX_def IDXLEN_MIN_def IDXLEN_MAX_def)
  from db_colon_key_unreadable [OF this] show ?thesis by simp
qed

text \<open>
  The calls \<^verbatim>\<open>db_store\<close> refuses: a flag that is none of the three sets \<^verbatim>\<open>EINVAL\<close> and
  returns -1 with nothing changed, whatever the data; data that is empty or longer than
  1023 characters ends the process before a lock is taken or a file is touched.
\<close>

theorem db_store_refuses:
  "(flag \<notin> {DB_INSERT, DB_REPLACE, DB_STORE} \<longrightarrow> db_store db key data flag = Some ((-1, Some EINVAL), db)) \<and>
   (flag \<in> {DB_INSERT, DB_REPLACE, DB_STORE} \<and> (data = [] \<or> 1024 \<le> length data) \<longrightarrow> db_store db key data flag = None)"
  by (auto simp: db_store_def DATLEN_MIN_def DATLEN_MAX_def)

theorem db_store_refuses_witness:
  "db_store db_alloc ''k'' ''v'' 4 = Some ((-1, Some EINVAL), db_alloc) \<and> db_store db_alloc ''k'' [] DB_STORE = None"
  using db_store_refuses [of 4 db_alloc "''k''" "''v''"] db_store_refuses [of DB_STORE db_alloc "''k''" "[]"]
  by (simp add: DB_INSERT_def DB_REPLACE_def DB_STORE_def)
text \<open>
  The program \<^verbatim>\<open>t4\<close> ends without an error, whatever the two files held before, and the
  files it leaves hold its three records and nothing else.
\<close>

theorem t4_main_creates_db:
  "\<exists>db. t4_main (Some i) (Some d) = Some (db_close db) \<and>
     db_rep db [''Alpha'' \<mapsto> ''data1'', ''beta'' \<mapsto> ''Data for beta'', ''gamma'' \<mapsto> ''record3'']"
proof -
  let ?m1 = "[''Alpha'' \<mapsto> ''data1'']" let ?m2 = "?m1(''beta'' \<mapsto> ''Data for beta'')" let ?m3 = "?m2(''gamma'' \<mapsto> ''record3'')"
  obtain db where db: "db_open True True (Some i) (Some d) = Some db" "db_rep db Map.empty" "length (idxfile db) = HDR_END" "datfile db = []"
    using open_new_rep by blast
  have k: "key_ok ''Alpha''" "key_ok ''beta''" "key_ok ''gamma''" "dat_ok ''data1''" "dat_ok ''Data for beta''" "dat_ok ''record3''"
    by (simp_all add: key_ok_def dat_ok_def blank_def DATLEN_MAX_def)
  have room: "db_room x" if "length (idxfile x) \<le> HDR_END + 2 * 1035" "length (datfile x) \<le> 2 * 1024" for x
    using that by (simp add: db_room_def HDR_END_def PTR_MAX_def NHASH_DEF_def PTR_SZ_def)
  have r0: "db_room db" using db(3,4) by (intro room) simp_all
  from store_rep [OF db(2) k(1,4) r0, of DB_INSERT]
  obtain db1 where d1: "db_store db ''Alpha'' ''data1'' DB_INSERT = Some ((0, None), db1)" "db_rep db1 ?m1"
    "length (idxfile db1) \<le> length (idxfile db) + 1035" "length (datfile db1) \<le> length (datfile db) + 1024"
    by (auto simp: store_spec_def)
  have r1: "db_room db1" using db(3,4) d1(3,4) by (intro room) simp_all
  from store_rep [OF d1(2) k(2,5) r1, of DB_INSERT]
  obtain db2 where d2: "db_store db1 ''beta'' ''Data for beta'' DB_INSERT = Some ((0, None), db2)" "db_rep db2 ?m2"
    "length (idxfile db2) \<le> length (idxfile db1) + 1035" "length (datfile db2) \<le> length (datfile db1) + 1024"
    by (auto simp: store_spec_def)
  have r2: "db_room db2" using db(3,4) d1(3,4) d2(3,4) by (intro room) simp_all
  from store_rep [OF d2(2) k(3,6) r2, of DB_INSERT]
  obtain db3 where d3: "db_store db2 ''gamma'' ''record3'' DB_INSERT = Some ((0, None), db3)" "db_rep db3 ?m3"
    by (auto simp: store_spec_def)
  show ?thesis using db(1) d1(1) d2(1) d3 by (auto simp: t4_main_def)
qed

end
