(* ===== verification/Inet.thy ===== *)
theory Inet
  imports C_Text
begin

text \<open>
  Internet addresses as text: \<^verbatim>\<open>inet_pton\<close>, \<^verbatim>\<open>inet_ntop\<close> and \<^verbatim>\<open>inet_aton\<close> of
  \<^verbatim>\<open>src/unpv13e/libfree\<close>, and the Internet checksum \<^verbatim>\<open>in_cksum\<close>. An address is the list
  of its bytes in network order; the bytes are numbers below 256.
\<close>

section \<open>From text to address\<close>

text \<open>The position of a character in a string, as \<^verbatim>\<open>strchr\<close> finds it.\<close>

fun strchr :: "string \<Rightarrow> char \<Rightarrow> nat option" where
  "strchr [] c = None"
| "strchr (x # xs) c = (if x = c then Some 0 else map_option Suc (strchr xs c))"

definition digits :: string where "digits = ''0123456789''"

definition INADDRSZ :: nat where "INADDRSZ = 4"
definition IN6ADDRSZ :: nat where "IN6ADDRSZ = 16"
definition INT16SZ :: nat where "INT16SZ = 2"

text \<open>
  The loop of \<^verbatim>\<open>inet_pton4\<close>: \<open>tmp\<close> is the array and \<open>tp\<close> the index of the octet being read.
  The result is the number of octets with the array, or \<^const>\<open>None\<close> for a return of 0 from the
  loop. The array starts with zeros where the code leaves it uninitialised; an octet is set
  to zero before it is read.
\<close>

fun pton4_loop :: "string \<Rightarrow> bool \<Rightarrow> nat \<Rightarrow> nat list \<Rightarrow> nat \<Rightarrow> (nat \<times> nat list) option" where
  "pton4_loop [] saw_digit octets tmp tp = Some (octets, tmp)"
| "pton4_loop (ch # src) saw_digit octets tmp tp =
     (case strchr digits ch of
        Some d \<Rightarrow>
          let new = tmp ! tp * 10 + d
          in if new > 255 then None
             else if \<not> saw_digit then
               if octets + 1 > 4 then None
               else pton4_loop src True (octets + 1) (tmp[tp := new]) tp
             else pton4_loop src True octets (tmp[tp := new]) tp
      | None \<Rightarrow>
          if ch = CHR ''.'' \<and> saw_digit then
            if octets = 4 then None
            else pton4_loop src False octets (tmp[tp + 1 := 0]) (tp + 1)
          else None)"

definition inet_pton4 :: "string \<Rightarrow> nat list option" where
  "inet_pton4 src =
     (case pton4_loop src False 0 (replicate INADDRSZ 0) 0 of
        None \<Rightarrow> None
      | Some (octets, tmp) \<Rightarrow> if octets < 4 then None else Some tmp)"

definition xdigits_l :: string where "xdigits_l = ''0123456789abcdef''"
definition xdigits_u :: string where "xdigits_u = ''0123456789ABCDEF''"

text \<open>
  The local variables of \<^verbatim>\<open>inet_pton6\<close>; \<open>tp\<close> and \<open>colonp\<close> are indices into \<open>tmp\<close>, and
  \<open>curtok\<close> is the text from the current token on.
\<close>

record pton6 =
  tmp :: "nat list"
  tp :: nat
  colonp :: "nat option"
  curtok :: string
  saw_xdigit :: bool
  val :: nat

text \<open>The two bytes of a 16-bit value are stored at \<open>tp\<close>.\<close>

definition put16 :: "pton6 \<Rightarrow> pton6" where
  "put16 s = s\<lparr>tmp := (tmp s)[tp s := val s div 256 mod 256, tp s + 1 := val s mod 256], tp := tp s + 2\<rparr>"

definition store4 :: "nat list \<Rightarrow> pton6 \<Rightarrow> pton6" where
  "store4 a s = s\<lparr>tmp := take (tp s) (tmp s) @ a @ drop (tp s + INADDRSZ) (tmp s), tp := tp s + INADDRSZ, saw_xdigit := False\<rparr>"

fun pton6_loop :: "string \<Rightarrow> pton6 \<Rightarrow> pton6 option" where
  "pton6_loop [] s = Some s"
| "pton6_loop (ch # src) s =
     (case (case strchr xdigits_l ch of Some d \<Rightarrow> Some d | None \<Rightarrow> strchr xdigits_u ch) of
        Some d \<Rightarrow>
          let v = val s * 16 + d
          in if v > 0xffff then None else pton6_loop src (s\<lparr>val := v, saw_xdigit := True\<rparr>)
      | None \<Rightarrow>
          if ch = CHR '':'' then
            let s1 = s\<lparr>curtok := src\<rparr>
            in if \<not> saw_xdigit s1 then
                 if colonp s1 \<noteq> None then None else pton6_loop src (s1\<lparr>colonp := Some (tp s1)\<rparr>)
               else if tp s1 + INT16SZ > IN6ADDRSZ then None
               else pton6_loop src ((put16 s1)\<lparr>saw_xdigit := False, val := 0\<rparr>)
          else if ch = CHR ''.'' \<and> tp s + INADDRSZ \<le> IN6ADDRSZ then
            (case inet_pton4 (curtok s) of None \<Rightarrow> None | Some a \<Rightarrow> Some (store4 a s))
          else None)"

text \<open>The shift of the \<open>n\<close> bytes from \<open>c\<close> on to the end of the array.\<close>

definition pton6_shift :: "nat \<Rightarrow> nat \<Rightarrow> nat list \<Rightarrow> nat list" where
  "pton6_shift n c a = fold (\<lambda>i a. a[IN6ADDRSZ - i := a ! (c + n - i), c + n - i := 0]) [1..<Suc n] a"

text \<open>A leading \<^verbatim>\<open>::\<close> is read from its second colon on, and a single leading colon is refused.\<close>

definition pton6_start :: "string \<Rightarrow> string option" where
  "pton6_start src0 =
     (case src0 of
        [] \<Rightarrow> Some []
      | c # src \<Rightarrow>
          if c = CHR '':'' then
            (case src of [] \<Rightarrow> None | d # _ \<Rightarrow> if d = CHR '':'' then Some src else None)
          else Some src0)"

definition inet_pton6 :: "string \<Rightarrow> nat list option" where
  "inet_pton6 src0 =
     (case pton6_start src0 of
        None \<Rightarrow> None
      | Some src \<Rightarrow>
          (case pton6_loop src \<lparr>tmp = replicate IN6ADDRSZ 0, tp = 0, colonp = None, curtok = src, saw_xdigit = False, val = 0\<rparr> of
             None \<Rightarrow> None
           | Some s \<Rightarrow>
               if saw_xdigit s \<and> tp s + INT16SZ > IN6ADDRSZ then None
               else
                 let s1 = (if saw_xdigit s then put16 s else s);
                     s2 = (case colonp s1 of
                             None \<Rightarrow> s1
                           | Some c \<Rightarrow> s1\<lparr>tmp := pton6_shift (tp s1 - c) c (tmp s1), tp := IN6ADDRSZ\<rparr>)
                 in if tp s2 \<noteq> IN6ADDRSZ then None else Some (tmp s2)))"

datatype af = AF_INET | AF_INET6 | AF_other

text \<open>The result is the return value -1 as an error, 0 as \<^const>\<open>None\<close>, and 1 with the address stored.\<close>

definition inet_pton :: "af \<Rightarrow> string \<Rightarrow> errno + nat list option" where
  "inet_pton af src =
     (case af of
        AF_INET \<Rightarrow> Inr (inet_pton4 src)
      | AF_INET6 \<Rightarrow> Inr (inet_pton6 src)
      | AF_other \<Rightarrow> Inl EAFNOSUPPORT)"

section \<open>From address to text\<close>

text \<open>What \<^verbatim>\<open>sprintf\<close> prints for \<^verbatim>\<open>%x\<close>.\<close>

fun hex :: "nat \<Rightarrow> string" where
  "hex n = (if n < 16 then [xdigits_l ! n] else hex (n div 16) @ [xdigits_l ! (n mod 16)])"

declare hex.simps [simp del]

definition dotted :: "nat list \<Rightarrow> string" where
  "dotted a = dec (a ! 0) @ CHR ''.'' # dec (a ! 1) @ CHR ''.'' # dec (a ! 2) @ CHR ''.'' # dec (a ! 3)"

definition inet_ntop4 :: "nat list \<Rightarrow> nat \<Rightarrow> errno + string" where
  "inet_ntop4 src sz = (if length (dotted src) > sz then Inl ENOSPC else Inr (dotted src))"

text \<open>The sixteen bytes as eight 16-bit words.\<close>

definition ntop6_words :: "nat list \<Rightarrow> nat list" where
  "ntop6_words src =
     fold (\<lambda>i ws. ws[i div 2 := or (ws ! (i div 2)) (push_bit ((1 - i mod 2) * 8) (src ! i))])
       [0..<IN6ADDRSZ] (replicate (IN6ADDRSZ div INT16SZ) 0)"

text \<open>Runs of zeros are their base and length; \<^const>\<open>None\<close> is a base of -1.\<close>

definition better_run :: "(nat \<times> nat) option \<Rightarrow> (nat \<times> nat) option \<Rightarrow> (nat \<times> nat) option" where
  "better_run best cur =
     (case cur of
        None \<Rightarrow> best
      | Some (_, l) \<Rightarrow> (case best of None \<Rightarrow> cur | Some (_, l') \<Rightarrow> if l > l' then cur else best))"

fun ntop6_runs :: "nat \<Rightarrow> nat list \<Rightarrow> (nat \<times> nat) option \<Rightarrow> (nat \<times> nat) option \<Rightarrow> (nat \<times> nat) option" where
  "ntop6_runs i [] best cur = better_run best cur"
| "ntop6_runs i (w # ws) best cur =
     (if w = 0 then ntop6_runs (i + 1) ws best (case cur of None \<Rightarrow> Some (i, 1) | Some (b, l) \<Rightarrow> Some (b, l + 1))
      else ntop6_runs (i + 1) ws (better_run best cur) None)"

definition ntop6_best :: "nat list \<Rightarrow> (nat \<times> nat) option" where
  "ntop6_best ws =
     (case ntop6_runs 0 ws None None of Some (b, l) \<Rightarrow> if l < 2 then None else Some (b, l) | None \<Rightarrow> None)"

definition in_run :: "(nat \<times> nat) option \<Rightarrow> nat \<Rightarrow> bool" where
  "in_run best i = (case best of None \<Rightarrow> False | Some (b, l) \<Rightarrow> b \<le> i \<and> i < b + l)"

definition encapsulated :: "(nat \<times> nat) option \<Rightarrow> nat list \<Rightarrow> bool" where
  "encapsulated best ws = (case best of None \<Rightarrow> False | Some (b, l) \<Rightarrow> b = 0 \<and> (l = 6 \<or> (l = 5 \<and> ws ! 5 = 0xffff)))"

text \<open>The length of the array \<^verbatim>\<open>tmp\<close>: \<^verbatim>\<open>sizeof "ffff:ffff:ffff:ffff:ffff:ffff:255.255.255.255"\<close>.\<close>

definition ntop6_tmpsize :: nat where "ntop6_tmpsize = 46"

function ntop6_fmt :: "nat list \<Rightarrow> nat list \<Rightarrow> (nat \<times> nat) option \<Rightarrow> nat \<Rightarrow> string \<Rightarrow> errno + string" where
  "ntop6_fmt src ws best i text =
     (if i \<ge> IN6ADDRSZ div INT16SZ then Inr text
      else if in_run best i then
        ntop6_fmt src ws best (i + 1) (if best \<noteq> None \<and> i = fst (the best) then text @ '':'' else text)
      else
        let text1 = (if i \<noteq> 0 then text @ '':'' else text)
        in if i = 6 \<and> encapsulated best ws then
             (case inet_ntop4 (drop 12 src) (ntop6_tmpsize - length text1) of
                Inl e \<Rightarrow> Inl e
              | Inr t \<Rightarrow> Inr (text1 @ t))
           else ntop6_fmt src ws best (i + 1) (text1 @ hex (ws ! i)))"
  by pat_completeness auto

termination by (relation "measure (\<lambda>(src, ws, best, i, text). 8 - i)") (auto simp: IN6ADDRSZ_def INT16SZ_def)

declare ntop6_fmt.simps [simp del]

definition inet_ntop6 :: "nat list \<Rightarrow> nat \<Rightarrow> errno + string" where
  "inet_ntop6 src sz =
     (let ws = ntop6_words src; best = ntop6_best ws
      in case ntop6_fmt src ws best 0 [] of
           Inl e \<Rightarrow> Inl e
         | Inr t \<Rightarrow>
             let text = t @ (case best of Some (b, l) \<Rightarrow> if b + l = IN6ADDRSZ div INT16SZ then '':'' else [] | None \<Rightarrow> [])
             in if length text + 1 > sz then Inl ENOSPC else Inr text)"

definition inet_ntop :: "af \<Rightarrow> nat list \<Rightarrow> nat \<Rightarrow> errno + string" where
  "inet_ntop af src sz =
     (case af of
        AF_INET \<Rightarrow> inet_ntop4 src sz
      | AF_INET6 \<Rightarrow> inet_ntop6 src sz
      | AF_other \<Rightarrow> Inl EAFNOSUPPORT)"

section \<open>The older conversion\<close>

text \<open>
  \<^verbatim>\<open>inet_aton\<close>: \<open>acc\<close> and \<open>addr\<close> are of the type \<^verbatim>\<open>u_long\<close>. The null byte at the end of the text is
  read by the loop as well. The result is the 32-bit address in the order of the host.
\<close>

definition aton_octet :: "64 word \<Rightarrow> 64 word \<Rightarrow> 64 word" where
  "aton_octet addr acc = or (push_bit 8 addr) acc"

fun aton_loop :: "string \<Rightarrow> nat \<Rightarrow> 64 word \<Rightarrow> 64 word \<Rightarrow> (nat \<times> 64 word) option" where
  "aton_loop [] dots acc addr = (if acc > 255 then None else Some (dots, aton_octet addr acc))"
| "aton_loop (cc # cp) dots acc addr =
     (case strchr digits cc of
        Some d \<Rightarrow> aton_loop cp dots (acc * 10 + of_nat d) addr
      | None \<Rightarrow>
          if cc = CHR ''.'' then
            if dots + 1 > 3 then None
            else if acc > 255 then None
            else aton_loop cp (dots + 1) 0 (aton_octet addr acc)
          else None)"

definition inet_aton :: "string \<Rightarrow> 32 word option" where
  "inet_aton cp =
     (case aton_loop cp 0 0 0 of
        None \<Rightarrow> None
      | Some (dots, addr) \<Rightarrow> Some (ucast (if dots < 3 then push_bit (8 * (3 - dots)) addr else addr)))"

section \<open>The Internet checksum\<close>

text \<open>
  \<^verbatim>\<open>in_cksum\<close> of a packet, given as its bytes; a 16-bit load is in the order of a little-endian
  host, and an odd last byte is stored at the first address of a zero word.
\<close>

fun cksum_sum :: "byte list \<Rightarrow> 32 word \<Rightarrow> 32 word" where
  "cksum_sum (a # b # w) acc = cksum_sum w (acc + (ucast a + 256 * ucast b))"
| "cksum_sum [a] acc = acc + ucast a"
| "cksum_sum [] acc = acc"

definition in_cksum :: "byte list \<Rightarrow> 16 word" where
  "in_cksum addr =
     (let acc = cksum_sum addr 0;
          acc = drop_bit 16 acc + and acc 0xffff;
          acc = acc + drop_bit 16 acc
      in ucast (not acc))"

end
