(* ===== verification/Inet_Props.thy ===== *)
theory Inet_Props
  imports Inet
begin

text \<open>
  The conversions of Internet addresses are inverse to one another, and the texts the
  parsers accept.
\<close>

section \<open>Characters\<close>

lemma strchr_Some: "strchr s c = Some i \<Longrightarrow> i < length s \<and> s ! i = c"
  by (induction s arbitrary: i) (auto split: if_splits)

lemma strchr_None: "strchr s c = None \<longleftrightarrow> c \<notin> set s"
  by (induction s) auto

lemma strchr_nth: "distinct s \<Longrightarrow> i < length s \<Longrightarrow> strchr s (s ! i) = Some i"
proof (induction s arbitrary: i)
  case (Cons x s)
  then show ?case by (cases i) (auto simp: nth_mem)
qed simp

lemma digits_nth: "d < 10 \<Longrightarrow> digits ! d = digit d"
proof -
  have "\<forall>d \<in> set [0..<10]. digits ! d = digit d" by code_simp
  then show "d < 10 \<Longrightarrow> ?thesis" by simp
qed

lemma strchr_digit: "d < 10 \<Longrightarrow> strchr digits (digit d) = Some d"
  using strchr_nth [of digits d] by (simp add: digits_nth [symmetric]) (simp add: digits_def)

lemma strchr_digits_iff: "strchr digits c = Some d \<longleftrightarrow> d < 10 \<and> c = digit d"
proof
  assume "strchr digits c = Some d"
  then have "d < length digits" "digits ! d = c" using strchr_Some by blast+
  then show "d < 10 \<and> c = digit d" using digits_nth [of d] by (simp add: digits_def)
qed (use strchr_digit in blast)

lemma strchr_digits_less: "strchr digits c = Some d \<Longrightarrow> d < 10"
  by (simp add: strchr_digits_iff)

lemma strchr_dot [simp]: "strchr digits CHR ''.'' = None"
  by (simp add: strchr_None digits_def)

section \<open>Dotted decimal text\<close>

text \<open>The value of a string of digits.\<close>

definition isd :: "char \<Rightarrow> bool" where "isd c \<longleftrightarrow> strchr digits c \<noteq> None"

definition dval :: "string \<Rightarrow> nat" where
  "dval s = foldl (\<lambda>v c. v * 10 + the (strchr digits c)) 0 s"

lemma foldl_dval_mono: "v \<le> foldl (\<lambda>v c. v * 10 + the (strchr digits c)) v s"
proof (induction s arbitrary: v)
  case (Cons c s)
  then show ?case using le_trans [OF _ Cons.IH] by simp
qed simp

text \<open>Reading digits, from an octet whose value so far is \<open>arr ! p\<close>.\<close>

lemma pton4_digits_saw:
  assumes "\<forall>c \<in> set ds. isd c" "p < length arr"
  shows "pton4_loop (ds @ rest) True k arr p =
    (let v = foldl (\<lambda>v c. v * 10 + the (strchr digits c)) (arr ! p) ds
     in if v > 255 \<and> ds \<noteq> [] then None else pton4_loop rest True k (arr[p := v]) p)"
  using assms
proof (induction ds arbitrary: arr)
  case Nil
  then show ?case by simp
next
  case (Cons c ds)
  then obtain d where d: "strchr digits c = Some d" by (auto simp: isd_def)
  let ?v = "arr ! p * 10 + d"
  show ?case
  proof (cases "?v > 255")
    case True
    then show ?thesis using d foldl_dval_mono [of ?v ds] by (auto simp: Let_def)
  next
    case False
    have "pton4_loop (ds @ rest) True k (arr[p := ?v]) p =
      (let v = foldl (\<lambda>v c. v * 10 + the (strchr digits c)) ?v ds
       in if v > 255 \<and> ds \<noteq> [] then None else pton4_loop rest True k (arr[p := v]) p)"
      using Cons by (simp add: Let_def)
    then show ?thesis using d False by (auto simp: Let_def)
  qed
qed

lemma pton4_octet:
  assumes "\<forall>c \<in> set ds. isd c" "ds \<noteq> []" "p < length arr" "arr ! p = 0" "k < 4"
  shows "pton4_loop (ds @ rest) False k arr p =
    (if dval ds > 255 then None else pton4_loop rest True (k + 1) (arr[p := dval ds]) p)"
proof -
  obtain c cs where ds: "ds = c # cs" using assms(2) by (cases ds) auto
  then obtain d where d: "strchr digits c = Some d" using assms(1) by (auto simp: isd_def)
  have "d < 10" using d by (rule strchr_digits_less)
  have v: "dval ds = foldl (\<lambda>v c. v * 10 + the (strchr digits c)) d cs" using ds d by (simp add: dval_def)
  have "pton4_loop (ds @ rest) False k arr p = pton4_loop (cs @ rest) True (k + 1) (arr[p := d]) p"
    using ds d assms(4,5) \<open>d < 10\<close> by simp
  also have "\<dots> = (if dval ds > 255 \<and> cs \<noteq> [] then None else pton4_loop rest True (k + 1) (arr[p := dval ds]) p)"
    unfolding v using pton4_digits_saw [of cs p "arr[p := d]" rest "k + 1"] assms(1,3) by (simp add: ds Let_def)
  also have "\<dots> = (if dval ds > 255 then None else pton4_loop rest True (k + 1) (arr[p := dval ds]) p)"
    using v \<open>d < 10\<close> by (cases cs) auto
  finally show ?thesis .
qed

text \<open>A text that is accepted, octet by octet.\<close>

definition octet_ok :: "string \<Rightarrow> bool" where
  "octet_ok ds \<longleftrightarrow> ds \<noteq> [] \<and> (\<forall>c \<in> set ds. isd c) \<and> dval ds \<le> 255"

lemma pton4_next:
  assumes "length arr = 4" "k < 4" "arr ! k = 0"
  shows "pton4_loop s False k arr k =
    (let ds = takeWhile isd s; rest = dropWhile isd s
     in if ds = [] then (if s = [] then Some (k, arr) else None)
        else if dval ds > 255 then None
        else case rest of
          [] \<Rightarrow> Some (k + 1, arr[k := dval ds])
        | c # cs \<Rightarrow> if c = CHR ''.'' \<and> k \<noteq> 3 then pton4_loop cs False (k + 1) (arr[k := dval ds, k + 1 := 0]) (k + 1) else None)"
proof (cases "takeWhile isd s = []")
  case True
  then show ?thesis
    by (cases s) (auto simp: isd_def takeWhile_eq_Nil_iff split: option.splits if_splits)
next
  case False
  let ?ds = "takeWhile isd s" and ?r = "dropWhile isd s"
  have "pton4_loop (?ds @ ?r) False k arr k =
    (if dval ?ds > 255 then None else pton4_loop ?r True (k + 1) (arr[k := dval ?ds]) k)"
    using False assms by (intro pton4_octet) (auto dest: set_takeWhileD)
  moreover have "pton4_loop ?r True (k + 1) (arr[k := dval ?ds]) k =
    (case ?r of [] \<Rightarrow> Some (k + 1, arr[k := dval ?ds])
     | c # cs \<Rightarrow> if c = CHR ''.'' \<and> k \<noteq> 3 then pton4_loop cs False (k + 1) (arr[k := dval ?ds, k + 1 := 0]) (k + 1) else None)"
  proof (cases ?r)
    case Nil
    show ?thesis unfolding Nil by simp
  next
    case (Cons c cs)
    then have "\<not> isd c" by (metis dropWhile_eq_Cons_conv)
    then show ?thesis unfolding Cons by (simp add: isd_def)
  qed
  ultimately show ?thesis using False by (simp add: Let_def)
qed

lemma pton4_next_Some:
  assumes l: "pton4_loop s False k arr k = Some (n, arr')" and a: "length arr = 4" "k < 4" "arr ! k = 0" and n: "4 \<le> n"
  shows "if k = 3 then octet_ok s \<and> n = 4 \<and> arr' = arr[3 := dval s]
    else \<exists>ds cs. s = ds @ CHR ''.'' # cs \<and> octet_ok ds \<and>
      pton4_loop cs False (k + 1) (arr[k := dval ds, k + 1 := 0]) (k + 1) = Some (n, arr')"
proof -
  let ?ds = "takeWhile isd s"
  note e = l [unfolded pton4_next [OF a], unfolded Let_def]
  have ds: "?ds \<noteq> []" using e n a(2) by (auto split: if_splits)
  then have v: "dval ?ds \<le> 255" using e by (auto split: if_splits)
  with ds have ok: "octet_ok ?ds" by (auto simp: octet_ok_def dest: set_takeWhileD)
  have s: "s = ?ds @ dropWhile isd s" by simp
  show ?thesis
  proof (cases "dropWhile isd s")
    case Nil
    then have d: "?ds = s" using s by simp
    have "n = k + 1" "arr' = arr[k := dval ?ds]" using e Nil ds v by (auto split: if_splits)
    moreover from this have "k = 3" using n a(2) by simp
    ultimately show ?thesis using ok unfolding d by simp
  next
    case (Cons c cs)
    then have "c = CHR ''.'' \<and> k \<noteq> 3" using e ds v by (auto split: if_splits)
    moreover from this have "pton4_loop cs False (k + 1) (arr[k := dval ?ds, k + 1 := 0]) (k + 1) = Some (n, arr')"
      using e ds v Cons by (auto split: if_splits)
    ultimately show ?thesis using ok s Cons by auto
  qed
qed

lemma pton4_iff:
  "inet_pton4 s = Some bs \<longleftrightarrow>
    (\<exists>a b c d. s = a @ CHR ''.'' # b @ CHR ''.'' # c @ CHR ''.'' # d \<and>
       octet_ok a \<and> octet_ok b \<and> octet_ok c \<and> octet_ok d \<and> bs = [dval a, dval b, dval c, dval d])"
proof
  assume "inet_pton4 s = Some bs"
  then obtain n where n: "pton4_loop s False 0 [0, 0, 0, 0] 0 = Some (n, bs)" "4 \<le> n"
    by (auto simp: inet_pton4_def INADDRSZ_def numeral_eq_Suc split: option.splits if_splits)
  obtain a s1 where a: "s = a @ CHR ''.'' # s1" "octet_ok a" "pton4_loop s1 False 1 [dval a, 0, 0, 0] 1 = Some (n, bs)"
    using pton4_next_Some [OF n(1) _ _ _ n(2)] by auto
  obtain b s2 where b: "s1 = b @ CHR ''.'' # s2" "octet_ok b" "pton4_loop s2 False 2 [dval a, dval b, 0, 0] 2 = Some (n, bs)"
    using pton4_next_Some [OF a(3) _ _ _ n(2)] by (auto simp: numeral_eq_Suc)
  obtain c s3 where c: "s2 = c @ CHR ''.'' # s3" "octet_ok c" "pton4_loop s3 False 3 [dval a, dval b, dval c, 0] 3 = Some (n, bs)"
    using pton4_next_Some [OF b(3) _ _ _ n(2)] by (auto simp: numeral_eq_Suc)
  have "octet_ok s3" "bs = [dval a, dval b, dval c, dval s3]"
    using pton4_next_Some [OF c(3) _ _ _ n(2)] by (auto simp: numeral_eq_Suc)
  with a b c show "\<exists>a b c d. s = a @ CHR ''.'' # b @ CHR ''.'' # c @ CHR ''.'' # d \<and>
       octet_ok a \<and> octet_ok b \<and> octet_ok c \<and> octet_ok d \<and> bs = [dval a, dval b, dval c, dval d]" by auto
next
  assume "\<exists>a b c d. s = a @ CHR ''.'' # b @ CHR ''.'' # c @ CHR ''.'' # d \<and>
       octet_ok a \<and> octet_ok b \<and> octet_ok c \<and> octet_ok d \<and> bs = [dval a, dval b, dval c, dval d]"
  then obtain a b c d where s: "s = a @ CHR ''.'' # b @ CHR ''.'' # c @ CHR ''.'' # d"
    "octet_ok a" "octet_ok b" "octet_ok c" "octet_ok d" "bs = [dval a, dval b, dval c, dval d]" by blast
  have o: "pton4_loop (ds @ rest) False k arr k = pton4_loop rest True (k + 1) (arr[k := dval ds]) k"
    if "octet_ok ds" "length arr = 4" "arr ! k = 0" "k < 4" for ds rest k arr
    using pton4_octet [of ds k arr k rest] that by (simp add: octet_ok_def)
  have "pton4_loop s False 0 [0, 0, 0, 0] 0 = pton4_loop d False 3 [dval a, dval b, dval c, 0] 3"
    unfolding s(1) using s(2-4) by (simp add: o numeral_eq_Suc)
  also have "\<dots> = Some (4, bs)" using o [OF s(5), of "[dval a, dval b, dval c, 0]" 3 "[]"] s(6) by (simp add: numeral_eq_Suc)
  finally show "inet_pton4 s = Some bs" by (simp add: inet_pton4_def INADDRSZ_def numeral_eq_Suc)
qed

lemma foldl_dval_snoc: "dval (ds @ [c]) = dval ds * 10 + the (strchr digits c)"
  by (simp add: dval_def)

lemma dval_dec: "dval (dec n) = n"
proof (induction n rule: dec.induct)
  case (1 n)
  show ?case
  proof (cases "n < 10")
    case True
    then show ?thesis by (subst dec.simps) (simp add: dval_def strchr_digit)
  next
    case False
    then show ?thesis using 1 by (subst dec.simps) (simp add: foldl_dval_snoc strchr_digit)
  qed
qed

lemma isd_is_digit: "is_digit c \<Longrightarrow> isd c"
proof -
  assume "is_digit c"
  then have "of_char c - 48 < (10 :: nat)" "c = digit (of_char c - 48)" by (auto simp: is_digit_def digit_def)
  then show "isd c" using strchr_digit [of "of_char c - 48"] by (simp add: isd_def)
qed

lemma octet_ok_dec: "n \<le> 255 \<Longrightarrow> octet_ok (dec n)"
  using isd_is_digit dec_digits by (auto simp: octet_ok_def dval_dec)

text \<open>Addresses: lists of bytes of the right length.\<close>

definition addr_ok :: "nat \<Rightarrow> nat list \<Rightarrow> bool" where
  "addr_ok n a \<longleftrightarrow> length a = n \<and> (\<forall>b \<in> set a. b < 256)"

lemma pton4_dotted: "addr_ok 4 a \<Longrightarrow> inet_pton4 (dotted a) = Some a"
proof -
  assume a: "addr_ok 4 a"
  then obtain w x y z where e: "a = [w, x, y, z]" by (auto simp: addr_ok_def numeral_eq_Suc length_Suc_conv)
  then have "w \<le> 255" "x \<le> 255" "y \<le> 255" "z \<le> 255" using a by (auto simp: addr_ok_def)
  then show ?thesis unfolding pton4_iff
    by (intro exI [of _ "dec w"] exI [of _ "dec x"] exI [of _ "dec y"] exI [of _ "dec z"])
      (simp add: e octet_ok_dec dval_dec dotted_def numeral_eq_Suc)
qed

section \<open>The older conversion\<close>

lemma or_push_bit: "take_bit n b = b \<Longrightarrow> or (push_bit n a) b = push_bit n a + (b :: 'a :: semiring_bit_operations)"
proof -
  assume b: "take_bit n b = b"
  have "\<not> bit (push_bit n a) m \<or> \<not> bit b m" for m
  proof -
    have "bit b m \<longleftrightarrow> m < n \<and> bit b m" using b bit_take_bit_iff [of n b m] by simp
    then show ?thesis by (auto simp: bit_push_bit_iff)
  qed
  then show ?thesis by (simp add: disjunctive_add)
qed

lemma aton_octet_of_nat:
  assumes "y < 256"
  shows "aton_octet (of_nat x) (of_nat y) = of_nat (x * 256 + y)"
proof -
  have "take_bit 8 y = y" using assms by (simp add: take_bit_eq_mod)
  then have "take_bit 8 (of_nat y :: 64 word) = of_nat y" by (metis of_nat_take_bit)
  then have "aton_octet (of_nat x) (of_nat y) = push_bit 8 (of_nat x) + of_nat y"
    unfolding aton_octet_def by (rule or_push_bit)
  then show ?thesis by (simp add: push_bit_eq_mult)
qed

lemma aton_digits:
  "\<forall>c \<in> set ds. isd c \<Longrightarrow> aton_loop (ds @ rest) dots (of_nat v) addr =
    aton_loop rest dots (of_nat (foldl (\<lambda>v c. v * 10 + the (strchr digits c)) v ds)) addr"
proof (induction ds arbitrary: v)
  case (Cons c ds)
  then obtain d where "strchr digits c = Some d" by (auto simp: isd_def)
  then show ?case using Cons.IH [of "v * 10 + d"] Cons.prems by simp
qed simp

lemma aton_octet_ok:
  assumes "octet_ok ds"
  shows "aton_loop (ds @ rest) dots 0 addr = aton_loop rest dots (of_nat (dval ds)) addr" "\<not> (of_nat (dval ds) :: 64 word) > 255"
proof -
  show "aton_loop (ds @ rest) dots 0 addr = aton_loop rest dots (of_nat (dval ds)) addr"
    using aton_digits [of ds rest dots 0 addr] assms by (simp add: octet_ok_def dval_def)
  show "\<not> (of_nat (dval ds) :: 64 word) > 255"
    using assms by (simp add: octet_ok_def word_less_nat_alt unat_of_nat)
qed

lemma aton_step:
  assumes "octet_ok ds"
  shows "aton_loop (ds @ CHR ''.'' # rest) dots 0 (of_nat x) =
      (if dots + 1 > 3 then None else aton_loop rest (dots + 1) 0 (of_nat (x * 256 + dval ds)))"
    and "aton_loop ds dots 0 (of_nat x) = Some (dots, of_nat (x * 256 + dval ds))"
proof -
  have o: "aton_octet (of_nat x) (of_nat (dval ds)) = of_nat (x * 256 + dval ds)"
    using assms by (intro aton_octet_of_nat) (simp add: octet_ok_def)
  show "aton_loop (ds @ CHR ''.'' # rest) dots 0 (of_nat x) =
      (if dots + 1 > 3 then None else aton_loop rest (dots + 1) 0 (of_nat (x * 256 + dval ds)))"
    unfolding aton_octet_ok(1) [OF assms] o [symmetric] using aton_octet_ok(2) [OF assms] by simp
  show "aton_loop ds dots 0 (of_nat x) = Some (dots, of_nat (x * 256 + dval ds))"
    using aton_octet_ok(1) [OF assms, of "[]"] aton_octet_ok(2) [OF assms] o by simp
qed

lemma ucast_64_32: "(ucast (of_nat n :: 64 word) :: 32 word) = of_nat n"
  by transfer (simp add: take_bit_of_nat flip: of_nat_take_bit)

lemma aton_of_pton4:
  assumes "inet_pton4 s = Some [a, b, c, d]"
  shows "inet_aton s = Some (of_nat (((a * 256 + b) * 256 + c) * 256 + d))"
proof -
  obtain p q r t where s: "s = p @ CHR ''.'' # q @ CHR ''.'' # r @ CHR ''.'' # t"
    and o: "octet_ok p" "octet_ok q" "octet_ok r" "octet_ok t" and v: "a = dval p" "b = dval q" "c = dval r" "d = dval t"
    using assms unfolding pton4_iff by auto
  have "aton_loop s 0 0 (of_nat 0) = aton_loop (q @ CHR ''.'' # r @ CHR ''.'' # t) 1 0 (of_nat a)"
    unfolding s aton_step(1) [OF o(1)] by (simp add: v)
  also have "\<dots> = aton_loop (r @ CHR ''.'' # t) 2 0 (of_nat (a * 256 + b))"
    unfolding aton_step(1) [OF o(2)] by (simp add: v numeral_2_eq_2)
  also have "\<dots> = aton_loop t 3 0 (of_nat ((a * 256 + b) * 256 + c))"
    unfolding aton_step(1) [OF o(3)] by (simp add: v)
  also have "\<dots> = Some (3, of_nat (((a * 256 + b) * 256 + c) * 256 + d))"
    unfolding aton_step(2) [OF o(4)] v ..
  finally have e: "aton_loop s 0 0 0 = Some (3, of_nat (((a * 256 + b) * 256 + c) * 256 + d))" by (simp only: semiring_1_class.of_nat_0)
  show ?thesis unfolding inet_aton_def e option.case prod.case by (simp only: less_irrefl if_False ucast_64_32)
qed

end
