(* ===== verification/Inet_V6.thy ===== *)
theory Inet_V6
  imports Inet_Props
begin

text \<open>
  The text of a version 6 address: how \<^verbatim>\<open>inet_ntop6\<close> builds it and how \<^verbatim>\<open>inet_pton6\<close> reads it
  back.
\<close>

section \<open>Words and bytes\<close>

definition w_bytes :: "nat list \<Rightarrow> nat list" where
  "w_bytes ws = concat (map (\<lambda>w. [w div 256, w mod 256]) ws)"

lemma w_bytes_simps [simp]:
  "w_bytes [] = []" "w_bytes (w # ws) = w div 256 # w mod 256 # w_bytes ws"
  "w_bytes (us @ ws) = w_bytes us @ w_bytes ws"
  by (simp_all add: w_bytes_def)

lemma length_w_bytes [simp]: "length (w_bytes ws) = 2 * length ws"
  by (induction ws) simp_all

lemma w_bytes_zeros: "\<forall>w \<in> set ws. w = 0 \<Longrightarrow> w_bytes ws = replicate (2 * length ws) 0"
  by (induction ws) auto

lemma or_byte: "b < 256 \<Longrightarrow> or (push_bit 8 a) b = a * 256 + (b :: nat)"
  using or_push_bit [of 8 b a] by (simp add: take_bit_eq_mod push_bit_eq_mult)

lemma list_update_numeral: "(x # xs)[numeral n := y] = x # xs[pred_numeral n := y]"
  by (simp add: numeral_eq_Suc)

lemma replicate_8: "replicate 8 x = [x, x, x, x, x, x, x, x]"
  by (simp add: numeral_eq_Suc)

lemma ntop6_words_eq:
  assumes "addr_ok 16 src"
  shows "length (ntop6_words src) = 8" "\<forall>w \<in> set (ntop6_words src). w < 65536" "w_bytes (ntop6_words src) = src"
proof -
  obtain a0 a1 a2 a3 a4 a5 a6 a7 a8 a9 b0 b1 b2 b3 b4 b5 where s: "src = [a0, a1, a2, a3, a4, a5, a6, a7, a8, a9, b0, b1, b2, b3, b4, b5]"
    using assms by (auto simp: addr_ok_def numeral_eq_Suc length_Suc_conv)
  have b: "a0 < 256" "a1 < 256" "a2 < 256" "a3 < 256" "a4 < 256" "a5 < 256" "a6 < 256" "a7 < 256" "a8 < 256" "a9 < 256"
    "b0 < 256" "b1 < 256" "b2 < 256" "b3 < 256" "b4 < 256" "b5 < 256"
    using assms by (simp_all add: s addr_ok_def)
  have u: "[0..<16] = [0, 1, 2, 3, 4, 5, 6, 7, 8, 9, 10, 11, 12, 13, 14, 15 :: nat]" by (simp add: upt_rec)
  have e: "ntop6_words src = [a0 * 256 + a1, a2 * 256 + a3, a4 * 256 + a5, a6 * 256 + a7, a8 * 256 + a9, b0 * 256 + b1, b2 * 256 + b3, b4 * 256 + b5]"
    by (simp add: ntop6_words_def IN6ADDRSZ_def INT16SZ_def u s replicate_8 list_update_numeral)
      (simp add: or_byte b)
  then show "length (ntop6_words src) = 8" by simp
  show "\<forall>w \<in> set (ntop6_words src). w < 65536" using b e by simp
  show "w_bytes (ntop6_words src) = src" unfolding e using b by (simp add: s)
qed

section \<open>Runs of zeros\<close>

definition run_ok :: "nat list \<Rightarrow> (nat \<times> nat) option \<Rightarrow> bool" where
  "run_ok ws r \<longleftrightarrow> (\<forall>b l. r = Some (b, l) \<longrightarrow> b + l \<le> length ws \<and> (\<forall>j. b \<le> j \<and> j < b + l \<longrightarrow> ws ! j = 0))"

lemma run_ok_better: "run_ok ws best \<Longrightarrow> run_ok ws cur \<Longrightarrow> run_ok ws (better_run best cur)"
  by (auto simp: better_run_def split: option.splits)

lemma ntop6_runs_ok:
  assumes "drop i ws = rest" "i \<le> length ws" "run_ok ws best" "run_ok ws cur" "\<forall>b l. cur = Some (b, l) \<longrightarrow> b + l = i"
  shows "run_ok ws (ntop6_runs i rest best cur)"
  using assms
proof (induction rest arbitrary: i best cur)
  case Nil
  then show ?case by (simp add: run_ok_better)
next
  case (Cons w rest)
  have i: "i < length ws" "ws ! i = w" "drop (i + 1) ws = rest"
    using Cons.prems(1) by (metis drop_all linorder_not_le list.discI, metis hd_drop_conv_nth drop_all linorder_not_le list.discI list.sel(1), metis Suc_eq_plus1 drop_Suc list.sel(3) tl_drop)
  show ?case
  proof (cases "w = 0")
    case True
    let ?cur = "case cur of None \<Rightarrow> Some (i, 1) | Some (b, l) \<Rightarrow> Some (b, l + 1)"
    have "run_ok ws ?cur" using Cons.prems(4,5) i True by (auto simp: run_ok_def less_Suc_eq split: option.splits)
    moreover have "\<forall>b l. ?cur = Some (b, l) \<longrightarrow> b + l = i + 1" using Cons.prems(5) by (auto split: option.splits)
    ultimately show ?thesis using Cons.IH [of "i + 1" best ?cur] Cons.prems i True by simp
  next
    case False
    have "run_ok ws (ntop6_runs (i + 1) rest (better_run best cur) None)"
      by (rule Cons.IH [OF i(3)]) (use i(1) run_ok_better [OF Cons.prems(3,4)] in \<open>simp_all add: run_ok_def [of ws None]\<close>)
    with False show ?thesis by simp
  qed
qed

lemma ntop6_best_ok:
  assumes "ntop6_best ws = Some (b, l)"
  shows "2 \<le> l" "b + l \<le> length ws" "\<forall>w \<in> set (take l (drop b ws)). w = 0"
proof -
  have r: "ntop6_runs 0 ws None None = Some (b, l)" and l: "2 \<le> l"
    using assms by (auto simp: ntop6_best_def split: option.splits if_splits)
  have "run_ok ws (ntop6_runs 0 ws None None)" by (rule ntop6_runs_ok) (simp_all add: run_ok_def)
  then have z: "b + l \<le> length ws" "\<And>j. b \<le> j \<Longrightarrow> j < b + l \<Longrightarrow> ws ! j = 0" using r by (auto simp: run_ok_def)
  then show "2 \<le> l" "b + l \<le> length ws" "\<forall>w \<in> set (take l (drop b ws)). w = 0"
    using l by (auto simp: in_set_conv_nth)
qed

section \<open>The acc of an address\<close>

definition colons :: "nat list \<Rightarrow> string" where
  "colons ws = concat (map (\<lambda>w. CHR '':'' # hex w) ws)"

fun jn :: "nat list \<Rightarrow> string" where
  "jn [] = []"
| "jn (w # ws) = hex w @ colons ws"

lemma colons_simps [simp]:
  "colons [] = []" "colons (w # ws) = CHR '':'' # hex w @ colons ws" "colons (us @ ws) = colons us @ colons ws"
  by (simp_all add: colons_def)

lemma jn_snoc: "ws \<noteq> [] \<Longrightarrow> jn (ws @ [w]) = jn ws @ CHR '':'' # hex w"
  by (cases ws) simp_all

lemma jn_Cons: "ws \<noteq> [] \<Longrightarrow> jn (w # ws) = hex w @ CHR '':'' # jn ws"
  by (cases ws) simp_all

lemma colons_jn: "ws \<noteq> [] \<Longrightarrow> colons ws = CHR '':'' # jn ws"
  by (cases ws) simp_all

text \<open>The loop outside the run of zeros, where the address is not an encapsulated one.\<close>

lemma fmt_outside:
  assumes "length ws = 8" "i + n \<le> 8" "0 < i" "\<forall>j. i \<le> j \<and> j < i + n \<longrightarrow> \<not> in_run best j"
    and "i \<le> 6 \<and> 6 < i + n \<longrightarrow> \<not> encapsulated best ws"
  shows "ntop6_fmt src ws best i acc = ntop6_fmt src ws best (i + n) (acc @ colons (take n (drop i ws)))"
  using assms
proof (induction n arbitrary: i acc)
  case 0
  then show ?case by simp
next
  case (Suc n)
  have d: "take (Suc n) (drop i ws) = ws ! i # take n (drop (Suc i) ws)"
    using Suc.prems(1,2) by (simp add: Cons_nth_drop_Suc [symmetric])
  have ne: "\<not> (i = 6 \<and> encapsulated best ws)" using Suc.prems(5) by auto
  have "ntop6_fmt src ws best i acc = ntop6_fmt src ws best (Suc i) (acc @ CHR '':'' # hex (ws ! i))"
    using Suc.prems(2,3,4) ne by (subst ntop6_fmt.simps) (auto simp: IN6ADDRSZ_def INT16SZ_def Let_def)
  also have "\<dots> = ntop6_fmt src ws best (Suc i + n) ((acc @ CHR '':'' # hex (ws ! i)) @ colons (take n (drop (Suc i) ws)))"
    using Suc.prems by (intro Suc.IH) auto
  finally show ?case by (simp add: d)
qed

lemma fmt_start:
  assumes "length ws = 8" "0 < b" "b \<le> 8" "\<forall>j < b. \<not> in_run best j" "\<not> encapsulated best ws"
  shows "ntop6_fmt src ws best 0 [] = ntop6_fmt src ws best b (jn (take b ws))"
proof -
  have "ntop6_fmt src ws best 0 [] = ntop6_fmt src ws best 1 (hex (ws ! 0))"
    using assms by (subst ntop6_fmt.simps) (simp add: IN6ADDRSZ_def INT16SZ_def Let_def)
  also have "\<dots> = ntop6_fmt src ws best (1 + (b - 1)) (hex (ws ! 0) @ colons (take (b - 1) (drop 1 ws)))"
    using assms by (intro fmt_outside) auto
  also have "hex (ws ! 0) @ colons (take (b - 1) (drop 1 ws)) = jn (take b ws)"
  proof -
    obtain w us where "ws = w # us" using assms(1) by (cases ws) auto
    moreover obtain c where "b = Suc c" using assms(2) by (cases b) auto
    ultimately show ?thesis by simp
  qed
  finally show ?thesis using assms(2) by simp
qed

lemma fmt_run:
  assumes "best = Some (b, l)" "b + l \<le> 8" "b \<le> i" "i \<le> b + l" "i \<noteq> b"
  shows "ntop6_fmt src ws best i acc = ntop6_fmt src ws best (b + l) acc"
  using assms
proof (induction "b + l - i" arbitrary: i)
  case 0
  then show ?case by simp
next
  case (Suc n)
  then have "in_run best i" "i < 8" by (auto simp: in_run_def)
  then have "ntop6_fmt src ws best i acc = ntop6_fmt src ws best (i + 1) acc"
    using Suc.prems(1,5) by (subst ntop6_fmt.simps) (simp add: IN6ADDRSZ_def INT16SZ_def)
  then show ?case using Suc.hyps(1) [of "i + 1"] Suc.hyps(2) Suc.prems by simp
qed

lemma fmt_run_start:
  assumes "best = Some (b, l)" "b + l \<le> 8" "0 < l"
  shows "ntop6_fmt src ws best b acc = ntop6_fmt src ws best (b + l) (acc @ '':'')"
proof -
  have "ntop6_fmt src ws best b acc = ntop6_fmt src ws best (b + 1) (acc @ '':'')"
    using assms by (subst ntop6_fmt.simps) (simp add: IN6ADDRSZ_def INT16SZ_def in_run_def)
  also have "\<dots> = ntop6_fmt src ws best (b + l) (acc @ '':'')" using assms by (intro fmt_run) auto
  finally show ?thesis .
qed

lemma fmt_end: "8 \<le> i \<Longrightarrow> ntop6_fmt src ws best i acc = Inr acc"
  by (subst ntop6_fmt.simps) (simp add: IN6ADDRSZ_def INT16SZ_def)

text \<open>The three forms of the result before the colon of a trailing run.\<close>

lemma fmt_no_run:
  assumes "length ws = 8"
  shows "ntop6_fmt src ws None 0 [] = Inr (jn ws)"
  using fmt_start [OF assms, of 8 None src] assms by (simp add: in_run_def encapsulated_def fmt_end)

lemma fmt_with_run:
  assumes "length ws = 8" "best = Some (b, l)" "b + l \<le> 8" "0 < l" "\<not> encapsulated best ws"
  shows "ntop6_fmt src ws best 0 [] = Inr (jn (take b ws) @ '':'' @ colons (drop (b + l) ws))"
proof -
  have "ntop6_fmt src ws best 0 [] = ntop6_fmt src ws best b (jn (take b ws))"
  proof (cases "b = 0")
    case False
    then show ?thesis using assms by (intro fmt_start) (auto simp: in_run_def)
  qed simp
  also have "\<dots> = ntop6_fmt src ws best (b + l) (jn (take b ws) @ '':'')" using assms by (intro fmt_run_start)
  also have "\<dots> = ntop6_fmt src ws best (b + l + (8 - (b + l))) ((jn (take b ws) @ '':'') @ colons (take (8 - (b + l)) (drop (b + l) ws)))"
    using assms by (intro fmt_outside) (auto simp: in_run_def)
  also have "\<dots> = Inr (jn (take b ws) @ '':'' @ colons (drop (b + l) ws))" using assms(1,3) by (simp add: fmt_end)
  finally show ?thesis .
qed

lemma fmt_encapsulated:
  assumes "length ws = 8" "best = Some (0, l)" "l = 6 \<or> (l = 5 \<and> ws ! 5 = 0xffff)" "length (dotted (drop 12 src)) \<le> 15"
  shows "ntop6_fmt src ws best 0 [] = Inr ('':'' @ (if l = 5 then '':ffff'' else []) @ '':'' @ dotted (drop 12 src))"
proof -
  have e: "encapsulated best ws" using assms(2,3) by (auto simp: encapsulated_def)
  have six: "ntop6_fmt src ws best 6 acc = Inr (acc @ '':'' @ dotted (drop 12 src))" if "length acc \<le> 20" "l \<le> 6" for acc
    using assms(2,4) e that
    by (subst ntop6_fmt.simps) (simp add: IN6ADDRSZ_def INT16SZ_def in_run_def Let_def inet_ntop4_def ntop6_tmpsize_def)
  have run: "ntop6_fmt src ws best 0 [] = ntop6_fmt src ws best l '':''"
    using fmt_run_start [OF assms(2), of src ws "[]"] assms(3) by auto
  show ?thesis
  proof (cases "l = 6")
    case True
    then show ?thesis using run six [of "'':''"] by simp
  next
    case False
    then have l: "l = 5" "ws ! 5 = 0xffff" using assms(3) by auto
    have "hex 0xffff = ''ffff''" by (simp add: hex.simps xdigits_l_def)
    moreover have "ntop6_fmt src ws best 5 '':'' = ntop6_fmt src ws best 6 ('':'' @ CHR '':'' # hex (ws ! 5))"
      using assms(2) l by (subst ntop6_fmt.simps) (simp add: IN6ADDRSZ_def INT16SZ_def in_run_def Let_def)
    ultimately show ?thesis using run six [of "''::ffff''"] l by simp
  qed
qed

section \<open>Reading the text\<close>

definition xdigit_val :: "char \<Rightarrow> nat option" where
  "xdigit_val ch = (case strchr xdigits_l ch of Some d \<Rightarrow> Some d | None \<Rightarrow> strchr xdigits_u ch)"

lemma xdigit_val_nth: "d < 16 \<Longrightarrow> xdigit_val (xdigits_l ! d) = Some d"
proof -
  have "distinct xdigits_l" "length xdigits_l = 16" by (simp_all add: xdigits_l_def)
  then show "d < 16 \<Longrightarrow> ?thesis" using strchr_nth [of xdigits_l d] by (simp add: xdigit_val_def)
qed

lemma xdigit_val_digit: "d < 10 \<Longrightarrow> xdigit_val (digit d) = Some d"
proof -
  have "\<forall>d \<in> set [0..<10]. xdigits_l ! d = digit d" by code_simp
  then show "d < 10 \<Longrightarrow> ?thesis" using xdigit_val_nth [of d] by simp
qed

lemma xdigit_val_other [simp]: "xdigit_val CHR '':'' = None" "xdigit_val CHR ''.'' = None"
  by (simp_all add: xdigit_val_def xdigits_l_def xdigits_u_def)

lemma loop_xdigit:
  "xdigit_val ch = Some d \<Longrightarrow> val s * 16 + d \<le> 0xffff \<Longrightarrow>
   pton6_loop (ch # src) s = pton6_loop src (s\<lparr>val := val s * 16 + d, saw_xdigit := True\<rparr>)"
  by (simp add: xdigit_val_def [symmetric] Let_def)

lemma loop_sep:
  "pton6_loop (CHR '':'' # src) s =
     (let s1 = s\<lparr>curtok := src\<rparr>
      in if \<not> saw_xdigit s1 then if colonp s1 \<noteq> None then None else pton6_loop src (s1\<lparr>colonp := Some (tp s1)\<rparr>)
         else if tp s1 + INT16SZ > IN6ADDRSZ then None
         else pton6_loop src ((put16 s1)\<lparr>saw_xdigit := False, val := 0\<rparr>))"
  "pton6_loop (CHR ''.'' # src) s =
     (if tp s + INADDRSZ \<le> IN6ADDRSZ then case inet_pton4 (curtok s) of None \<Rightarrow> None | Some a \<Rightarrow> Some (store4 a s) else None)"
  using xdigit_val_other by (simp_all add: xdigit_val_def [symmetric] del: xdigit_val_other)

declare pton6_loop.simps(2) [simp del]

lemma loop_hex:
  "w < 65536 \<Longrightarrow> val s = 0 \<Longrightarrow> pton6_loop (hex w @ rest) s = pton6_loop rest (s\<lparr>val := w, saw_xdigit := True\<rparr>)"
proof (induction w arbitrary: rest rule: hex.induct)
  case (1 n)
  show ?case
  proof (cases "n < 16")
    case True
    then show ?thesis using 1(3) loop_xdigit [OF xdigit_val_nth [OF True], of s rest]
      by (subst hex.simps) simp
  next
    case False
    let ?s = "s\<lparr>val := n div 16, saw_xdigit := True\<rparr>"
    have "pton6_loop (hex n @ rest) s = pton6_loop ((xdigits_l ! (n mod 16)) # rest) ?s"
      using 1 False by (subst hex.simps) simp
    also have "\<dots> = pton6_loop rest (?s\<lparr>val := val ?s * 16 + n mod 16, saw_xdigit := True\<rparr>)"
      using 1(2) by (intro loop_xdigit xdigit_val_nth) simp_all
    finally show ?thesis by simp
  qed
qed

lemma loop_dec:
  "n < 10 ^ Suc k \<Longrightarrow> k \<le> 3 \<Longrightarrow> val s = 0 \<Longrightarrow>
   \<exists>v < 16 ^ Suc k. pton6_loop (dec n @ rest) s = pton6_loop rest (s\<lparr>val := v, saw_xdigit := True\<rparr>)"
proof (induction k arbitrary: n rest)
  case 0
  then have n: "n < 10" by simp
  then show ?case using loop_xdigit [OF xdigit_val_digit [OF n], of s rest] 0
    by (subst dec.simps) (auto intro!: exI [of _ n])
next
  case (Suc k)
  show ?case
  proof (cases "n < 10")
    case True
    have "(1 :: nat) \<le> 16 ^ k" by simp
    then have "n < 16 ^ Suc (Suc k)" using True unfolding power_Suc by linarith
    then show ?thesis using loop_xdigit [OF xdigit_val_digit [OF True], of s rest] Suc.prems True
      by (subst dec.simps) (auto intro!: exI [of _ n])
  next
    case False
    let ?c = "digit (n mod 10)"
    have "n div 10 < 10 ^ Suc k" using Suc.prems(1) by (simp add: less_mult_imp_div_less)
    then obtain v where v: "v < 16 ^ Suc k"
      "pton6_loop (dec (n div 10) @ ?c # rest) s = pton6_loop (?c # rest) (s\<lparr>val := v, saw_xdigit := True\<rparr>)"
      using Suc.IH [of "n div 10" "?c # rest"] Suc.prems by auto
    have b: "v * 16 + n mod 10 < 16 ^ Suc (Suc k)" using v(1) by simp
    have "(16 :: nat) ^ Suc (Suc k) \<le> 16 ^ 4" using Suc.prems(2) by (intro power_increasing) auto
    then have "v * 16 + n mod 10 \<le> 0xffff" using b by simp
    then have "pton6_loop (?c # rest) (s\<lparr>val := v, saw_xdigit := True\<rparr>) = pton6_loop rest (s\<lparr>val := v * 16 + n mod 10, saw_xdigit := True\<rparr>)"
      using loop_xdigit [OF xdigit_val_digit [of "n mod 10"], of "s\<lparr>val := v, saw_xdigit := True\<rparr>" rest] by simp
    then show ?thesis using v(2) b False
      by (subst dec.simps) (auto intro!: exI [of _ "v * 16 + n mod 10"])
  qed
qed

text \<open>The state after the bytes \<open>bs\<close> were stored, at the start of a token.\<close>

definition st :: "nat list \<Rightarrow> nat option \<Rightarrow> string \<Rightarrow> pton6" where
  "st bs c ct = \<lparr>tmp = bs @ replicate (16 - length bs) 0, tp = length bs, colonp = c, curtok = ct, saw_xdigit = False, val = 0\<rparr>"

lemma put16_st:
  assumes "w < 65536" "length bs + 2 \<le> 16"
  shows "tmp (put16 ((st bs c ct)\<lparr>val := w, saw_xdigit := x, curtok := y\<rparr>)) = (bs @ [w div 256, w mod 256]) @ replicate (16 - (length bs + 2)) 0"
    "tp (put16 ((st bs c ct)\<lparr>val := w, saw_xdigit := x, curtok := y\<rparr>)) = length bs + 2"
proof -
  have n: "16 - length bs = Suc (Suc (14 - length bs))" using assms(2) by simp
  then show "tmp (put16 ((st bs c ct)\<lparr>val := w, saw_xdigit := x, curtok := y\<rparr>)) = (bs @ [w div 256, w mod 256]) @ replicate (16 - (length bs + 2)) 0"
    "tp (put16 ((st bs c ct)\<lparr>val := w, saw_xdigit := x, curtok := y\<rparr>)) = length bs + 2"
    using assms(1) by (simp_all add: put16_def st_def list_update_append)
qed

lemma loop_group:
  assumes "w < 65536" "length bs + 2 \<le> 16"
  shows "pton6_loop (hex w @ CHR '':'' # rest) (st bs c ct) = pton6_loop rest (st (bs @ [w div 256, w mod 256]) c rest)"
proof -
  let ?s = "(st bs c ct)\<lparr>val := w, saw_xdigit := True\<rparr>"
  have "pton6_loop (hex w @ CHR '':'' # rest) (st bs c ct) = pton6_loop (CHR '':'' # rest) ?s"
    using assms(1) by (intro loop_hex) (simp_all add: st_def)
  also have "\<dots> = pton6_loop rest ((put16 (?s\<lparr>curtok := rest\<rparr>))\<lparr>saw_xdigit := False, val := 0\<rparr>)"
    using assms(2) by (simp add: loop_sep Let_def st_def INT16SZ_def IN6ADDRSZ_def)
  also have "(put16 (?s\<lparr>curtok := rest\<rparr>))\<lparr>saw_xdigit := False, val := 0\<rparr> = st (bs @ [w div 256, w mod 256]) c rest"
    using put16_st [OF assms, where c = c and ct = ct and x = True and y = rest] by (simp add: put16_def st_def)
  finally show ?thesis .
qed

lemma loop_colon: "pton6_loop (CHR '':'' # rest) (st bs None ct) = pton6_loop rest (st bs (Some (length bs)) rest)"
  by (simp add: loop_sep st_def)

lemma loop_jn_colon:
  "\<forall>w \<in> set ws. w < 65536 \<Longrightarrow> length bs + 2 * length ws \<le> 16 \<Longrightarrow> ws \<noteq> [] \<Longrightarrow>
   pton6_loop (jn ws @ CHR '':'' # rest) (st bs c ct) = pton6_loop rest (st (bs @ w_bytes ws) c rest)"
proof (induction ws arbitrary: bs ct)
  case (Cons w ws)
  show ?case
  proof (cases "ws = []")
    case True
    then show ?thesis using Cons.prems loop_group [of w bs rest c ct] by simp
  next
    case False
    then show ?thesis
      using Cons.prems Cons.IH [of "bs @ [w div 256, w mod 256]"] loop_group [of w bs "jn ws @ CHR '':'' # rest" c ct]
      by (simp add: colons_jn)
  qed
qed simp

lemma loop_jn_end:
  "\<forall>w \<in> set ws. w < 65536 \<Longrightarrow> length bs + 2 * length ws \<le> 16 \<Longrightarrow> ws \<noteq> [] \<Longrightarrow>
   \<exists>s. pton6_loop (jn ws) (st bs c ct) = Some s \<and> saw_xdigit s \<and> tp s + 2 \<le> 16 \<and> colonp s = c \<and>
     tp (put16 s) = length bs + 2 * length ws \<and> tmp (put16 s) = (bs @ w_bytes ws) @ replicate (16 - (length bs + 2 * length ws)) 0"
proof (induction ws arbitrary: bs ct)
  case (Cons w ws)
  show ?case
  proof (cases "ws = []")
    case True
    have w: "w < 65536" "length bs + 2 \<le> 16" using Cons.prems True by simp_all
    have "pton6_loop (hex w @ []) (st bs c ct) = pton6_loop [] ((st bs c ct)\<lparr>val := w, saw_xdigit := True\<rparr>)"
      using w(1) by (intro loop_hex) (simp_all add: st_def)
    then show ?thesis using True put16_st [OF w, where c = c and ct = ct and x = True and y = ct] w(2) by (simp add: st_def)
  next
    case False
    then show ?thesis
      using Cons.prems Cons.IH [of "bs @ [w div 256, w mod 256]" "jn ws"] loop_group [of w bs "jn ws" c ct]
      by (simp add: colons_jn)
  qed
qed simp

section \<open>Reading back\<close>

lemma shift_step:
  assumes "0 < z" "k = length xs + z"
  shows "(xs @ q # replicate z 0 @ ys)[k := (xs @ q # replicate z 0 @ ys) ! length xs, length xs := 0] = xs @ replicate z 0 @ q # ys"
proof -
  obtain y where z: "z = Suc y" using assms(1) by (cases z) auto
  have "replicate z (0 :: 'a) = replicate y 0 @ [0]" unfolding z by (simp add: replicate_append_same)
  then have "(xs @ q # replicate z 0 @ ys)[k := q] = xs @ q # replicate y 0 @ q # ys"
    using assms(2) z by (simp add: list_update_append)
  then show ?thesis using z by (simp add: nth_append list_update_append replicate_append_same)
qed

lemma pton6_shift_eq:
  assumes "length ps + length qs + z = 16" "0 < z"
  shows "pton6_shift (length qs) (length ps) (ps @ qs @ replicate z 0) = ps @ replicate z 0 @ qs"
proof -
  let ?n = "length qs" and ?c = "length ps"
  let ?f = "\<lambda>i a. a[IN6ADDRSZ - i := a ! (?c + ?n - i), ?c + ?n - i := 0 :: nat]"
  have "i \<le> ?n \<Longrightarrow> fold ?f [1..<Suc i] (ps @ qs @ replicate z 0) = ps @ take (?n - i) qs @ replicate z 0 @ drop (?n - i) qs" for i
  proof (induction i)
    case 0
    then show ?case by simp
  next
    case (Suc i)
    let ?xs = "ps @ take (?n - Suc i) qs" and ?q = "qs ! (?n - Suc i)" and ?ys = "drop (?n - i) qs"
    have t: "take (?n - i) qs = take (?n - Suc i) qs @ [?q]" "drop (?n - Suc i) qs = ?q # ?ys"
      using Suc.prems take_Suc_conv_app_nth [of "?n - Suc i" qs] Cons_nth_drop_Suc [of "?n - Suc i" qs] by (simp_all add: Suc_diff_Suc)
    have l: "length ?xs = ?c + ?n - Suc i" "IN6ADDRSZ - Suc i = length ?xs + z" using Suc.prems assms(1) by (simp_all add: IN6ADDRSZ_def)
    have "fold ?f [1..<Suc (Suc i)] (ps @ qs @ replicate z 0) = ?f (Suc i) (?xs @ ?q # replicate z 0 @ ?ys)"
      using Suc t(1) by simp
    also have "\<dots> = ?xs @ replicate z 0 @ ?q # ?ys"
      using shift_step [OF assms(2) l(2), of ?q ?ys] unfolding l(1) .
    finally show ?case using t(2) by simp
  qed
  from this [of ?n] show ?thesis by (simp add: pton6_shift_def)
qed

text \<open>What follows the loop.\<close>

definition fin :: "pton6 \<Rightarrow> pton6" where "fin s = (if saw_xdigit s then put16 s else s)"

lemma pton6_finish:
  assumes "pton6_start t = Some src" "pton6_loop src (st [] None src) = Some s" "saw_xdigit s \<longrightarrow> tp s + 2 \<le> 16"
  shows "colonp s = None \<Longrightarrow> tp (fin s) = 16 \<Longrightarrow> inet_pton6 t = Some (tmp (fin s))"
    and "colonp s = Some (length ps) \<Longrightarrow> tmp (fin s) = ps @ qs @ replicate z 0 \<Longrightarrow> tp (fin s) = length ps + length qs \<Longrightarrow>
      length ps + length qs + z = 16 \<Longrightarrow> 0 < z \<Longrightarrow> inet_pton6 t = Some (ps @ replicate z 0 @ qs)"
    and "colonp s = Some c \<Longrightarrow> inet_pton6 t = Some (pton6_shift (tp (fin s) - c) c (tmp (fin s)))"
proof -
  have i: "\<lparr>tmp = replicate IN6ADDRSZ 0, tp = 0, colonp = None, curtok = src, saw_xdigit = False, val = 0\<rparr> = st [] None src"
    by (simp add: st_def IN6ADDRSZ_def)
  have cp: "colonp (fin s) = colonp s" by (simp add: fin_def put16_def)
  have g: "(saw_xdigit s \<and> tp s + INT16SZ > IN6ADDRSZ) = False" using assms(3) by (auto simp: INT16SZ_def IN6ADDRSZ_def)
  note e = inet_pton6_def [of t, unfolded assms(1) option.case i assms(2) g if_False fin_def [symmetric] Let_def cp]
  show "colonp s = None \<Longrightarrow> tp (fin s) = 16 \<Longrightarrow> inet_pton6 t = Some (tmp (fin s))"
    using e by (simp add: IN6ADDRSZ_def)
  show "colonp s = Some (length ps) \<Longrightarrow> tmp (fin s) = ps @ qs @ replicate z 0 \<Longrightarrow> tp (fin s) = length ps + length qs \<Longrightarrow>
      length ps + length qs + z = 16 \<Longrightarrow> 0 < z \<Longrightarrow> inet_pton6 t = Some (ps @ replicate z 0 @ qs)"
    using e pton6_shift_eq [of ps qs z] by simp
  show "colonp s = Some c \<Longrightarrow> inet_pton6 t = Some (pton6_shift (tp (fin s) - c) c (tmp (fin s)))"
    using e by simp
qed

lemma hex_not_colon: "w < 65536 \<Longrightarrow> hex w \<noteq> [] \<and> hd (hex w) \<noteq> CHR '':''"
proof (induction w rule: hex.induct)
  case (1 n)
  have "xdigits_l ! d \<noteq> CHR '':''" if "d < 16" for d using xdigit_val_nth [OF that] by auto
  then show ?case using 1 hex.simps [of n] by (cases "n < 16") auto
qed

lemma start_jn: "ws \<noteq> [] \<Longrightarrow> \<forall>w \<in> set ws. w < 65536 \<Longrightarrow> pton6_start (jn ws @ t) = Some (jn ws @ t)"
proof -
  assume "ws \<noteq> []" "\<forall>w \<in> set ws. w < 65536"
  then obtain w us where "ws = w # us" "w < 65536" by (cases ws) auto
  then show ?thesis using hex_not_colon [of w] by (cases "hex w") (simp_all add: pton6_start_def)
qed

lemma start_colons: "pton6_start (CHR '':'' # CHR '':'' # t) = Some (CHR '':'' # t)"
  by (simp add: pton6_start_def)

lemma pton6_plain:
  assumes "length ws = 8" "\<forall>w \<in> set ws. w < 65536"
  shows "inet_pton6 (jn ws) = Some (w_bytes ws)"
proof -
  have ne: "ws \<noteq> []" using assms(1) by auto
  obtain s where s: "pton6_loop (jn ws) (st [] None (jn ws)) = Some s" "saw_xdigit s" "tp s + 2 \<le> 16" "colonp s = None"
    "tp (put16 s) = 16" "tmp (put16 s) = w_bytes ws"
    using loop_jn_end [OF assms(2), of "[]" None "jn ws"] assms(1) ne by auto
  have "pton6_start (jn ws) = Some (jn ws)" using start_jn [OF ne assms(2), of "[]"] by simp
  from pton6_finish(1) [OF this s(1)] s show ?thesis by (simp add: fin_def)
qed

lemma pton6_run_loop:
  assumes "length us + length ws \<le> 8" "\<forall>w \<in> set us. w < 65536" "\<forall>w \<in> set ws. w < 65536"
  obtains src s where "pton6_start (jn us @ CHR '':'' # CHR '':'' # jn ws) = Some src" "pton6_loop src (st [] None src) = Some s"
    "saw_xdigit s \<longrightarrow> tp s + 2 \<le> 16" "colonp s = Some (2 * length us)" "tp (fin s) = 2 * length us + 2 * length ws"
    "tmp (fin s) = w_bytes us @ w_bytes ws @ replicate (16 - 2 * (length us + length ws)) 0"
proof -
  let ?t = "jn us @ CHR '':'' # CHR '':'' # jn ws"
  let ?st = "st (w_bytes us) (Some (2 * length us)) (jn ws)"
  obtain src where src: "pton6_start ?t = Some src" "pton6_loop src (st [] None src) = pton6_loop (jn ws) ?st"
  proof (cases "us = []")
    case True
    then show thesis using that [of "CHR '':'' # jn ws"] start_colons loop_colon [of "jn ws" "[]"] by simp
  next
    case False
    have "pton6_loop ?t (st [] None ?t) = pton6_loop (CHR '':'' # jn ws) (st (w_bytes us) None (CHR '':'' # jn ws))"
      using loop_jn_colon [OF assms(2) _ False, of "[]" "CHR '':'' # jn ws" None ?t] assms(1) by simp
    then show thesis using that [of ?t] start_jn [OF False assms(2)] loop_colon [of "jn ws" "w_bytes us"] by simp
  qed
  obtain s where s: "pton6_loop (jn ws) ?st = Some s" "saw_xdigit s \<longrightarrow> tp s + 2 \<le> 16" "colonp s = Some (2 * length us)"
    "tp (fin s) = 2 * length us + 2 * length ws"
    "tmp (fin s) = w_bytes us @ w_bytes ws @ replicate (16 - 2 * (length us + length ws)) 0"
  proof (cases "ws = []")
    case True
    then show thesis using that [of ?st] by (simp add: st_def fin_def)
  next
    case False
    then obtain s where "pton6_loop (jn ws) ?st = Some s \<and> saw_xdigit s \<and> tp s + 2 \<le> 16 \<and> colonp s = Some (2 * length us) \<and>
       tp (put16 s) = length (w_bytes us) + 2 * length ws \<and>
       tmp (put16 s) = (w_bytes us @ w_bytes ws) @ replicate (16 - (length (w_bytes us) + 2 * length ws)) 0"
      using loop_jn_end [OF assms(3), of "w_bytes us" "Some (2 * length us)" "jn ws"] assms(1) by auto
    then show thesis using that [of s] by (simp add: fin_def)
  qed
  show thesis by (rule that [OF src(1) _ s(2-5)]) (use src(2) s(1) in simp)
qed

lemma pton6_run:
  assumes "length us + length ws \<le> 7" "\<forall>w \<in> set us. w < 65536" "\<forall>w \<in> set ws. w < 65536"
  shows "inet_pton6 (jn us @ CHR '':'' # CHR '':'' # jn ws) =
    Some (w_bytes us @ replicate (16 - 2 * (length us + length ws)) 0 @ w_bytes ws)"
proof -
  have "length us + length ws \<le> 8" using assms(1) by simp
  then obtain src s where s: "pton6_start (jn us @ CHR '':'' # CHR '':'' # jn ws) = Some src" "pton6_loop src (st [] None src) = Some s"
    "saw_xdigit s \<longrightarrow> tp s + 2 \<le> 16" "colonp s = Some (2 * length us)" "tp (fin s) = 2 * length us + 2 * length ws"
    "tmp (fin s) = w_bytes us @ w_bytes ws @ replicate (16 - 2 * (length us + length ws)) 0"
    using pton6_run_loop [OF _ assms(2,3)] by blast
  show ?thesis by (rule pton6_finish(2) [OF s(1-3)]) (use s assms(1) in simp_all)
qed

text \<open>With all eight words present the shift clears the bytes it moves.\<close>

lemma pton6_shift_full:
  assumes "length ps + length qs = 16"
  shows "pton6_shift (length qs) (length ps) (ps @ qs) = ps @ replicate (length qs) 0"
proof -
  let ?n = "length qs" and ?c = "length ps"
  let ?f = "\<lambda>i a. a[IN6ADDRSZ - i := a ! (?c + ?n - i), ?c + ?n - i := 0 :: nat]"
  have "i \<le> ?n \<Longrightarrow> fold ?f [1..<Suc i] (ps @ qs) = ps @ take (?n - i) qs @ replicate i 0" for i
  proof (induction i)
    case (Suc i)
    let ?xs = "ps @ take (?n - Suc i) qs" and ?q = "qs ! (?n - Suc i)"
    have t: "take (?n - i) qs = take (?n - Suc i) qs @ [?q]"
      using Suc.prems take_Suc_conv_app_nth [of "?n - Suc i" qs] by (simp add: Suc_diff_Suc)
    have l: "length ?xs = ?c + ?n - Suc i" "IN6ADDRSZ - Suc i = length ?xs" using Suc.prems assms by (simp_all add: IN6ADDRSZ_def)
    have "fold ?f [1..<Suc (Suc i)] (ps @ qs) = ?f (Suc i) (?xs @ ?q # replicate i 0)" using Suc t by simp
    also have "\<dots> = ?xs @ 0 # replicate i 0" unfolding l(2) l(1) [symmetric] by (simp add: list_update_append)
    finally show ?case by simp
  qed simp
  from this [of ?n] show ?thesis by (simp add: pton6_shift_def)
qed

lemma pton6_full:
  assumes "length us + length ws = 8" "\<forall>w \<in> set us. w < 65536" "\<forall>w \<in> set ws. w < 65536"
  shows "inet_pton6 (jn us @ CHR '':'' # CHR '':'' # jn ws) = Some (w_bytes us @ replicate (2 * length ws) 0)"
proof -
  have l: "length us + length ws \<le> 8" using assms(1) by simp
  obtain src s where s: "pton6_start (jn us @ CHR '':'' # CHR '':'' # jn ws) = Some src" "pton6_loop src (st [] None src) = Some s"
    "saw_xdigit s \<longrightarrow> tp s + 2 \<le> 16" "colonp s = Some (2 * length us)" "tp (fin s) = 2 * length us + 2 * length ws"
    "tmp (fin s) = w_bytes us @ w_bytes ws @ replicate (16 - 2 * (length us + length ws)) 0"
    using pton6_run_loop [OF l assms(2,3)] by blast
  have "pton6_shift (2 * length ws) (2 * length us) (w_bytes us @ w_bytes ws) = w_bytes us @ replicate (2 * length ws) 0"
    using pton6_shift_full [of "w_bytes us" "w_bytes ws"] assms(1) by simp
  then show ?thesis using pton6_finish(3) [OF s(1-4)] s(5,6) assms(1) by simp
qed

lemma loop_dotted:
  assumes "addr_ok 4 a" "length bs \<le> 12"
  shows "\<exists>s. pton6_loop (dotted a) (st bs c (dotted a)) = Some s \<and> \<not> saw_xdigit s \<and> colonp s = c \<and> tp s = length bs + 4 \<and>
    tmp s = (bs @ a) @ replicate (12 - length bs) 0"
proof -
  let ?rest = "dec (a ! 1) @ CHR ''.'' # dec (a ! 2) @ CHR ''.'' # dec (a ! 3)"
  have "a ! 0 < 10 ^ Suc 2" using assms(1) by (auto simp: addr_ok_def intro: less_trans [of _ 256])
  then obtain v where v: "pton6_loop (dotted a) (st bs c (dotted a)) = pton6_loop (CHR ''.'' # ?rest) ((st bs c (dotted a))\<lparr>val := v, saw_xdigit := True\<rparr>)"
    using loop_dec [of "a ! 0" 2 "st bs c (dotted a)" "CHR ''.'' # ?rest"] by (auto simp: dotted_def st_def)
  have "pton6_loop (dotted a) (st bs c (dotted a)) = Some (store4 a ((st bs c (dotted a))\<lparr>val := v, saw_xdigit := True\<rparr>))"
    unfolding v loop_sep using assms(2) pton4_dotted [OF assms(1)] by (simp add: st_def INADDRSZ_def IN6ADDRSZ_def)
  moreover have "length a = 4" using assms(1) by (simp add: addr_ok_def)
  ultimately show ?thesis using assms(2) by (simp add: store4_def st_def INADDRSZ_def)
qed

lemma pton6_encapsulated:
  assumes "addr_ok 4 a" "us = [] \<or> us = [0xffff]"
  shows "inet_pton6 (CHR '':'' # colons us @ CHR '':'' # dotted a) = Some (replicate (12 - 2 * length us) 0 @ w_bytes us @ a)"
proof -
  have l: "length us \<le> 1" "\<forall>w \<in> set us. w < 65536" using assms(2) by auto
  let ?src = "colons us @ CHR '':'' # dotted a"
  have start: "pton6_start (CHR '':'' # ?src) = Some ?src" using assms(2) by (auto simp: pton6_start_def)
  have "pton6_loop ?src (st [] None ?src) = pton6_loop (dotted a) (st (w_bytes us) (Some 0) (dotted a))"
  proof (cases "us = []")
    case True
    then show ?thesis using loop_colon [of "dotted a" "[]"] by simp
  next
    case False
    then have "?src = CHR '':'' # jn us @ CHR '':'' # dotted a" by (simp add: colons_jn)
    then show ?thesis
      using loop_colon [of "jn us @ CHR '':'' # dotted a" "[]"] loop_jn_colon [OF l(2) _ False, of "[]" "dotted a"] l(1) by simp
  qed
  moreover obtain s where s: "pton6_loop (dotted a) (st (w_bytes us) (Some 0) (dotted a)) = Some s" "\<not> saw_xdigit s"
    "colonp s = Some 0" "tp s = 2 * length us + 4" "tmp s = (w_bytes us @ a) @ replicate (12 - 2 * length us) 0"
    using loop_dotted [OF assms(1), of "w_bytes us" "Some 0"] l(1) by auto
  ultimately show ?thesis
    using pton6_finish(2) [OF start, of s "[]" "w_bytes us @ a" "12 - 2 * length us"] l(1) assms(1) by (simp add: fin_def addr_ok_def)
qed

section \<open>The lengths of the texts\<close>

lemma length_hex: "w < 16 ^ Suc k \<Longrightarrow> length (hex w) \<le> Suc k"
proof (induction k arbitrary: w)
  case 0
  then show ?case by (subst hex.simps) simp
next
  case (Suc k)
  then show ?case using Suc.IH [of "w div 16"] by (subst hex.simps) (simp add: less_mult_imp_div_less)
qed

lemma length_colons: "\<forall>w \<in> set ws. w < 65536 \<Longrightarrow> length (colons ws) \<le> 5 * length ws"
proof (induction ws)
  case (Cons w ws)
  then show ?case using length_hex [of w 3] by simp
qed simp

lemma length_jn: "\<forall>w \<in> set ws. w < 65536 \<Longrightarrow> length (jn ws) \<le> 5 * length ws"
  using length_colons [of ws] by (cases "ws = []") (simp_all add: colons_jn)

lemma length_dotted: "addr_ok 4 a \<Longrightarrow> length (dotted a) \<le> 15"
proof -
  assume a: "addr_ok 4 a"
  have "length (dec (a ! i)) \<le> 3" if "i < 4" for i
  proof -
    have "a ! i < 256" using a that by (simp add: addr_ok_def)
    then show ?thesis using length_dec [of "a ! i" 2] by simp
  qed
  from this [of 0] this [of 1] this [of 2] this [of 3] show ?thesis by (simp add: dotted_def)
qed

section \<open>Both directions together\<close>

lemma ntop6_encapsulated:
  assumes a: "addr_ok 16 src" and b: "ntop6_best (ntop6_words src) = Some (0, l)"
    and l: "l = 6 \<or> (l = 5 \<and> ntop6_words src ! 5 = 0xffff)"
  defines "t \<equiv> CHR '':'' # colons (if l = 5 then [0xffff] else []) @ CHR '':'' # dotted (drop 12 src)"
  shows "inet_pton6 t = Some src" "ntop6_fmt src (ntop6_words src) (Some (0, l)) 0 [] = Inr t" "length t \<le> 45"
proof -
  let ?ws = "ntop6_words src" and ?us = "if l = 5 then [0xffff] else [] :: nat list"
  note w = ntop6_words_eq [OF a] and r = ntop6_best_ok [OF b]
  have d: "addr_ok 4 (drop 12 src)" using a by (auto simp: addr_ok_def dest: in_set_dropD)
  note ld = length_dotted [OF d]
  have hx: "hex 0xffff = ''ffff''" by (simp add: hex.simps xdigits_l_def)
  show "ntop6_fmt src ?ws (Some (0, l)) 0 [] = Inr t"
    using fmt_encapsulated [OF w(1) refl l ld] hx by (simp add: t_def)
  show "length t \<le> 45" using ld hx by (simp add: t_def)
  have z: "take l ?ws = replicate l 0" using r w(1) by (intro replicate_eqI) auto
  have ws: "?ws = replicate l 0 @ ?us @ drop 6 ?ws"
  proof (cases "l = 6")
    case True
    then show ?thesis using z append_take_drop_id [of 6 ?ws] by simp
  next
    case False
    then have l5: "l = 5" "?ws ! 5 = 0xffff" using l by auto
    have "drop 5 ?ws = ?ws ! 5 # drop 6 ?ws" using w(1) Cons_nth_drop_Suc [of 5 ?ws] by simp
    then show ?thesis using l5 z append_take_drop_id [of 5 ?ws] by simp
  qed
  have "src = w_bytes (replicate l 0 @ ?us @ drop 6 ?ws)" using w(3) ws by simp
  also have "\<dots> = replicate (12 - 2 * length ?us) 0 @ w_bytes ?us @ w_bytes (drop 6 ?ws)"
    using l w_bytes_zeros [of "replicate l 0"] by auto
  finally have s: "src = (replicate (12 - 2 * length ?us) 0 @ w_bytes ?us) @ w_bytes (drop 6 ?ws)" by simp
  have "length (replicate (12 - 2 * length ?us) 0 @ w_bytes ?us) = 12" by simp
  then have "drop 12 src = w_bytes (drop 6 ?ws)" using s by (metis append_eq_conv_conj)
  then show "inet_pton6 t = Some src"
    using pton6_encapsulated [OF d, of ?us] s by (simp add: t_def)
qed

lemma ntop6_text:
  assumes a: "addr_ok 16 src"
  shows "\<exists>t. length t \<le> 45 \<and> inet_pton6 t = Some src \<and> inet_ntop6 src sz = (if length t + 1 > sz then Inl ENOSPC else Inr t)"
proof -
  let ?ws = "ntop6_words src" and ?best = "ntop6_best (ntop6_words src)"
  note w = ntop6_words_eq [OF a]
  show ?thesis
  proof (cases ?best)
    case None
    then have "inet_ntop6 src sz = (if length (jn ?ws) + 1 > sz then Inl ENOSPC else Inr (jn ?ws))"
      using fmt_no_run [OF w(1)] by (simp add: inet_ntop6_def Let_def)
    then show ?thesis using pton6_plain [OF w(1,2)] w(3) length_jn [OF w(2)] w(1) by (intro exI [of _ "jn ?ws"]) simp
  next
    case (Some bl)
    obtain b l where bl: "bl = (b, l)" by (cases bl)
    note r = ntop6_best_ok [OF Some [unfolded bl]]
    show ?thesis
    proof (cases "encapsulated ?best ?ws")
      case True
      then have b: "b = 0" "l = 6 \<or> (l = 5 \<and> ?ws ! 5 = 0xffff)" using Some bl by (auto simp: encapsulated_def)
      note e = ntop6_encapsulated [OF a Some [unfolded bl b(1)] b(2)]
      let ?t = "CHR '':'' # colons (if l = 5 then [0xffff] else []) @ CHR '':'' # dotted (drop 12 src)"
      have "inet_ntop6 src sz = (if length ?t + 1 > sz then Inl ENOSPC else Inr ?t)"
        using e(2) b Some bl by (auto simp: inet_ntop6_def Let_def IN6ADDRSZ_def INT16SZ_def)
      then show ?thesis using e(1,3) by (intro exI [of _ ?t]) blast
    next
      case False
      let ?us = "take b ?ws" and ?vs = "drop (b + l) ?ws"
      let ?t = "jn ?us @ CHR '':'' # CHR '':'' # jn ?vs"
      have f: "ntop6_fmt src ?ws ?best 0 [] = Inr (jn ?us @ '':'' @ colons ?vs)"
        using r w(1) False Some bl by (intro fmt_with_run) auto
      have "(jn ?us @ '':'' @ colons ?vs) @ (if b + l = 8 then '':'' else []) = ?t"
        using r(2) w(1) by (cases "?vs = []") (simp_all add: colons_jn)
      then have n: "inet_ntop6 src sz = (if length ?t + 1 > sz then Inl ENOSPC else Inr ?t)"
        using f Some bl by (simp add: inet_ntop6_def Let_def IN6ADDRSZ_def INT16SZ_def)
      have lt: "\<forall>x \<in> set ?us. x < 65536" "\<forall>x \<in> set ?vs. x < 65536" using w(2) by (auto dest: in_set_takeD in_set_dropD)
      have len: "length ?us = b" "length ?vs = 8 - (b + l)" using r(2) w(1) by auto
      have "?ws = ?us @ take l (drop b ?ws) @ ?vs" by (metis append.assoc append_take_drop_id drop_drop add.commute)
      then have "src = w_bytes ?us @ w_bytes (take l (drop b ?ws)) @ w_bytes ?vs" using w(3) by (metis w_bytes_simps(3))
      moreover have "w_bytes (take l (drop b ?ws)) = replicate (2 * l) 0" using w_bytes_zeros [OF r(3)] r(2) w(1) by simp
      moreover have "16 - 2 * (b + (8 - (b + l))) = 2 * l" using r(2) w(1) by simp
      ultimately have "inet_pton6 ?t = Some src" using pton6_run [OF _ lt] len r w(1) by simp
      moreover have "length ?t \<le> 45" using length_jn [OF lt(1)] length_jn [OF lt(2)] len r w(1) by simp
      ultimately show ?thesis using n by blast
    qed
  qed
qed

section \<open>The checksum\<close>

text \<open>
  The 16-bit words of a packet, and their one's complement sum, in which a carry out of
  the word is added back in.
\<close>

fun words_of :: "byte list \<Rightarrow> 16 word list" where
  "words_of (a # b # w) = (ucast a + 256 * ucast b) # words_of w"
| "words_of [a] = [ucast a]"
| "words_of [] = []"

definition oc_add :: "16 word \<Rightarrow> 16 word \<Rightarrow> 16 word" where
  "oc_add x y = (if unat x + unat y < 65536 then x + y else x + y + 1)"

definition oc_sum :: "byte list \<Rightarrow> 16 word" where
  "oc_sum bs = foldl oc_add 0 (words_of bs)"

lemma unat_ucast_byte:
  "unat (ucast (a :: byte) :: 16 word) = unat a" "unat (ucast a :: 32 word) = unat a" "unat a < 256"
  using unsigned_less [of a, where ?'a = nat] by (simp_all add: unsigned_ucast_eq take_bit_eq_mod)

lemma unat_pair:
  "unat (ucast (a :: byte) + 256 * ucast (b :: byte) :: 16 word) = unat a + 256 * unat b"
  "unat (ucast a + 256 * ucast b :: 32 word) = unat a + 256 * unat b"
  using unat_ucast_byte [of a] unat_ucast_byte [of b] by (simp_all add: unat_word_ariths)

abbreviation wsum :: "16 word list \<Rightarrow> nat" where "wsum ws \<equiv> sum_list (map unat ws)"

lemma cksum_sum_nat:
  "unat acc + wsum (words_of bs) < 2 ^ 32 \<Longrightarrow> unat (cksum_sum bs acc) = unat acc + wsum (words_of bs)"
proof (induction bs acc rule: cksum_sum.induct)
  case (1 a b w acc)
  have "unat (acc + (ucast a + 256 * ucast b)) = unat acc + (unat a + 256 * unat b)"
    using 1(2) unat_pair [of a b] by (simp add: unat_word_ariths(1) [of acc])
  then show ?case using 1 unat_pair(1) [of a b] by simp
next
  case (2 a acc)
  then show ?case using unat_ucast_byte [of a] by (simp add: unat_word_ariths(1) [of acc])
next
  case (3 acc)
  then show ?case by simp
qed

lemma wsum_bound: "wsum ws \<le> length ws * 65535"
proof (induction ws)
  case (Cons w ws)
  then show ?case using unsigned_less [of w, where ?'a = nat] by simp
qed simp

lemma length_words_of: "length (words_of bs) \<le> (length bs + 1) div 2"
  by (induction bs rule: words_of.induct) simp_all
lemma unat_oc_add: "unat (oc_add x y) = (if unat x + unat y < 65536 then unat x + unat y else unat x + unat y - 65535)"
proof (cases "unat x + unat y < 65536")
  case True
  then show ?thesis by (simp add: oc_add_def unat_word_ariths)
next
  case False
  have b: "unat x < 65536" "unat y < 65536" using unsigned_less [of x, where ?'a = nat] unsigned_less [of y, where ?'a = nat] by simp_all
  have "x + y + 1 = of_nat (unat x + unat y + 1)" by simp
  then have "unat (x + y + 1) = (unat x + unat y + 1) mod 65536" by (simp only: unat_of_nat) simp
  also have "\<dots> = unat x + unat y + 1 - 65536" using False b by (simp add: mod_if [of "Suc (unat x + unat y)"])
  finally show ?thesis using False by (simp add: oc_add_def)
qed

text \<open>A one's complement sum is the residue modulo 65535, and 0 only for a sum of 0.\<close>

lemma oc_fold:
  "unat (foldl oc_add x ws) mod 65535 = (unat x + wsum ws) mod 65535 \<and> (foldl oc_add x ws = 0 \<longleftrightarrow> unat x + wsum ws = 0)"
proof (induction ws arbitrary: x)
  case Nil
  then show ?case by (simp add: unat_eq_0)
next
  case (Cons w ws)
  have o: "unat (oc_add x w) mod 65535 = (unat x + unat w) mod 65535" "unat (oc_add x w) = 0 \<longleftrightarrow> unat x + unat w = 0"
    by (auto simp: unat_oc_add mod_if [of "unat x + unat w"])
  have "(unat (oc_add x w) + wsum ws) mod 65535 = (unat x + unat w + wsum ws) mod 65535"
    using o(1) by (rule mod_add_cong) simp
  moreover have "unat (oc_add x w) + wsum ws = 0 \<longleftrightarrow> unat x + unat w + wsum ws = 0" using o(2) by linarith
  moreover have "unat x + wsum (w # ws) = unat x + unat w + wsum ws" by simp
  ultimately show ?case using Cons.IH [of "oc_add x w"] by (simp only: foldl_Cons)
qed

lemma fold16:
  fixes n :: nat
  assumes "n < 2 ^ 32"
  defines "s \<equiv> n div 65536 + n mod 65536"
  defines "r \<equiv> (s + s div 65536) mod 65536"
  shows "r mod 65535 = n mod 65535" "r = 0 \<longleftrightarrow> n = 0" "r < 65536"
proof -
  have n: "n = 65536 * (n div 65536) + n mod 65536" by simp
  have d: "n div 65536 < 65536" using assms(1) by (simp add: less_mult_imp_div_less)
  have s: "s \<le> 131070" using d mod_less_divisor [of 65536 n] unfolding s_def by linarith
  have sm: "s mod 65535 = n mod 65535"
  proof -
    have "n = s + 65535 * (n div 65536)" unfolding s_def using n by linarith
    then show ?thesis by (metis mod_mult_self2)
  qed
  have s0: "s = 0 \<longleftrightarrow> n = 0" unfolding s_def using n by auto
  have r: "r = (if s < 65536 then s else s - 65535)"
  proof (cases "s < 65536")
    case False
    then have "s div 65536 = 1" using s by (simp add: div_if [of s])
    then show ?thesis using False s unfolding r_def by (simp add: mod_if [of "Suc s"])
  qed (simp add: r_def)
  show "r < 65536" by (simp add: r_def)
  show "r = 0 \<longleftrightarrow> n = 0" using r s0 by auto
  show "r mod 65535 = n mod 65535"
  proof (cases "s < 65536")
    case False
    then have "r = s - 65535" "65535 \<le> s" using r by auto
    then have "r mod 65535 = s mod 65535" by (metis le_mod_geq)
    then show ?thesis using sm by simp
  qed (use r sm in simp)
qed

lemma residue_unique:
  fixes r :: nat
  assumes "r mod 65535 = q mod 65535" "r = 0 \<longleftrightarrow> q = 0" "r < 65536" "q < 65536"
  shows "r = q"
proof -
  have "x mod 65535 = (if x = 65535 then 0 else x)" if "x < 65536" for x :: nat using that by auto
  then show ?thesis using assms by (auto split: if_splits)
qed

lemma in_cksum_nat:
  assumes "wsum (words_of bs) < 2 ^ 32"
  shows "in_cksum bs = not (oc_sum bs)"
proof -
  let ?n = "wsum (words_of bs)" let ?s = "?n div 65536 + ?n mod 65536" let ?r = "(?s + ?s div 65536) mod 65536"
  define a where "a = cksum_sum bs 0"
  define b where "b = drop_bit 16 a + and a 0xffff"
  have a: "unat a = ?n" using cksum_sum_nat [of 0 bs] assms by (simp add: a_def)
  have m: "(0xffff :: 32 word) = mask 16" by (simp add: mask_eq_exp_minus_1)
  have d: "unat (drop_bit 16 x) = unat x div 65536" "unat (and x 0xffff) = unat x mod 65536" for x :: "32 word"
    unfolding m by (simp_all add: drop_bit_eq_div take_bit_eq_mask [symmetric] take_bit_eq_mod unat_div unat_mod)
  have dn: "?n div 65536 < 65536" using assms by (simp add: less_mult_imp_div_less)
  have sn: "?s \<le> 131070" using dn mod_less_divisor [of 65536 ?n] by linarith
  have b: "unat b = ?s" using sn unfolding b_def by (simp add: unat_word_ariths(1) d a)
  have "?s div 65536 \<le> 1" using sn by (simp add: div_le_mono [of ?s 131070 65536, simplified])
  then have s: "unat (b + drop_bit 16 b) = ?s + ?s div 65536" using sn by (simp add: unat_word_ariths(1) d b)
  have "unat (ucast (b + drop_bit 16 b) :: 16 word) = ?r"
    using s by (simp add: unsigned_ucast_eq take_bit_eq_mod)
  moreover have "?r = unat (oc_sum bs)"
  proof (rule residue_unique)
    note o = oc_fold [of 0 "words_of bs"]
    show "?r mod 65535 = unat (oc_sum bs) mod 65535" using fold16(1) [OF assms] o by (simp add: oc_sum_def)
    show "?r = 0 \<longleftrightarrow> unat (oc_sum bs) = 0" using fold16(2) [OF assms] o by (simp add: oc_sum_def unat_eq_0)
    show "?r < 65536" by simp
    show "unat (oc_sum bs) < 65536" using unsigned_less [of "oc_sum bs", where ?'a = nat] by simp
  qed
  ultimately have "(ucast (b + drop_bit 16 b) :: 16 word) = oc_sum bs" by (simp add: word_unat_eq_iff)
  moreover have "(ucast (not x) :: 16 word) = not (ucast x)" for x :: "32 word" by (rule bit_word_eqI) (auto simp: bit_simps)
  ultimately show ?thesis by (simp add: in_cksum_def Let_def a_def [symmetric] b_def [symmetric])
qed

section \<open>Properties\<close>

text \<open>
  C4. What \<^verbatim>\<open>inet_ntop\<close> prints for an address, \<^verbatim>\<open>inet_pton\<close> reads back as the same address,
  for all addresses of both families; with a buffer of 46 characters \<^verbatim>\<open>inet_ntop\<close> always
  prints one.
\<close>

theorem inet_ntop_pton_roundtrip:
  assumes "af = AF_INET \<and> addr_ok 4 a \<or> af = AF_INET6 \<and> addr_ok 16 a"
  shows "(46 \<le> sz \<longrightarrow> (\<exists>t. inet_ntop af a sz = Inr t)) \<and> (\<forall>t. inet_ntop af a sz = Inr t \<longrightarrow> inet_pton af t = Inr (Some a))"
proof (cases af)
  case AF_INET
  then have a: "addr_ok 4 a" using assms by simp
  then show ?thesis using AF_INET pton4_dotted [OF a] length_dotted [OF a]
    by (auto simp: inet_ntop_def inet_pton_def inet_ntop4_def split: if_splits)
next
  case AF_INET6
  then have "addr_ok 16 a" using assms by simp
  from ntop6_text [OF this, of sz] show ?thesis using AF_INET6
    by (auto simp: inet_ntop_def inet_pton_def split: if_splits)
qed (use assms in simp)

theorem inet_ntop_pton_roundtrip_witness:
  "\<exists>t. inet_ntop AF_INET6 [0x20, 1, 0xd, 0xb8, 0, 0, 0, 0, 0, 0, 0, 0, 0, 0, 0, 1] 46 = Inr t \<and>
     inet_pton AF_INET6 t = Inr (Some [0x20, 1, 0xd, 0xb8, 0, 0, 0, 0, 0, 0, 0, 0, 0, 0, 0, 1])"
  using inet_ntop_pton_roundtrip [of AF_INET6 "[0x20, 1, 0xd, 0xb8, 0, 0, 0, 0, 0, 0, 0, 0, 0, 0, 0, 1]" 46]
  by (auto simp: addr_ok_def)

text \<open>
  \<^verbatim>\<open>inet_pton\<close> accepts as a version 4 address exactly four strings of decimal digits with
  dots between them, each with a value of at most 255, and stores these values.
\<close>

theorem inet_pton4_accepts:
  "inet_pton AF_INET s = Inr (Some bs) \<longleftrightarrow>
    (\<exists>a b c d. s = a @ CHR ''.'' # b @ CHR ''.'' # c @ CHR ''.'' # d \<and>
       octet_ok a \<and> octet_ok b \<and> octet_ok c \<and> octet_ok d \<and> bs = [dval a, dval b, dval c, dval d])"
  by (simp add: inet_pton_def pton4_iff)

text \<open>
  On every text that \<^verbatim>\<open>inet_pton\<close> accepts as a version 4 address, \<^verbatim>\<open>inet_aton\<close> gives the
  same address, as a number in the order of the host.
\<close>

theorem inet_aton_agrees:
  assumes "inet_pton AF_INET s = Inr (Some bs)"
  shows "inet_aton s = Some (of_nat (foldl (\<lambda>n b. n * 256 + b) 0 bs))"
proof -
  have s: "inet_pton4 s = Some bs" using assms by (simp add: inet_pton_def)
  then obtain a b c d where bs: "bs = [a, b, c, d]" by (auto simp: pton4_iff)
  show ?thesis using aton_of_pton4 [OF s [unfolded bs]] by (simp add: bs)
qed

theorem inet_aton_agrees_witness:
  "inet_aton ''1.2.3.4'' = Some (of_nat (foldl (\<lambda>n b. n * 256 + b) 0 [1, 2, 3, 4]))"
proof -
  have "inet_pton AF_INET ''1.2.3.4'' = Inr (Some [1, 2, 3, 4])" by code_simp
  from inet_aton_agrees [OF this] show ?thesis .
qed

text \<open>
  The comment on \<^verbatim>\<open>inet_pton6\<close> says that \<^verbatim>\<open>::\<close> in a full address is ignored. The shift
  that makes room for the zeros then moves each byte to its own place and clears it: the
  words after the \<^verbatim>\<open>::\<close> are lost, and the call succeeds.
\<close>

theorem inet_pton6_full_colons:
  assumes "length us + length ws = 8" "\<forall>w \<in> set (us @ ws). w < 65536"
  shows "inet_pton AF_INET6 (jn us @ ''::'' @ jn ws) = Inr (Some (w_bytes us @ replicate (2 * length ws) 0))"
  using pton6_full [OF assms(1)] assms(2) by (simp add: inet_pton_def)

theorem inet_pton6_full_colons_witness:
  "inet_pton AF_INET6 ''1:2:3:4::5:6:7:8'' = Inr (Some [0, 1, 0, 2, 0, 3, 0, 4, 0, 0, 0, 0, 0, 0, 0, 0])"
proof -
  have t: "jn [1, 2, 3, 4] @ ''::'' @ jn [5, 6, 7, 8] = ''1:2:3:4::5:6:7:8''" by (simp add: hex.simps xdigits_l_def)
  have "inet_pton AF_INET6 (jn [1, 2, 3, 4] @ ''::'' @ jn [5, 6, 7, 8]) =
      Inr (Some (w_bytes [1, 2, 3, 4] @ replicate (2 * length [5, 6, 7, 8 :: nat]) 0))"
    by (rule inet_pton6_full_colons) simp_all
  then show ?thesis unfolding t by (simp add: replicate_8)
qed

text \<open>
  \<^verbatim>\<open>inet_ntop\<close> writes a version 4 address into a buffer that is one byte too small for it:
  for every address there is a size, not larger than 15, at which the call succeeds although
  the text with its null byte is longer than the buffer. For a version 6 address the text
  with its null byte always fits.
\<close>

theorem inet_ntop4_overflows:
  "(addr_ok 4 a \<longrightarrow> (\<exists>sz t. sz \<le> 15 \<and> inet_ntop AF_INET a sz = Inr t \<and> length t + 1 > sz)) \<and>
   (inet_ntop AF_INET6 b sz = Inr t \<longrightarrow> length t + 1 \<le> sz)"
proof -
  have "addr_ok 4 a \<longrightarrow> (\<exists>sz t. sz \<le> 15 \<and> inet_ntop AF_INET a sz = Inr t \<and> length t + 1 > sz)"
    using length_dotted [of a] by (auto simp: inet_ntop_def inet_ntop4_def intro!: exI [of _ "length (dotted a)"])
  moreover have "inet_ntop AF_INET6 b sz = Inr t \<longrightarrow> length t + 1 \<le> sz"
    by (auto simp: inet_ntop_def inet_ntop6_def Let_def split: sum.splits if_splits)
  ultimately show ?thesis by blast
qed

theorem inet_ntop4_overflows_witness:
  "\<exists>sz t. sz \<le> 15 \<and> inet_ntop AF_INET [10, 0, 0, 1] sz = Inr t \<and> length t + 1 > sz"
  using inet_ntop4_overflows [of "[10, 0, 0, 1]" "[]" 0 "[]"] by (simp add: addr_ok_def)

text \<open>
  C37. For packets of up to 131072 bytes \<^verbatim>\<open>in_cksum\<close> is the complement of the one's complement
  sum of the 16-bit words: the 32-bit accumulator does not overflow, and two additions fold
  all of its carries.
\<close>

theorem in_cksum_ones_complement:
  assumes "length bs \<le> 131072"
  shows "in_cksum bs = not (oc_sum bs)"
proof -
  have "length (words_of bs) \<le> 65536" using length_words_of [of bs] assms by linarith
  then have "wsum (words_of bs) \<le> 65536 * 65535"
    using wsum_bound [of "words_of bs"] mult_le_mono1 [of "length (words_of bs)" 65536 65535] by linarith
  then show ?thesis by (intro in_cksum_nat) simp
qed

theorem in_cksum_ones_complement_witness:
  "in_cksum [0x45, 0xff, 0xff] = not 0x45"
proof -
  have "oc_sum [0x45, 0xff, 0xff] = 0x45" by (simp add: oc_sum_def oc_add_def)
  then show ?thesis using in_cksum_ones_complement [of "[0x45, 0xff, 0xff]"] by simp
qed

end
