(* ===== verification/Foo_Refs.thy ===== *)
theory Foo_Refs
  imports Prelude
begin

text \<open>
  Reference-counted objects in a hash table: \<^verbatim>\<open>src/apue.3e/threads/mutex2.c\<close>, where the count
  of an object is protected by the object's own mutex, and \<^verbatim>\<open>mutex3.c\<close>, where one mutex
  protects the table and all counts. Addresses are numbers, 0 is the null pointer, and an
  access to memory that is not allocated gives \<^const>\<open>None\<close>.
\<close>

section \<open>Objects and the table\<close>

definition NHASH :: nat where "NHASH = 29"

definition HASH :: "int \<Rightarrow> nat" where
  "HASH ident = unat (word_of_int ident :: 64 word) mod NHASH"

record foo =
  f_count :: int
  f_id :: int
  f_next :: nat

record foos =
  fh :: "nat \<Rightarrow> nat"
  objs :: "nat \<Rightarrow> foo option"

definition set_foo :: "nat \<Rightarrow> foo \<Rightarrow> foos \<Rightarrow> foos" where
  "set_foo p f s = s\<lparr>objs := (objs s)(p \<mapsto> f)\<rparr>"

definition nxt :: "foos \<Rightarrow> nat \<Rightarrow> nat" where
  "nxt s p = (case objs s p of None \<Rightarrow> 0 | Some f \<Rightarrow> f_next f)"

section \<open>The operations of mutex2.c\<close>

text \<open>
  \<open>fp\<close> is what \<^verbatim>\<open>malloc\<close> returns, \<open>init\<close> whether the mutex could be initialised. The result is
  the pointer returned.
\<close>

definition foo_alloc :: "int \<Rightarrow> nat \<Rightarrow> bool \<Rightarrow> foos \<Rightarrow> nat \<times> foos" where
  "foo_alloc ident fp init s =
     (if fp = 0 then (0, s)
      else if \<not> init then (0, s)
      else let idx = HASH ident
           in (fp, (set_foo fp \<lparr>f_count = 1, f_id = ident, f_next = fh s idx\<rparr> s)\<lparr>fh := (fh s)(idx := fp)\<rparr>))"

definition foo_hold :: "nat \<Rightarrow> foos \<Rightarrow> foos option" where
  "foo_hold fp s = map_option (\<lambda>f. set_foo fp (f\<lparr>f_count := f_count f + 1\<rparr>) s) (objs s fp)"

partial_function (option) foo_scan :: "int \<Rightarrow> foos \<Rightarrow> nat \<Rightarrow> nat option" where
  "foo_scan ident s fp =
     (if fp = 0 then Some 0
      else case objs s fp of
        None \<Rightarrow> None
      | Some f \<Rightarrow> if f_id f = ident then Some fp else foo_scan ident s (f_next f))"

definition foo_find :: "int \<Rightarrow> foos \<Rightarrow> (nat \<times> foos) option" where
  "foo_find ident s =
     (case foo_scan ident s (fh s (HASH ident)) of
        None \<Rightarrow> None
      | Some fp \<Rightarrow> if fp = 0 then Some (0, s) else map_option (Pair fp) (foo_hold fp s))"

text \<open>The loop that looks for the object whose successor is \<open>fp\<close>, and the removal.\<close>

partial_function (option) foo_pred :: "foos \<Rightarrow> nat \<Rightarrow> nat \<Rightarrow> nat option" where
  "foo_pred s fp tfp =
     (case objs s tfp of
        None \<Rightarrow> None
      | Some t \<Rightarrow> if f_next t = fp then Some tfp else foo_pred s fp (f_next t))"

definition foo_unlink :: "nat \<Rightarrow> foo \<Rightarrow> foos \<Rightarrow> foos option" where
  "foo_unlink fp f s =
     (let idx = HASH (f_id f); tfp = fh s idx
      in if tfp = fp then Some (s\<lparr>fh := (fh s)(idx := f_next f)\<rparr>)
         else case foo_pred s fp tfp of
           None \<Rightarrow> None
         | Some p \<Rightarrow> map_option (\<lambda>t. set_foo p (t\<lparr>f_next := f_next f\<rparr>) s) (objs s p))"

definition foo_free :: "nat \<Rightarrow> foos \<Rightarrow> foos" where
  "foo_free fp s = s\<lparr>objs := (objs s)(fp := None)\<rparr>"

text \<open>
  \<^verbatim>\<open>foo_rele\<close> has two critical sections. The first gives up the reference unless it is the
  last one; its result is whether the call goes on to the second, which has both mutexes
  and looks at the count again.
\<close>

definition foo_rele_1 :: "nat \<Rightarrow> foos \<Rightarrow> (bool \<times> foos) option" where
  "foo_rele_1 fp s =
     map_option (\<lambda>f. if f_count f = 1 then (True, s) else (False, set_foo fp (f\<lparr>f_count := f_count f - 1\<rparr>) s)) (objs s fp)"

definition foo_rele_2 :: "nat \<Rightarrow> foos \<Rightarrow> foos option" where
  "foo_rele_2 fp s =
     (case objs s fp of
        None \<Rightarrow> None
      | Some f \<Rightarrow>
          if f_count f \<noteq> 1 then Some (set_foo fp (f\<lparr>f_count := f_count f - 1\<rparr>) s)
          else map_option (foo_free fp) (foo_unlink fp f s))"

definition foo_rele :: "nat \<Rightarrow> foos \<Rightarrow> foos option" where
  "foo_rele fp s =
     (case foo_rele_1 fp s of
        None \<Rightarrow> None
      | Some (again, s1) \<Rightarrow> if again then foo_rele_2 fp s1 else Some s1)"

section \<open>The operations of mutex3.c\<close>

definition foo_alloc3 :: "int \<Rightarrow> nat \<Rightarrow> bool \<Rightarrow> foos \<Rightarrow> nat \<times> foos" where
  "foo_alloc3 ident fp init s =
     (if fp = 0 then (0, s)
      else if \<not> init then (0, s)
      else let idx = HASH ident
           in (fp, (set_foo fp \<lparr>f_count = 1, f_id = ident, f_next = fh s idx\<rparr> s)\<lparr>fh := (fh s)(idx := fp)\<rparr>))"

definition foo_hold3 :: "nat \<Rightarrow> foos \<Rightarrow> foos option" where
  "foo_hold3 fp s = map_option (\<lambda>f. set_foo fp (f\<lparr>f_count := f_count f + 1\<rparr>) s) (objs s fp)"

definition foo_find3 :: "int \<Rightarrow> foos \<Rightarrow> (nat \<times> foos) option" where
  "foo_find3 ident s =
     (case foo_scan ident s (fh s (HASH ident)) of
        None \<Rightarrow> None
      | Some fp \<Rightarrow>
          if fp = 0 then Some (0, s)
          else map_option (\<lambda>f. (fp, set_foo fp (f\<lparr>f_count := f_count f + 1\<rparr>) s)) (objs s fp))"

definition foo_rele3 :: "nat \<Rightarrow> foos \<Rightarrow> foos option" where
  "foo_rele3 fp s =
     (case objs s fp of
        None \<Rightarrow> None
      | Some f \<Rightarrow>
          let f1 = f\<lparr>f_count := f_count f - 1\<rparr>; s1 = set_foo fp f1 s
          in if f_count f1 = 0 then map_option (foo_free fp) (foo_unlink fp f1 s1) else Some s1)"

declare foo_scan.simps [code] foo_pred.simps [code]

section \<open>Threads\<close>

text \<open>
  The objects with the references the threads hold: \<open>held\<close> are those of threads outside
  \<^verbatim>\<open>foo_rele\<close>, \<open>going\<close> those of threads between its two critical sections. A thread calls
  \<^verbatim>\<open>foo_hold\<close> and \<^verbatim>\<open>foo_rele\<close> only with a reference it holds. Memory that \<^verbatim>\<open>malloc\<close> returns is
  not allocated. \<^verbatim>\<open>foo_find\<close> takes the mutex of one object inside the section that has the
  mutex of the table, and is one step.
\<close>

record foo_sys =
  shared :: foos
  held :: "nat multiset"
  going :: "nat multiset"

inductive foo_step :: "foo_sys \<Rightarrow> foo_sys \<Rightarrow> bool" where
  step_alloc: "fp \<noteq> 0 \<Longrightarrow> objs (shared y) fp = None \<Longrightarrow> foo_alloc ident fp True (shared y) = (p, s') \<Longrightarrow>
     foo_step y (y\<lparr>shared := s', held := add_mset p (held y)\<rparr>)"
| step_find: "foo_find ident (shared y) = Some (p, s') \<Longrightarrow> p \<noteq> 0 \<Longrightarrow>
     foo_step y (y\<lparr>shared := s', held := add_mset p (held y)\<rparr>)"
| step_hold: "fp \<in># held y \<Longrightarrow> foo_hold fp (shared y) = Some s' \<Longrightarrow>
     foo_step y (y\<lparr>shared := s', held := add_mset fp (held y)\<rparr>)"
| step_rele: "fp \<in># held y \<Longrightarrow> foo_rele_1 fp (shared y) = Some (False, s') \<Longrightarrow>
     foo_step y (y\<lparr>shared := s', held := held y - {#fp#}\<rparr>)"
| step_last: "fp \<in># held y \<Longrightarrow> foo_rele_1 fp (shared y) = Some (True, s') \<Longrightarrow>
     foo_step y (y\<lparr>shared := s', held := held y - {#fp#}, going := add_mset fp (going y)\<rparr>)"
| step_free: "fp \<in># going y \<Longrightarrow> foo_rele_2 fp (shared y) = Some s' \<Longrightarrow>
     foo_step y (y\<lparr>shared := s', going := going y - {#fp#}\<rparr>)"

definition foo_init :: foo_sys where
  "foo_init = \<lparr>shared = \<lparr>fh = \<lambda>_. 0, objs = Map.empty\<rparr>, held = {#}, going = {#}\<rparr>"

inductive foo_reach :: "foo_sys \<Rightarrow> bool" where
  reach_start: "foo_reach foo_init"
| reach_next: "foo_reach y \<Longrightarrow> foo_step y y' \<Longrightarrow> foo_reach y'"

text \<open>A state in which some thread's next access would be to memory that is not allocated.\<close>

definition foo_faults :: "foo_sys \<Rightarrow> bool" where
  "foo_faults y \<longleftrightarrow>
     (\<exists>fp. fp \<in># held y \<and> (foo_hold fp (shared y) = None \<or> foo_rele_1 fp (shared y) = None)) \<or>
     (\<exists>fp. fp \<in># going y \<and> foo_rele_2 fp (shared y) = None) \<or> (\<exists>ident. foo_find ident (shared y) = None)"

end
