(* ===== verification/Foo_Props.thy ===== *)
theory Foo_Props
  imports Foo_Refs
begin

text \<open>
  The count of every object is the number of references to it, under every interleaving of
  the threads, and no thread reaches memory that was freed.
\<close>

section \<open>The structure of the table\<close>

definition foo_str :: "foos \<Rightarrow> (nat \<Rightarrow> nat list) \<Rightarrow> bool" where
  "foo_str s cs \<longleftrightarrow>
     (\<forall>i < NHASH. chain (nxt s) (fh s i) (cs i) \<and> (\<forall>p \<in> set (cs i). \<exists>f. objs s p = Some f \<and> HASH (f_id f) = i)) \<and>
     (\<forall>p f. objs s p = Some f \<longrightarrow> p \<in> set (cs (HASH (f_id f))))"

definition foo_cnt :: "foos \<Rightarrow> (nat \<Rightarrow> nat) \<Rightarrow> bool" where
  "foo_cnt s R \<longleftrightarrow> (\<forall>p f. objs s p = Some f \<longrightarrow> f_count f = int (R p) \<and> 0 < R p) \<and> (\<forall>p. objs s p = None \<longrightarrow> R p = 0)"

lemma HASH_less [simp]: "HASH ident < NHASH"
  by (simp add: HASH_def NHASH_def)

lemma foo_strD:
  assumes "foo_str s cs" "i < NHASH"
  shows "chain (nxt s) (fh s i) (cs i)" "p \<in> set (cs i) \<Longrightarrow> \<exists>f. objs s p = Some f \<and> HASH (f_id f) = i"
  using assms by (auto simp: foo_str_def)

lemma foo_str_mem: "foo_str s cs \<Longrightarrow> objs s p = Some f \<Longrightarrow> p \<in> set (cs (HASH (f_id f)))"
  by (simp add: foo_str_def)

lemma foo_str_nonnull: "foo_str s cs \<Longrightarrow> objs s p = Some f \<Longrightarrow> p \<noteq> 0"
  using foo_str_mem [of s cs p f] chain_nonnull [OF foo_strD(1) [of s cs "HASH (f_id f)"]] by (cases "p = 0") auto

lemma objs_set_foo [simp]: "objs (set_foo p f s) q = (if q = p then Some f else objs s q)" "fh (set_foo p f s) = fh s"
  by (simp_all add: set_foo_def)

lemma nxt_set_foo: "nxt (set_foo p f s) = (nxt s)(p := f_next f)"
  by (auto simp: nxt_def fun_eq_iff)

lemma nxt_upd_fh [simp]: "nxt (s\<lparr>fh := h\<rparr>) = nxt s"
  by (auto simp: nxt_def fun_eq_iff)

lemma nxt_Some: "objs s p = Some f \<Longrightarrow> nxt s p = f_next f"
  by (simp add: nxt_def)

text \<open>A change of the count leaves the structure.\<close>

lemma foo_str_count:
  assumes "foo_str s cs" "objs s p = Some f"
  shows "foo_str (set_foo p (f\<lparr>f_count := c\<rparr>) s) cs"
proof -
  have "nxt (set_foo p (f\<lparr>f_count := c\<rparr>) s) = nxt s"
    using assms(2) by (auto simp: nxt_set_foo nxt_Some fun_eq_iff)
  moreover have "\<exists>g. objs (set_foo p (f\<lparr>f_count := c\<rparr>) s) q = Some g \<and> HASH (f_id g) = i" if "i < NHASH" "q \<in> set (cs i)" for i q
    using foo_strD(2) [OF assms(1) that] assms(2) by auto
  moreover have "q \<in> set (cs (HASH (f_id g)))" if "objs (set_foo p (f\<lparr>f_count := c\<rparr>) s) q = Some g" for q g
    using that foo_str_mem [OF assms(1), of q] assms(2) by (auto split: if_splits)
  ultimately show ?thesis using foo_strD(1) [OF assms(1)] unfolding foo_str_def by auto
qed

lemma foo_cnt_count:
  assumes "foo_cnt s R" "objs s p = Some f" "0 < n"
  shows "foo_cnt (set_foo p (f\<lparr>f_count := int n\<rparr>) s) (R(p := n))"
  using assms by (auto simp: foo_cnt_def)

lemma foo_cntD: "foo_cnt s R \<Longrightarrow> objs s p = Some f \<Longrightarrow> f_count f = int (R p) \<and> 0 < R p"
  "foo_cnt s R \<Longrightarrow> 0 < R p \<Longrightarrow> \<exists>f. objs s p = Some f"
  by (auto simp: foo_cnt_def)

section \<open>Allocating and finding\<close>

lemma foo_alloc_ok:
  assumes "foo_str s cs" "foo_cnt s R" "objs s fp = None" "fp \<noteq> 0" "foo_alloc ident fp True s = (p, s')"
  shows "p = fp" "foo_str s' (cs(HASH ident := fp # cs (HASH ident)))" "foo_cnt s' (R(fp := 1))"
proof -
  let ?h = "HASH ident" and ?f = "\<lparr>f_count = 1, f_id = ident, f_next = fh s (HASH ident)\<rparr>"
  have s': "p = fp" "s' = (set_foo fp ?f s)\<lparr>fh := (fh s)(?h := fp)\<rparr>"
    using assms(4,5) by (auto simp: foo_alloc_def Let_def)
  then show "p = fp" "foo_cnt s' (R(fp := 1))" using assms(2) by (auto simp: foo_cnt_def)
  have n: "nxt s' = (nxt s)(fp := fh s ?h)" using s'(2) by (simp add: nxt_set_foo)
  have new: "fp \<notin> set (cs i)" if "i < NHASH" for i using foo_strD(2) [OF assms(1) that, of fp] assms(3) by auto
  have "chain (nxt s') (fh s' i) ((cs(?h := fp # cs ?h)) i)" if "i < NHASH" for i
    using foo_strD(1) [OF assms(1) that] new [OF that] assms(4) s'(2) n by auto
  moreover have "\<exists>f. objs s' p = Some f \<and> HASH (f_id f) = i" if "i < NHASH" "p \<in> set ((cs(?h := fp # cs ?h)) i)" for i p
    using that foo_strD(2) [OF assms(1) that(1), of p] s'(2) assms(3) by (auto split: if_splits)
  moreover have "p \<in> set ((cs(?h := fp # cs ?h)) (HASH (f_id f)))" if "objs s' p = Some f" for p f
    using that foo_str_mem [OF assms(1), of p f] s'(2) by (auto split: if_splits)
  ultimately show "foo_str s' (cs(?h := fp # cs ?h))" unfolding foo_str_def by blast
qed

lemma foo_scan_chain:
  "chain (nxt s) p xs \<Longrightarrow> \<forall>q \<in> set xs. \<exists>f. objs s q = Some f \<Longrightarrow>
   \<exists>q. foo_scan ident s p = Some q \<and> (q \<noteq> 0 \<longrightarrow> (\<exists>f. objs s q = Some f \<and> f_id f = ident)) \<and>
     (q = 0 \<longrightarrow> (\<forall>r \<in> set xs. \<forall>f. objs s r = Some f \<longrightarrow> f_id f \<noteq> ident))"
proof (induction xs arbitrary: p)
  case Nil
  then show ?case by (subst foo_scan.simps) simp
next
  case (Cons x xs)
  then obtain f where f: "objs s x = Some f" by auto
  have p: "p = x" "x \<noteq> 0" "chain (nxt s) (f_next f) xs" using Cons.prems(1) f by (auto simp: nxt_Some)
  show ?case
  proof (cases "f_id f = ident")
    case True
    then show ?thesis using f p by (subst foo_scan.simps) auto
  next
    case False
    with Cons.IH [OF p(3)] Cons.prems(2) f p show ?thesis by (subst foo_scan.simps) auto
  qed
qed

lemma foo_find_ok:
  assumes "foo_str s cs" "foo_cnt s R"
  shows "\<exists>p s'. foo_find ident s = Some (p, s') \<and> (p = 0 \<longrightarrow> s' = s \<and> (\<forall>q f. objs s q = Some f \<longrightarrow> f_id f \<noteq> ident)) \<and>
    (p \<noteq> 0 \<longrightarrow> foo_str s' cs \<and> foo_cnt s' (R(p := R p + 1)) \<and> (\<exists>f. objs s p = Some f \<and> f_id f = ident))"
proof -
  let ?h = "HASH ident"
  have a: "\<forall>q \<in> set (cs ?h). \<exists>f. objs s q = Some f" using foo_strD(2) [OF assms(1), of ?h] by auto
  obtain q where q: "foo_scan ident s (fh s ?h) = Some q" "q \<noteq> 0 \<longrightarrow> (\<exists>f. objs s q = Some f \<and> f_id f = ident)"
    "q = 0 \<longrightarrow> (\<forall>r \<in> set (cs ?h). \<forall>f. objs s r = Some f \<longrightarrow> f_id f \<noteq> ident)"
    using foo_scan_chain [OF foo_strD(1) [OF assms(1) HASH_less] a, of ident] by blast
  show ?thesis
  proof (cases "q = 0")
    case True
    then show ?thesis using q foo_str_mem [OF assms(1)] by (auto simp: foo_find_def)
  next
    case False
    then obtain f where f: "objs s q = Some f" "f_id f = ident" using q(2) by blast
    let ?s = "set_foo q (f\<lparr>f_count := int (R q + 1)\<rparr>) s"
    have "foo_find ident s = Some (q, ?s)"
      using q(1) False f foo_cntD(1) [OF assms(2) f(1)] by (simp add: foo_find_def foo_hold_def add.commute)
    then show ?thesis using False f foo_str_count [OF assms(1) f(1)] foo_cnt_count [OF assms(2) f(1), of "R q + 1"] by auto
  qed
qed

section \<open>Removing the last reference\<close>

lemma foo_pred_chain:
  "chain (nxt s) p (A @ a # fp # B) \<Longrightarrow> \<forall>q \<in> set (A @ [a]). \<exists>f. objs s q = Some f \<Longrightarrow> foo_pred s fp p = Some a"
proof (induction A arbitrary: p)
  case Nil
  then obtain f where "objs s a = Some f" by auto
  then show ?case using Nil by (subst foo_pred.simps) (simp add: nxt_Some)
next
  case (Cons x A)
  then obtain f where f: "objs s x = Some f" by auto
  have p: "p = x" "chain (nxt s) (f_next f) (A @ a # fp # B)" using Cons.prems(1) f by (auto simp: nxt_Some)
  have "fp \<noteq> f_next f"
  proof
    assume "fp = f_next f"
    then have "hd0 (A @ a # fp # B) = fp" using chain_hd0 [OF p(2)] by simp
    then have "fp \<in> set (A @ [a])" by (cases A) auto
    then show False using chain_distinct [OF p(2)] by auto
  qed
  then show ?case using f p Cons.IH [OF p(2)] Cons.prems(2) by (subst foo_pred.simps) auto
qed

lemma nxt_foo_free: "nxt (foo_free fp s) = (nxt s)(fp := 0)"
  by (auto simp: nxt_def foo_free_def fun_eq_iff)

text \<open>The table after the removal: the chain without the object, and every other object as it was.\<close>

lemma foo_unlink_ok:
  assumes str: "foo_str s cs" and f: "objs s fp = Some f" and cs: "cs (HASH (f_id f)) = A @ fp # B"
  shows "\<exists>s'. foo_unlink fp f s = Some s' \<and> foo_str (foo_free fp s') (cs(HASH (f_id f) := A @ B)) \<and>
    (\<forall>q. q \<noteq> fp \<longrightarrow> map_option (\<lambda>g. (f_count g, f_id g)) (objs s' q) = map_option (\<lambda>g. (f_count g, f_id g)) (objs s q))"
proof -
  let ?h = "HASH (f_id f)" let ?cs = "cs(?h := A @ B)"
  have c: "chain (nxt s) (fh s ?h) (A @ fp # B)" using foo_strD(1) [OF str, of ?h] cs by simp
  note d = chain_distinct [OF c]
  obtain s' where u: "foo_unlink fp f s = Some s'"
    and n: "chain (nxt s') (fh s' ?h) (A @ B)" "\<And>i. i < NHASH \<Longrightarrow> i \<noteq> ?h \<Longrightarrow> chain (nxt s') (fh s' i) (cs i)"
    and o: "\<And>q. q \<noteq> fp \<Longrightarrow> map_option (\<lambda>g. (f_count g, f_id g)) (objs s' q) = map_option (\<lambda>g. (f_count g, f_id g)) (objs s q)"
  proof (cases A rule: rev_cases)
    case Nil
    let ?s = "s\<lparr>fh := (fh s)(?h := f_next f)\<rparr>"
    have h: "fh s ?h = fp" using c Nil by simp
    show thesis
    proof (rule that [of ?s])
      show "foo_unlink fp f s = Some ?s" using h by (simp add: foo_unlink_def Let_def)
      show "chain (nxt ?s) (fh ?s ?h) (A @ B)" using c Nil f by (simp add: nxt_Some)
      show "chain (nxt ?s) (fh ?s i) (cs i)" if "i < NHASH" "i \<noteq> ?h" for i using foo_strD(1) [OF str that(1)] that(2) by simp
    qed simp
  next
    case (snoc A' a)
    have "a \<in> set (cs ?h)" using cs snoc by simp
    then obtain g where g: "objs s a = Some g" using foo_strD(2) [OF str, of ?h a] by auto
    let ?s = "set_foo a (g\<lparr>f_next := f_next f\<rparr>) s"
    have ne: "fh s ?h \<noteq> fp"
    proof
      assume "fh s ?h = fp"
      then have "hd0 (A @ fp # B) = fp" using chain_hd0 [OF c] by simp
      then show False using d snoc by (cases A') auto
    qed
    have "foo_pred s fp (fh s ?h) = Some a"
      using foo_pred_chain [of s "fh s ?h" A' a fp B] c snoc foo_strD(2) [OF str, of ?h] cs by auto
    then have u: "foo_unlink fp f s = Some ?s" using ne g by (simp add: foo_unlink_def Let_def)
    have nx: "nxt ?s = (nxt s)(a := nxt s fp)" using f by (simp add: nxt_set_foo nxt_Some)
    show thesis
    proof (rule that [of ?s, OF u])
      show "chain (nxt ?s) (fh ?s ?h) (A @ B)" using chain_remove_after [of "nxt s" "fh s ?h" A' a fp B] c snoc nx by simp
      show "chain (nxt ?s) (fh ?s i) (cs i)" if "i < NHASH" "i \<noteq> ?h" for i
      proof -
        have "a \<notin> set (cs i)" using foo_strD(2) [OF str that(1), of a] foo_strD(2) [OF str, of ?h a] that(2) \<open>a \<in> set (cs ?h)\<close> by auto
        then show ?thesis using foo_strD(1) [OF str that(1)] nx by simp
      qed
    qed (use g in auto)
  qed
  have fpn: "fp \<notin> set (?cs i)" if "i < NHASH" for i
    using foo_strD(2) [OF str that, of fp] f d by (cases "i = ?h") auto
  have sub: "set (?cs i) \<subseteq> set (cs i)" for i using cs by (cases "i = ?h") auto
  have fh: "fh (foo_free fp s') = fh s'" "\<And>q. objs (foo_free fp s') q = (if q = fp then None else objs s' q)" by (simp_all add: foo_free_def)
  have "chain (nxt (foo_free fp s')) (fh (foo_free fp s') i) (?cs i)" if "i < NHASH" for i
    using n that fpn [OF that] by (cases "i = ?h") (simp_all add: nxt_foo_free fh)
  moreover have "\<exists>g. objs (foo_free fp s') q = Some g \<and> HASH (f_id g) = i" if i: "i < NHASH" "q \<in> set (?cs i)" for i q
  proof -
    have q: "q \<noteq> fp" "q \<in> set (cs i)" using i fpn sub by blast+
    then obtain g where "objs s q = Some g" "HASH (f_id g) = i" using foo_strD(2) [OF str i(1)] by blast
    then show ?thesis using o [OF q(1)] q(1) fh(2) by auto
  qed
  moreover have "q \<in> set (?cs (HASH (f_id g)))" if "objs (foo_free fp s') q = Some g" for q g
  proof -
    have q: "q \<noteq> fp" "objs s' q = Some g" using that fh(2) by (auto split: if_splits)
    then obtain g' where "objs s q = Some g'" "f_id g' = f_id g" using o [OF q(1)] by (cases "objs s q") auto
    then have "q \<in> set (cs (HASH (f_id g)))" using foo_str_mem [OF str] by metis
    then show ?thesis using q(1) cs by (cases "HASH (f_id g) = ?h") auto
  qed
  ultimately have "foo_str (foo_free fp s') ?cs" unfolding foo_str_def by blast
  then show ?thesis using u o by blast
qed

lemma foo_last_ok:
  assumes str: "foo_str s cs" and cnt: "foo_cnt s R" and f: "objs s fp = Some f" and r: "R fp = 1"
  shows "\<exists>s' cs'. map_option (foo_free fp) (foo_unlink fp f s) = Some s' \<and> foo_str s' cs' \<and> foo_cnt s' (R(fp := 0))"
proof -
  obtain A B where cs: "cs (HASH (f_id f)) = A @ fp # B" using foo_str_mem [OF str f] by (meson split_list)
  obtain s' where s': "foo_unlink fp f s = Some s'" "foo_str (foo_free fp s') (cs(HASH (f_id f) := A @ B))"
    "\<And>q. q \<noteq> fp \<Longrightarrow> map_option (\<lambda>g. (f_count g, f_id g)) (objs s' q) = map_option (\<lambda>g. (f_count g, f_id g)) (objs s q)"
    using foo_unlink_ok [OF str f cs] by blast
  have "foo_cnt (foo_free fp s') (R(fp := 0))"
  proof -
    have "f_count g = int (R q) \<and> 0 < R q" if "objs s' q = Some g" "q \<noteq> fp" for q g
      using s'(3) [OF that(2)] that(1) foo_cntD(1) [OF cnt, of q] by (cases "objs s q") auto
    moreover have "R q = 0" if "objs s' q = None" "q \<noteq> fp" for q
      using s'(3) [OF that(2)] that(1) cnt by (cases "objs s q") (auto simp: foo_cnt_def)
    ultimately show ?thesis by (auto simp: foo_cnt_def foo_free_def)
  qed
  then show ?thesis using s'(1,2) by auto
qed

lemma foo_dec_ok:
  assumes "foo_str s cs" "foo_cnt s R" "objs s fp = Some f" "R fp \<noteq> 1"
  shows "foo_str (set_foo fp (f\<lparr>f_count := f_count f - 1\<rparr>) s) cs" "foo_cnt (set_foo fp (f\<lparr>f_count := f_count f - 1\<rparr>) s) (R(fp := R fp - 1))"
proof -
  have "f_count f = int (R fp)" "1 < R fp" using foo_cntD(1) [OF assms(2,3)] assms(4) by auto
  then show "foo_str (set_foo fp (f\<lparr>f_count := f_count f - 1\<rparr>) s) cs" "foo_cnt (set_foo fp (f\<lparr>f_count := f_count f - 1\<rparr>) s) (R(fp := R fp - 1))"
    using foo_str_count [OF assms(1,3)] foo_cnt_count [OF assms(2,3), of "R fp - 1"] by (simp_all add: of_nat_diff)
qed

lemma foo_hold_ok:
  assumes "foo_str s cs" "foo_cnt s R" "0 < R fp"
  shows "\<exists>s'. foo_hold fp s = Some s' \<and> foo_str s' cs \<and> foo_cnt s' (R(fp := R fp + 1))"
proof -
  obtain f where f: "objs s fp = Some f" using foo_cntD(2) [OF assms(2,3)] by blast
  then show ?thesis
    using foo_str_count [OF assms(1) f, of "f_count f + 1"] foo_cnt_count [OF assms(2) f, of "R fp + 1"] foo_cntD(1) [OF assms(2) f]
    by (auto simp: foo_hold_def add.commute)
qed

lemma foo_rele_1_ok:
  assumes "foo_str s cs" "foo_cnt s R" "0 < R fp"
  shows "\<exists>b s'. foo_rele_1 fp s = Some (b, s') \<and> foo_str s' cs \<and> foo_cnt s' (if b then R else R(fp := R fp - 1))"
proof -
  obtain f where f: "objs s fp = Some f" using foo_cntD(2) [OF assms(2,3)] by blast
  have c: "f_count f = 1 \<longleftrightarrow> R fp = 1" using foo_cntD(1) [OF assms(2) f] by auto
  show ?thesis
  proof (cases "R fp = 1")
    case True
    then show ?thesis using f c assms by (auto simp: foo_rele_1_def)
  next
    case False
    then show ?thesis using f c foo_dec_ok [OF assms(1,2) f False] by (auto simp: foo_rele_1_def)
  qed
qed

lemma foo_rele_2_ok:
  assumes "foo_str s cs" "foo_cnt s R" "0 < R fp"
  shows "\<exists>s' cs'. foo_rele_2 fp s = Some s' \<and> foo_str s' cs' \<and> foo_cnt s' (R(fp := R fp - 1))"
proof -
  obtain f where f: "objs s fp = Some f" using foo_cntD(2) [OF assms(2,3)] by blast
  have c: "f_count f = 1 \<longleftrightarrow> R fp = 1" using foo_cntD(1) [OF assms(2) f] by auto
  show ?thesis
  proof (cases "R fp = 1")
    case True
    then show ?thesis using f c foo_last_ok [OF assms(1,2) f True] by (simp add: foo_rele_2_def)
  next
    case False
    then show ?thesis using f c foo_dec_ok [OF assms(1,2) f False] by (auto simp: foo_rele_2_def)
  qed
qed

section \<open>All interleavings\<close>

definition refs :: "foo_sys \<Rightarrow> nat \<Rightarrow> nat" where
  "refs y fp = count (held y) fp + count (going y) fp"

definition foo_inv :: "foo_sys \<Rightarrow> bool" where
  "foo_inv y \<longleftrightarrow> (\<exists>cs. foo_str (shared y) cs) \<and> foo_cnt (shared y) (refs y)"

lemma foo_invI: "foo_str (shared y) cs \<Longrightarrow> foo_cnt (shared y) R \<Longrightarrow> R = refs y \<Longrightarrow> foo_inv y"
  by (auto simp: foo_inv_def)

lemma foo_step_inv:
  assumes "foo_step y y'" "foo_inv y"
  shows "foo_inv y'"
proof -
  obtain cs where str: "foo_str (shared y) cs" and cnt: "foo_cnt (shared y) (refs y)" using assms(2) by (auto simp: foo_inv_def)
  have pos: "0 < refs y fp" if "fp \<in># held y \<or> fp \<in># going y" for fp using that by (auto simp: refs_def)
  from assms(1) show ?thesis
  proof cases
    case (step_alloc fp ident p s')
    note a = foo_alloc_ok [OF str cnt step_alloc(3,2,4)]
    have "refs y fp = 0" using cnt step_alloc(3) by (simp add: foo_cnt_def)
    then show ?thesis using a step_alloc(1) by (intro foo_invI [where R = "(refs y)(fp := 1)" and cs = "cs(HASH ident := fp # cs (HASH ident))"]) (auto simp: fun_eq_iff refs_def)
  next
    case (step_find ident p s')
    obtain s'' where "foo_find ident (shared y) = Some (p, s'')" "foo_str s'' cs" "foo_cnt s'' ((refs y)(p := refs y p + 1))"
      using foo_find_ok [OF str cnt, of ident] step_find(2,3) by auto
    then show ?thesis using step_find(1,2) by (intro foo_invI [where R = "(refs y)(p := refs y p + 1)" and cs = cs]) (auto simp: fun_eq_iff refs_def)
  next
    case (step_hold fp s')
    obtain s'' where "foo_hold fp (shared y) = Some s''" "foo_str s'' cs" "foo_cnt s'' ((refs y)(fp := refs y fp + 1))"
      using foo_hold_ok [OF str cnt pos, of fp] step_hold(2) by auto
    then show ?thesis using step_hold by (intro foo_invI [where R = "(refs y)(fp := refs y fp + 1)" and cs = cs]) (auto simp: fun_eq_iff refs_def)
  next
    case (step_rele fp s')
    then have "foo_str s' cs" "foo_cnt s' ((refs y)(fp := refs y fp - 1))"
      using foo_rele_1_ok [OF str cnt pos, of fp] by auto
    then show ?thesis using step_rele(1,2) by (intro foo_invI [where R = "(refs y)(fp := refs y fp - 1)" and cs = cs]) (auto simp: fun_eq_iff refs_def)
  next
    case (step_last fp s')
    then have "foo_str s' cs" "foo_cnt s' (refs y)" using foo_rele_1_ok [OF str cnt pos, of fp] by auto
    then show ?thesis using step_last(1,2) by (intro foo_invI [where R = "refs y" and cs = cs]) (auto simp: fun_eq_iff refs_def)
  next
    case (step_free fp s')
    obtain cs' where "foo_str s' cs'" "foo_cnt s' ((refs y)(fp := refs y fp - 1))"
      using foo_rele_2_ok [OF str cnt pos, of fp] step_free(2,3) by auto
    then show ?thesis using step_free(1,2) by (intro foo_invI [where R = "(refs y)(fp := refs y fp - 1)" and cs = cs']) (auto simp: fun_eq_iff refs_def)
  qed
qed

lemma foo_reach_inv: "foo_reach y \<Longrightarrow> foo_inv y"
proof (induction rule: foo_reach.induct)
  case reach_start
  have "foo_str (shared foo_init) (\<lambda>_. [])" by (simp add: foo_str_def foo_init_def)
  then show ?case by (auto simp: foo_inv_def foo_cnt_def foo_init_def refs_def)
qed (rule foo_step_inv)

section \<open>The two versions\<close>

lemma foo_rele_eq:
  assumes str: "foo_str s cs" and f: "objs s fp = Some f" and c: "0 < f_count f"
  shows "foo_rele3 fp s = foo_rele fp s"
proof (cases "f_count f = 1")
  case False
  then show ?thesis using f c by (simp add: foo_rele_def foo_rele_1_def foo_rele3_def Let_def)
next
  case True
  let ?f = "f\<lparr>f_count := 0\<rparr>" let ?s = "set_foo fp ?f s" and ?h = "HASH (f_id f)"
  obtain A B where cs: "cs ?h = A @ fp # B" using foo_str_mem [OF str f] by (meson split_list)
  have c: "chain (nxt s) (fh s ?h) (A @ fp # B)" using foo_strD(1) [OF str, of ?h] cs by simp
  have str1: "foo_str ?s cs" by (rule foo_str_count [OF str f])
  have "map_option (foo_free fp) (foo_unlink fp ?f ?s) = map_option (foo_free fp) (foo_unlink fp f s)"
  proof (cases A rule: rev_cases)
    case Nil
    then have "fh s ?h = fp" using c by simp
    then show ?thesis by (simp add: foo_unlink_def foo_free_def set_foo_def Let_def)
  next
    case (snoc A' a)
    have ne: "fh s ?h \<noteq> fp"
    proof
      assume "fh s ?h = fp"
      then have "hd0 (A @ fp # B) = fp" using chain_hd0 [OF c] by simp
      then show False using chain_distinct [OF c] snoc by (cases A') auto
    qed
    have a: "a \<noteq> fp" using chain_distinct [OF c] snoc by auto
    have pred: "foo_pred s fp (fh s ?h) = Some a"
      using foo_pred_chain [of s "fh s ?h" A' a fp B] c snoc foo_strD(2) [OF str, of ?h] cs by auto
    have "chain (nxt ?s) (fh ?s ?h) (A @ fp # B)" using foo_strD(1) [OF str1, of ?h] cs by simp
    then have pred1: "foo_pred ?s fp (fh s ?h) = Some a"
      using foo_pred_chain [of ?s "fh s ?h" A' a fp B] snoc foo_strD(2) [OF str1, of ?h] cs by auto
    show ?thesis using ne pred pred1 a
      by (cases "objs s a") (simp_all add: foo_unlink_def foo_free_def set_foo_def Let_def fun_upd_twist [of fp a])
  qed
  then show ?thesis using f True by (simp add: foo_rele_def foo_rele_1_def foo_rele_2_def foo_rele3_def Let_def)
qed

section \<open>Properties\<close>

text \<open>
  C6. Under every interleaving of threads that allocate, find, hold and release objects with
  the functions of \<^verbatim>\<open>mutex2.c\<close>, the count of an object is the number of references to it, an
  object is allocated exactly as long as there is one, and no call of a thread that holds a
  reference reaches memory that was freed, the second look at the count in \<^verbatim>\<open>foo_rele\<close>
  included.
\<close>

theorem foo_refs_exact:
  assumes "foo_reach y"
  shows "\<not> foo_faults y \<and> (\<forall>p. (objs (shared y) p \<noteq> None \<longleftrightarrow> p \<in># held y + going y) \<and>
    (\<forall>f. objs (shared y) p = Some f \<longrightarrow> f_count f = int (count (held y + going y) p)))"
proof -
  obtain cs where str: "foo_str (shared y) cs" and cnt: "foo_cnt (shared y) (refs y)"
    using foo_reach_inv [OF assms] by (auto simp: foo_inv_def)
  have pos: "0 < refs y p \<longleftrightarrow> p \<in># held y + going y" for p by (auto simp: refs_def)
  have "\<not> foo_faults y"
  proof -
    have "foo_hold p (shared y) \<noteq> None" "foo_rele_1 p (shared y) \<noteq> None" "foo_rele_2 p (shared y) \<noteq> None"
      if "p \<in># held y + going y" for p
      using foo_hold_ok [OF str cnt, of p] foo_rele_1_ok [OF str cnt, of p] foo_rele_2_ok [OF str cnt, of p] that pos by auto
    moreover have "foo_find ident (shared y) \<noteq> None" for ident using foo_find_ok [OF str cnt, of ident] by auto
    ultimately show ?thesis by (auto simp: foo_faults_def)
  qed
  moreover have "objs (shared y) p \<noteq> None \<longleftrightarrow> p \<in># held y + going y" for p
    using foo_cntD [OF cnt, of p] pos [of p] by auto
  moreover have "f_count f = int (count (held y + going y) p)" if "objs (shared y) p = Some f" for p f
    using foo_cntD(1) [OF cnt that] by (simp add: refs_def)
  ultimately show ?thesis by blast
qed

lemma foo_example_reach:
  "foo_reach \<lparr>shared = snd (foo_alloc 5 7 True (shared foo_init)), held = {#7#}, going = {#}\<rparr>"
proof -
  have "foo_alloc 5 7 True (shared foo_init) = (7, snd (foo_alloc 5 7 True (shared foo_init)))" by (simp add: foo_alloc_def Let_def)
  from reach_next [OF reach_start step_alloc [OF _ _ this]] show ?thesis by (simp add: foo_init_def)
qed

theorem foo_refs_exact_witness:
  "foo_rele_1 7 (snd (foo_alloc 5 7 True (shared foo_init))) \<noteq> None"
proof -
  let ?y = "\<lparr>shared = snd (foo_alloc 5 7 True (shared foo_init)), held = {#7#}, going = {#}\<rparr>"
  have "\<not> foo_faults ?y" using foo_refs_exact [OF foo_example_reach] by blast
  then have "7 \<in># held ?y \<longrightarrow> foo_rele_1 7 (shared ?y) \<noteq> None" unfolding foo_faults_def by blast
  then show ?thesis by simp
qed

text \<open>
  The versions of \<^verbatim>\<open>mutex2.c\<close> and \<^verbatim>\<open>mutex3.c\<close> do the same: in every state the threads reach,
  each of the four functions, run without interruption, gives the same result and leaves the
  same objects in both.
\<close>

theorem foo_versions_agree:
  assumes "foo_reach y" "fp \<in># held y"
  shows "foo_rele fp (shared y) = foo_rele3 fp (shared y) \<and> foo_hold fp (shared y) = foo_hold3 fp (shared y) \<and>
    foo_find ident (shared y) = foo_find3 ident (shared y) \<and> foo_alloc ident a init (shared y) = foo_alloc3 ident a init (shared y)"
proof -
  obtain cs where str: "foo_str (shared y) cs" and cnt: "foo_cnt (shared y) (refs y)"
    using foo_reach_inv [OF assms(1)] by (auto simp: foo_inv_def)
  have "0 < refs y fp" using assms(2) by (simp add: refs_def)
  then obtain f where f: "objs (shared y) fp = Some f" "0 < f_count f" using foo_cntD(2) [OF cnt, of fp] foo_cntD(1) [OF cnt, of fp] by auto
  have "foo_find ident (shared y) = foo_find3 ident (shared y)"
    by (simp add: foo_find_def foo_find3_def foo_hold_def option.map_comp comp_def split: option.split)
  then show ?thesis using foo_rele_eq [OF str f]
    by (simp add: foo_hold_def foo_hold3_def foo_alloc_def foo_alloc3_def)
qed

theorem foo_versions_agree_witness:
  "foo_rele 7 (snd (foo_alloc 5 7 True (shared foo_init))) = foo_rele3 7 (snd (foo_alloc 5 7 True (shared foo_init)))"
  using foo_versions_agree [OF foo_example_reach, of 7] by simp

end
