(* ===== verification/Job_Queue.thy ===== *)
theory Job_Queue
  imports Refine
begin

text \<open>
  The job queue of \<^verbatim>\<open>apue.3e/threads/rwlock.c\<close>: a doubly linked list of jobs under a
  reader-writer lock. The jobs are in a heap from addresses to structures, 0 is the null
  pointer, and an access to an address that holds no job is \<open>None\<close>. Each function runs under
  the lock from its first to its last access, so that calls of several threads are a sequence
  of calls; the function that looks for a job is told whether it gets the lock.
\<close>

section \<open>The functions\<close>

record job =
  j_next :: nat
  j_prev :: nat
  j_id :: nat

record queue =
  q_head :: nat
  q_tail :: nat

type_synonym jobs = "nat \<rightharpoonup> job"

definition queue_init :: "int \<Rightarrow> int \<times> queue" where
  "queue_init err = (err, \<lparr>q_head = 0, q_tail = 0\<rparr>)"

definition set_next :: "nat \<Rightarrow> nat \<Rightarrow> jobs \<Rightarrow> jobs option" where
  "set_next p v h = map_option (\<lambda>j. h(p \<mapsto> j\<lparr>j_next := v\<rparr>)) (h p)"

definition set_prev :: "nat \<Rightarrow> nat \<Rightarrow> jobs \<Rightarrow> jobs option" where
  "set_prev p v h = map_option (\<lambda>j. h(p \<mapsto> j\<lparr>j_prev := v\<rparr>)) (h p)"

definition job_insert :: "nat \<Rightarrow> queue \<times> jobs \<Rightarrow> (queue \<times> jobs) option" where
  "job_insert jp qh =
     (case qh of (qp, h) \<Rightarrow>
        Option.bind (set_next jp (q_head qp) h) (\<lambda>h.
        Option.bind (set_prev jp 0 h) (\<lambda>h.
        if q_head qp \<noteq> 0
        then Option.bind (set_prev (q_head qp) jp h) (\<lambda>h. Some (qp\<lparr>q_head := jp\<rparr>, h))
        else Some (qp\<lparr>q_tail := jp, q_head := jp\<rparr>, h))))"

definition job_append :: "nat \<Rightarrow> queue \<times> jobs \<Rightarrow> (queue \<times> jobs) option" where
  "job_append jp qh =
     (case qh of (qp, h) \<Rightarrow>
        Option.bind (set_next jp 0 h) (\<lambda>h.
        Option.bind (set_prev jp (q_tail qp) h) (\<lambda>h.
        if q_tail qp \<noteq> 0
        then Option.bind (set_next (q_tail qp) jp h) (\<lambda>h. Some (qp\<lparr>q_tail := jp\<rparr>, h))
        else Some (qp\<lparr>q_head := jp, q_tail := jp\<rparr>, h))))"

definition job_remove :: "nat \<Rightarrow> queue \<times> jobs \<Rightarrow> (queue \<times> jobs) option" where
  "job_remove jp qh =
     (case qh of (qp, h) \<Rightarrow>
        Option.bind (h jp) (\<lambda>j.
        if jp = q_head qp then
          (if q_tail qp = jp then Some (qp\<lparr>q_head := j_next j, q_tail := 0\<rparr>, h)
           else Option.bind (set_prev (j_next j) (j_prev j) h) (\<lambda>h. Some (qp\<lparr>q_head := j_next j\<rparr>, h)))
        else if jp = q_tail qp then
          Option.bind (set_next (j_prev j) (j_next j) h) (\<lambda>h. Some (qp\<lparr>q_tail := j_prev j\<rparr>, h))
        else
          Option.bind (set_next (j_prev j) (j_next j) h) (\<lambda>h.
          Option.bind (h jp) (\<lambda>j.
          Option.bind (set_prev (j_next j) (j_prev j) h) (\<lambda>h. Some (qp, h))))))"

partial_function (option) job_loop :: "nat \<Rightarrow> jobs \<Rightarrow> nat \<Rightarrow> nat option" where
  "job_loop ident h jp =
     (if jp = 0 then Some 0
      else case h jp of
        None \<Rightarrow> None
      | Some j \<Rightarrow> if j_id j = ident then Some jp else job_loop ident h (j_next j))"

definition job_find :: "bool \<Rightarrow> nat \<Rightarrow> queue \<times> jobs \<Rightarrow> nat option" where
  "job_find locked ident qh = (if locked then job_loop ident (snd qh) (q_head (fst qh)) else Some 0)"

declare job_loop.simps [code]

section \<open>The list a queue holds\<close>

definition jnx :: "jobs \<Rightarrow> nat \<Rightarrow> nat" where
  "jnx h p = (case h p of None \<Rightarrow> 0 | Some j \<Rightarrow> j_next j)"

definition jpv :: "jobs \<Rightarrow> nat \<Rightarrow> nat" where
  "jpv h p = (case h p of None \<Rightarrow> 0 | Some j \<Rightarrow> j_prev j)"

text \<open>
  The next pointers from the head visit the jobs, the previous pointers from the tail visit
  them in the reverse order.
\<close>

definition job_rep :: "queue \<times> jobs \<Rightarrow> nat list \<Rightarrow> bool" where
  "job_rep qh xs \<longleftrightarrow>
     (case qh of (qp, h) \<Rightarrow>
        chain (jnx h) (q_head qp) xs \<and> chain (jpv h) (q_tail qp) (rev xs) \<and> (\<forall>p \<in> set xs. h p \<noteq> None))"

lemma job_repI:
  "chain (jnx h) (q_head qp) xs \<Longrightarrow> chain (jpv h) (q_tail qp) (rev xs) \<Longrightarrow> (\<And>p. p \<in> set xs \<Longrightarrow> h p \<noteq> None) \<Longrightarrow>
    job_rep (qp, h) xs"
  by (simp add: job_rep_def)

lemma job_repD:
  assumes "job_rep (qp, h) xs"
  shows "chain (jnx h) (q_head qp) xs" "chain (jpv h) (q_tail qp) (rev xs)" "\<And>p. p \<in> set xs \<Longrightarrow> \<exists>j. h p = Some j"
    "q_head qp = hd0 xs" "q_tail qp = hd0 (rev xs)"
  using assms chain_hd0 by (auto simp: job_rep_def)

text \<open>What an assignment to a field does to the two chains.\<close>

lemma set_next_ok: "h p = Some j \<Longrightarrow> \<exists>h'. set_next p v h = Some h' \<and> jnx h' = (jnx h)(p := v) \<and> jpv h' = jpv h \<and>
    (\<forall>q. q \<noteq> p \<longrightarrow> h' q = h q) \<and> map_option j_id \<circ> h' = map_option j_id \<circ> h"
  by (rule exI [of _ "h(p \<mapsto> j\<lparr>j_next := v\<rparr>)"]) (auto simp: set_next_def jnx_def jpv_def fun_eq_iff)

lemma set_prev_ok: "h p = Some j \<Longrightarrow> \<exists>h'. set_prev p v h = Some h' \<and> jpv h' = (jpv h)(p := v) \<and> jnx h' = jnx h \<and>
    (\<forall>q. q \<noteq> p \<longrightarrow> h' q = h q) \<and> map_option j_id \<circ> h' = map_option j_id \<circ> h"
  by (rule exI [of _ "h(p \<mapsto> j\<lparr>j_prev := v\<rparr>)"]) (auto simp: set_prev_def jnx_def jpv_def fun_eq_iff)

text \<open>
  \<open>same h h' A\<close>: the jobs keep their threads and no job outside \<open>A\<close> is changed.
\<close>

definition same :: "jobs \<Rightarrow> jobs \<Rightarrow> nat set \<Rightarrow> bool" where
  "same h h' A \<longleftrightarrow> (\<forall>q. q \<notin> A \<longrightarrow> h' q = h q) \<and> map_option j_id \<circ> h' = map_option j_id \<circ> h"

lemma same_refl [simp]: "same h h A"
  by (simp add: same_def)

lemma same_trans: "same h h1 A \<Longrightarrow> same h1 h2 B \<Longrightarrow> A \<subseteq> C \<Longrightarrow> B \<subseteq> C \<Longrightarrow> same h h2 C"
  unfolding same_def by (metis subsetD)

lemma same_dom: "same h h' A \<Longrightarrow> h' p = None \<longleftrightarrow> h p = None"
  unfolding same_def by (metis comp_apply map_option_is_None)

lemma set_next_same: "h p \<noteq> None \<Longrightarrow> \<exists>h'. set_next p v h = Some h' \<and> jnx h' = (jnx h)(p := v) \<and> jpv h' = jpv h \<and> same h h' {p}"
  using set_next_ok [of h p] unfolding same_def by auto

lemma set_prev_same: "h p \<noteq> None \<Longrightarrow> \<exists>h'. set_prev p v h = Some h' \<and> jpv h' = (jpv h)(p := v) \<and> jnx h' = jnx h \<and> same h h' {p}"
  using set_prev_ok [of h p] unfolding same_def by auto

lemma hd0_eq_0: "chain nx p xs \<Longrightarrow> p = 0 \<longleftrightarrow> xs = []"
  by (cases xs) auto

lemma job_insert_ok:
  assumes r: "job_rep (qp, h) xs" and p: "jp \<noteq> 0" "jp \<notin> set xs" "h jp \<noteq> None"
  shows "\<exists>q' h'. job_insert jp (qp, h) = Some (q', h') \<and> job_rep (q', h') (jp # xs) \<and> same h h' (set (jp # xs))"
proof -
  note d = job_repD [OF r]
  obtain h1 where h1: "set_next jp (q_head qp) h = Some h1" "jnx h1 = (jnx h)(jp := q_head qp)" "jpv h1 = jpv h" "same h h1 {jp}"
    using set_next_same [of h jp, OF p(3)] by blast
  have "h1 jp \<noteq> None" using p(3) same_dom [OF h1(4)] by simp
  from set_prev_same [of h1 jp, OF this, of 0] obtain h2 where h2: "set_prev jp 0 h1 = Some h2" "jpv h2 = (jpv h)(jp := 0)" "jnx h2 = jnx h1" "same h1 h2 {jp}"
    using h1(3) by auto
  have s2: "same h h2 {jp}" using same_trans [OF h1(4) h2(4)] by simp
  show ?thesis
  proof (cases xs)
    case Nil
    then have q: "q_head qp = 0" "q_tail qp = 0" using d by simp_all
    have "job_rep (qp\<lparr>q_tail := jp, q_head := jp\<rparr>, h2) [jp]"
      using p h1 h2 q same_dom [OF s2] by (intro job_repI) auto
    then show ?thesis using Nil h1 h2 q s2 by (simp add: job_insert_def)
  next
    case (Cons x ys)
    then have q: "q_head qp = x" "x \<noteq> 0" using d(1) by auto
    have "h2 x \<noteq> None" using d(3) [of x] Cons same_dom [OF s2] by auto
    from set_prev_same [of h2 x, OF this, of jp] obtain h3 where h3: "set_prev x jp h2 = Some h3" "jpv h3 = (jpv h2)(x := jp)" "jnx h3 = jnx h2" "same h2 h3 {x}"
      by blast
    have s3: "same h h3 (set (jp # xs))" using same_trans [OF s2 h3(4)] Cons by simp
    have "job_rep (qp\<lparr>q_head := jp\<rparr>, h3) (jp # xs)"
    proof (rule job_repI)
      show "chain (jnx h3) (q_head (qp\<lparr>q_head := jp\<rparr>)) (jp # xs)" using d(1) p by (simp add: h3 h2 h1)
      have "jp \<notin> set (rev xs)" using p by simp
      from chain_splice [where xs = "rev xs" and ys = "[]" and a = jp] d(2) this p(1)
      show "chain (jpv h3) (q_tail (qp\<lparr>q_head := jp\<rparr>)) (rev (jp # xs))" using Cons by (simp add: h3 h2)
      show "h3 r \<noteq> None" if "r \<in> set (jp # xs)" for r using that p(3) d(3) [of r] same_dom [OF s3] by auto
    qed
    then show ?thesis using h1 h2 h3 q s3 by (simp add: job_insert_def)
  qed
qed

text \<open>Read from the other end, the queue with next and previous exchanged holds the reverse list.\<close>

definition mirror :: "queue \<times> jobs \<Rightarrow> queue \<times> jobs" where
  "mirror qh =
     (\<lparr>q_head = q_tail (fst qh), q_tail = q_head (fst qh)\<rparr>,
      map_option (\<lambda>j. \<lparr>j_next = j_prev j, j_prev = j_next j, j_id = j_id j\<rparr>) \<circ> snd qh)"

lemma job_eta [simp]: "\<lparr>j_next = j_next x, j_prev = j_prev x, j_id = j_id x\<rparr> = (x :: job)"
  by simp

lemma mirror_mirror [simp]: "mirror (mirror qh) = qh"
  by (cases qh) (simp add: mirror_def fun_eq_iff option.map_comp comp_def option.map_ident)

lemma mirror_links: "jnx (snd (mirror qh)) = jpv (snd qh)" "jpv (snd (mirror qh)) = jnx (snd qh)"
  by (auto simp: mirror_def jnx_def jpv_def fun_eq_iff split: option.split)

lemma mirror_ids: "map_option j_id \<circ> snd (mirror qh) = map_option j_id \<circ> snd qh"
  by (auto simp: mirror_def fun_eq_iff option.map_comp comp_def)

lemma job_rep_mirror: "job_rep (mirror qh) (rev xs) \<longleftrightarrow> job_rep qh xs"
  unfolding job_rep_def using mirror_links [of qh] by (auto simp: mirror_def split: prod.split)

lemma mirror_at: "snd qh q = map_option (\<lambda>j. \<lparr>j_next = j_prev j, j_prev = j_next j, j_id = j_id j\<rparr>) (snd (mirror qh) q)"
  by (simp add: mirror_def option.map_comp comp_def option.map_ident)

lemma same_mirror: "same (snd (mirror qh)) (snd (mirror qh')) A \<Longrightarrow> same (snd qh) (snd qh') A"
proof -
  assume s: "same (snd (mirror qh)) (snd (mirror qh')) A"
  have "snd qh' q = snd qh q" if "q \<notin> A" for q
    using s that mirror_at [of qh q] mirror_at [of qh' q] unfolding same_def by simp
  then show ?thesis using s by (simp add: same_def mirror_ids)
qed

lemma job_append_mirror: "job_append jp qh = map_option mirror (job_insert jp (mirror qh))"
proof (cases "snd qh jp")
  case None
  then show ?thesis by (cases qh) (simp add: job_append_def job_insert_def mirror_def set_next_def)
next
  case (Some j)
  then show ?thesis
    by (cases qh; cases "q_tail (fst qh) = jp"; cases "snd qh (q_tail (fst qh))")
      (auto simp: job_append_def job_insert_def mirror_def set_next_def set_prev_def fun_eq_iff option.map_comp comp_def option.map_ident)
qed

lemma job_append_ok:
  assumes r: "job_rep (qp, h) xs" and p: "jp \<noteq> 0" "jp \<notin> set xs" "h jp \<noteq> None"
  shows "\<exists>q' h'. job_append jp (qp, h) = Some (q', h') \<and> job_rep (q', h') (xs @ [jp]) \<and> same h h' (set (jp # xs))"
proof -
  obtain q1 h1 where m: "mirror (qp, h) = (q1, h1)" by force
  have "h1 jp \<noteq> None" using m p(3) by (auto simp: mirror_def)
  from job_insert_ok [of q1 h1 "rev xs" jp] this job_rep_mirror [of "(qp, h)" xs] r m p(1,2)
  obtain q2 h2 where i: "job_insert jp (q1, h1) = Some (q2, h2)" "job_rep (q2, h2) (jp # rev xs)" "same h1 h2 (set (jp # xs))"
    by auto
  obtain q' h' where m2: "mirror (q2, h2) = (q', h')" by force
  have "mirror (q', h') = (q2, h2)" by (simp flip: m2)
  moreover from this have "same h h' (set (jp # xs))" using i(3) same_mirror [of "(qp, h)" "(q', h')"] m by simp
  moreover have "job_rep (q', h') (xs @ [jp])" using job_rep_mirror [of "(q', h')" "xs @ [jp]"] i(2) calculation by simp
  ultimately show ?thesis using i(1) m m2 by (simp add: job_append_mirror)
qed

lemma same_mono: "same h h' A \<Longrightarrow> A \<subseteq> C \<Longrightarrow> same h h' C"
  unfolding same_def by auto

lemma jnx_Some: "h p = Some j \<Longrightarrow> jnx h p = j_next j" "h p = Some j \<Longrightarrow> jpv h p = j_prev j"
  by (simp_all add: jnx_def jpv_def)

text \<open>The pointers of a job in the middle, at the head and at the tail.\<close>

lemma job_links:
  assumes "job_rep (qp, h) (A @ jp # B)"
  shows "jnx h jp = hd0 B" "jpv h jp = hd0 (rev A)" "jp = q_head qp \<longleftrightarrow> A = []" "jp = q_tail qp \<longleftrightarrow> B = []"
proof -
  note d = job_repD [OF assms]
  have "chain (jnx h) (jnx h jp) B" "chain (jpv h) (jpv h jp) (rev A)" using d(1,2) by (auto simp: chain_append)
  then show "jnx h jp = hd0 B" "jpv h jp = hd0 (rev A)" by (auto dest: chain_hd0)
  have "distinct (A @ jp # B)" using d(1) by (rule chain_distinct)
  then show "jp = q_head qp \<longleftrightarrow> A = []" using d(4) by (cases A) auto
  show "jp = q_tail qp \<longleftrightarrow> B = []" using \<open>distinct (A @ jp # B)\<close> d(5) by (cases B rule: rev_cases) auto
qed

lemma job_remove_first:
  assumes r: "job_rep (qp, h) (jp # B)"
  shows "\<exists>q' h'. job_remove jp (qp, h) = Some (q', h') \<and> job_rep (q', h') B \<and> same h h' (set B)"
proof -
  note d = job_repD [OF r] and l = job_links [of qp h "[]", simplified, OF r]
  obtain j where j: "h jp = Some j" using d(3) [of jp] by auto
  show ?thesis
  proof (cases B)
    case Nil
    have "job_rep (qp\<lparr>q_head := 0, q_tail := 0\<rparr>, h) []" by (rule job_repI) simp_all
    then show ?thesis using j l Nil jnx_Some [of h jp, OF j] by (auto simp: job_remove_def)
  next
    case (Cons b B')
    have "h b \<noteq> None" using d(3) [of b] Cons by auto
    from set_prev_same [of h b, OF this, of 0] obtain h1 where
      h1: "set_prev b 0 h = Some h1" "jpv h1 = (jpv h)(b := 0)" "jnx h1 = jnx h" "same h h1 {b}" by blast
    have "job_rep (qp\<lparr>q_head := b\<rparr>, h1) B"
    proof (rule job_repI)
      show "chain (jnx h1) (q_head (qp\<lparr>q_head := b\<rparr>)) B" using d(1) l(1) Cons h1(3) by simp
      show "chain (jpv h1) (q_tail (qp\<lparr>q_head := b\<rparr>)) (rev B)"
        using chain_remove_after [of "jpv h" "q_tail qp" "rev B'" b jp "[]"] d(2) l(2) Cons h1(2) by simp
      show "h1 p \<noteq> None" if "p \<in> set B" for p using that d(3) [of p] same_dom [OF h1(4)] by auto
    qed
    moreover have "same h h1 (set B)" using same_mono [OF h1(4)] Cons by simp
    ultimately show ?thesis using j l Cons h1(1) jnx_Some [of h jp, OF j] by (auto simp: job_remove_def)
  qed
qed

lemma job_remove_last:
  assumes r: "job_rep (qp, h) (A @ [a, jp])"
  shows "\<exists>q' h'. job_remove jp (qp, h) = Some (q', h') \<and> job_rep (q', h') (A @ [a]) \<and> same h h' (set (A @ [a]))"
proof -
  note d = job_repD [OF r] and l = job_links [of qp h "A @ [a]" jp "[]", simplified, OF r]
  obtain j where j: "h jp = Some j" using d(3) [of jp] by auto
  have "h a \<noteq> None" using d(3) [of a] by auto
  from set_next_same [of h a, OF this, of 0] obtain h1 where
    h1: "set_next a 0 h = Some h1" "jnx h1 = (jnx h)(a := 0)" "jpv h1 = jpv h" "same h h1 {a}" by blast
  have "job_rep (qp\<lparr>q_tail := a\<rparr>, h1) (A @ [a])"
  proof (rule job_repI)
    show "chain (jnx h1) (q_head (qp\<lparr>q_tail := a\<rparr>)) (A @ [a])"
      using chain_remove_after [of "jnx h" "q_head qp" A a jp "[]"] d(1) l(1) h1(2) by simp
    show "chain (jpv h1) (q_tail (qp\<lparr>q_tail := a\<rparr>)) (rev (A @ [a]))" using d(2) l(2) h1(3) by simp
    show "h1 p \<noteq> None" if "p \<in> set (A @ [a])" for p using that d(3) [of p] same_dom [OF h1(4)] by auto
  qed
  moreover have "same h h1 (set (A @ [a]))" using same_mono [OF h1(4)] by simp
  ultimately show ?thesis using j l h1(1) jnx_Some [of h jp, OF j] by (auto simp: job_remove_def)
qed

lemma job_remove_middle:
  assumes r: "job_rep (qp, h) (A @ a # jp # b # B)"
  shows "\<exists>q' h'. job_remove jp (qp, h) = Some (q', h') \<and> job_rep (q', h') (A @ a # b # B) \<and> same h h' (set (A @ a # b # B))"
proof -
  note d = job_repD [OF r] and l = job_links [of qp h "A @ [a]" jp "b # B", simplified, OF r]
  have ds: "distinct (A @ a # jp # b # B)" using d(1) by (rule chain_distinct)
  obtain j where j: "h jp = Some j" using d(3) [of jp] by auto
  have "h a \<noteq> None" using d(3) [of a] by auto
  from set_next_same [of h a, OF this, of b] obtain h1 where
    h1: "set_next a b h = Some h1" "jnx h1 = (jnx h)(a := b)" "jpv h1 = jpv h" "same h h1 {a}" by blast
  have "h1 b \<noteq> None" using d(3) [of b] same_dom [OF h1(4)] by auto
  from set_prev_same [of h1 b, OF this, of a] obtain h2 where
    h2: "set_prev b a h1 = Some h2" "jpv h2 = (jpv h1)(b := a)" "jnx h2 = jnx h1" "same h1 h2 {b}" by blast
  have s: "same h h2 (set (A @ a # b # B))" using same_trans [OF h1(4) h2(4)] by simp
  have "job_rep (qp, h2) (A @ a # b # B)"
  proof (rule job_repI)
    show "chain (jnx h2) (q_head qp) (A @ a # b # B)"
      using chain_remove_after [OF d(1)] l(1) h1(2) h2(3) by simp
    show "chain (jpv h2) (q_tail qp) (rev (A @ a # b # B))"
      using chain_remove_after [of "jpv h" "q_tail qp" "rev B" b jp "a # rev A"] d(2) l(2) h1(3) h2(2) by simp
    show "h2 p \<noteq> None" if "p \<in> set (A @ a # b # B)" for p using that d(3) [of p] same_dom [OF s] by auto
  qed
  moreover have "h1 jp = Some j" using h1(4) j ds unfolding same_def by auto
  ultimately show ?thesis using j l s h1(1) h2(1) jnx_Some [of h jp, OF j] by (auto simp: job_remove_def)
qed

lemma job_remove_ok:
  assumes r: "job_rep (qp, h) xs" and p: "jp \<in> set xs"
  shows "\<exists>q' h'. job_remove jp (qp, h) = Some (q', h') \<and> job_rep (q', h') (remove1 jp xs) \<and> same h h' (set (remove1 jp xs))"
proof -
  obtain A B where xs: "xs = A @ jp # B" "jp \<notin> set A" using p by (meson split_list_first)
  then have x: "remove1 jp xs = A @ B" by (simp add: remove1_append)
  show ?thesis
  proof (cases A rule: rev_cases)
    case Nil
    then show ?thesis using job_remove_first [of qp h jp B] r xs x by simp
  next
    case (snoc A' a)
    then show ?thesis
      using job_remove_last [of qp h A' a jp] job_remove_middle [of qp h A' a jp] r xs x by (cases B) simp_all
  qed
qed

lemma job_loop_chain:
  "chain (jnx h) p xs \<Longrightarrow> \<forall>q \<in> set xs. h q \<noteq> None \<Longrightarrow>
    job_loop ident h p = Some (hd0 (filter (\<lambda>q. map_option j_id (h q) = Some ident) xs))"
proof (induction xs arbitrary: p)
  case Nil
  then show ?case by (simp add: job_loop.simps)
next
  case (Cons q xs)
  then show ?case by (subst job_loop.simps) (auto simp: jnx_def)
qed

section \<open>The queue as a list\<close>

datatype job_call = Insert nat | Append nat | Remove nat | Find nat bool

definition job_step :: "queue \<times> jobs \<Rightarrow> job_call \<Rightarrow> (nat \<times> queue \<times> jobs) option" where
  "job_step qh c =
     (case c of
        Insert jp \<Rightarrow> map_option (Pair 0) (job_insert jp qh)
      | Append jp \<Rightarrow> map_option (Pair 0) (job_append jp qh)
      | Remove jp \<Rightarrow> map_option (Pair 0) (job_remove jp qh)
      | Find ident locked \<Rightarrow> map_option (\<lambda>p. (p, qh)) (job_find locked ident qh))"

text \<open>
  What the calls do to the list of the jobs. The second component gives the thread of each
  job that exists.
\<close>

definition job_spec :: "nat list \<times> (nat \<rightharpoonup> nat) \<Rightarrow> job_call \<Rightarrow> nat \<times> nat list \<times> (nat \<rightharpoonup> nat)" where
  "job_spec a c =
     (case a of (xs, thr) \<Rightarrow>
        (case c of
           Insert jp \<Rightarrow> (0, jp # xs, thr)
         | Append jp \<Rightarrow> (0, xs @ [jp], thr)
         | Remove jp \<Rightarrow> (0, remove1 jp xs, thr)
         | Find ident locked \<Rightarrow> (if locked then hd0 (filter (\<lambda>p. thr p = Some ident) xs) else 0, xs, thr)))"

text \<open>A job that is put into the queue exists and is not in it; one that is removed is in it.\<close>

definition job_ok :: "nat list \<times> (nat \<rightharpoonup> nat) \<Rightarrow> job_call \<Rightarrow> bool" where
  "job_ok a c \<longleftrightarrow>
     (case a of (xs, thr) \<Rightarrow>
        (case c of
           Insert jp \<Rightarrow> jp \<noteq> 0 \<and> thr jp \<noteq> None \<and> jp \<notin> set xs
         | Append jp \<Rightarrow> jp \<noteq> 0 \<and> thr jp \<noteq> None \<and> jp \<notin> set xs
         | Remove jp \<Rightarrow> jp \<in> set xs
         | Find ident locked \<Rightarrow> True))"

definition job_holds :: "queue \<times> jobs \<Rightarrow> nat list \<times> (nat \<rightharpoonup> nat) \<Rightarrow> bool" where
  "job_holds qh a \<longleftrightarrow> job_rep qh (fst a) \<and> map_option j_id \<circ> snd qh = snd a"

lemma job_holdsI: "job_rep (q', h') ys \<Longrightarrow> same h h' A \<Longrightarrow> map_option j_id \<circ> h = thr \<Longrightarrow> job_holds (q', h') (ys, thr)"
  by (auto simp: job_holds_def same_def)

lemma job_step_refines:
  assumes "job_holds qh a" "job_ok a c"
  shows "\<exists>qh'. job_step qh c = Some (fst (job_spec a c), qh') \<and> job_holds qh' (snd (job_spec a c))"
proof -
  obtain qp h xs thr where e: "qh = (qp, h)" "a = (xs, thr)" by (cases qh, cases a)
  have r: "job_rep (qp, h) xs" and t: "map_option j_id \<circ> h = thr" using assms(1) e by (auto simp: job_holds_def)
  have n: "thr p = map_option j_id (h p)" for p by (simp flip: t)
  show ?thesis
  proof (cases c)
    case (Insert jp)
    then show ?thesis using job_insert_ok [OF r, of jp] assms(2) e job_holdsI [OF _ _ t]
      by (fastforce simp: job_ok_def job_step_def job_spec_def n)
  next
    case (Append jp)
    then show ?thesis using job_append_ok [OF r, of jp] assms(2) e job_holdsI [OF _ _ t]
      by (fastforce simp: job_ok_def job_step_def job_spec_def n)
  next
    case (Remove jp)
    then show ?thesis using job_remove_ok [OF r, of jp] assms(2) e job_holdsI [OF _ _ t]
      by (fastforce simp: job_ok_def job_step_def job_spec_def n)
  next
    case (Find ident locked)
    have "job_loop ident h (q_head qp) = Some (hd0 (filter (\<lambda>p. thr p = Some ident) xs))"
      unfolding n using job_repD(3) [OF r] by (intro job_loop_chain [OF job_repD(1) [OF r]]) auto
    then show ?thesis using Find e r t by (auto simp: job_step_def job_spec_def job_find_def job_holds_def)
  qed
qed

interpretation job_calls: bounded_refinement job_holds job_step job_spec job_ok "\<lambda>_. 0" 0 0
  by unfold_locales (use job_step_refines in auto)

text \<open>
  C22. From a queue that was just initialised, every sequence of inserts, appends, removals
  and searches does what it does to a list of jobs: the jobs are those of the list and in its
  order both along the next and along the previous pointers, a search returns the first job
  of the thread or null, and no call follows a null or a dangling pointer. Jobs are only put
  into the queue when they are not in it and only removed when they are.
\<close>

theorem job_queue_is_list:
  assumes "run_ok job_ok job_spec ([], map_option j_id \<circ> h) calls"
  shows "\<exists>q' h'. run_calls job_step (snd (queue_init 0), h) calls = Some (fst (run_spec job_spec ([], map_option j_id \<circ> h) calls), q', h') \<and>
    job_rep (q', h') (fst (snd (run_spec job_spec ([], map_option j_id \<circ> h) calls)))"
proof -
  have "job_holds (snd (queue_init 0), h) ([], map_option j_id \<circ> h)" by (simp add: job_holds_def job_rep_def queue_init_def)
  from job_calls.run_refines [OF this assms] show ?thesis by (auto simp: job_holds_def)
qed

theorem job_queue_is_list_witness:
  "let h = Map.empty(1 \<mapsto> \<lparr>j_next = 0, j_prev = 0, j_id = 7\<rparr>, 2 \<mapsto> \<lparr>j_next = 0, j_prev = 0, j_id = 8\<rparr>) in
   \<exists>q' h'. run_calls job_step (snd (queue_init 0), h) [Append 1, Insert 2, Find 7 True, Remove 1, Find 7 True] = Some ([0, 0, 1, 0, 0], q', h') \<and>
     job_rep (q', h') [2]"
  unfolding Let_def
  using job_queue_is_list [of "Map.empty(1 \<mapsto> \<lparr>j_next = 0, j_prev = 0, j_id = 7\<rparr>, 2 \<mapsto> \<lparr>j_next = 0, j_prev = 0, j_id = 8\<rparr>)"
    "[Append 1, Insert 2, Find 7 True, Remove 1, Find 7 True]"]
  by (simp add: job_ok_def job_spec_def)

end
