(* ===== verification/List_Lib.thy ===== *)
theory List_Lib
  imports Refine "HOL-Library.Sublist"
begin

text \<open>
  The list object of \<^verbatim>\<open>UNIX_Systems_Programming/chapter13\<close> (the same file as in chapter 2): a
  linked list that only grows, and an array of traversal pointers indexed by key. The nodes
  are in a heap, 0 is the null pointer, and the static node \<^verbatim>\<open>endlist\<close>, which marks a finished
  traversal, has the address 1. Memory that an allocation returns is an argument. An access to
  an address that holds no node is \<open>None\<close>.
\<close>

section \<open>The functions\<close>

definition TRAV_INIT_SIZE :: nat where
  "TRAV_INIT_SIZE = 8"

record data_t =
  time :: int
  str :: string

record list_t =
  item :: data_t
  next_node :: nat

record list_obj =
  cells :: "nat \<rightharpoonup> list_t"
  headptr :: nat
  tailptr :: nat
  travptrs :: "nat list"
  travptrs_size :: nat

definition endlist :: nat where
  "endlist = 1"

definition list_init :: list_obj where
  "list_init = \<lparr>cells = Map.empty, headptr = 0, tailptr = 0, travptrs = [], travptrs_size = 0\<rparr>"

text \<open>The loop that looks for an empty slot; it ends at the size of the array.\<close>

function slot_loop :: "list_obj \<Rightarrow> nat \<Rightarrow> nat" where
  "slot_loop s i =
     (if i < travptrs_size s then (if travptrs s ! i = 0 then i else slot_loop s (i + 1)) else i)"
  by auto
termination by (relation "measure (\<lambda>(s, i). travptrs_size s - i)") auto

declare slot_loop.simps [simp del]

text \<open>
  \<open>mem\<close> is the result of \<^verbatim>\<open>calloc\<close> or \<^verbatim>\<open>realloc\<close>: no memory, or memory in which \<open>realloc\<close> finds
  some content for the slots it adds.
\<close>

definition accessdata :: "(nat \<Rightarrow> nat) option \<Rightarrow> list_obj \<Rightarrow> (errno + nat) \<times> list_obj" where
  "accessdata mem s =
     (if headptr s = 0 then (Inl EINVAL, s)
      else if travptrs_size s = 0 then
        (case mem of
           None \<Rightarrow> (Inl ENOMEM, s)
         | Some _ \<Rightarrow> (Inr 0, s\<lparr>travptrs := (replicate TRAV_INIT_SIZE 0)[0 := headptr s], travptrs_size := TRAV_INIT_SIZE\<rparr>))
      else
        let i = slot_loop s 0 in
        if i < travptrs_size s then (Inr i, s\<lparr>travptrs := (travptrs s)[i := headptr s]\<rparr>)
        else
          (case mem of
             None \<Rightarrow> (Inl ENOMEM, s)
           | Some junk \<Rightarrow>
               (Inr (travptrs_size s),
                s\<lparr>travptrs := (travptrs s @ map junk [0..<travptrs_size s])[travptrs_size s := headptr s],
                  travptrs_size := 2 * travptrs_size s\<rparr>)))"

definition adddata :: "data_t \<Rightarrow> nat \<Rightarrow> list_obj \<Rightarrow> ((errno + unit) \<times> list_obj) option" where
  "adddata data newnode s =
     (if newnode = 0 then Some (Inl ENOMEM, s)
      else
        let s = s\<lparr>cells := (cells s)(newnode \<mapsto> \<lparr>item = data, next_node = 0\<rparr>)\<rparr> in
        if headptr s = 0 then Some (Inr (), s\<lparr>headptr := newnode, tailptr := newnode\<rparr>)
        else
          (case cells s (tailptr s) of
             None \<Rightarrow> None
           | Some t \<Rightarrow> Some (Inr (), s\<lparr>cells := (cells s)(tailptr s \<mapsto> t\<lparr>next_node := newnode\<rparr>), tailptr := newnode\<rparr>)))"

text \<open>The result \<open>None\<close> inside is a \<^verbatim>\<open>datap->string\<close> of null; \<open>ok\<close> says whether \<^verbatim>\<open>malloc\<close> succeeds.\<close>

definition getdata :: "int \<Rightarrow> bool \<Rightarrow> list_obj \<Rightarrow> ((errno + data_t option) \<times> list_obj) option" where
  "getdata key ok s =
     (if key < 0 \<or> key \<ge> int (travptrs_size s) \<or> travptrs s ! nat key = 0 then Some (Inl EINVAL, s)
      else if travptrs s ! nat key = endlist then Some (Inr None, s\<lparr>travptrs := (travptrs s)[nat key := 0]\<rparr>)
      else
        (case cells s (travptrs s ! nat key) of
           None \<Rightarrow> None
         | Some t \<Rightarrow>
             if \<not> ok then Some (Inl ENOMEM, s)
             else Some (Inr (Some (item t)),
               s\<lparr>travptrs := (travptrs s)[nat key := if next_node t = 0 then endlist else next_node t]\<rparr>)))"

definition freekey :: "int \<Rightarrow> list_obj \<Rightarrow> (errno + unit) \<times> list_obj" where
  "freekey key s =
     (if key < 0 \<or> key \<ge> int (travptrs_size s) then (Inl EINVAL, s)
      else (Inr (), s\<lparr>travptrs := (travptrs s)[nat key := 0]\<rparr>))"

section \<open>The versions for threads\<close>

text \<open>
  The wrappers of \<^verbatim>\<open>listlib_r.c\<close>: an error of the lock gives the call up, an error of the call
  is reported after unlocking, and an error of unlocking is reported although the call was
  done. \<open>lk\<close> and \<open>unlk\<close> are the results of the lock and unlock functions.
\<close>

definition unlocked :: "rc \<Rightarrow> (errno + 'a) \<times> 's \<Rightarrow> (errno + 'a) \<times> 's" where
  "unlocked unlk r =
     (case r of
        (Inl e, s) \<Rightarrow> (Inl e, s)
      | (Inr v, s) \<Rightarrow> (case unlk of Some e \<Rightarrow> (Inl e, s) | None \<Rightarrow> (Inr v, s)))"

definition accessdata_r :: "rc \<Rightarrow> rc \<Rightarrow> (nat \<Rightarrow> nat) option \<Rightarrow> list_obj \<Rightarrow> (errno + nat) \<times> list_obj" where
  "accessdata_r lk unlk mem s = (case lk of Some e \<Rightarrow> (Inl e, s) | None \<Rightarrow> unlocked unlk (accessdata mem s))"

definition adddata_r :: "rc \<Rightarrow> rc \<Rightarrow> data_t \<Rightarrow> nat \<Rightarrow> list_obj \<Rightarrow> ((errno + unit) \<times> list_obj) option" where
  "adddata_r lk unlk data newnode s =
     (case lk of Some e \<Rightarrow> Some (Inl e, s) | None \<Rightarrow> map_option (unlocked unlk) (adddata data newnode s))"

definition getdata_r :: "rc \<Rightarrow> rc \<Rightarrow> int \<Rightarrow> bool \<Rightarrow> list_obj \<Rightarrow> ((errno + data_t option) \<times> list_obj) option" where
  "getdata_r lk unlk key ok s =
     (case lk of Some e \<Rightarrow> Some (Inl e, s) | None \<Rightarrow> map_option (unlocked unlk) (getdata key ok s))"

definition freekey_r :: "rc \<Rightarrow> rc \<Rightarrow> int \<Rightarrow> list_obj \<Rightarrow> (errno + unit) \<times> list_obj" where
  "freekey_r lk unlk key s = (case lk of Some e \<Rightarrow> (Inl e, s) | None \<Rightarrow> unlocked unlk (freekey key s))"

text \<open>
  The wrappers of \<^verbatim>\<open>listlibrw_r.c\<close> use a reader-writer lock that \<^verbatim>\<open>initialize_r\<close> makes once;
  \<^verbatim>\<open>getdata_r\<close> asks for it as a reader. \<open>lk\<close> gives the result for each kind of request, \<open>once\<close> the
  result of \<^verbatim>\<open>pthread_once\<close> and \<open>init\<close> that of initialising the lock in the first call.
\<close>

datatype lock_kind = Rd | Wr

definition initialize_rw :: "rc \<Rightarrow> rc \<Rightarrow> bool \<times> rc \<Rightarrow> rc \<times> bool \<times> rc" where
  "initialize_rw once init st =
     (case st of (isinit, lockiniterror) \<Rightarrow>
        let err = (if once \<noteq> None then Some EINVAL else if isinit then lockiniterror else init)
        in (err, isinit \<or> once = None, err))"

definition accessdata_rw :: "(lock_kind \<Rightarrow> rc) \<Rightarrow> rc \<Rightarrow> (nat \<Rightarrow> nat) option \<Rightarrow> list_obj \<Rightarrow> (errno + nat) \<times> list_obj" where
  "accessdata_rw lk unlk mem s = (case lk Wr of Some e \<Rightarrow> (Inl e, s) | None \<Rightarrow> unlocked unlk (accessdata mem s))"

definition adddata_rw :: "(lock_kind \<Rightarrow> rc) \<Rightarrow> rc \<Rightarrow> data_t \<Rightarrow> nat \<Rightarrow> list_obj \<Rightarrow> ((errno + unit) \<times> list_obj) option" where
  "adddata_rw lk unlk data newnode s =
     (case lk Wr of Some e \<Rightarrow> Some (Inl e, s) | None \<Rightarrow> map_option (unlocked unlk) (adddata data newnode s))"

definition getdata_rw :: "(lock_kind \<Rightarrow> rc) \<Rightarrow> rc \<Rightarrow> int \<Rightarrow> bool \<Rightarrow> list_obj \<Rightarrow> ((errno + data_t option) \<times> list_obj) option" where
  "getdata_rw lk unlk key ok s =
     (case lk Rd of Some e \<Rightarrow> Some (Inl e, s) | None \<Rightarrow> map_option (unlocked unlk) (getdata key ok s))"

definition freekey_rw :: "(lock_kind \<Rightarrow> rc) \<Rightarrow> rc \<Rightarrow> int \<Rightarrow> list_obj \<Rightarrow> (errno + unit) \<times> list_obj" where
  "freekey_rw lk unlk key s = (case lk Wr of Some e \<Rightarrow> (Inl e, s) | None \<Rightarrow> unlocked unlk (freekey key s))"

section \<open>Nodes and traversals\<close>

text \<open>
  What a caller knows of the list: its nodes with their data in order, and for each key
  whether it is free, stands before some node, or has seen the last one.
\<close>

datatype cursor = Free | At nat | Ended

type_synonym list_view = "(nat \<times> data_t) list \<times> cursor list"

primrec ptr :: "(nat \<times> data_t) list \<Rightarrow> cursor \<Rightarrow> nat" where
  "ptr ns Free = 0"
| "ptr ns (At i) = fst (ns ! i)"
| "ptr ns Ended = endlist"

definition nnx :: "list_obj \<Rightarrow> nat \<Rightarrow> nat" where
  "nnx s p = (case cells s p of None \<Rightarrow> 0 | Some t \<Rightarrow> next_node t)"

lemma nnx_cursors [simp]: "nnx (s\<lparr>travptrs := x, travptrs_size := n\<rparr>) = nnx s" "nnx (s\<lparr>travptrs := x\<rparr>) = nnx s"
  by (simp_all add: nnx_def fun_eq_iff)

definition list_rep :: "list_obj \<Rightarrow> list_view \<Rightarrow> bool" where
  "list_rep s a \<longleftrightarrow>
     (case a of (ns, cs) \<Rightarrow>
        chain (nnx s) (headptr s) (map fst ns) \<and> (ns \<noteq> [] \<longrightarrow> tailptr s = fst (last ns)) \<and>
        (\<forall>n \<in> set ns. \<exists>t. cells s (fst n) = Some t \<and> item t = snd n) \<and> endlist \<notin> fst ` set ns \<and>
        travptrs s = map (ptr ns) cs \<and> travptrs_size s = length cs \<and> (\<forall>i. At i \<in> set cs \<longrightarrow> i < length ns))"

lemma list_repD:
  assumes "list_rep s (ns, cs)"
  shows "chain (nnx s) (headptr s) (map fst ns)" "ns \<noteq> [] \<Longrightarrow> tailptr s = fst (last ns)"
    "\<And>n. n \<in> set ns \<Longrightarrow> \<exists>t. cells s (fst n) = Some t \<and> item t = snd n" "\<And>n. n \<in> set ns \<Longrightarrow> fst n \<noteq> endlist"
    "travptrs s = map (ptr ns) cs" "travptrs_size s = length cs" "\<And>i. At i \<in> set cs \<Longrightarrow> i < length ns"
  using assms unfolding list_rep_def prod.case by (blast | (metis image_eqI))+

lemma list_rep_cursors:
  "list_rep s (ns, cs) \<Longrightarrow> (\<And>i. At i \<in> set cs' \<Longrightarrow> i < length ns) \<Longrightarrow>
    list_rep (s\<lparr>travptrs := map (ptr ns) cs', travptrs_size := length cs'\<rparr>) (ns, cs')"
  by (simp add: list_rep_def)

lemma list_rep_cursor:
  assumes "list_rep s (ns, cs)" "\<And>i. c = At i \<Longrightarrow> i < length ns"
  shows "list_rep (s\<lparr>travptrs := (travptrs s)[k := ptr ns c]\<rparr>) (ns, cs[k := c])"
proof -
  have "At i \<in> set (cs[k := c]) \<Longrightarrow> i < length ns" for i
    using assms(2) list_repD(7) [OF assms(1), of i] set_update_subset_insert [of cs k c] by auto
  with assms(1) show ?thesis by (simp add: list_rep_def map_update)
qed

text \<open>A pointer of the array is null exactly for a free key, and the end mark exactly at the end.\<close>

lemma ptr_cases:
  assumes "list_rep s (ns, cs)" "c \<in> set cs"
  shows "ptr ns c = 0 \<longleftrightarrow> c = Free" "ptr ns c = endlist \<longleftrightarrow> c = Ended"
proof -
  have "fst (ns ! i) \<noteq> 0 \<and> fst (ns ! i) \<noteq> endlist" if "c = At i" for i
  proof -
    have "ns ! i \<in> set ns" using list_repD(7) [OF assms(1)] assms(2) that by simp
    then have "fst (ns ! i) \<in> set (map fst ns)" "fst (ns ! i) \<noteq> endlist" using list_repD(4) [OF assms(1)] by auto
    then show ?thesis using chain_nonnull [OF list_repD(1) [OF assms(1)]] by metis
  qed
  then show "ptr ns c = 0 \<longleftrightarrow> c = Free" "ptr ns c = endlist \<longleftrightarrow> c = Ended" by (cases c; simp add: endlist_def)+
qed

lemma slot_loop_takeWhile:
  "travptrs_size s = length (travptrs s) \<Longrightarrow> i \<le> length (travptrs s) \<Longrightarrow>
    slot_loop s i = i + length (takeWhile (\<lambda>p. p \<noteq> 0) (drop i (travptrs s)))"
proof (induction s i rule: slot_loop.induct)
  case (1 s i)
  show ?case
  proof (cases "i < length (travptrs s)")
    case True
    then show ?thesis using 1 by (subst slot_loop.simps) (auto simp flip: Cons_nth_drop_Suc)
  qed (use 1(2,3) in \<open>simp add: slot_loop.simps\<close>)
qed

lemma slot_loop_rep:
  assumes "list_rep s (ns, cs)"
  shows "slot_loop s 0 = length (takeWhile (\<lambda>c. c \<noteq> Free) cs)"
proof -
  have "takeWhile (\<lambda>c. ptr ns c \<noteq> 0) cs = takeWhile (\<lambda>c. c \<noteq> Free) cs"
    using ptr_cases(1) [OF assms] by (intro takeWhile_cong) auto
  then show ?thesis using list_repD(5,6) [OF assms] by (simp add: slot_loop_takeWhile takeWhile_map comp_def)
qed

section \<open>The list object as its callers see it\<close>

definition access_spec :: "(nat \<Rightarrow> nat) option \<Rightarrow> list_view \<Rightarrow> (errno + nat) \<times> list_view" where
  "access_spec mem a =
     (case a of (ns, cs) \<Rightarrow>
        if ns = [] then (Inl EINVAL, a)
        else if Free \<in> set cs then
          (let i = length (takeWhile (\<lambda>c. c \<noteq> Free) cs) in (Inr i, ns, cs[i := At 0]))
        else if mem = None then (Inl ENOMEM, a)
        else (Inr (length cs), ns, cs @ At 0 # replicate ((if cs = [] then TRAV_INIT_SIZE else length cs) - 1) Free))"

definition add_spec :: "data_t \<Rightarrow> nat \<Rightarrow> list_view \<Rightarrow> (errno + unit) \<times> list_view" where
  "add_spec data p a =
     (case a of (ns, cs) \<Rightarrow> if p = 0 then (Inl ENOMEM, a) else (Inr (), ns @ [(p, data)], cs))"

definition get_spec :: "int \<Rightarrow> bool \<Rightarrow> list_view \<Rightarrow> (errno + data_t option) \<times> list_view" where
  "get_spec key ok a =
     (case a of (ns, cs) \<Rightarrow>
        if key < 0 \<or> key \<ge> int (length cs) then (Inl EINVAL, a)
        else
          (case cs ! nat key of
             Free \<Rightarrow> (Inl EINVAL, a)
           | Ended \<Rightarrow> (Inr None, ns, cs[nat key := Free])
           | At i \<Rightarrow>
               if ok then (Inr (Some (snd (ns ! i))), ns, cs[nat key := if Suc i < length ns then At (Suc i) else Ended])
               else (Inl ENOMEM, a)))"

definition free_spec :: "int \<Rightarrow> list_view \<Rightarrow> (errno + unit) \<times> list_view" where
  "free_spec key a =
     (case a of (ns, cs) \<Rightarrow>
        if key < 0 \<or> key \<ge> int (length cs) then (Inl EINVAL, a) else (Inr (), ns, cs[nat key := Free]))"

lemma takeWhile_shorter: "x \<in> set xs \<Longrightarrow> \<not> P x \<Longrightarrow> length (takeWhile P xs) < length xs"
  by (induction xs) auto

lemma chain_nth_next:
  assumes "chain nx p (map fst ns)" "i < length ns"
  shows "nx (fst (ns ! i)) = (if Suc i < length ns then fst (ns ! Suc i) else 0)"
proof -
  have "map fst ns = take i (map fst ns) @ fst (ns ! i) # drop (Suc i) (map fst ns)"
    using assms(2) id_take_nth_drop [of i "map fst ns"] by simp
  with assms(1) have "chain nx (nx (fst (ns ! i))) (drop (Suc i) (map fst ns))"
    by (metis chain_append chain_Cons)
  then show ?thesis
    by (cases "Suc i < length ns") (auto simp flip: Cons_nth_drop_Suc simp: drop_map)
qed

lemma accessdata_refines:
  assumes r: "list_rep s (ns, cs)" and m: "Free \<in> set cs \<or> cs = [] \<or> mem = None \<or> mem = Some (\<lambda>_. 0)"
  shows "\<exists>s'. accessdata mem s = (fst (access_spec mem (ns, cs)), s') \<and> list_rep s' (snd (access_spec mem (ns, cs)))"
proof -
  note d = list_repD [OF r]
  show ?thesis
  proof (cases ns)
    case Nil
    then show ?thesis using d(1) r by (simp add: accessdata_def access_spec_def)
  next
    case (Cons n ns')
    then have h: "headptr s \<noteq> 0" "headptr s = ptr ns (At 0)" using d(1) by auto
    have a0: "\<And>i. At 0 = At i \<Longrightarrow> i < length ns" using Cons by simp
    consider "cs = []" | "Free \<in> set cs" | "cs \<noteq> []" "Free \<notin> set cs" by blast
    then show ?thesis
    proof cases
      case 1
      have "list_rep (s\<lparr>travptrs := map (ptr ns) (At 0 # replicate 7 Free), travptrs_size := length (At 0 # replicate 7 Free)\<rparr>)
          (ns, At 0 # replicate 7 Free)"
        using Cons by (intro list_rep_cursors [OF r]) auto
      then show ?thesis using 1 h d(6) r Cons
        by (cases mem) (auto simp: accessdata_def access_spec_def TRAV_INIT_SIZE_def numeral_eq_Suc)
    next
      case 2
      let ?i = "length (takeWhile (\<lambda>c. c \<noteq> Free) cs)"
      have i: "?i < length cs" by (rule takeWhile_shorter [OF 2]) simp
      have "list_rep (s\<lparr>travptrs := (travptrs s)[?i := ptr ns (At 0)]\<rparr>) (ns, cs[?i := At 0])"
        using list_rep_cursor [OF r a0] by blast
      then show ?thesis using 2 i h(1) d(6) Cons h(2)
        by (auto simp: accessdata_def access_spec_def Let_def slot_loop_rep [OF r])
    next
      case 3
      have "takeWhile (\<lambda>c. c \<noteq> Free) cs = cs" using 3(2) by (auto simp: takeWhile_eq_all_conv)
      then have i: "length (takeWhile (\<lambda>c. c \<noteq> Free) cs) = length cs" by (rule arg_cong)
      show ?thesis
      proof (cases mem)
        case None
        then show ?thesis using 3 i h(1) d(6) r Cons by (simp add: accessdata_def access_spec_def Let_def slot_loop_rep [OF r])
      next
        case (Some junk)
        let ?cs = "cs @ At 0 # replicate (length cs - 1) Free"
        have "junk = (\<lambda>_. 0)" using m 3 Some by simp
        then have "(travptrs s @ map junk [0..<length cs])[length cs := headptr s] = map (ptr ns) ?cs"
          using 3(1) h(2) d(5) by (cases cs) (auto simp: list_update_append map_replicate_const upt_conv_Cons simp del: upt_Suc)
        moreover have l: "length ?cs = 2 * length cs" using 3(1) by (cases cs) auto
        have "\<And>i. At i \<in> set ?cs \<Longrightarrow> i < length ns" using d(7) Cons by auto
        then have "list_rep (s\<lparr>travptrs := map (ptr ns) ?cs, travptrs_size := 2 * length cs\<rparr>) (ns, ?cs)"
          using list_rep_cursors [OF r, of ?cs] unfolding l by blast
        ultimately show ?thesis using 3 i h(1) d(6) Cons Some
          by (simp add: accessdata_def access_spec_def Let_def slot_loop_rep [OF r])
      qed
    qed
  qed
qed

lemma getdata_refines:
  assumes r: "list_rep s (ns, cs)"
  shows "\<exists>s'. getdata key ok s = Some (fst (get_spec key ok (ns, cs)), s') \<and> list_rep s' (snd (get_spec key ok (ns, cs)))"
proof (cases "key < 0 \<or> key \<ge> int (length cs)")
  case True
  then show ?thesis using r list_repD(6) [OF r] by (auto simp: getdata_def get_spec_def)
next
  case False
  note d = list_repD [OF r]
  let ?k = "nat key" let ?c = "cs ! ?k"
  have k: "?k < length cs" using False by linarith
  then have c: "?c \<in> set cs" and t: "travptrs s ! ?k = ptr ns ?c" using d(5) by simp_all
  note pc = ptr_cases [OF r c]
  show ?thesis
  proof (cases ?c)
    case Free
    then show ?thesis using False r t d(6) by (simp add: getdata_def get_spec_def)
  next
    case Ended
    then show ?thesis using False r t d(6) pc list_rep_cursor [OF r, of Free ?k] by (simp add: getdata_def get_spec_def)
  next
    case (At i)
    then have i: "i < length ns" using d(7) c by simp
    then obtain n where n: "cells s (fst (ns ! i)) = Some n" "item n = snd (ns ! i)" using d(3) [of "ns ! i"] by auto
    have nx: "next_node n = (if Suc i < length ns then fst (ns ! Suc i) else 0)"
      using chain_nth_next [OF d(1) i] n(1) by (simp add: nnx_def)
    let ?c' = "if Suc i < length ns then At (Suc i) else Ended"
    have z: "Suc i < length ns \<Longrightarrow> fst (ns ! Suc i) \<noteq> 0"
      using chain_nonnull [OF d(1)] by (metis length_map nth_map nth_mem)
    have "(if next_node n = 0 then endlist else next_node n) = ptr ns ?c'" using nx z by auto
    moreover have "list_rep (s\<lparr>travptrs := (travptrs s)[?k := ptr ns ?c']\<rparr>) (ns, cs[?k := ?c'])"
      by (rule list_rep_cursor [OF r]) (simp split: if_splits)
    ultimately show ?thesis using False r t d(6) pc At n by (simp add: getdata_def get_spec_def)
  qed
qed

lemma adddata_refines:
  assumes r: "list_rep s (ns, cs)" and p: "p = 0 \<or> p \<notin> fst ` set ns \<and> p \<noteq> endlist"
  shows "\<exists>s'. adddata data p s = Some (fst (add_spec data p (ns, cs)), s') \<and> list_rep s' (snd (add_spec data p (ns, cs)))"
proof (cases "p = 0")
  case True
  then show ?thesis using r by (simp add: adddata_def add_spec_def)
next
  case False
  with p have p: "p \<notin> fst ` set ns" "p \<noteq> endlist" by auto
  note d = list_repD [OF r]
  have t: "map (ptr (ns @ [(p, data)])) cs = map (ptr ns) cs"
  proof (rule map_cong [OF refl])
    show "ptr (ns @ [(p, data)]) c = ptr ns c" if "c \<in> set cs" for c
      using d(7) that by (cases c) (auto simp: nth_append)
  qed
  let ?new = "\<lparr>item = data, next_node = 0\<rparr>"
  show ?thesis
  proof (cases ns rule: rev_cases)
    case Nil
    then have "list_rep (s\<lparr>cells := (cells s)(p \<mapsto> ?new), headptr := p, tailptr := p\<rparr>) ([(p, data)], cs)"
      using d t p False by (auto simp: list_rep_def nnx_def)
    then show ?thesis using Nil d(1) False by (simp add: adddata_def add_spec_def Let_def)
  next
    case (snoc ns' l)
    have tl: "tailptr s = fst l" using d(2) snoc by simp
    obtain n where n: "cells s (fst l) = Some n" "item n = snd l" using d(3) [of l] snoc by auto
    have lp: "fst l \<noteq> p" using p(1) snoc by auto
    let ?s = "s\<lparr>cells := (cells s)(p \<mapsto> ?new, fst l \<mapsto> n\<lparr>next_node := p\<rparr>), tailptr := p\<rparr>"
    have nx: "nnx ?s = (nnx s)(p := 0, fst l := p)" using lp by (auto simp: nnx_def fun_eq_iff)
    have h: "headptr s \<noteq> 0" using d(1) snoc by (cases ns') auto
    have "chain (nnx ?s) (headptr s) (map fst (ns @ [(p, data)]))"
      using chain_splice [of "nnx s" "headptr s" "map fst ns" "[]" p] d(1) p(1) False snoc unfolding nx by simp
    moreover have "\<exists>t. cells ?s (fst m) = Some t \<and> item t = snd m" if "m \<in> set (ns @ [(p, data)])" for m
    proof (cases "fst m = fst l")
      case True
      have "distinct (map fst ns)" using d(1) by (rule chain_distinct)
      moreover have "m \<in> set ns" "l \<in> set ns" using that True lp snoc by auto
      ultimately have "m = l" using True unfolding distinct_map by (blast dest: inj_onD)
      then show ?thesis using n lp by simp
    next
      case False
      then show ?thesis using that d(3) [of m] p(1) by auto
    qed
    moreover have "endlist \<notin> fst ` set (ns @ [(p, data)])" using d(4) p(2) by fastforce
    ultimately have "list_rep ?s (ns @ [(p, data)], cs)"
      unfolding list_rep_def prod.case using d(5,6) less_SucI [OF d(7)] t by (simp del: map_eq_conv fun_upd_apply)
    then show ?thesis using h False n lp tl by (simp add: adddata_def add_spec_def Let_def)
  qed
qed

lemma freekey_refines:
  assumes r: "list_rep s (ns, cs)"
  shows "\<exists>s'. freekey key s = (fst (free_spec key (ns, cs)), s') \<and> list_rep s' (snd (free_spec key (ns, cs)))"
  using r list_repD(6) [OF r] list_rep_cursor [OF r, of Free "nat key"]
  by (auto simp: freekey_def free_spec_def)

section \<open>Sequences of calls\<close>

text \<open>
  The calls of all threads in the order in which they get the lock. \<open>lk\<close> is the result of
  locking; unlocking what the thread locked does not fail. \<open>rw\<close> chooses the version.
\<close>

datatype list_call =
    Access rc "(nat \<Rightarrow> nat) option"
  | Add rc data_t nat
  | Get rc int bool
  | FreeKey rc int

datatype list_result = RKey "errno + nat" | RDone "errno + unit" | RData "errno + data_t option"

definition list_step :: "bool \<Rightarrow> list_obj \<Rightarrow> list_call \<Rightarrow> (list_result \<times> list_obj) option" where
  "list_step rw s c =
     (case c of
        Access lk mem \<Rightarrow> Some (apfst RKey (if rw then accessdata_rw (\<lambda>_. lk) None mem s else accessdata_r lk None mem s))
      | Add lk data p \<Rightarrow> map_option (apfst RDone) (if rw then adddata_rw (\<lambda>_. lk) None data p s else adddata_r lk None data p s)
      | Get lk key ok \<Rightarrow> map_option (apfst RData) (if rw then getdata_rw (\<lambda>_. lk) None key ok s else getdata_r lk None key ok s)
      | FreeKey lk key \<Rightarrow> Some (apfst RDone (if rw then freekey_rw (\<lambda>_. lk) None key s else freekey_r lk None key s)))"

definition list_spec :: "list_view \<Rightarrow> list_call \<Rightarrow> list_result \<times> list_view" where
  "list_spec a c =
     (case c of
        Access lk mem \<Rightarrow> apfst RKey (case lk of Some e \<Rightarrow> (Inl e, a) | None \<Rightarrow> access_spec mem a)
      | Add lk data p \<Rightarrow> apfst RDone (case lk of Some e \<Rightarrow> (Inl e, a) | None \<Rightarrow> add_spec data p a)
      | Get lk key ok \<Rightarrow> apfst RData (case lk of Some e \<Rightarrow> (Inl e, a) | None \<Rightarrow> get_spec key ok a)
      | FreeKey lk key \<Rightarrow> apfst RDone (case lk of Some e \<Rightarrow> (Inl e, a) | None \<Rightarrow> free_spec key a))"

text \<open>
  \<^verbatim>\<open>malloc\<close> returns memory not in use, and when the array of keys grows, \<^verbatim>\<open>realloc\<close> returns
  cleared memory.
\<close>

definition list_ok :: "list_view \<Rightarrow> list_call \<Rightarrow> bool" where
  "list_ok a c \<longleftrightarrow>
     (case a of (ns, cs) \<Rightarrow>
        (case c of
           Access lk mem \<Rightarrow> Free \<in> set cs \<or> cs = [] \<or> mem = None \<or> mem = Some (\<lambda>_. 0)
         | Add lk data p \<Rightarrow> p = 0 \<or> p \<notin> fst ` set ns \<and> p \<noteq> endlist
         | _ \<Rightarrow> True))"

lemma unlocked_None [simp]: "unlocked None r = r"
  by (auto simp: unlocked_def split: prod.split sum.split)

lemma list_step_refines:
  assumes "list_rep s a" "list_ok a c"
  shows "\<exists>s'. list_step rw s c = Some (fst (list_spec a c), s') \<and> list_rep s' (snd (list_spec a c))"
proof -
  obtain ns cs where a: "a = (ns, cs)" by force
  have u [simp]: "unlocked None = id" by (simp add: fun_eq_iff)
  show ?thesis
  proof (cases c)
    case (Access lk mem)
    then show ?thesis using accessdata_refines [of s ns cs mem] assms a
      by (cases lk) (auto simp: list_step_def list_spec_def list_ok_def accessdata_r_def accessdata_rw_def apfst_def map_prod_def split: prod.split)
  next
    case (Add lk data p)
    then show ?thesis using adddata_refines [of s ns cs p data] assms a
      by (cases lk) (auto simp: list_step_def list_spec_def list_ok_def adddata_r_def adddata_rw_def option.map_id apfst_def map_prod_def split: prod.split)
  next
    case (Get lk key ok)
    then show ?thesis using getdata_refines [of s ns cs key ok] assms a
      by (cases lk) (auto simp: list_step_def list_spec_def getdata_r_def getdata_rw_def option.map_id apfst_def map_prod_def split: prod.split)
  next
    case (FreeKey lk key)
    then show ?thesis using freekey_refines [of s ns cs key] assms a
      by (cases lk) (auto simp: list_step_def list_spec_def freekey_r_def freekey_rw_def apfst_def map_prod_def split: prod.split)
  qed
qed

interpretation list_calls: bounded_refinement list_rep "list_step rw" list_spec list_ok "\<lambda>_. 0" 0 0 for rw
  by unfold_locales (use list_step_refines in auto)

text \<open>The data the calls add, and the data that calls with the key \<open>k\<close> return.\<close>

fun added :: "list_call list \<Rightarrow> data_t list" where
  "added [] = []"
| "added (Add None data p # calls) = (if p = 0 then added calls else data # added calls)"
| "added (_ # calls) = added calls"

fun got :: "int \<Rightarrow> list_call list \<Rightarrow> list_result list \<Rightarrow> data_t option list" where
  "got k (Get lk key ok # calls) (RData (Inr d) # rs) = (if key = k then d # got k calls rs else got k calls rs)"
| "got k (_ # calls) (_ # rs) = got k calls rs"
| "got k _ _ = []"

text \<open>The results of a traversal up to the one that says that it is at the end.\<close>

primrec till_end :: "'a option list \<Rightarrow> 'a option list" where
  "till_end [] = []"
| "till_end (d # ds) = d # (if d = None then [] else till_end ds)"

text \<open>The number of calls that read with the key and get the lock and memory.\<close>

definition reads :: "int \<Rightarrow> list_call list \<Rightarrow> nat" where
  "reads k calls = length (filter (\<lambda>c. c = Get None k True) calls)"

lemma reads_simps [simp]: "reads k [] = 0" "reads k (c # calls) = (if c = Get None k True then 1 else 0) + reads k calls"
  by (simp_all add: reads_def)

lemma list_spec_added: "map snd (fst (snd (list_spec a c))) = map snd (fst a) @ added [c]"
  by (cases a; cases c; cases "case c of Access lk _ \<Rightarrow> lk | Add lk _ _ \<Rightarrow> lk | Get lk _ _ \<Rightarrow> lk | FreeKey lk _ \<Rightarrow> lk")
    (auto simp: list_spec_def access_spec_def add_spec_def get_spec_def free_spec_def Let_def split: cursor.split)

lemma added_Cons: "added (c # calls) = added [c] @ added calls"
  by (cases c; cases "case c of Add lk _ _ \<Rightarrow> lk | _ \<Rightarrow> None") auto

lemma run_spec_added: "map snd (fst (snd (run_spec list_spec a calls))) = map snd (fst a) @ added calls"
proof (induction calls arbitrary: a)
  case (Cons c calls)
  show ?case by (subst added_Cons) (simp add: Cons list_spec_added)
qed simp

section \<open>Traversals\<close>

text \<open>A call that neither reads nor frees a key that is in use leaves the key where it is.\<close>

lemma list_spec_keeps:
  assumes "k < length cs" "cs ! k \<noteq> Free" "\<And>lk ok. c \<noteq> Get lk (int k) ok" "\<And>lk. c \<noteq> FreeKey lk (int k)"
  shows "k < length (snd (snd (list_spec (ns, cs) c))) \<and> snd (snd (list_spec (ns, cs) c)) ! k = cs ! k"
proof (cases c)
  case (Access lk mem)
  have "length (takeWhile (\<lambda>c. c \<noteq> Free) cs) \<noteq> k" if "Free \<in> set cs"
  proof -
    have "length (takeWhile (\<lambda>c. c \<noteq> Free) cs) < length cs" by (rule takeWhile_shorter [OF that]) simp
    from nth_length_takeWhile [OF this] show ?thesis using assms(2) by auto
  qed
  then show ?thesis using Access assms(1)
    by (cases lk) (auto simp: list_spec_def access_spec_def Let_def nth_append)
next
  case (Add lk data p)
  then show ?thesis using assms(1) by (cases lk) (auto simp: list_spec_def add_spec_def)
next
  case (Get lk key ok)
  then have "key < 0 \<or> nat key \<noteq> k" using assms(3) [of lk ok] by auto
  then show ?thesis using Get assms(1) by (cases lk) (auto simp: list_spec_def get_spec_def split: cursor.split)
next
  case (FreeKey lk key)
  then have "key < 0 \<or> nat key \<noteq> k" using assms(4) [of lk] by auto
  then show ?thesis using FreeKey assms(1) by (cases lk) (auto simp: list_spec_def free_spec_def)
qed

lemma list_spec_prefix: "prefix (fst a) (fst (snd (list_spec a c)))"
  by (cases a; cases c; cases "case c of Access lk _ \<Rightarrow> lk | Add lk _ _ \<Rightarrow> lk | Get lk _ _ \<Rightarrow> lk | FreeKey lk _ \<Rightarrow> lk")
    (auto simp: list_spec_def access_spec_def add_spec_def get_spec_def free_spec_def Let_def split: cursor.split)

lemma run_spec_prefix: "prefix (fst a) (fst (snd (run_spec list_spec a calls)))"
proof (induction calls arbitrary: a)
  case (Cons c calls)
  show ?case using prefix_order.trans [OF list_spec_prefix Cons.IH] by simp
qed simp

lemma got_other: "(\<And>lk ok. c \<noteq> Get lk k ok) \<Longrightarrow> got k (c # calls) (r # rs) = got k calls rs"
  by (cases "(k, c # calls, r # rs)" rule: got.cases) auto

lemma trav_stays:
  assumes "k < length cs" "cs ! k \<noteq> Free" "\<And>ok. c \<noteq> Get None (int k) ok" "\<And>lk. c \<noteq> FreeKey lk (int k)"
    "list_spec (ns, cs) c = (r, ns', cs')"
  shows "k < length cs' \<and> cs' ! k = cs ! k \<and> prefix ns ns' \<and> got (int k) (c # calls) (r # rs) = got (int k) calls rs"
proof (cases "\<exists>lk ok. c = Get lk (int k) ok")
  case True
  then obtain e ok where "c = Get (Some e) (int k) ok" using assms(3) by (metis option.exhaust)
  then show ?thesis using assms(1,5) by (auto simp: list_spec_def)
next
  case False
  then show ?thesis using list_spec_keeps [of k cs c ns] list_spec_prefix [of "(ns, cs)" c] assms got_other [of c "int k" calls r rs] by auto
qed

lemma trav_ended:
  assumes "k < length cs" "cs ! k = Ended" "\<And>lk. FreeKey lk (int k) \<notin> set calls"
  shows "prefix (till_end (got (int k) calls (fst (run_spec list_spec (ns, cs) calls)))) [None] \<and>
    min (reads (int k) calls) 1 \<le> length (till_end (got (int k) calls (fst (run_spec list_spec (ns, cs) calls))))"
  using assms
proof (induction calls arbitrary: ns cs)
  case (Cons c calls)
  obtain r ns' cs' where a': "list_spec (ns, cs) c = (r, ns', cs')" by (metis surj_pair)
  have fk: "\<And>lk. c \<noteq> FreeKey lk (int k)" "\<And>lk. FreeKey lk (int k) \<notin> set calls" using Cons.prems(3) by auto
  show ?case
  proof (cases "\<exists>ok. c = Get None (int k) ok")
    case True
    then show ?thesis using Cons.prems(1,2) by (auto simp: list_spec_def get_spec_def)
  next
    case False
    then have "reads (int k) (c # calls) = reads (int k) calls" by auto
    then show ?thesis using False trav_stays [OF Cons.prems(1) _ _ fk(1) a', of calls] Cons.IH [of cs' ns'] Cons.prems(2) fk(2) a' by simp
  qed
qed simp

text \<open>
  From the node \<open>i\<close> on, the calls with the key \<open>k\<close> return the data in order and then the end,
  up to a point \<open>ys\<close> of the growing list that is not before the present one.
\<close>

definition traverses :: "nat \<Rightarrow> nat \<Rightarrow> list_call list \<Rightarrow> list_view \<Rightarrow> bool" where
  "traverses k i calls a \<longleftrightarrow>
     (\<exists>ys. prefix (fst a) ys \<and> prefix ys (fst (snd (run_spec list_spec a calls))) \<and>
        prefix (till_end (got (int k) calls (fst (run_spec list_spec a calls)))) (map (Some \<circ> snd) (drop i ys) @ [None]) \<and>
        min (reads (int k) calls) (Suc (length (drop i ys))) \<le> length (till_end (got (int k) calls (fst (run_spec list_spec a calls)))))"

lemma traverses_stays:
  assumes "traverses k i calls (ns', cs')" "list_spec (ns, cs) c = (r, ns', cs')" "prefix ns ns'"
    "\<And>rs. got (int k) (c # calls) (r # rs) = got (int k) calls rs" "c \<noteq> Get None (int k) True"
  shows "traverses k i (c # calls) (ns, cs)"
proof -
  obtain ys where "prefix ns' ys" "prefix ys (fst (snd (run_spec list_spec (ns', cs') calls)))"
    "prefix (till_end (got (int k) calls (fst (run_spec list_spec (ns', cs') calls)))) (map (Some \<circ> snd) (drop i ys) @ [None])"
    "min (reads (int k) calls) (Suc (length (drop i ys))) \<le> length (till_end (got (int k) calls (fst (run_spec list_spec (ns', cs') calls))))"
    using assms(1) by (auto simp: traverses_def)
  moreover from this have "prefix ns ys" using assms(3) prefix_order.trans by blast
  ultimately show ?thesis unfolding traverses_def using assms(2,4,5) by (intro exI [of _ ys]) simp
qed

lemma traverses_next:
  assumes "traverses k (Suc i) calls (ns, cs')" "list_spec (ns, cs) (Get None (int k) True) = (RData (Inr (Some (snd (ns ! i)))), ns, cs')"
    "i < length ns"
  shows "traverses k i (Get None (int k) True # calls) (ns, cs)"
proof -
  obtain ys where ys: "prefix ns ys" "prefix ys (fst (snd (run_spec list_spec (ns, cs') calls)))"
    "prefix (till_end (got (int k) calls (fst (run_spec list_spec (ns, cs') calls)))) (map (Some \<circ> snd) (drop (Suc i) ys) @ [None])"
    "min (reads (int k) calls) (Suc (length (drop (Suc i) ys))) \<le> length (till_end (got (int k) calls (fst (run_spec list_spec (ns, cs') calls))))"
    using assms(1) by (auto simp: traverses_def)
  have "i < length ys" "ys ! i = ns ! i" using ys(1) assms(3) by (auto simp: prefix_def nth_append)
  then have "drop i ys = ns ! i # drop (Suc i) ys" by (metis Cons_nth_drop_Suc)
  then show ?thesis unfolding traverses_def using ys assms(2) by (intro exI [of _ ys]) simp
qed

lemma traverses_last:
  assumes "prefix (till_end (got (int k) calls (fst (run_spec list_spec (ns, cs') calls)))) [None] \<and>
      min (reads (int k) calls) 1 \<le> length (till_end (got (int k) calls (fst (run_spec list_spec (ns, cs') calls))))"
    "list_spec (ns, cs) (Get None (int k) True) = (RData (Inr (Some (snd (ns ! i)))), ns, cs')" "length ns = Suc i"
  shows "traverses k i (Get None (int k) True # calls) (ns, cs)"
proof -
  have "drop i ns = [ns ! i]" using assms(3) by (metis Cons_nth_drop_Suc drop_all le_refl lessI)
  moreover have "prefix ns (fst (snd (run_spec list_spec (ns, cs') calls)))" using run_spec_prefix [of "(ns, cs')"] by simp
  ultimately show ?thesis unfolding traverses_def using assms(1,2) by (intro exI [of _ ns]) simp
qed

lemma trav_at:
  assumes "k < length cs" "cs ! k = At i" "i < length ns" "\<And>lk. FreeKey lk (int k) \<notin> set calls"
  shows "traverses k i calls (ns, cs)"
  using assms
proof (induction calls arbitrary: ns cs i)
  case Nil
  then show ?case by (auto simp: traverses_def)
next
  case (Cons c calls)
  obtain r ns' cs' where a': "list_spec (ns, cs) c = (r, ns', cs')" by (metis surj_pair)
  have fk: "\<And>lk. c \<noteq> FreeKey lk (int k)" "\<And>lk. FreeKey lk (int k) \<notin> set calls" using Cons.prems(4) by auto
  consider "\<And>ok. c \<noteq> Get None (int k) ok" | "c = Get None (int k) False" | "c = Get None (int k) True" by (metis (full_types))
  then show ?case
  proof cases
    case 1
    from trav_stays [OF Cons.prems(1) _ 1 fk(1) a', of calls] Cons.prems(2)
    have st: "k < length cs'" "cs' ! k = At i" "prefix ns ns'" "\<And>rs. got (int k) (c # calls) (r # rs) = got (int k) calls rs" by simp_all
    have "i < length ns'" using Cons.prems(3) prefix_length_le [OF st(3)] by simp
    from traverses_stays [OF Cons.IH [OF st(1,2) this fk(2)] a' st(3,4)] 1 show ?thesis by blast
  next
    case 2
    then have "r = RData (Inl ENOMEM)" "ns' = ns" "cs' = cs" using a' Cons.prems(1,2) by (auto simp: list_spec_def get_spec_def)
    then show ?thesis using traverses_stays [OF Cons.IH [OF Cons.prems(1,2,3) fk(2)], of ns cs c r] a' 2 by simp
  next
    case 3
    let ?c = "if Suc i < length ns then At (Suc i) else Ended"
    have e: "r = RData (Inr (Some (snd (ns ! i))))" "ns' = ns" "cs' = cs[k := ?c]"
      using a' 3 Cons.prems(1,2) by (auto simp: list_spec_def get_spec_def)
    then have cs': "k < length cs'" "cs' ! k = ?c" using Cons.prems(1) by simp_all
    show ?thesis
    proof (cases "Suc i < length ns")
      case True
      then show ?thesis using traverses_next [OF Cons.IH [OF cs'(1) _ True fk(2)], of cs] cs'(2) a' e 3 Cons.prems(3) by simp
    next
      case False
      then show ?thesis using traverses_last [OF trav_ended [OF cs'(1) _ fk(2)], of ns cs i] cs'(2) a' e 3 Cons.prems(3) by simp
    qed
  qed
qed

section \<open>Properties\<close>

lemma access_spec_key:
  assumes "access_spec mem (ns, cs) = (Inr k, ns', cs')"
  shows "ns' = ns" "ns \<noteq> []" "k < length cs'" "cs' ! k = At 0"
proof -
  have "length (takeWhile (\<lambda>c. c \<noteq> Free) cs) < length cs" if "Free \<in> set cs" by (rule takeWhile_shorter [OF that]) simp
  then show "ns' = ns" "ns \<noteq> []" "k < length cs'" "cs' ! k = At 0"
    using assms by (auto simp: access_spec_def Let_def split: if_splits)
qed

lemma access_traverses:
  assumes "list_spec a (Access None mem) = (RKey (Inr k), a')" "\<And>lk. FreeKey lk (int k) \<notin> set calls"
  shows "\<exists>ds. prefix (map snd (fst a)) ds \<and> prefix ds (map snd (fst a) @ added calls) \<and>
    prefix (till_end (got (int k) calls (fst (run_spec list_spec a' calls)))) (map Some ds @ [None]) \<and>
    min (reads (int k) calls) (Suc (length ds)) \<le> length (till_end (got (int k) calls (fst (run_spec list_spec a' calls))))"
proof -
  obtain ns cs ns' cs' where a: "a = (ns, cs)" "a' = (ns', cs')" by (cases a, cases a')
  have "access_spec mem (ns, cs) = (Inr k, ns', cs')" using assms(1) a by (auto simp: list_spec_def apfst_def map_prod_def split: prod.splits)
  note k = access_spec_key [OF this]
  have "0 < length ns'" using k(1,2) by simp
  from trav_at [OF k(3,4) this assms(2)] obtain ys where ys: "prefix ns' ys" "prefix ys (fst (snd (run_spec list_spec a' calls)))"
    "prefix (till_end (got (int k) calls (fst (run_spec list_spec a' calls)))) (map (Some \<circ> snd) ys @ [None])"
    "min (reads (int k) calls) (Suc (length ys)) \<le> length (till_end (got (int k) calls (fst (run_spec list_spec a' calls))))"
    by (auto simp: traverses_def a)
  have "prefix (map snd ys) (map snd (fst a) @ added calls)"
    using map_mono_prefix [OF ys(2), of snd] run_spec_added [of a' calls] a k(1) by simp
  moreover have "prefix (map snd (fst a)) (map snd ys)" using map_mono_prefix [OF ys(1)] a k(1) by simp
  ultimately show ?thesis using ys(3,4) by (intro exI [of _ "map snd ys"]) simp
qed

lemma list_init_rep: "list_rep list_init ([], [])"
  by (simp add: list_rep_def list_init_def)



text \<open>
  When the array of keys grows, the new slots but one are not set. A key that was never given
  then passes the check of \<^verbatim>\<open>getdata\<close>, which follows whatever the memory holds.
\<close>

lemma list_growth_uninitialised:
  assumes "list_rep s (ns, cs)" "ns \<noteq> []" "cs \<noteq> []" "Free \<notin> set cs" "1 < length cs" "junk 1 \<noteq> 0" "junk 1 \<noteq> endlist" "cells s (junk 1) = None"
  shows "getdata (int (length cs) + 1) True (snd (accessdata (Some junk) s)) = None"
proof -
  have "takeWhile (\<lambda>c. c \<noteq> Free) cs = cs" using assms(4) by (auto simp: takeWhile_eq_all_conv)
  then have i: "slot_loop s 0 = length cs" unfolding slot_loop_rep [OF assms(1)] by (rule arg_cong)
  have h: "headptr s \<noteq> 0" using list_repD(1) [OF assms(1)] assms(2) by (cases ns) auto
  have l: "length (travptrs s) = length cs" "travptrs_size s = length cs" using list_repD(5,6) [OF assms(1)] by simp_all
  have "nat (int (length cs) + 1) = Suc (length cs)" by simp
  then show ?thesis using assms(3,5,6,7,8) h i l by (simp add: accessdata_def getdata_def Let_def nth_append)
qed

end
