(* ===== verification/Restart.thy ===== *)
theory Restart
  imports Prelude Complex_Main
begin

text \<open>
  The restart library of \<^verbatim>\<open>UNIX_Systems_Programming/chapter04/restart.c\<close>. The descriptor that is
  read delivers some bytes and then the end of the file; what is written is appended. The
  kernel decides how each call ends: \<open>answers\<close> lists, for the calls in their order, an error or
  the largest number of bytes minus one that this call moves. A call for which there is no
  answer yet does not return, which is \<open>None\<close>.
\<close>

section \<open>The calls of the system\<close>

datatype io_answer = Fails errno | Moves nat

record fds =
  pending :: string
  sent :: string
  answers :: "io_answer list"

definition sys_read :: "nat \<Rightarrow> fds \<Rightarrow> ((errno + string) \<times> fds) option" where
  "sys_read n w =
     (case answers w of
        [] \<Rightarrow> None
      | Fails e # as \<Rightarrow> Some (Inl e, w\<lparr>answers := as\<rparr>)
      | Moves k # as \<Rightarrow>
          Some (Inr (take (min n (Suc k)) (pending w)), w\<lparr>answers := as, pending := drop (min n (Suc k)) (pending w)\<rparr>))"

definition sys_write :: "string \<Rightarrow> fds \<Rightarrow> ((errno + nat) \<times> fds) option" where
  "sys_write bs w =
     (case answers w of
        [] \<Rightarrow> None
      | Fails e # as \<Rightarrow> Some (Inl e, w\<lparr>answers := as\<rparr>)
      | Moves k # as \<Rightarrow>
          Some (Inr (min (length bs) (Suc k)), w\<lparr>answers := as, sent := sent w @ take (min (length bs) (Suc k)) bs\<rparr>))"

section \<open>Restarted calls\<close>

text \<open>
  The loop \<^verbatim>\<open>while (retval = f(...), retval == -1 && errno == EINTR) ;\<close> around a call \<open>f\<close>. The
  calls of which nothing but this loop matters are arguments.
\<close>

partial_function (option) retry :: "('s \<Rightarrow> ((errno + 'a) \<times> 's) option) \<Rightarrow> 's \<Rightarrow> ((errno + 'a) \<times> 's) option" where
  "retry f s =
     (case f s of
        None \<Rightarrow> None
      | Some (r, s') \<Rightarrow> (case r of Inl e \<Rightarrow> if e = EINTR then retry f s' else Some (r, s') | Inr v \<Rightarrow> Some (r, s')))"

definition r_close :: "(int \<Rightarrow> 's \<Rightarrow> ((errno + int) \<times> 's) option) \<Rightarrow> int \<Rightarrow> 's \<Rightarrow> ((errno + int) \<times> 's) option" where
  "r_close close fildes = retry (close fildes)"

definition r_dup2 :: "(int \<Rightarrow> int \<Rightarrow> 's \<Rightarrow> ((errno + int) \<times> 's) option) \<Rightarrow> int \<Rightarrow> int \<Rightarrow> 's \<Rightarrow> ((errno + int) \<times> 's) option" where
  "r_dup2 dup2 fildes fildes2 = retry (dup2 fildes fildes2)"

definition r_open2 :: "(string \<Rightarrow> int \<Rightarrow> 's \<Rightarrow> ((errno + int) \<times> 's) option) \<Rightarrow> string \<Rightarrow> int \<Rightarrow> 's \<Rightarrow> ((errno + int) \<times> 's) option" where
  "r_open2 opn path oflag = retry (opn path oflag)"

definition r_open3 :: "(string \<Rightarrow> int \<Rightarrow> nat \<Rightarrow> 's \<Rightarrow> ((errno + int) \<times> 's) option) \<Rightarrow> string \<Rightarrow> int \<Rightarrow> nat \<Rightarrow> 's \<Rightarrow> ((errno + int) \<times> 's) option" where
  "r_open3 opn path oflag mode = retry (opn path oflag mode)"

text \<open>The waiting calls give the child and its status.\<close>

definition r_wait :: "('s \<Rightarrow> ((errno + int \<times> int) \<times> 's) option) \<Rightarrow> 's \<Rightarrow> ((errno + int \<times> int) \<times> 's) option" where
  "r_wait wait_call = retry wait_call"

definition r_waitpid :: "(int \<Rightarrow> int \<Rightarrow> 's \<Rightarrow> ((errno + int \<times> int) \<times> 's) option) \<Rightarrow> int \<Rightarrow> int \<Rightarrow> 's \<Rightarrow> ((errno + int \<times> int) \<times> 's) option" where
  "r_waitpid waitpid pid options = retry (waitpid pid options)"

definition r_read :: "nat \<Rightarrow> fds \<Rightarrow> ((errno + string) \<times> fds) option" where
  "r_read n = retry (sys_read n)"

text \<open>\<open>bs\<close> is what is still to be written, \<open>totalbytes\<close> what was.\<close>

partial_function (option) r_write_loop :: "string \<Rightarrow> nat \<Rightarrow> fds \<Rightarrow> ((errno + nat) \<times> fds) option" where
  "r_write_loop bs totalbytes w =
     (if bs = [] then Some (Inr totalbytes, w)
      else
        (case sys_write bs w of
           None \<Rightarrow> None
         | Some (r, w') \<Rightarrow>
             (case r of
                Inl e \<Rightarrow> if e \<noteq> EINTR then Some (Inl e, w') else r_write_loop bs totalbytes w'
              | Inr byteswritten \<Rightarrow> r_write_loop (drop byteswritten bs) (totalbytes + byteswritten) w')))"

definition r_write :: "string \<Rightarrow> fds \<Rightarrow> ((errno + nat) \<times> fds) option" where
  "r_write bs = r_write_loop bs 0"

section \<open>Transfers\<close>

definition BLKSIZE :: nat where
  "BLKSIZE = 4096"

definition readwrite :: "fds \<Rightarrow> ((errno + nat) \<times> fds) option" where
  "readwrite w =
     (case r_read BLKSIZE w of
        None \<Rightarrow> None
      | Some (Inl e, w) \<Rightarrow> Some (Inl e, w)
      | Some (Inr buf, w) \<Rightarrow>
          if buf = [] then Some (Inr 0, w)
          else
            (case r_write buf w of
               None \<Rightarrow> None
             | Some (Inl e, w) \<Rightarrow> Some (Inl e, w)
             | Some (Inr _, w) \<Rightarrow> Some (Inr (length buf), w)))"

text \<open>The count of \<^verbatim>\<open>copyfile\<close> is an \<^verbatim>\<open>int\<close> of 32 bits. An error ends the loop as the end of the file does.\<close>

partial_function (option) copyfile_loop :: "32 word \<Rightarrow> fds \<Rightarrow> (32 word \<times> fds) option" where
  "copyfile_loop totalbytes w =
     (case readwrite w of
        None \<Rightarrow> None
      | Some (r, w') \<Rightarrow>
          (case r of
             Inl e \<Rightarrow> Some (totalbytes, w')
           | Inr bytesread \<Rightarrow>
               if bytesread > 0 then copyfile_loop (totalbytes + of_nat bytesread) w' else Some (totalbytes, w')))"

definition copyfile :: "fds \<Rightarrow> (int \<times> fds) option" where
  "copyfile w = map_option (apfst sint) (copyfile_loop 0 w)"

text \<open>\<open>buf\<close> is what was read so far.\<close>

partial_function (option) readblock_loop :: "nat \<Rightarrow> string \<Rightarrow> fds \<Rightarrow> ((errno + string) \<times> fds) option" where
  "readblock_loop bytestoread buf w =
     (if bytestoread = 0 then Some (Inr buf, w)
      else
        (case sys_read bytestoread w of
           None \<Rightarrow> None
         | Some (r, w') \<Rightarrow>
             (case r of
                Inl e \<Rightarrow> if e \<noteq> EINTR then Some (Inl e, w') else readblock_loop bytestoread buf w'
              | Inr bs \<Rightarrow>
                  if bs = [] \<and> buf = [] then Some (Inr [], w')
                  else if bs = [] then Some (Inl EINVAL, w')
                  else readblock_loop (bytestoread - length bs) (buf @ bs) w')))"

definition readblock :: "nat \<Rightarrow> fds \<Rightarrow> ((errno + string) \<times> fds) option" where
  "readblock n = readblock_loop n []"

definition readwriteblock :: "nat \<Rightarrow> fds \<Rightarrow> ((errno + nat) \<times> fds) option" where
  "readwriteblock n w =
     (case readblock n w of
        None \<Rightarrow> None
      | Some (Inl e, w) \<Rightarrow> Some (Inl e, w)
      | Some (Inr buf, w) \<Rightarrow> if length buf \<noteq> n then Some (Inr (length buf), w) else r_write buf w)"

partial_function (option) readline_loop :: "int \<Rightarrow> string \<Rightarrow> fds \<Rightarrow> ((errno + string) \<times> fds) option" where
  "readline_loop nbytes buf w =
     (if int (length buf) < nbytes - 1 then
        (case sys_read 1 w of
           None \<Rightarrow> None
         | Some (r, w') \<Rightarrow>
             (case r of
                Inl e \<Rightarrow> if e = EINTR then readline_loop nbytes buf w' else Some (Inl e, w')
              | Inr bs \<Rightarrow>
                  if bs = [] then Some (if buf = [] then Inr [] else Inl EINVAL, w')
                  else if last bs = CHR 0x0A then Some (Inr (buf @ bs), w')
                  else readline_loop nbytes (buf @ bs) w'))
      else Some (Inl EINVAL, w))"

definition readline :: "int \<Rightarrow> fds \<Rightarrow> ((errno + string) \<times> fds) option" where
  "readline nbytes = readline_loop nbytes []"

declare retry.simps [code] r_write_loop.simps [code] copyfile_loop.simps [code] readblock_loop.simps [code] readline_loop.simps [code]

section \<open>Calls that are only interrupted\<close>

text \<open>Answers among which the only error is \<^verbatim>\<open>EINTR\<close>, and the number of those that move bytes.\<close>

definition benign :: "io_answer list \<Rightarrow> bool" where
  "benign as \<longleftrightarrow> (\<forall>a \<in> set as. case a of Fails e \<Rightarrow> e = EINTR | Moves _ \<Rightarrow> True)"

definition moves :: "io_answer list \<Rightarrow> nat" where
  "moves as = length (filter (\<lambda>a. case a of Fails _ \<Rightarrow> False | Moves _ \<Rightarrow> True) as)"

lemma benign_simps [simp]:
  "benign []" "benign (Moves k # as) = benign as" "benign (Fails e # as) \<longleftrightarrow> e = EINTR \<and> benign as"
  by (auto simp: benign_def)

lemma moves_simps [simp]: "moves [] = 0" "moves (Moves k # as) = Suc (moves as)" "moves (Fails e # as) = moves as"
  by (simp_all add: moves_def)

text \<open>A read that is restarted takes a part of what is pending that is empty at the end of the file only.\<close>

lemma r_read_ok:
  assumes "benign (answers w)" "0 < moves (answers w)" "0 < n"
  shows "\<exists>m w'. r_read n w = Some (Inr (take m (pending w)), w') \<and> 0 < m \<and> m \<le> n \<and> pending w' = drop m (pending w) \<and>
    sent w' = sent w \<and> benign (answers w') \<and> Suc (moves (answers w')) = moves (answers w)"
  using assms
proof (induction "answers w" arbitrary: w)
  case (Cons a as)
  have w: "answers w = a # as" using Cons.hyps(2) by simp
  show ?case
  proof (cases a)
    case (Moves k)
    then show ?thesis using w Cons.prems(1,3) unfolding r_read_def
      by (subst retry.simps) (auto simp: sys_read_def intro!: exI [of _ "min n (Suc k)"])
  next
    case (Fails e)
    then have "r_read n w = r_read n (w\<lparr>answers := as\<rparr>)" using w Cons.prems(1) unfolding r_read_def
      by (subst retry.simps) (simp add: sys_read_def)
    then show ?thesis using Cons.hyps(1) [of "w\<lparr>answers := as\<rparr>"] Cons.prems w Fails by simp
  qed
qed simp

lemma r_write_ok:
  assumes "benign (answers w)" "length bs \<le> moves (answers w)"
  shows "\<exists>w'. r_write_loop bs t w = Some (Inr (t + length bs), w') \<and> sent w' = sent w @ bs \<and> pending w' = pending w \<and>
    benign (answers w') \<and> moves (answers w) \<le> moves (answers w') + length bs"
  using assms
proof (induction "answers w" arbitrary: w bs t)
  case Nil
  then have "bs = []" by (metis benign_simps(1) le_zero_eq length_0_conv moves_simps(1))
  then show ?case using Nil by (simp add: r_write_loop.simps)
next
  case (Cons a as)
  have w: "answers w = a # as" using Cons.hyps(2) by simp
  show ?case
  proof (cases "bs = []")
    case True
    then show ?thesis using Cons.prems by (simp add: r_write_loop.simps)
  next
    case False
    show ?thesis
    proof (cases a)
      case (Moves k)
      let ?m = "min (length bs) (Suc k)" let ?w = "w\<lparr>answers := as, sent := sent w @ take ?m bs\<rparr>"
      have e: "r_write_loop bs t w = r_write_loop (drop ?m bs) (t + ?m) ?w"
        using False w Moves by (subst r_write_loop.simps) (simp add: sys_write_def)
      have m: "0 < ?m" "?m \<le> length bs" using False by auto
      have "length (drop ?m bs) \<le> moves (answers ?w)" using Cons.prems(2) w Moves m by simp
      from Cons.hyps(1) [of ?w "drop ?m bs" "t + ?m", OF _ _ this] Cons.prems(1) w Moves
      obtain w' where "r_write_loop (drop ?m bs) (t + ?m) ?w = Some (Inr (t + ?m + length (drop ?m bs)), w')" "sent w' = sent ?w @ drop ?m bs"
        "pending w' = pending w" "benign (answers w')" "moves as \<le> moves (answers w') + length (drop ?m bs)" by auto
      then show ?thesis using e m w Moves by (intro exI [of _ w']) (auto simp: min_def)
    next
      case (Fails x)
      let ?w = "w\<lparr>answers := as\<rparr>"
      have "r_write_loop bs t w = r_write_loop bs t ?w"
        using False w Fails Cons.prems(1) by (subst r_write_loop.simps) (simp add: sys_write_def)
      then show ?thesis using Cons.hyps(1) [of ?w bs t] Cons.prems w Fails by simp
    qed
  qed
qed

lemma copyfile_loop_ok:
  assumes "benign (answers w)" "2 * length (pending w) < moves (answers w)"
  shows "\<exists>w'. copyfile_loop t w = Some (t + of_nat (length (pending w)), w') \<and> sent w' = sent w @ pending w \<and> pending w' = []"
  using assms
proof (induction "length (pending w)" arbitrary: w t rule: less_induct)
  case less
  obtain m w1 where r: "r_read BLKSIZE w = Some (Inr (take m (pending w)), w1)" "0 < m" "pending w1 = drop m (pending w)"
    "sent w1 = sent w" "benign (answers w1)" "Suc (moves (answers w1)) = moves (answers w)"
    using r_read_ok [of w BLKSIZE] less.prems by (auto simp: BLKSIZE_def)
  show ?case
  proof (cases "pending w = []")
    case True
    then show ?thesis using r by (subst copyfile_loop.simps) (simp add: readwrite_def)
  next
    case False
    let ?b = "take m (pending w)"
    have b: "?b \<noteq> []" "length ?b \<le> moves (answers w1)" "0 < length ?b" using False r(2,6) less.prems(2) by auto
    from r_write_ok [OF r(5) b(2), of 0] obtain w2 where w2: "r_write ?b w1 = Some (Inr (length ?b), w2)" "sent w2 = sent w @ ?b"
      "pending w2 = drop m (pending w)" "benign (answers w2)" "moves (answers w1) \<le> moves (answers w2) + length ?b"
      using r(3,4) by (auto simp: r_write_def)
    have e: "copyfile_loop t w = copyfile_loop (t + of_nat (length ?b)) w2"
      using r(1) b(1) w2(1) by (subst copyfile_loop.simps) (simp add: readwrite_def)
    have lp: "length (pending w) = length ?b + length (pending w2)" using w2(3) by simp
    then have "length (pending w2) < length (pending w)" "2 * length (pending w2) < moves (answers w2)"
      using b(3) w2(5) r(6) less.prems(2) by linarith+
    from less.hyps [OF this(1) w2(4) this(2), of "t + of_nat (length ?b)"] obtain w' where
      w': "copyfile_loop (t + of_nat (length ?b)) w2 = Some (t + of_nat (length ?b) + of_nat (length (pending w2)), w')"
        "sent w' = sent w2 @ pending w2" "pending w' = []" by blast
    have "sent w' = sent w @ pending w" using w'(2) w2(2,3) by simp
    moreover have "t + of_nat (length ?b) + of_nat (length (pending w2)) = t + of_nat (length (pending w))"
      unfolding lp by (simp only: of_nat_add add.assoc)
    ultimately show ?thesis using e w'(1,3) by (intro exI [of _ w']) simp
  qed
qed

text \<open>A block is read whole, or not at all at the end of the file, or \<^verbatim>\<open>EINVAL\<close> tells that it was cut.\<close>

definition block_result :: "nat \<Rightarrow> string \<Rightarrow> string \<Rightarrow> errno + string" where
  "block_result n buf p =
     (if n \<le> length p then Inr (buf @ take n p) else if buf = [] \<and> p = [] then Inr [] else Inl EINVAL)"

lemma block_result_step:
  assumes "0 < m" "m \<le> n" "p \<noteq> []"
  shows "block_result (n - length (take m p)) (buf @ take m p) (drop m p) = block_result n buf p"
proof -
  have "take m p @ take (n - length (take m p)) (drop m p) = take n p" if "n \<le> length p"
  proof -
    have "length (take m p) = m" using that assms(2) by simp
    then show ?thesis using assms(2) by (simp flip: take_add)
  qed
  moreover have "take m p \<noteq> []" using assms by simp
  ultimately show ?thesis using assms(2,3) by (auto simp: block_result_def)
qed

lemma readblock_loop_ok:
  assumes "benign (answers w)" "n < moves (answers w)"
  shows "\<exists>w'. readblock_loop n buf w = Some (block_result n buf (pending w), w') \<and>
    pending w' = drop n (pending w) \<and> sent w' = sent w \<and> benign (answers w') \<and> moves (answers w) \<le> moves (answers w') + n + 1"
  using assms
proof (induction "answers w" arbitrary: w n buf)
  case (Cons a as)
  have w: "answers w = a # as" using Cons.hyps(2) by simp
  consider "n = 0" | x where "n \<noteq> 0" "a = Fails x" | k where "n \<noteq> 0" "a = Moves k" "pending w = []"
    | k where "n \<noteq> 0" "a = Moves k" "pending w \<noteq> []" by (cases a) auto
  then show ?case
  proof cases
    case 1
    then show ?thesis using Cons.prems by (simp add: readblock_loop.simps block_result_def)
  next
    case 2
    then have "readblock_loop n buf w = readblock_loop n buf (w\<lparr>answers := as\<rparr>)"
      using w Cons.prems(1) by (subst readblock_loop.simps) (simp add: sys_read_def)
    then show ?thesis using Cons.hyps(1) [of "w\<lparr>answers := as\<rparr>" n buf] Cons.prems w 2 by simp
  next
    case 3
    then show ?thesis using w Cons.prems by (subst readblock_loop.simps) (simp add: sys_read_def block_result_def)
  next
    case 4
    let ?m = "min n (Suc k)" let ?w = "w\<lparr>answers := as, pending := drop ?m (pending w)\<rparr>" and ?b = "take ?m (pending w)"
    have b: "?b \<noteq> []" "0 < length ?b" "length ?b \<le> n" "0 < ?m" "?m \<le> n" using 4 by auto
    have e: "readblock_loop n buf w = readblock_loop (n - length ?b) (buf @ ?b) ?w"
      using 4 w b(1) by (subst readblock_loop.simps) (simp add: sys_read_def min_def)
    have "n < Suc (moves as)" using Cons.prems(2) w 4 by simp
    then have "n - length ?b < moves as" using b(2,3) by linarith
    then have "n - length ?b < moves (answers ?w)" by simp
    from Cons.hyps(1) [of ?w "n - length ?b" "buf @ ?b", OF _ _ this] Cons.prems(1) w 4
    obtain w' where w': "readblock_loop (n - length ?b) (buf @ ?b) ?w = Some (block_result (n - length ?b) (buf @ ?b) (drop ?m (pending w)), w')"
      "pending w' = drop (n - length ?b) (drop ?m (pending w))" "sent w' = sent w" "benign (answers w')"
      "moves as \<le> moves (answers w') + (n - length ?b) + 1" by auto
    have "drop (n - length ?b) (drop ?m (pending w)) = drop n (pending w)"
      using b(5) by (cases "?m \<le> length (pending w)") (simp_all add: min_absorb2 del: drop_drop, simp_all)
    moreover have "moves as \<le> moves (answers w') + n" using w'(5) b(2,3) by linarith
    ultimately show ?thesis using e w'(1-4) block_result_step [OF b(4,5) 4(3), of buf] w 4 by (intro exI [of _ w']) simp
  qed
qed simp

lemma readwriteblock_ok:
  assumes "benign (answers w)" "2 * n < moves (answers w)"
  shows "\<exists>w'. readwriteblock n w =
      Some (if n \<le> length (pending w) then Inr n else if pending w = [] then Inr 0 else Inl EINVAL, w') \<and>
    pending w' = drop n (pending w) \<and> sent w' = sent w @ (if n \<le> length (pending w) then take n (pending w) else [])"
proof -
  have "n < moves (answers w)" using assms(2) by simp
  from readblock_loop_ok [OF assms(1) this, of "[]"] obtain w1 where w1: "readblock n w = Some (block_result n [] (pending w), w1)"
    "pending w1 = drop n (pending w)" "sent w1 = sent w" "benign (answers w1)" "moves (answers w) \<le> moves (answers w1) + n + 1"
    by (auto simp: readblock_def)
  show ?thesis
  proof (cases "n \<le> length (pending w)")
    case True
    then have "length (take n (pending w)) \<le> moves (answers w1)" using w1(5) assms(2) by simp
    from r_write_ok [OF w1(4) this, of 0] True w1 show ?thesis by (auto simp: readwriteblock_def block_result_def r_write_def)
  next
    case False
    then show ?thesis using w1 by (auto simp: readwriteblock_def block_result_def)
  qed
qed

text \<open>A line that fits is returned with its newline; nothing at the end of the file; otherwise \<^verbatim>\<open>EINVAL\<close>.\<close>

definition line_result :: "nat \<Rightarrow> string \<Rightarrow> string \<Rightarrow> errno + string" where
  "line_result n buf p =
     (if CHR 0x0A \<in> set (take n p) then Inr (buf @ takeWhile (\<lambda>c. c \<noteq> CHR 0x0A) p @ [CHR 0x0A])
      else if n \<noteq> 0 \<and> buf = [] \<and> p = [] then Inr [] else Inl EINVAL)"

lemma readline_loop_ok:
  assumes "benign (answers w)" "n < moves (answers w)" "nbytes = int (length buf + n) + 1"
  shows "\<exists>w'. readline_loop nbytes buf w = Some (line_result n buf (pending w), w')"
  using assms
proof (induction "answers w" arbitrary: w n buf)
  case (Cons a as)
  have w: "answers w = a # as" using Cons.hyps(2) by simp
  consider "n = 0" | x where "n \<noteq> 0" "a = Fails x" | k where "n \<noteq> 0" "a = Moves k" "pending w = []"
    | k c p n' where "n = Suc n'" "a = Moves k" "pending w = c # p" by (cases a; cases "pending w"; cases n) auto
  then show ?case
  proof cases
    case 1
    then show ?thesis using Cons.prems by (simp add: readline_loop.simps line_result_def)
  next
    case 2
    then have "readline_loop nbytes buf w = readline_loop nbytes buf (w\<lparr>answers := as\<rparr>)"
      using w Cons.prems(1,3) by (subst readline_loop.simps) (simp add: sys_read_def)
    then show ?thesis using Cons.hyps(1) [of "w\<lparr>answers := as\<rparr>" n buf] Cons.prems w 2 by simp
  next
    case 3
    then show ?thesis using w Cons.prems by (subst readline_loop.simps) (simp add: sys_read_def line_result_def)
  next
    case 4
    let ?w = "w\<lparr>answers := as, pending := p\<rparr>"
    have e: "readline_loop nbytes buf w = (if c = CHR 0x0A then Some (Inr (buf @ [c]), ?w) else readline_loop nbytes (buf @ [c]) ?w)"
      using 4 w Cons.prems(3) by (subst readline_loop.simps) (simp add: sys_read_def)
    show ?thesis
    proof (cases "c = CHR 0x0A")
      case True
      then show ?thesis using e 4 by (simp add: line_result_def)
    next
      case False
      then have "line_result n' (buf @ [c]) p = line_result n buf (pending w)" using 4 by (auto simp: line_result_def)
      then show ?thesis using Cons.hyps(1) [of ?w n' "buf @ [c]"] Cons.prems w 4 e False by simp
    qed
  qed
qed simp

section \<open>Time limits\<close>

text \<open>
  The clock gives the times of \<open>clock\<close> one after the other and \<^verbatim>\<open>select\<close> the results of \<open>selects\<close>:
  an error, 0 when the time is up, or the number of descriptors that are ready. \<open>asked\<close> records
  the time limits \<^verbatim>\<open>select\<close> is given. A \<^verbatim>\<open>double\<close> is a real number, without its rounding.
\<close>

definition MILLION :: int where
  "MILLION = 1000000"

definition FD_SETSIZE :: int where
  "FD_SETSIZE = 1024"

record timeval =
  tv_sec :: int
  tv_usec :: int

record timed =
  clock :: "timeval list"
  selects :: "(errno + nat) list"
  asked :: "timeval list"

definition gettimeofday :: "timed \<Rightarrow> (timeval \<times> timed) option" where
  "gettimeofday w = (case clock w of [] \<Rightarrow> None | t # ts \<Rightarrow> Some (t, w\<lparr>clock := ts\<rparr>))"

definition gettimeout :: "timeval \<Rightarrow> timeval \<Rightarrow> errno + timeval" where
  "gettimeout end_time now =
     (let sec = tv_sec end_time - tv_sec now;
          usec = tv_usec end_time - tv_usec now;
          (sec, usec) = (if usec \<ge> MILLION then (sec + 1, usec - MILLION) else (sec, usec));
          (sec, usec) = (if usec < 0 then (sec - 1, usec + MILLION) else (sec, usec))
      in if sec < 0 \<or> (sec = 0 \<and> usec = 0) then Inl ETIME else Inr \<lparr>tv_sec = sec, tv_usec = usec\<rparr>)"

definition to_int :: "real \<Rightarrow> int" where
  "to_int x = (if 0 \<le> x then \<lfloor>x\<rfloor> else \<lceil>x\<rceil>)"

definition add2currenttime :: "real \<Rightarrow> timeval \<Rightarrow> timeval" where
  "add2currenttime seconds now =
     (let sec = tv_sec now + to_int seconds;
          usec = tv_usec now + to_int ((seconds - of_int (to_int seconds)) * 1000000 + 1 / 2)
      in if usec \<ge> MILLION then \<lparr>tv_sec = sec + 1, tv_usec = usec - MILLION\<rparr> else \<lparr>tv_sec = sec, tv_usec = usec\<rparr>)"

text \<open>The loop around \<^verbatim>\<open>select\<close>, with the limit for the next call.\<close>

partial_function (option) wait_loop :: "timeval \<Rightarrow> timeval \<Rightarrow> timed \<Rightarrow> ((errno + unit) \<times> timed) option" where
  "wait_loop end_time timeout w =
     (case selects w of
        [] \<Rightarrow> None
      | r # rs \<Rightarrow>
          (case r of
             Inl e \<Rightarrow>
               if e = EINTR then
                 (case gettimeofday (w\<lparr>selects := rs, asked := asked w @ [timeout]\<rparr>) of
                    None \<Rightarrow> None
                  | Some (now, w') \<Rightarrow>
                      (case gettimeout end_time now of
                         Inl e \<Rightarrow> Some (Inl e, w')
                       | Inr timeout' \<Rightarrow> wait_loop end_time timeout' w'))
               else Some (Inl e, w\<lparr>selects := rs, asked := asked w @ [timeout]\<rparr>)
           | Inr n \<Rightarrow> Some (if n = 0 then Inl ETIME else Inr (), w\<lparr>selects := rs, asked := asked w @ [timeout]\<rparr>)))"

definition waitfdtimed :: "int \<Rightarrow> timeval \<Rightarrow> timed \<Rightarrow> ((errno + unit) \<times> timed) option" where
  "waitfdtimed fd end_time w =
     (if fd < 0 \<or> fd \<ge> FD_SETSIZE then Some (Inl EINVAL, w)
      else
        (case gettimeofday w of
           None \<Rightarrow> None
         | Some (now, w') \<Rightarrow>
             (case gettimeout end_time now of
                Inl e \<Rightarrow> Some (Inl e, w')
              | Inr timeout \<Rightarrow> wait_loop end_time timeout w')))"

definition readtimed :: "int \<Rightarrow> nat \<Rightarrow> real \<Rightarrow> timed \<times> fds \<Rightarrow> ((errno + string) \<times> timed \<times> fds) option" where
  "readtimed fd nbyte seconds st =
     (case st of (w, f) \<Rightarrow>
        (case gettimeofday w of
           None \<Rightarrow> None
         | Some (now, w) \<Rightarrow>
             (case waitfdtimed fd (add2currenttime seconds now) w of
                None \<Rightarrow> None
              | Some (Inl e, w) \<Rightarrow> Some (Inl e, w, f)
              | Some (Inr _, w) \<Rightarrow> map_option (\<lambda>(r, f). (r, w, f)) (r_read nbyte f))))"

declare wait_loop.simps [code]

text \<open>A time in microseconds, and the times whose microseconds are less than a second.\<close>

definition usecs :: "timeval \<Rightarrow> int" where
  "usecs t = tv_sec t * 1000000 + tv_usec t"

definition time_ok :: "timeval \<Rightarrow> bool" where
  "time_ok t \<longleftrightarrow> 0 \<le> tv_usec t \<and> tv_usec t < 1000000"

lemma gettimeout_ok:
  assumes "time_ok end_time" "time_ok now"
  shows "gettimeout end_time now = Inr t \<Longrightarrow> time_ok t \<and> usecs t = usecs end_time - usecs now \<and> usecs now < usecs end_time"
    "gettimeout end_time now = Inl e \<Longrightarrow> e = ETIME \<and> usecs end_time \<le> usecs now"
  using assms by (auto simp: gettimeout_def usecs_def time_ok_def MILLION_def Let_def split: if_splits)

lemma add2currenttime_ok:
  assumes "time_ok now" "0 \<le> seconds"
  shows "time_ok (add2currenttime seconds now)" "\<bar>of_int (usecs (add2currenttime seconds now) - usecs now) - seconds * 1000000\<bar> \<le> (1 / 2 :: real)"
proof -
  define u where "u = \<lfloor>(seconds - of_int \<lfloor>seconds\<rfloor>) * 1000000 + 1 / 2\<rfloor>"
  have f: "0 \<le> seconds - of_int \<lfloor>seconds\<rfloor>" "seconds - of_int \<lfloor>seconds\<rfloor> < 1" by linarith+
  then have "0 \<le> (seconds - of_int \<lfloor>seconds\<rfloor>) * 1000000 + 1 / 2" by simp
  then have t: "to_int ((seconds - of_int \<lfloor>seconds\<rfloor>) * 1000000 + 1 / 2) = u" "to_int seconds = \<lfloor>seconds\<rfloor>"
    using assms(2) by (simp_all add: to_int_def u_def)
  have u: "0 \<le> u" "u \<le> 1000000" using f by (auto simp: floor_le_iff u_def)
  have a: "add2currenttime seconds now =
      (if tv_usec now + u \<ge> 1000000 then \<lparr>tv_sec = tv_sec now + \<lfloor>seconds\<rfloor> + 1, tv_usec = tv_usec now + u - 1000000\<rparr>
       else \<lparr>tv_sec = tv_sec now + \<lfloor>seconds\<rfloor>, tv_usec = tv_usec now + u\<rparr>)"
    unfolding add2currenttime_def t(2) t(1) Let_def MILLION_def by simp
  show "time_ok (add2currenttime seconds now)" using assms(1) u by (simp add: a time_ok_def)
  have "usecs (add2currenttime seconds now) - usecs now = \<lfloor>seconds\<rfloor> * 1000000 + u"
    by (simp add: a usecs_def)
  moreover have "\<bar>of_int u - (seconds - of_int \<lfloor>seconds\<rfloor>) * 1000000\<bar> \<le> (1 / 2 :: real)" unfolding u_def by linarith
  ultimately show "\<bar>of_int (usecs (add2currenttime seconds now) - usecs now) - seconds * 1000000\<bar> \<le> (1 / 2 :: real)"
    by (simp add: algebra_simps)
qed

text \<open>What the last call of \<^verbatim>\<open>select\<close> makes of the wait.\<close>

definition select_result :: "errno + nat \<Rightarrow> errno + unit" where
  "select_result x = (case x of Inl e \<Rightarrow> Inl e | Inr m \<Rightarrow> if m = 0 then Inl ETIME else Inr ())"

lemma wait_loop_ok:
  assumes "time_ok end_time" "\<forall>t \<in> set ts. time_ok t" "selects w = replicate (length ts) (Inl EINTR) @ x # rest" "x \<noteq> Inl EINTR"
    "clock w = ts @ later"
  shows "\<exists>w' us. wait_loop end_time timeout w =
      Some (if \<exists>t \<in> set ts. usecs end_time \<le> usecs t then Inl ETIME else select_result x, w') \<and>
    asked w' = asked w @ timeout # us \<and> (\<forall>u \<in> set us. time_ok u) \<and>
    map usecs us = map (\<lambda>t. usecs end_time - usecs t) (takeWhile (\<lambda>t. usecs t < usecs end_time) ts)"
  using assms
proof (induction ts arbitrary: w timeout)
  case Nil
  then show ?case by (subst wait_loop.simps) (auto simp: select_result_def split: sum.splits)
next
  case (Cons t ts)
  let ?w = "w\<lparr>selects := replicate (length ts) (Inl EINTR) @ x # rest, asked := asked w @ [timeout], clock := ts @ later\<rparr>"
  have e: "wait_loop end_time timeout w =
      (case gettimeout end_time t of Inl e \<Rightarrow> Some (Inl e, ?w) | Inr timeout' \<Rightarrow> wait_loop end_time timeout' ?w)"
    using Cons.prems(3,5) by (subst wait_loop.simps) (simp add: gettimeofday_def)
  have t: "time_ok t" using Cons.prems(2) by simp
  show ?case
  proof (cases "gettimeout end_time t")
    case (Inl x)
    then show ?thesis using e gettimeout_ok(2) [OF Cons.prems(1) t Inl] by auto
  next
    case (Inr t')
    note g = gettimeout_ok(1) [OF Cons.prems(1) t Inr]
    from Cons.IH [of ?w t'] Cons.prems obtain w' us where
      w': "wait_loop end_time t' ?w = Some (if \<exists>t \<in> set ts. usecs end_time \<le> usecs t then Inl ETIME else select_result x, w')"
      "asked w' = asked w @ timeout # t' # us" "\<forall>u \<in> set us. time_ok u"
      "map usecs us = map (\<lambda>t. usecs end_time - usecs t) (takeWhile (\<lambda>t. usecs t < usecs end_time) ts)" by auto
    then show ?thesis using e Inr g by (intro exI [of _ w'] exI [of _ "t' # us"]) auto
  qed
qed

lemma benign_replicate: "benign (replicate n (Moves k))"
  by (induction n) auto

lemma moves_replicate: "moves (replicate n (Moves k)) = n"
  by (induction n) auto

section \<open>Properties\<close>

text \<open>
  C28. However the kernel splits the reads and writes and however often signals interrupt them,
  \<^verbatim>\<open>copyfile\<close> ends with all that was pending copied in order, nothing lost or doubled, and
  returns the number of bytes if it is less than two to the 31st. At most two calls per byte
  and one more have to move something.
\<close>

theorem copyfile_copies_all:
  assumes "benign (answers w)" "2 * length (pending w) < moves (answers w)" "length (pending w) < 2 ^ 31"
  shows "\<exists>w'. copyfile w = Some (int (length (pending w)), w') \<and> sent w' = sent w @ pending w \<and> pending w' = []"
proof -
  obtain w' where w': "copyfile_loop 0 w = Some (of_nat (length (pending w)), w')" "sent w' = sent w @ pending w" "pending w' = []"
    using copyfile_loop_ok [OF assms(1,2), of 0] by auto
  have "sint (of_nat (length (pending w)) :: 32 word) = int (length (pending w))"
    using assms(3) by (simp add: signed_of_nat signed_take_bit_int_eq_self)
  then show ?thesis using w' by (auto simp: copyfile_def)
qed

theorem copyfile_copies_all_witness:
  "\<exists>w'. copyfile \<lparr>pending = ''hello'', sent = '''', answers = Fails EINTR # Moves 2 # Moves 0 # Fails EINTR # replicate 20 (Moves 0)\<rparr> = Some (5, w') \<and>
    sent w' = ''hello'' \<and> pending w' = []"
  using copyfile_copies_all [of "\<lparr>pending = ''hello'', sent = '''', answers = Fails EINTR # Moves 2 # Moves 0 # Fails EINTR # replicate 20 (Moves 0)\<rparr>"]
  by (simp add: benign_replicate moves_replicate)

text \<open>An error of reading that is no interruption looks to the caller like the end of the file.\<close>

lemma copyfile_hides_error:
  assumes "answers w = Fails e # as" "e \<noteq> EINTR"
  shows "copyfile w = Some (0, w\<lparr>answers := as\<rparr>)"
proof -
  have "r_read BLKSIZE w = Some (Inl e, w\<lparr>answers := as\<rparr>)"
    unfolding r_read_def using assms by (subst retry.simps) (simp add: sys_read_def)
  then have "copyfile_loop 0 w = Some (0, w\<lparr>answers := as\<rparr>)" by (subst copyfile_loop.simps) (simp add: readwrite_def)
  then show ?thesis by (simp add: copyfile_def)
qed



end
