(* ===== verification/Printer.thy ===== *)
theory Printer
  imports C_Text "HOL-Library.Sublist"
begin

text \<open>
  The network printer of \<^verbatim>\<open>apue.3e/printer\<close>: the client \<^verbatim>\<open>print.c\<close>, the daemon \<^verbatim>\<open>printd.c\<close> with its
  list of jobs, its spool directory, its list of worker threads and its dialogue with the
  printer, and the functions of \<^verbatim>\<open>util.c\<close>. Jobs and workers are in heaps in which 0 is the null
  pointer. The outcomes of system calls are arguments.
\<close>

section \<open>Constants and structures\<close>

definition FILENMSZ :: nat where "FILENMSZ = 64"
definition USERNM_MAX :: nat where "USERNM_MAX = 64"
definition JOBNM_MAX :: nat where "JOBNM_MAX = 256"
definition IPP_PORT :: nat where "IPP_PORT = 631"
definition IBUFSZ :: nat where "IBUFSZ = 512"
definition HBUFSZ :: nat where "HBUFSZ = 512"
definition IOBUFSZ :: nat where "IOBUFSZ = 8192"
definition PR_TEXT :: "32 word" where "PR_TEXT = 1"
definition SPOOL_JOBFILE :: string where "SPOOL_JOBFILE = ''/var/spool/printer/jobno''"

record printreq =
  rq_size :: "32 word"
  rq_flags :: "32 word"
  usernm :: string
  jobnm :: string

record pjob =
  p_next :: nat
  p_prev :: nat
  jobid :: int
  req :: printreq

record worker_thread =
  w_next :: nat
  w_prev :: nat
  w_tid :: nat
  w_sockfd :: int

text \<open>A file of the request directory holds a whole request or less.\<close>

datatype reqfile = Whole printreq | Cut

record printd =
  pjobs :: "nat \<rightharpoonup> pjob"
  jobhead :: nat
  jobtail :: nat
  nextjob :: "32 word"
  jobfile :: string
  datafiles :: "string \<rightharpoonup> string"
  reqfiles :: "string \<rightharpoonup> reqfile"
  wthreads :: "nat \<rightharpoonup> worker_thread"
  workers :: nat
  reread :: bool
  printer_name :: string

definition sdec :: "int \<Rightarrow> string" where
  "sdec i = (if i < 0 then CHR ''-'' # dec (nat (- i)) else dec (nat i))"

section \<open>Job numbers\<close>

text \<open>
  The number is read into the buffer that still holds the name of the file, and the text is
  not terminated.
\<close>

definition init_request :: "string \<Rightarrow> 32 word" where
  "init_request file =
     (if file = [] then 1 else word_of_int (atol (take FILENMSZ file @ drop (length (take FILENMSZ file)) SPOOL_JOBFILE)))"

definition update_jobno :: "printd \<Rightarrow> printd" where
  "update_jobno s = (let buf = sdec (sint (nextjob s)) in s\<lparr>jobfile := buf @ drop (length buf) (jobfile s)\<rparr>)"

definition get_newjobno :: "printd \<Rightarrow> int \<times> printd" where
  "get_newjobno s =
     (let n = nextjob s + 1 in (sint (nextjob s), s\<lparr>nextjob := if sint n \<le> 0 then 1 else n\<rparr>))"

section \<open>The list of jobs\<close>

definition set_p_next :: "nat \<Rightarrow> nat \<Rightarrow> printd \<Rightarrow> printd run" where
  "set_p_next p v s = run_bind (deref (pjobs s p)) (\<lambda>j. Ret (s\<lparr>pjobs := (pjobs s)(p \<mapsto> j\<lparr>p_next := v\<rparr>)\<rparr>))"

definition set_p_prev :: "nat \<Rightarrow> nat \<Rightarrow> printd \<Rightarrow> printd run" where
  "set_p_prev p v s = run_bind (deref (pjobs s p)) (\<lambda>j. Ret (s\<lparr>pjobs := (pjobs s)(p \<mapsto> j\<lparr>p_prev := v\<rparr>)\<rparr>))"

definition add_job :: "nat \<Rightarrow> printreq \<Rightarrow> int \<Rightarrow> printd \<Rightarrow> printd run" where
  "add_job jp reqp ident s =
     (if jp = 0 then Exits
      else
        let s = s\<lparr>pjobs := (pjobs s)(jp \<mapsto> \<lparr>p_next = 0, p_prev = jobtail s, jobid = ident, req = reqp\<rparr>)\<rparr>
        in if jobtail s = 0 then Ret (s\<lparr>jobhead := jp, jobtail := jp\<rparr>)
           else run_bind (set_p_next (jobtail s) jp s) (\<lambda>s. Ret (s\<lparr>jobtail := jp\<rparr>)))"

definition replace_job :: "nat \<Rightarrow> printd \<Rightarrow> printd run" where
  "replace_job jp s =
     run_bind (set_p_prev jp 0 s) (\<lambda>s.
     run_bind (set_p_next jp (jobhead s) s) (\<lambda>s.
     if jobhead s = 0 then Ret (s\<lparr>jobtail := jp, jobhead := jp\<rparr>)
     else run_bind (set_p_prev (jobhead s) jp s) (\<lambda>s. Ret (s\<lparr>jobhead := jp\<rparr>))))"

definition remove_job :: "nat \<Rightarrow> printd \<Rightarrow> printd run" where
  "remove_job target s =
     run_bind (deref (pjobs s target)) (\<lambda>j.
     run_bind (if p_next j \<noteq> 0 then set_p_prev (p_next j) (p_prev j) s else Ret (s\<lparr>jobtail := p_prev j\<rparr>)) (\<lambda>s.
     run_bind (deref (pjobs s target)) (\<lambda>j.
     if p_prev j \<noteq> 0 then set_p_next (p_prev j) (p_next j) s else Ret (s\<lparr>jobhead := p_next j\<rparr>))))"

definition free_job :: "nat \<Rightarrow> printd \<Rightarrow> printd" where
  "free_job jp s = s\<lparr>pjobs := (pjobs s)(jp := None)\<rparr>"

text \<open>
  Each entry of the request directory, in the order of the directory: its name, whether it can
  be opened, and the address for a new job.
\<close>

fun build_qonstart :: "(string \<times> bool \<times> nat) list \<Rightarrow> printd \<Rightarrow> printd run" where
  "build_qonstart [] s = Ret s"
| "build_qonstart ((name, opens, jp) # es) s =
     (if name = ''.'' \<or> name = ''..'' then build_qonstart es s
      else
        (case (if opens then reqfiles s name else None) of
           None \<Rightarrow> build_qonstart es s
         | Some Cut \<Rightarrow> build_qonstart es (s\<lparr>reqfiles := (reqfiles s)(name := None), datafiles := (datafiles s)(name := None)\<rparr>)
         | Some (Whole r) \<Rightarrow>
             run_bind (add_job jp r (sint (word_of_int (atol name) :: 32 word)) s) (build_qonstart es)))"

section \<open>The worker threads\<close>

definition add_worker :: "nat \<Rightarrow> nat \<Rightarrow> int \<Rightarrow> printd \<Rightarrow> printd run" where
  "add_worker wtp tid sockfd s =
     (if wtp = 0 then Ret s
      else
        let s = s\<lparr>wthreads := (wthreads s)(wtp \<mapsto> \<lparr>w_next = workers s, w_prev = 0, w_tid = tid, w_sockfd = sockfd\<rparr>)\<rparr>
        in if workers s = 0 then Ret (s\<lparr>workers := wtp\<rparr>)
           else run_bind (deref (wthreads s (workers s))) (\<lambda>w.
             Ret (s\<lparr>wthreads := (wthreads s)(workers s \<mapsto> w\<lparr>w_prev := wtp\<rparr>)\<rparr>)))"

text \<open>The threads that are cancelled, following the list.\<close>

partial_function (option) kill_loop :: "printd \<Rightarrow> nat \<Rightarrow> nat list \<Rightarrow> nat list run option" where
  "kill_loop s wtp done_tids =
     (if wtp = 0 then Some (Ret done_tids)
      else case wthreads s wtp of None \<Rightarrow> Some Wild | Some w \<Rightarrow> kill_loop s (w_next w) (done_tids @ [w_tid w]))"

definition kill_workers :: "printd \<Rightarrow> nat list run option" where
  "kill_workers s = kill_loop s (workers s) []"

partial_function (option) find_worker :: "nat \<Rightarrow> printd \<Rightarrow> nat \<Rightarrow> nat run option" where
  "find_worker tid s wtp =
     (if wtp = 0 then Some (Ret 0)
      else case wthreads s wtp of
        None \<Rightarrow> Some Wild
      | Some w \<Rightarrow> if w_tid w = tid then Some (Ret wtp) else find_worker tid s (w_next w))"

definition unlink_worker :: "nat \<Rightarrow> worker_thread \<Rightarrow> printd \<Rightarrow> printd run" where
  "unlink_worker wtp w s =
     run_bind
       (if w_next w \<noteq> 0
        then run_bind (deref (wthreads s (w_next w))) (\<lambda>n.
          Ret (s\<lparr>wthreads := (wthreads s)(w_next w \<mapsto> n\<lparr>w_prev := w_prev w\<rparr>)\<rparr>))
        else Ret s)
       (\<lambda>s. if w_prev w \<noteq> 0
        then run_bind (deref (wthreads s (w_prev w))) (\<lambda>n.
          Ret (s\<lparr>wthreads := (wthreads s)(w_prev w \<mapsto> n\<lparr>w_next := w_next w\<rparr>)\<rparr>))
        else Ret (s\<lparr>workers := w_next w\<rparr>))"

text \<open>The socket that is closed, if the thread was in the list.\<close>

definition client_cleanup :: "nat \<Rightarrow> printd \<Rightarrow> (int option \<times> printd) run option" where
  "client_cleanup tid s =
     map_option (\<lambda>r. run_bind r (\<lambda>wtp.
       if wtp = 0 then Ret (None, s)
       else run_bind (deref (wthreads s wtp)) (\<lambda>w.
         run_bind (unlink_worker wtp w s) (\<lambda>s.
         Ret (Some (w_sockfd w), s\<lparr>wthreads := (wthreads s)(wtp := None)\<rparr>)))))
     (find_worker tid s (workers s))"

text \<open>\<open>Inl\<close> tells that the daemon ends and which workers it cancelled.\<close>

datatype signal = SIGHUP | SIGTERM | OtherSig

definition signal_thread :: "signal \<Rightarrow> printd \<Rightarrow> (nat list + printd) run option" where
  "signal_thread sg s =
     (case sg of
        SIGHUP \<Rightarrow> Some (Ret (Inr (s\<lparr>reread := True\<rparr>)))
      | _ \<Rightarrow> map_option (\<lambda>r. run_bind r (\<lambda>ts. Ret (Inl ts))) (kill_workers s))"

declare kill_loop.simps [code] find_worker.simps [code]

section \<open>Accepting a job\<close>

text \<open>How a call of \<^verbatim>\<open>write\<close> ends: all bytes, fewer, or an error.\<close>

datatype wres = WAll | WShort | WErr errno

definition wres_error :: "wres \<Rightarrow> errno" where
  "wres_error w = (case w of WErr e \<Rightarrow> e | _ \<Rightarrow> EIO)"

text \<open>
  What happens to one request: the addresses that \<^verbatim>\<open>malloc\<close> returns, the header (an error, too
  few bytes, or a whole one), the chunks of data that arrive until a read returns nothing or
  fails, what the buffer held before, and the results of creating and writing the files.
\<close>

record client_env =
  ce_tid :: nat
  ce_sockfd :: int
  ce_wtp :: nat
  ce_hdr :: "errno + printreq option"
  ce_creat :: rc
  ce_chunks :: "string list"
  ce_stale :: string
  ce_writes :: "wres list"
  ce_creat_req :: rc
  ce_write_req :: wres
  ce_jp :: nat

fun spool_data :: "wres list \<Rightarrow> string list \<Rightarrow> string \<Rightarrow> errno + string" where
  "spool_data ws [] written = Inr written"
| "spool_data [] (c # cs) written = spool_data [] cs (written @ c)"
| "spool_data (w # ws) (c # cs) written = (if w = WAll then spool_data ws cs (written @ c) else Inl (wres_error w))"

unbundle bit_operations_syntax

definition text_flag :: "string \<Rightarrow> string list \<Rightarrow> 32 word \<Rightarrow> 32 word" where
  "text_flag stale chunks flags =
     (case chunks of
        [] \<Rightarrow> flags
      | c # _ \<Rightarrow> if take 4 (c @ drop (length c) stale) \<noteq> ''%!PS'' then flags OR PR_TEXT else flags)"

definition client_request :: "client_env \<Rightarrow> printd \<Rightarrow> ((errno + int) \<times> printd) run" where
  "client_request env s =
     (case ce_hdr env of
        Inl e \<Rightarrow> Ret (Inl e, s)
      | Inr None \<Rightarrow> Ret (Inl EIO, s)
      | Inr (Some r) \<Rightarrow>
          let (ident, s) = get_newjobno s; name = sdec ident
          in case ce_creat env of
               Some e \<Rightarrow> Ret (Inl e, s)
             | None \<Rightarrow>
                 (case spool_data (ce_writes env) (ce_chunks env) [] of
                    Inl e \<Rightarrow> Ret (Inl e, s\<lparr>datafiles := (datafiles s)(name := None)\<rparr>)
                  | Inr d \<Rightarrow>
                      let r = r\<lparr>rq_flags := text_flag (ce_stale env) (ce_chunks env) (rq_flags r)\<rparr>
                      in case ce_creat_req env of
                           Some e \<Rightarrow> Ret (Inl e, s\<lparr>datafiles := (datafiles s)(name := None)\<rparr>)
                         | None \<Rightarrow>
                             if ce_write_req env \<noteq> WAll
                             then Ret (Inl (wres_error (ce_write_req env)),
                               s\<lparr>datafiles := (datafiles s)(name := None), reqfiles := (reqfiles s)(name := None)\<rparr>)
                             else
                               let s = s\<lparr>datafiles := (datafiles s)(name \<mapsto> d), reqfiles := (reqfiles s)(name \<mapsto> Whole r)\<rparr>
                               in run_bind (add_job (ce_jp env) r ident s) (\<lambda>s. Ret (Inr ident, s))))"

text \<open>The thread enters itself in the list of workers, and its clean-up handler always runs.\<close>

definition client_thread :: "client_env \<Rightarrow> printd \<Rightarrow> ((errno + int) \<times> int option \<times> printd) run option" where
  "client_thread env s =
     (case run_bind (add_worker (ce_wtp env) (ce_tid env) (ce_sockfd env) s)
         (\<lambda>s. if ce_wtp env = 0 then Ret (Inl ENOMEM, s) else client_request env s) of
        Ret (reply, s) \<Rightarrow> map_option (\<lambda>r. run_bind r (\<lambda>(sock, s). Ret (reply, sock, s))) (client_cleanup (ce_tid env) s)
      | Exits \<Rightarrow> Some Exits
      | Wild \<Rightarrow> Some Wild)"

section \<open>The headers for the printer\<close>

definition be16 :: "nat \<Rightarrow> string" where
  "be16 n = [char_of (n div 256 mod 256), char_of (n mod 256)]"

definition be32 :: "int \<Rightarrow> string" where
  "be32 i = (let n = nat (i mod 2 ^ 32) in be16 (n div 65536) @ be16 (n mod 65536))"

definition add_option :: "nat \<Rightarrow> string \<Rightarrow> string \<Rightarrow> string" where
  "add_option tag optname optval = char_of tag # be16 (length optname) @ optname @ be16 (length optval) @ optval"

definition is_text :: "printreq \<Rightarrow> bool" where
  "is_text r \<longleftrightarrow> rq_flags r AND PR_TEXT \<noteq> 0"

definition printer_uri :: "string \<Rightarrow> string" where
  "printer_uri pname = ''http://'' @ pname @ ''/ipp''"

definition ipp_header :: "string \<Rightarrow> int \<Rightarrow> printreq \<Rightarrow> string" where
  "ipp_header pname ident r =
     [char_of (1 :: nat), char_of (1 :: nat)] @ be16 2 @ be32 ident @ [char_of (1 :: nat)] @
     add_option 0x47 ''attributes-charset'' ''utf-8'' @
     add_option 0x48 ''attributes-natural-language'' ''en-us'' @
     add_option 0x45 ''printer-uri'' (printer_uri pname) @
     add_option 0x42 ''requesting-user-name'' (usernm r) @
     add_option 0x42 ''job-name'' (jobnm r) @
     add_option 0x49 ''document-format'' (if is_text r then ''text/plain'' else ''application/postscript'') @
     [char_of (3 :: nat)]"

definition CRLF :: string where
  "CRLF = [CHR 0x0D, CHR 0x0A]"

definition http_header :: "string \<Rightarrow> nat \<Rightarrow> string" where
  "http_header pname len =
     ''POST /ipp HTTP/1.1'' @ CRLF @ ''Content-Length: '' @ dec len @ CRLF @ ''Content-Type: application/ipp'' @ CRLF @
     ''Host: '' @ pname @ '':'' @ dec IPP_PORT @ CRLF @ CRLF"

section \<open>Printing a job\<close>

text \<open>
  What happens to one job: the name of the printer if the configuration is read again (\<open>None\<close>
  when there is none), and whether each call succeeds.
\<close>

record print_env =
  pe_printer :: "string option"
  pe_open :: bool
  pe_fstat :: bool
  pe_connect :: bool
  pe_writev :: bool
  pe_write :: bool
  pe_copy :: bool
  pe_status :: bool

datatype print_end = Waiting | Cancelled int | Deferred int | Printed int

text \<open>
  The headers are built in buffers of fixed size on the stack. \<open>Inr\<close> is all that was sent, when
  it was sent completely.
\<close>

definition send_job :: "print_env \<Rightarrow> string \<Rightarrow> pjob \<Rightarrow> string \<Rightarrow> string option run" where
  "send_job env pname j d =
     (let ipp = ipp_header pname (jobid j) (req j);
          extra = (if is_text (req j) then [CHR 0x08] else []);
          http = http_header pname (length d + length ipp + length extra)
      in if 64 \<le> length (printer_uri pname) \<or> IBUFSZ < length ipp \<or> HBUFSZ < length http then Wild
         else if \<not> pe_writev env \<or> is_text (req j) \<and> \<not> pe_write env \<or> \<not> pe_copy env then Ret None
         else Ret (Some (http @ ipp @ extra @ d)))"

definition defer_job :: "nat \<Rightarrow> pjob \<Rightarrow> string option \<Rightarrow> printd \<Rightarrow> (print_end \<times> string option \<times> printd) run" where
  "defer_job jp j sent s = run_bind (replace_job jp s) (\<lambda>s. Ret (Deferred (jobid j), sent, s))"

definition print_job :: "print_env \<Rightarrow> nat \<Rightarrow> pjob \<Rightarrow> printd \<Rightarrow> (print_end \<times> string option \<times> printd) run" where
  "print_job env jp j s =
     (let name = sdec (jobid j)
      in case (if pe_open env \<and> pe_fstat env then datafiles s name else None) of
           None \<Rightarrow> Ret (Cancelled (jobid j), None, free_job jp s)
         | Some d \<Rightarrow>
             if \<not> pe_connect env then defer_job jp j None s
             else run_bind (send_job env (printer_name s) j d) (\<lambda>sent.
               if sent \<noteq> None \<and> pe_status env
               then Ret (Printed (jobid j), sent,
                 free_job jp (s\<lparr>datafiles := (datafiles s)(name := None), reqfiles := (reqfiles s)(name := None)\<rparr>))
               else defer_job jp j sent s))"

definition printer_thread :: "print_env \<Rightarrow> printd \<Rightarrow> (print_end \<times> string option \<times> printd) run" where
  "printer_thread env s =
     (if jobhead s = 0 then Ret (Waiting, None, s)
      else
        let jp = jobhead s
        in run_bind (remove_job jp s) (\<lambda>s.
           run_bind (deref (pjobs s jp)) (\<lambda>j.
           let s = update_jobno s
           in run_bind
                (if reread s then
                   (case pe_printer env of None \<Rightarrow> Exits | Some n \<Rightarrow> Ret (s\<lparr>reread := False, printer_name := n\<rparr>))
                 else Ret s)
                (print_job env jp j))))"

end
