(* ===== verification/Printer_Status.thy ===== *)
theory Printer_Status
  imports Printer
begin

text \<open>
  How \<^verbatim>\<open>printd.c\<close> reads the answer of the printer, and the functions of \<^verbatim>\<open>util.c\<close> and \<^verbatim>\<open>print.c\<close> that
  read with a time limit, read the configuration and build a request. What arrives from the
  network is a list of pieces; a read gives the next one, or fails when there is none. Buffers
  are lists of their whole size, so that an index beyond them is seen.
\<close>

section \<open>Reading with a time limit\<close>

text \<open>
  \<^verbatim>\<open>tread\<close>: the result of \<^verbatim>\<open>select\<close> decides whether the descriptor is read. A piece that does not
  fit stays for the next call.
\<close>

datatype piece = Late | Broken errno | Data string

fun tread :: "nat \<Rightarrow> piece list \<Rightarrow> (errno + string) \<times> piece list" where
  "tread n [] = (Inl ETIME, [])"
| "tread n (Late # ps) = (Inl ETIME, ps)"
| "tread n (Broken e # ps) = (Inl e, ps)"
| "tread n (Data d # ps) = (Inr (take n d), if length d \<le> n then ps else Data (drop n d) # ps)"

text \<open>\<open>got\<close> is what was read, \<open>nleft\<close> the number of bytes that are missing.\<close>

partial_function (option) treadn_loop :: "nat \<Rightarrow> string \<Rightarrow> piece list \<Rightarrow> ((errno + string) \<times> piece list) option" where
  "treadn_loop nleft got ps =
     (if nleft = 0 then Some (Inr got, ps)
      else
        (case tread nleft ps of
           (r, ps') \<Rightarrow>
             (case r of
                Inl e \<Rightarrow> Some (if got = [] then Inl e else Inr got, ps')
              | Inr d \<Rightarrow> if d = [] then Some (Inr got, ps') else treadn_loop (nleft - length d) (got @ d) ps')))"

definition treadn :: "nat \<Rightarrow> piece list \<Rightarrow> ((errno + string) \<times> piece list) option" where
  "treadn nbytes ps = treadn_loop nbytes [] ps"

section \<open>The configuration file\<close>

definition MAXCFGLINE :: nat where "MAXCFGLINE = 512"
definition MAXKWLEN :: nat where "MAXKWLEN = 16"

text \<open>\<^verbatim>\<open>fgets\<close>: at most 511 characters, up to and with a newline.\<close>

definition fgets :: "string \<Rightarrow> string \<times> string" where
  "fgets f =
     (let line = takeWhile (\<lambda>c. c \<noteq> CHR 0x0A) f;
          n = min (MAXCFGLINE - 1) (length line + 1)
      in (take n f, drop n f))"

text \<open>\<^verbatim>\<open>sscanf\<close> with the pattern \<^verbatim>\<open>%15s %511s\<close>, if it converts both words.\<close>

definition scan_word :: "nat \<Rightarrow> string \<Rightarrow> string \<times> string" where
  "scan_word n l =
     (let t = dropWhile is_space l; w = take n (takeWhile (\<lambda>c. \<not> is_space c) t) in (w, drop (length w) t))"

definition scan_line :: "string \<Rightarrow> (string \<times> string) option" where
  "scan_line l =
     (let (k, t) = scan_word (MAXKWLEN - 1) l; (v, _) = scan_word (MAXCFGLINE - 1) t
      in if k = [] \<or> v = [] then None else Some (k, v))"

lemma length_drop_fgets: "f \<noteq> [] \<Longrightarrow> length (snd (fgets f)) < length f"
  by (simp add: fgets_def Let_def MAXCFGLINE_def)

function scan_configfile :: "string \<Rightarrow> string \<Rightarrow> string option" where
  "scan_configfile keyword f =
     (if f = [] then None
      else
        (case scan_line (fst (fgets f)) of
           Some (k, v) \<Rightarrow> if keyword = k then Some v else scan_configfile keyword (snd (fgets f))
         | None \<Rightarrow> scan_configfile keyword (snd (fgets f))))"
  by auto
termination by (relation "measure (\<lambda>(k, f). length f)") (auto simp: length_drop_fgets)

declare scan_configfile.simps [simp del]

definition get_printserver :: "string \<Rightarrow> string option" where
  "get_printserver f = scan_configfile ''printserver'' f"

text \<open>
  \<open>look\<close> is \<^verbatim>\<open>getaddrinfo\<close> for the service of the printer: \<open>None\<close> without an address, otherwise the
  canonical name of the first one, which may be missing.
\<close>

definition get_printaddr :: "(string \<Rightarrow> string option option) \<Rightarrow> string \<Rightarrow> string option option" where
  "get_printaddr look f = (case scan_configfile ''printer'' f of None \<Rightarrow> None | Some p \<Rightarrow> look p)"

definition init_printer :: "(string \<Rightarrow> string option option) \<Rightarrow> string \<Rightarrow> printd \<Rightarrow> printd run" where
  "init_printer look f s =
     (case get_printaddr look f of
        None \<Rightarrow> Exits
      | Some cn \<Rightarrow> Ret (s\<lparr>printer_name := (case cn of None \<Rightarrow> ''printer'' | Some n \<Rightarrow> n)\<rparr>))"

section \<open>The request of a client\<close>

definition make_request :: "string option \<Rightarrow> string \<Rightarrow> nat \<Rightarrow> bool \<Rightarrow> printreq" where
  "make_request pw_name fname nbytes as_text =
     \<lparr>rq_size = of_nat nbytes,
      rq_flags = (if as_text then PR_TEXT else 0),
      usernm = (case pw_name of None \<Rightarrow> ''unknown'' | Some n \<Rightarrow> take (USERNM_MAX - 1) n),
      jobnm = (let len = length fname in
        if len \<ge> JOBNM_MAX then ''... '' @ take (JOBNM_MAX - 5) (drop (len - JOBNM_MAX + 5) fname) else fname)\<rparr>"

text \<open>
  The file is sent in chunks. A read that fails returns -1, which the code passes on as the
  number of bytes to write: the call then reads far beyond the buffer.
\<close>

fun send_file :: "wres list \<Rightarrow> (errno + string) list \<Rightarrow> string \<Rightarrow> string run" where
  "send_file ws [] sent = Ret sent"
| "send_file ws (Inl e # rs) sent = Wild"
| "send_file ws (Inr d # rs) sent =
     (if d = [] then Ret sent
      else
        (case ws of
           [] \<Rightarrow> send_file [] rs (sent @ d)
         | w # ws \<Rightarrow> if w = WAll then send_file ws rs (sent @ d) else Exits))"

text \<open>
  \<open>resp\<close> is the response of the daemon when it was read completely: its return code and the
  number of the job. The result is what was sent and the number that is printed.
\<close>

definition submit_file ::
    "string option \<Rightarrow> string \<Rightarrow> nat \<Rightarrow> bool \<Rightarrow> wres \<Rightarrow> wres list \<Rightarrow> (errno + string) list \<Rightarrow> (int \<times> int) option \<Rightarrow>
     (printreq \<times> string \<times> int) run" where
  "submit_file pw_name fname nbytes as_text hdr ws rs resp =
     (if hdr \<noteq> WAll then Exits
      else
        run_bind (send_file ws rs []) (\<lambda>sent.
        case resp of
          None \<Rightarrow> Exits
        | Some (retcode, ident) \<Rightarrow>
            if retcode \<noteq> 0 then Exits else Ret (make_request pw_name fname nbytes as_text, sent, ident)))"

section \<open>The answer of the printer\<close>

text \<open>Reading and writing one character of a buffer.\<close>

definition peek :: "string \<Rightarrow> nat \<Rightarrow> char run" where
  "peek bp i = (if i < length bp then Ret (bp ! i) else Wild)"

definition poke :: "string \<Rightarrow> nat \<Rightarrow> char \<Rightarrow> string run" where
  "poke bp i c = (if i < length bp then Ret (bp[i := c]) else Wild)"

text \<open>\<^verbatim>\<open>while (P(*cp)) cp++\<close>\<close>

definition skip_while :: "(char \<Rightarrow> bool) \<Rightarrow> string \<Rightarrow> nat \<Rightarrow> nat run" where
  "skip_while P bp i =
     (let n = i + length (takeWhile P (drop i bp)) in if n < length bp then Ret n else Wild)"

text \<open>Data read into a buffer at an offset.\<close>

definition put_at :: "nat \<Rightarrow> string \<Rightarrow> string \<Rightarrow> string" where
  "put_at off d bp = take off bp @ d @ drop (off + length d) bp"

text \<open>
  \<^verbatim>\<open>readmore\<close>: the buffer grows when it is full; \<open>junk\<close> is what the new part holds. \<open>None\<close> is the
  result -1, otherwise the result is the offset of the end of the data.
\<close>

definition readmore :: "(nat \<Rightarrow> char) \<Rightarrow> string \<Rightarrow> nat \<Rightarrow> piece list \<Rightarrow> nat option \<times> string \<times> piece list" where
  "readmore junk bp off ps =
     (let bp = (if off \<ge> length bp then bp @ map junk [0..<IOBUFSZ] else bp)
      in case tread (length bp - off) ps of
           (Inl e, ps) \<Rightarrow> (None, bp, ps)
         | (Inr d, ps) \<Rightarrow> if d = [] then (None, bp, ps) else (Some (off + length d), put_at off d bp, ps))"

text \<open>\<^verbatim>\<open>strncasecmp(cp, "Content-Length:", 15) == 0\<close>; a comparison that does not fail before the end of the buffer reads beyond it.\<close>

definition lower :: "char \<Rightarrow> char" where
  "lower c = (let n = of_char c :: nat in if 65 \<le> n \<and> n \<le> 90 then char_of (n + 32) else c)"

definition is_clen :: "string \<Rightarrow> nat \<Rightarrow> bool run" where
  "is_clen bp i =
     (let w = map lower (take 15 (drop i bp))
      in if \<not> prefix w ''content-length:'' then Ret False else if length w < 15 then Wild else Ret True)"

text \<open>\<^verbatim>\<open>while (*cp != 'C' && *cp != 'c' && i < datsz)\<close>: the character is looked at before the index.\<close>

function find_c :: "string \<Rightarrow> nat \<Rightarrow> nat \<Rightarrow> nat run" where
  "find_c bp datsz i =
     (if i < length bp then
        (if bp ! i \<noteq> CHR ''C'' \<and> bp ! i \<noteq> CHR ''c'' \<and> i < datsz then find_c bp datsz (i + 1) else Ret i)
      else Wild)"
  by auto
termination by (relation "measure (\<lambda>(bp, datsz, i). length bp - i)") auto

declare find_c.simps [simp del]

text \<open>
  The state of the dialogue: the buffer, the size of the data as the function counts it, the
  index and the pieces to come. \<open>None\<close> in \<open>more_if\<close> stands for \<^verbatim>\<open>goto out\<close>.
\<close>

type_synonym scan = "string \<times> nat \<times> nat \<times> piece list"

definition more_if :: "(nat \<Rightarrow> char) \<Rightarrow> bool \<Rightarrow> scan \<Rightarrow> scan option" where
  "more_if junk b st =
     (case st of (bp, datsz, i, ps) \<Rightarrow>
        if b then (case readmore junk bp i ps of (None, bp, ps) \<Rightarrow> None | (Some nr, bp, ps) \<Rightarrow> Some (bp, datsz + nr, i, ps))
        else Some st)"

text \<open>The loop that looks for the length; the result has the length and stands behind it.\<close>

partial_function (option) clen_loop :: "(nat \<Rightarrow> char) \<Rightarrow> scan \<Rightarrow> (int \<times> scan) option run option" where
  "clen_loop junk st =
     (case st of (bp, datsz, i, ps) \<Rightarrow>
        (case find_c bp datsz i of
           Wild \<Rightarrow> Some Wild
         | Exits \<Rightarrow> Some Exits
         | Ret i \<Rightarrow>
             (case more_if junk (i \<ge> datsz) (bp, datsz, i, ps) of
                None \<Rightarrow> Some (Ret None)
              | Some (bp, datsz, i, ps) \<Rightarrow>
                  (case is_clen bp i of
                     Wild \<Rightarrow> Some Wild
                   | Exits \<Rightarrow> Some Exits
                   | Ret b \<Rightarrow>
                       if b then
                         Some (run_bind (skip_while is_space bp (i + 15)) (\<lambda>c.
                           run_bind (skip_while is_digit bp c) (\<lambda>e.
                           run_bind (poke bp e CHR 0x00) (\<lambda>bp.
                           Ret (Some (atol (take (e - c) (drop c bp)), bp, datsz, e + 1, ps))))))
                       else clen_loop junk (bp, datsz, i + 1, ps)))))"

text \<open>\<^verbatim>\<open>while (i < datsz - 2)\<close>: whether the end of the header was found, and where.\<close>

function end_scan :: "string \<Rightarrow> nat \<Rightarrow> nat \<Rightarrow> (bool \<times> nat) run" where
  "end_scan bp datsz i =
     (if int i < int datsz - 2 then
        (if i + 2 < length bp then
           (if bp ! i = CHR 0x0A \<and> bp ! (i + 1) = CHR 0x0D \<and> bp ! (i + 2) = CHR 0x0A then Ret (True, i + 3)
            else end_scan bp datsz (i + 1))
         else Wild)
      else Ret (False, i))"
  by auto
termination by (relation "measure (\<lambda>(bp, datsz, i). datsz - i)") auto

declare end_scan.simps [simp del]

partial_function (option) end_loop :: "(nat \<Rightarrow> char) \<Rightarrow> scan \<Rightarrow> scan option run option" where
  "end_loop junk st =
     (case st of (bp, datsz, i, ps) \<Rightarrow>
        (case end_scan bp datsz i of
           Wild \<Rightarrow> Some Wild
         | Exits \<Rightarrow> Some Exits
         | Ret (found, i) \<Rightarrow>
             (case more_if junk (i \<ge> datsz) (bp, datsz, i, ps) of
                None \<Rightarrow> Some (Ret None)
              | Some st \<Rightarrow> if found then Some (Ret (Some st)) else end_loop junk st)))"

definition get16 :: "string \<Rightarrow> nat \<Rightarrow> nat run" where
  "get16 bp i = run_bind (peek bp i) (\<lambda>a. run_bind (peek bp (i + 1)) (\<lambda>b. Ret (of_char a * 256 + of_char b)))"

definition get32 :: "string \<Rightarrow> nat \<Rightarrow> int run" where
  "get32 bp i = run_bind (get16 bp i) (\<lambda>a. run_bind (get16 bp (i + 2)) (\<lambda>b. Ret (sint (of_nat (a * 65536 + b) :: 32 word))))"

text \<open>The header of the answer to the request: whether it is for this job and reports success.\<close>

definition ipp_answer :: "int \<Rightarrow> string \<Rightarrow> nat \<Rightarrow> bool run" where
  "ipp_answer ident bp i =
     run_bind (get16 bp (i + 2)) (\<lambda>st. run_bind (get32 bp (i + 4)) (\<lambda>j. Ret (j = ident \<and> st \<le> 0x00ff)))"

text \<open>All that follows a successful status line, from the index behind it.\<close>

definition answer_body :: "(nat \<Rightarrow> char) \<Rightarrow> int \<Rightarrow> scan \<Rightarrow> bool run option" where
  "answer_body junk ident st =
     (case clen_loop junk st of
        None \<Rightarrow> None
      | Some (Ret (Some (len, bp, datsz, i, ps))) \<Rightarrow>
          (case more_if junk (i \<ge> datsz) (bp, datsz, i, ps) of
             None \<Rightarrow> Some (Ret False)
           | Some st \<Rightarrow>
               (case end_loop junk st of
                  None \<Rightarrow> None
                | Some (Ret (Some (bp, datsz, i, ps))) \<Rightarrow>
                    (case more_if junk (int datsz - int i < len) (bp, datsz, i, ps) of
                       None \<Rightarrow> Some (Ret False)
                     | Some (bp, datsz, i, ps) \<Rightarrow> Some (ipp_answer ident bp i))
                | Some (Ret None) \<Rightarrow> Some (Ret False)
                | Some Wild \<Rightarrow> Some Wild
                | Some Exits \<Rightarrow> Some Exits))
      | Some (Ret None) \<Rightarrow> Some (Ret False)
      | Some Wild \<Rightarrow> Some Wild
      | Some Exits \<Rightarrow> Some Exits)"

text \<open>
  The status line: \<open>None\<close> for a line without a number, otherwise the code, the buffer in which
  the number and the reason are terminated, and the index of the end of the line.
\<close>

definition status_line :: "string \<Rightarrow> (int \<times> string \<times> nat) option run" where
  "status_line bp =
     run_bind (skip_while is_space bp 8) (\<lambda>c.
     run_bind (skip_while is_digit bp c) (\<lambda>e.
     if e = c then Ret None
     else
       run_bind (poke bp e CHR 0x00) (\<lambda>bp.
       run_bind (skip_while (\<lambda>x. x \<noteq> CHR 0x0D \<and> x \<noteq> CHR 0x0A) bp (e + 1)) (\<lambda>l.
       run_bind (poke bp l CHR 0x00) (\<lambda>bp'.
       Ret (Some (atol (take (e - c) (drop c bp)), bp', l)))))))"

partial_function (option) status_loop :: "(nat \<Rightarrow> char) \<Rightarrow> int \<Rightarrow> string \<Rightarrow> piece list \<Rightarrow> bool run option" where
  "status_loop junk ident bp ps =
     (case tread (length bp) ps of
        (r, ps) \<Rightarrow>
          (case r of
             Inl e \<Rightarrow> Some (Ret False)
           | Inr d \<Rightarrow>
               if d = [] then Some (Ret False)
               else
                 (case status_line (put_at 0 d bp) of
                    Wild \<Rightarrow> Some Wild
                  | Exits \<Rightarrow> Some Exits
                  | Ret None \<Rightarrow> status_loop junk ident (put_at 0 d bp) ps
                  | Ret (Some (code, bp, l)) \<Rightarrow>
                      if 100 \<le> code \<and> code \<le> 199 then status_loop junk ident bp ps
                      else if \<not> (200 \<le> code \<and> code \<le> 299)
                      then Some (if length d < length bp then Ret False else Wild)
                      else answer_body junk ident (bp, length d, l, ps))))"

definition printer_status :: "(nat \<Rightarrow> char) \<Rightarrow> int \<Rightarrow> piece list \<Rightarrow> bool run option" where
  "printer_status junk ident ps = status_loop junk ident (map junk [0..<IOBUFSZ]) ps"

declare treadn_loop.simps [code] clen_loop.simps [code] end_loop.simps [code] status_loop.simps [code]

end
