(* ===== verification/Printer_Props.thy ===== *)
theory Printer_Props
  imports Printer
begin

text \<open>
  The list of jobs, the spool directory and the workers of the print daemon: the list holds the
  jobs in order, a job that was acknowledged stays in the spool until it was printed, the
  headers fit or overrun their buffers, and workers get lost.
\<close>

section \<open>The list of jobs\<close>

definition pnx :: "(nat \<rightharpoonup> pjob) \<Rightarrow> nat \<Rightarrow> nat" where
  "pnx h p = (case h p of None \<Rightarrow> 0 | Some j \<Rightarrow> p_next j)"

definition ppv :: "(nat \<rightharpoonup> pjob) \<Rightarrow> nat \<Rightarrow> nat" where
  "ppv h p = (case h p of None \<Rightarrow> 0 | Some j \<Rightarrow> p_prev j)"

text \<open>What a job is about: its number and its request.\<close>

definition pj :: "(nat \<rightharpoonup> pjob) \<Rightarrow> nat \<Rightarrow> (int \<times> printreq) option" where
  "pj h p = map_option (\<lambda>j. (jobid j, req j)) (h p)"

definition plist :: "printd \<Rightarrow> nat list \<Rightarrow> bool" where
  "plist s xs \<longleftrightarrow> dchain (pnx (pjobs s)) (ppv (pjobs s)) (jobhead s) (jobtail s) xs \<and> (\<forall>p \<in> set xs. pjobs s p \<noteq> None)"

lemma plistI:
  "dchain (pnx (pjobs s)) (ppv (pjobs s)) (jobhead s) (jobtail s) xs \<Longrightarrow> (\<And>p. p \<in> set xs \<Longrightarrow> pj (pjobs s) p \<noteq> None) \<Longrightarrow> plist s xs"
  by (auto simp: plist_def pj_def)

lemma plistD:
  assumes "plist s xs"
  shows "dchain (pnx (pjobs s)) (ppv (pjobs s)) (jobhead s) (jobtail s) xs" "\<And>p. p \<in> set xs \<Longrightarrow> \<exists>j. pjobs s p = Some j"
    "jobhead s = hd0 xs" "jobtail s = hd0 (rev xs)" "distinct xs" "0 \<notin> set xs"
    "\<And>p. p \<in> set xs \<Longrightarrow> pj (pjobs s) p \<noteq> None"
  using assms dchain_ends [of _ _ _ _ xs] dchain_distinct [of _ _ _ _ xs] by (auto simp: plist_def pj_def)

lemma set_p_next_ok:
  "pjobs s p = Some j \<Longrightarrow> \<exists>h. set_p_next p v s = Ret (s\<lparr>pjobs := h\<rparr>) \<and> pnx h = (pnx (pjobs s))(p := v) \<and> ppv h = ppv (pjobs s) \<and> pj h = pj (pjobs s)"
  by (rule exI [of _ "(pjobs s)(p \<mapsto> j\<lparr>p_next := v\<rparr>)"]) (auto simp: set_p_next_def pnx_def ppv_def pj_def fun_eq_iff)

lemma set_p_prev_ok:
  "pjobs s p = Some j \<Longrightarrow> \<exists>h. set_p_prev p v s = Ret (s\<lparr>pjobs := h\<rparr>) \<and> ppv h = (ppv (pjobs s))(p := v) \<and> pnx h = pnx (pjobs s) \<and> pj h = pj (pjobs s)"
  by (rule exI [of _ "(pjobs s)(p \<mapsto> j\<lparr>p_prev := v\<rparr>)"]) (auto simp: set_p_prev_def pnx_def ppv_def pj_def fun_eq_iff)

lemma pj_Some: "h p = Some j \<Longrightarrow> pj h p = Some (jobid j, req j)"
  by (simp add: pj_def)

lemma pj_dom: "pj h p \<noteq> None \<longleftrightarrow> (\<exists>j. h p = Some j)"
  by (auto simp: pj_def)

lemma add_job_ok:
  assumes l: "plist s xs" and p: "jp \<noteq> 0" "jp \<notin> set xs"
  shows "\<exists>h a. add_job jp r i s = Ret (s\<lparr>pjobs := h, jobhead := a, jobtail := jp\<rparr>) \<and>
    plist (s\<lparr>pjobs := h, jobhead := a, jobtail := jp\<rparr>) (xs @ [jp]) \<and> pj h = (pj (pjobs s))(jp \<mapsto> (i, r))"
proof -
  note d = plistD [OF l]
  let ?j = "\<lparr>p_next = 0, p_prev = jobtail s, jobid = i, req = r\<rparr>" let ?h = "(pjobs s)(jp \<mapsto> ?j)" let ?s = "s\<lparr>pjobs := ?h\<rparr>"
  have h: "pnx ?h = (pnx (pjobs s))(jp := 0)" "ppv ?h = (ppv (pjobs s))(jp := jobtail s)" "pj ?h = (pj (pjobs s))(jp \<mapsto> (i, r))"
    by (auto simp: pnx_def ppv_def pj_def fun_eq_iff)
  note sn = dchain_snoc [OF d(1) p(2,1)]
  show ?thesis
  proof (cases "xs = []")
    case True
    then have "plist (?s\<lparr>jobhead := jp, jobtail := jp\<rparr>) (xs @ [jp])" using sn h by (intro plistI) (auto simp: pj_def)
    then show ?thesis using True d(4) p h by (intro exI [of _ ?h] exI [of _ jp]) (auto simp: add_job_def Let_def)
  next
    case False
    have t: "jobtail s \<in> set xs" "jobtail s \<noteq> 0" using False d(4,6) by (cases xs rule: rev_cases; auto)+
    have ne: "jobtail s \<noteq> jp" using t(1) p(2) by auto
    obtain j where "pjobs ?s (jobtail s) = Some j" using d(2) [OF t(1)] ne by auto
    from set_p_next_ok [of ?s, OF this, of jp] obtain h' where
      h': "set_p_next (jobtail s) jp ?s = Ret (s\<lparr>pjobs := h'\<rparr>)" "pnx h' = (pnx ?h)(jobtail s := jp)" "ppv h' = ppv ?h" "pj h' = pj ?h" by auto
    have "plist (s\<lparr>pjobs := h', jobtail := jp\<rparr>) (xs @ [jp])"
      using sn False d(7) by (intro plistI) (auto simp: h' h)
    then show ?thesis using False t(2) p h' h by (intro exI [of _ h'] exI [of _ "jobhead s"]) (auto simp: add_job_def Let_def)
  qed
qed

lemma replace_job_ok:
  assumes l: "plist s xs" and p: "jp \<noteq> 0" "jp \<notin> set xs" "pjobs s jp = Some j"
  shows "\<exists>h b. replace_job jp s = Ret (s\<lparr>pjobs := h, jobhead := jp, jobtail := b\<rparr>) \<and>
    plist (s\<lparr>pjobs := h, jobhead := jp, jobtail := b\<rparr>) (jp # xs) \<and> pj h = pj (pjobs s)"
proof -
  note d = plistD [OF l]
  obtain h1 where h1: "set_p_prev jp 0 s = Ret (s\<lparr>pjobs := h1\<rparr>)" "ppv h1 = (ppv (pjobs s))(jp := 0)" "pnx h1 = pnx (pjobs s)" "pj h1 = pj (pjobs s)"
    using set_p_prev_ok [of s, OF p(3)] by blast
  obtain j1 where "pjobs (s\<lparr>pjobs := h1\<rparr>) jp = Some j1" using p(3) h1(4) pj_dom [of h1 jp] pj_dom [of "pjobs s" jp] by auto
  from set_p_next_ok [of "s\<lparr>pjobs := h1\<rparr>", OF this, of "jobhead s"] obtain h2 where
    h2: "set_p_next jp (jobhead s) (s\<lparr>pjobs := h1\<rparr>) = Ret (s\<lparr>pjobs := h2\<rparr>)" "pnx h2 = (pnx h1)(jp := jobhead s)" "ppv h2 = ppv h1" "pj h2 = pj h1" by auto
  note ps = dchain_push [OF d(1) p(2,1)]
  show ?thesis
  proof (cases "xs = []")
    case True
    then have "plist (s\<lparr>pjobs := h2, jobhead := jp, jobtail := jp\<rparr>) (jp # xs)" using ps p(3) by (intro plistI) (auto simp: h1 h2 pj_def)
    then show ?thesis using True d(3) h1 h2 by (intro exI [of _ h2] exI [of _ jp]) (auto simp: replace_job_def)
  next
    case False
    have t: "jobhead s \<in> set xs" "jobhead s \<noteq> 0" using False d(3,6) by (cases xs; auto)+
    obtain j2 where "pjobs (s\<lparr>pjobs := h2\<rparr>) (jobhead s) = Some j2" using d(2) [OF t(1)] h1(4) h2(4) pj_dom [of h2 "jobhead s"] pj_dom [of "pjobs s" "jobhead s"] by auto
    from set_p_prev_ok [of "s\<lparr>pjobs := h2\<rparr>", OF this, of jp] obtain h3 where
      h3: "set_p_prev (jobhead s) jp (s\<lparr>pjobs := h2\<rparr>) = Ret (s\<lparr>pjobs := h3\<rparr>)" "ppv h3 = (ppv h2)(jobhead s := jp)" "pnx h3 = pnx h2" "pj h3 = pj h2" by auto
    have "plist (s\<lparr>pjobs := h3, jobhead := jp\<rparr>) (jp # xs)"
      using ps False d(7) pj_Some [of "pjobs s", OF p(3)] by (intro plistI) (auto simp: h1 h2 h3)
    then show ?thesis using False t(2) h1 h2 h3 by (intro exI [of _ h3] exI [of _ "jobtail s"]) (auto simp: replace_job_def)
  qed
qed

lemma remove_head_ok:
  assumes l: "plist s (jp # xs)"
  shows "\<exists>h a b. remove_job jp s = Ret (s\<lparr>pjobs := h, jobhead := a, jobtail := b\<rparr>) \<and>
    plist (s\<lparr>pjobs := h, jobhead := a, jobtail := b\<rparr>) xs \<and> pj h = pj (pjobs s)"
proof -
  note d = plistD [OF l]
  have k: "pnx (pjobs s) jp = hd0 xs" "ppv (pjobs s) jp = 0" using dchain_links [of _ _ _ _ "[]" jp xs] d(1) by auto
  obtain j where j: "pjobs s jp = Some j" using d(2) [of jp] by auto
  then have n: "p_next j = hd0 xs" "p_prev j = 0" using k by (simp_all add: pnx_def ppv_def)
  note r = dchain_remove [of _ _ _ _ "[]" jp xs, simplified, OF d(1)]
  show ?thesis
  proof (cases xs)
    case Nil
    have "plist (s\<lparr>jobhead := 0, jobtail := 0\<rparr>) []" by (rule plistI) simp_all
    then show ?thesis using Nil j n by (intro exI [of _ "pjobs s"] exI [of _ 0]) (simp add: remove_job_def)
  next
    case (Cons x ys)
    obtain jx where jx: "pjobs s x = Some jx" using d(2) [of x] Cons by auto
    have x: "x \<noteq> 0" "x \<noteq> jp" using d(5,6) Cons by auto
    from set_p_prev_ok [of s, OF jx, of 0] obtain h where
      h: "set_p_prev x 0 s = Ret (s\<lparr>pjobs := h\<rparr>)" "ppv h = (ppv (pjobs s))(x := 0)" "pnx h = pnx (pjobs s)" "pj h = pj (pjobs s)" by blast
    have "s\<lparr>pjobs := (pjobs s)(x \<mapsto> jx\<lparr>p_prev := 0\<rparr>)\<rparr> = s\<lparr>pjobs := h\<rparr>" using h(1) jx by (simp add: set_p_prev_def)
    from arg_cong [OF this, of pjobs] have hj: "h jp = Some j" using x(2) j by auto
    have "plist (s\<lparr>pjobs := h, jobhead := x\<rparr>) xs"
      using r Cons k d(7) by (intro plistI) (auto simp: h)
    then show ?thesis using Cons j n x(1) h(1,4) hj by (intro exI [of _ h] exI [of _ x] exI [of _ "jobtail s"]) (simp add: remove_job_def)
  qed
qed

section \<open>The spool\<close>

lemma plist_other [simp]:
  "plist (s\<lparr>datafiles := x\<rparr>) xs = plist s xs" "plist (s\<lparr>reqfiles := y\<rparr>) xs = plist s xs" "plist (s\<lparr>nextjob := n\<rparr>) xs = plist s xs"
  "plist (s\<lparr>jobfile := f\<rparr>) xs = plist s xs" "plist (s\<lparr>reread := b\<rparr>) xs = plist s xs" "plist (s\<lparr>printer_name := m\<rparr>) xs = plist s xs"
  by (simp_all add: plist_def)

lemma plist_free: "plist s xs \<Longrightarrow> jp \<notin> set xs \<Longrightarrow> plist (free_job jp s) xs"
proof -
  assume l: "plist s xs" "jp \<notin> set xs"
  have "pnx ((pjobs s)(jp := None)) = (pnx (pjobs s))(jp := 0)" "ppv ((pjobs s)(jp := None)) = (ppv (pjobs s))(jp := 0)"
    by (auto simp: pnx_def ppv_def fun_eq_iff)
  then show ?thesis using l by (auto simp: plist_def free_job_def dchain_def)
qed

lemma spool_data_ok: "spool_data ws cs w = Inr d \<Longrightarrow> d = w @ concat cs"
  by (induction ws cs w rule: spool_data.induct) (auto split: if_splits)

lemma get_newjobno_frame: "get_newjobno s = (i, s') \<Longrightarrow> \<exists>n. s' = s\<lparr>nextjob := n\<rparr>"
  by (auto simp: get_newjobno_def Let_def)

text \<open>
  An accepted request is in the spool with all its data and at the end of the list; a refused
  one leaves the spool as it was.
\<close>

lemma client_request_ok:
  assumes l: "plist s xs" and p: "ce_jp env \<noteq> 0" "ce_jp env \<notin> set xs" and n: "get_newjobno s = (i, s0)"
    and f: "datafiles s (sdec i) = None" "reqfiles s (sdec i) = None"
  shows "(\<exists>e s'. client_request env s = Ret (Inl e, s') \<and> plist s' xs \<and> datafiles s' = datafiles s \<and> reqfiles s' = reqfiles s) \<or>
    (\<exists>r s'. client_request env s = Ret (Inr i, s') \<and> plist s' (xs @ [ce_jp env]) \<and> pj (pjobs s') (ce_jp env) = Some (i, r) \<and>
       datafiles s' = (datafiles s)(sdec i \<mapsto> concat (ce_chunks env)) \<and> reqfiles s' = (reqfiles s)(sdec i \<mapsto> Whole r))"
proof -
  obtain k where s0: "s0 = s\<lparr>nextjob := k\<rparr>" using get_newjobno_frame [OF n] by blast
  have upd: "(datafiles s)(sdec i := None) = datafiles s" "(reqfiles s)(sdec i := None) = reqfiles s" using f by (simp_all add: fun_upd_idem)
  show ?thesis
  proof (cases "\<exists>r d. ce_hdr env = Inr (Some r) \<and> ce_creat env = None \<and> spool_data (ce_writes env) (ce_chunks env) [] = Inr d \<and>
      ce_creat_req env = None \<and> ce_write_req env = WAll")
    case False
    then show ?thesis using l n s0 upd
      by (auto simp: client_request_def Let_def split: sum.split option.split)
  next
    case True
    then obtain r d where t: "ce_hdr env = Inr (Some r)" "ce_creat env = None" "spool_data (ce_writes env) (ce_chunks env) [] = Inr d"
      "ce_creat_req env = None" "ce_write_req env = WAll" by blast
    have d: "d = concat (ce_chunks env)" using spool_data_ok [OF t(3)] by simp
    let ?r = "r\<lparr>rq_flags := text_flag (ce_stale env) (ce_chunks env) (rq_flags r)\<rparr>"
    let ?s = "s\<lparr>nextjob := k, datafiles := (datafiles s)(sdec i \<mapsto> d), reqfiles := (reqfiles s)(sdec i \<mapsto> Whole ?r)\<rparr>"
    have e: "client_request env s = run_bind (add_job (ce_jp env) ?r i ?s) (\<lambda>s. Ret (Inr i, s))"
      using t n s0 by (simp add: client_request_def Let_def)
    have "plist ?s xs" using l by simp
    from add_job_ok [OF this p, of ?r i] obtain h a where
      "add_job (ce_jp env) ?r i ?s = Ret (?s\<lparr>pjobs := h, jobhead := a, jobtail := ce_jp env\<rparr>)"
      "plist (?s\<lparr>pjobs := h, jobhead := a, jobtail := ce_jp env\<rparr>) (xs @ [ce_jp env])" "pj h = (pj (pjobs ?s))(ce_jp env \<mapsto> (i, ?r))" by blast
    then show ?thesis using e d by (intro disjI2 exI [of _ ?r] exI [of _ "?s\<lparr>pjobs := h, jobhead := a, jobtail := ce_jp env\<rparr>"]) simp
  qed
qed

lemma send_job_suffix: "send_job env pname j d = Ret (Some m) \<Longrightarrow> suffix d m"
  by (auto simp: send_job_def Let_def suffix_def split: if_splits)

text \<open>What one turn of the printer thread does to a job that was taken off the list.\<close>

lemma print_job_ok:
  assumes l: "plist s xs" and p: "jp \<noteq> 0" "jp \<notin> set xs" "pjobs s jp = Some j" and r: "print_job env jp j s = Ret (e, sent, s')"
  shows "(\<exists>m d. e = Printed (jobid j) \<and> sent = Some m \<and> suffix d m \<and> plist s' xs \<and> datafiles s (sdec (jobid j)) = Some d \<and>
      datafiles s' = (datafiles s)(sdec (jobid j) := None) \<and> reqfiles s' = (reqfiles s)(sdec (jobid j) := None)) \<or>
    (e \<in> {Cancelled (jobid j), Deferred (jobid j)} \<and> plist s' (if e = Cancelled (jobid j) then xs else jp # xs) \<and>
      datafiles s' = datafiles s \<and> reqfiles s' = reqfiles s)"
proof -
  have df: "defer_job jp j snt s = Ret (e, sent, s') \<Longrightarrow> e = Deferred (jobid j) \<and> plist s' (jp # xs) \<and> datafiles s' = datafiles s \<and> reqfiles s' = reqfiles s" for snt
    using replace_job_ok [OF l p] by (auto simp: defer_job_def)
  show ?thesis
  proof (cases "if pe_open env \<and> pe_fstat env then datafiles s (sdec (jobid j)) else None")
    case None
    then have "e = Cancelled (jobid j)" "s' = free_job jp s" using r by (auto simp: print_job_def Let_def)
    then show ?thesis using plist_free [OF l p(2)] by (simp add: free_job_def)
  next
    case (Some d)
    then have d: "datafiles s (sdec (jobid j)) = Some d" by (simp split: if_splits)
    show ?thesis
    proof (cases "pe_connect env")
      case False
      then show ?thesis using r Some df by (auto simp: print_job_def Let_def)
    next
      case True
      then obtain snt where snt: "send_job env (printer_name s) j d = Ret snt"
        using r Some by (cases "send_job env (printer_name s) j d") (auto simp: print_job_def Let_def)
      show ?thesis
      proof (cases "snt \<noteq> None \<and> pe_status env")
        case False
        then have "defer_job jp j snt s = Ret (e, sent, s')" using r Some True snt by (auto simp: print_job_def Let_def)
        then show ?thesis using df by auto
      next
        case ok: True
        then obtain m where m: "snt = Some m" by blast
        let ?s = "s\<lparr>datafiles := (datafiles s)(sdec (jobid j) := None), reqfiles := (reqfiles s)(sdec (jobid j) := None)\<rparr>"
        have "e = Printed (jobid j)" "sent = Some m" "s' = free_job jp ?s" using r Some True snt ok m by (auto simp: print_job_def Let_def)
        moreover have "suffix d m" using send_job_suffix snt m by blast
        moreover have "plist (free_job jp ?s) xs" using l p(2) by (intro plist_free) simp_all
        ultimately show ?thesis using d by (auto simp: free_job_def)
      qed
    qed
  qed
qed

lemma printer_thread_ok:
  assumes l: "plist s xs" and r: "printer_thread env s = Ret (e, sent, s')"
  shows "(\<exists>xs'. plist s' xs') \<and>
    ((\<exists>i m d. e = Printed i \<and> sent = Some m \<and> suffix d m \<and> datafiles s (sdec i) = Some d \<and>
        datafiles s' = (datafiles s)(sdec i := None) \<and> reqfiles s' = (reqfiles s)(sdec i := None)) \<or>
     ((\<forall>i. e \<noteq> Printed i) \<and> datafiles s' = datafiles s \<and> reqfiles s' = reqfiles s))"
proof (cases xs)
  case Nil
  then show ?thesis using plistD(3) [OF l] r l by (auto simp: printer_thread_def)
next
  case (Cons jp ys)
  have h: "jobhead s = jp" "jp \<noteq> 0" "jp \<notin> set ys" using plistD(3,5,6) [OF l] Cons by auto
  obtain hp a b where rm: "remove_job jp s = Ret (s\<lparr>pjobs := hp, jobhead := a, jobtail := b\<rparr>)"
    "plist (s\<lparr>pjobs := hp, jobhead := a, jobtail := b\<rparr>) ys" "pj hp = pj (pjobs s)"
    using remove_head_ok [of s jp ys] l Cons by blast
  let ?s = "s\<lparr>pjobs := hp, jobhead := a, jobtail := b\<rparr>"
  have "pj hp jp \<noteq> None" using plistD(7) [OF l, of jp] Cons rm(3) by simp
  then obtain j where j: "hp jp = Some j" by (auto simp: pj_def)
  define s1 where "s1 = update_jobno ?s"
  have s1: "plist s1 ys" "datafiles s1 = datafiles s" "reqfiles s1 = reqfiles s" "pjobs s1 jp = Some j" "reread s1 = reread s"
    using rm(2) j by (simp_all add: s1_def update_jobno_def Let_def)
  have e: "printer_thread env s = run_bind (if reread s1 then (case pe_printer env of None \<Rightarrow> Exits | Some n \<Rightarrow> Ret (s1\<lparr>reread := False, printer_name := n\<rparr>)) else Ret s1)
      (print_job env jp j)"
    unfolding s1_def using h(1,2) rm(1) j by (simp add: printer_thread_def Let_def)
  then obtain s2 where s2: "print_job env jp j s2 = Ret (e, sent, s')" "plist s2 ys" "datafiles s2 = datafiles s" "reqfiles s2 = reqfiles s" "pjobs s2 jp = Some j"
    using r s1 by (auto split: if_splits option.splits)
  show ?thesis using print_job_ok [OF s2(2) h(2,3) s2(5,1)] s2(3,4) by auto
qed

text \<open>The list of jobs after the request directory was read: one job for every whole request.\<close>

lemma build_qonstart_ok:
  assumes "plist s xs" "build_qonstart es s = Ret s'" "distinct (map (snd \<circ> snd) es)" "\<And>e. e \<in> set es \<Longrightarrow> snd (snd e) \<notin> set xs"
  shows "(\<exists>xs'. plist s' xs') \<and>
    (\<forall>n d r. datafiles s n = Some d \<and> reqfiles s n = Some (Whole r) \<longrightarrow> datafiles s' n = Some d \<and> reqfiles s' n = Some (Whole r))"
  using assms
proof (induction es arbitrary: s xs)
  case Nil
  then show ?case by auto
next
  case (Cons en es)
  obtain name opens jp where en: "en = (name, opens, jp)" by (cases en)
  have fr: "distinct (map (snd \<circ> snd) es)" "\<And>e. e \<in> set es \<Longrightarrow> snd (snd e) \<notin> set xs" "jp \<notin> set xs"
    using Cons.prems(3) Cons.prems(4) [of en] Cons.prems(4) en by (simp_all add: comp_def)
  have "jp \<notin> (snd \<circ> snd) ` set es" using Cons.prems(3) en by simp
  then have ne: "\<And>e. e \<in> set es \<Longrightarrow> snd (snd e) \<noteq> jp" by (metis comp_apply image_eqI)
  show ?case
  proof (cases "name = ''.'' \<or> name = ''..'' \<or> (if opens then reqfiles s name else None) = None")
    case True
    then show ?thesis using Cons.IH [OF Cons.prems(1) _ fr(1,2)] Cons.prems(2) en by (auto split: if_splits)
  next
    case False
    then obtain f where f: "reqfiles s name = Some f" "opens" "name \<noteq> ''.''" "name \<noteq> ''..''" by (auto split: if_splits)
    show ?thesis
    proof (cases f)
      case Cut
      let ?s = "s\<lparr>reqfiles := (reqfiles s)(name := None), datafiles := (datafiles s)(name := None)\<rparr>"
      have "build_qonstart es ?s = Ret s'" using Cons.prems(2) f Cut en by simp
      from Cons.IH [of ?s xs, OF _ this fr(1,2)] Cons.prems(1) have "(\<exists>xs'. plist s' xs') \<and>
        (\<forall>n d r. datafiles ?s n = Some d \<and> reqfiles ?s n = Some (Whole r) \<longrightarrow> datafiles s' n = Some d \<and> reqfiles s' n = Some (Whole r))" by simp
      moreover have "datafiles ?s n = datafiles s n \<and> reqfiles ?s n = reqfiles s n" if "reqfiles s n = Some (Whole r)" for n r
        using that f(1) Cut by auto
      ultimately show ?thesis by metis
    next
      case (Whole r)
      let ?i = "sint (word_of_int (atol name) :: 32 word)"
      have b: "run_bind (add_job jp r ?i s) (build_qonstart es) = Ret s'" using Cons.prems(2) f Whole en by simp
      then have "jp \<noteq> 0" by (cases "jp = 0") (simp_all add: add_job_def)
      from add_job_ok [OF Cons.prems(1) this fr(3), of r ?i] obtain h a where
        a: "add_job jp r ?i s = Ret (s\<lparr>pjobs := h, jobhead := a, jobtail := jp\<rparr>)" "plist (s\<lparr>pjobs := h, jobhead := a, jobtail := jp\<rparr>) (xs @ [jp])" by blast
      have "\<And>e. e \<in> set es \<Longrightarrow> snd (snd e) \<notin> set (xs @ [jp])" using fr(2) ne by simp
      from Cons.IH [OF a(2) _ fr(1) this] b a(1) show ?thesis by simp
    qed
  qed
qed

text \<open>
  A daemon that accepts requests, prints jobs, and is stopped and started again, with the
  requests it acknowledged and what it sent for the jobs it printed. A new job gets a number
  that no file of the spool has.
\<close>

definition restart :: "printd \<Rightarrow> printd" where
  "restart s =
     s\<lparr>pjobs := Map.empty, jobhead := 0, jobtail := 0, wthreads := Map.empty, workers := 0, reread := False,
       nextjob := init_request (jobfile s)\<rparr>"

definition empty_spool :: "string \<Rightarrow> printd" where
  "empty_spool pname =
     \<lparr>pjobs = Map.empty, jobhead = 0, jobtail = 0, nextjob = 1, jobfile = [], datafiles = Map.empty, reqfiles = Map.empty,
      wthreads = Map.empty, workers = 0, reread = False, printer_name = pname\<rparr>"

inductive spool_run :: "printd \<Rightarrow> (string \<times> string) list \<Rightarrow> (string \<times> string) list \<Rightarrow> bool" where
  run_start: "spool_run (empty_spool pname) [] []"
| run_client: "spool_run s ak pr \<Longrightarrow> get_newjobno s = (i, s0) \<Longrightarrow> datafiles s (sdec i) = None \<Longrightarrow> reqfiles s (sdec i) = None \<Longrightarrow>
    ce_jp env \<noteq> 0 \<Longrightarrow> pjobs s (ce_jp env) = None \<Longrightarrow> client_request env s = Ret (reply, s') \<Longrightarrow>
    spool_run s' (case reply of Inl _ \<Rightarrow> ak | Inr i \<Rightarrow> ak @ [(sdec i, concat (ce_chunks env))]) pr"
| run_print: "spool_run s ak pr \<Longrightarrow> printer_thread env s = Ret (e, sent, s') \<Longrightarrow>
    spool_run s' ak (case (e, sent) of (Printed i, Some m) \<Rightarrow> pr @ [(sdec i, m)] | _ \<Rightarrow> pr)"
| run_restart: "spool_run s ak pr \<Longrightarrow> distinct (map (snd \<circ> snd) es) \<Longrightarrow> build_qonstart es (restart s) = Ret s' \<Longrightarrow> spool_run s' ak pr"

definition kept :: "printd \<Rightarrow> (string \<times> string) list \<Rightarrow> string \<times> string \<Rightarrow> bool" where
  "kept s pr a \<longleftrightarrow>
     (\<exists>m. (fst a, m) \<in> set pr \<and> suffix (snd a) m) \<or> (datafiles s (fst a) = Some (snd a) \<and> (\<exists>r. reqfiles s (fst a) = Some (Whole r)))"

lemma spool_run_inv: "spool_run s ak pr \<Longrightarrow> (\<exists>xs. plist s xs) \<and> (\<forall>a \<in> set ak. kept s pr a)"
proof (induction rule: spool_run.induct)
  case (run_start pname)
  have "plist (empty_spool pname) []" by (rule plistI) (simp_all add: empty_spool_def)
  then show ?case by auto
next
  case (run_client s ak pr i s0 env reply s')
  then obtain xs where xs: "plist s xs" "\<forall>a \<in> set ak. kept s pr a" by blast
  have "ce_jp env \<notin> set xs" using plistD(2) [OF xs(1), of "ce_jp env"] run_client.hyps(6) by auto
  from client_request_ok [OF xs(1) run_client.hyps(5) this run_client.hyps(2,3,4)] show ?case
  proof (elim disjE exE conjE)
    fix e s1 assume "client_request env s = Ret (Inl e, s1)" "plist s1 xs" "datafiles s1 = datafiles s" "reqfiles s1 = reqfiles s"
    then show ?thesis using run_client.hyps(7) xs(2) by (auto simp: kept_def)
  next
    fix r s1 assume c: "client_request env s = Ret (Inr i, s1)" "plist s1 (xs @ [ce_jp env])"
      "datafiles s1 = (datafiles s)(sdec i \<mapsto> concat (ce_chunks env))" "reqfiles s1 = (reqfiles s)(sdec i \<mapsto> Whole r)"
    have "kept s1 pr a" if "a \<in> set ak" for a
    proof -
      have "kept s pr a" using xs(2) that by blast
      then show ?thesis using c(3,4) run_client.hyps(3) by (auto simp: kept_def)
    qed
    moreover have "kept s1 pr (sdec i, concat (ce_chunks env))" using c(3,4) by (simp add: kept_def)
    ultimately show ?thesis using run_client.hyps(7) c(1,2) by auto
  qed
next
  case (run_print s ak pr env e sent s')
  then obtain xs where xs: "plist s xs" "\<forall>a \<in> set ak. kept s pr a" by blast
  from printer_thread_ok [OF xs(1) run_print.hyps(2)] show ?case
  proof (elim conjE disjE exE)
    fix xs' i m d assume c: "plist s' xs'" "e = Printed i" "sent = Some m" "suffix d m" "datafiles s (sdec i) = Some d"
      "datafiles s' = (datafiles s)(sdec i := None)" "reqfiles s' = (reqfiles s)(sdec i := None)"
    have "kept s' (pr @ [(sdec i, m)]) a" if "a \<in> set ak" for a
    proof -
      have "kept s pr a" using xs(2) that by blast
      then show ?thesis using c(4-7) by (cases "fst a = sdec i") (auto simp: kept_def)
    qed
    then show ?thesis using c(1-3) by auto
  next
    fix xs' assume "plist s' xs'" "\<forall>i. e \<noteq> Printed i" "datafiles s' = datafiles s" "reqfiles s' = reqfiles s"
    then show ?thesis using xs(2) by (cases e) (auto simp: kept_def)
  qed
next
  case (run_restart s ak pr es s')
  have "plist (restart s) []" by (rule plistI) (simp_all add: restart_def)
  from build_qonstart_ok [OF this run_restart.hyps(3,2)] have b: "\<exists>xs. plist s' xs"
    "\<And>n d r. datafiles s n = Some d \<Longrightarrow> reqfiles s n = Some (Whole r) \<Longrightarrow> datafiles s' n = Some d \<and> reqfiles s' n = Some (Whole r)"
    by (auto simp: restart_def)
  have "kept s' pr a" if "a \<in> set ak" for a
  proof -
    have "kept s pr a" using run_restart.IH that by blast
    then show ?thesis using b(2) by (auto simp: kept_def)
  qed
  then show ?case using b(1) by blast
qed

section \<open>Properties\<close>

text \<open>
  C8. The print daemon loses no job as long as a new job gets a number that no file of the spool
  has: however requests, printing with all its errors, and restarts follow one another, for
  every request that was acknowledged either the complete data were sent to the printer and it
  reported success, or the data and the request are still in the spool. The list of jobs stays
  well-formed.
\<close>

theorem printd_keeps_jobs:
  assumes "spool_run s ak pr"
  shows "(\<exists>xs. plist s xs) \<and> (\<forall>a \<in> set ak. kept s pr a)"
  by (rule spool_run_inv [OF assms])

definition example_env :: client_env where
  "example_env =
     \<lparr>ce_tid = 1, ce_sockfd = 3, ce_wtp = 4, ce_hdr = Inr (Some \<lparr>rq_size = 9, rq_flags = 0, usernm = ''u'', jobnm = ''f''\<rparr>), ce_creat = None,
      ce_chunks = [''%!PS'', '' page''], ce_stale = [], ce_writes = [], ce_creat_req = None, ce_write_req = WAll, ce_jp = 8\<rparr>"

lemma sdec_1: "sdec 1 = ''1''"
  by code_simp

lemma example_accepted: "\<exists>s. client_request example_env (empty_spool pname) = Ret (Inr 1, s)"
  by (simp add: client_request_def example_env_def empty_spool_def get_newjobno_def Let_def add_job_def)

theorem printd_keeps_jobs_witness:
  "\<exists>s. client_request example_env (empty_spool ''lp'') = Ret (Inr 1, s) \<and> kept s [] (''1'', ''%!PS page'')"
proof -
  obtain s where s: "client_request example_env (empty_spool ''lp'') = Ret (Inr 1, s)" using example_accepted by blast
  have "spool_run s ([] @ [(sdec 1, concat (ce_chunks example_env))]) []"
    using run_client [OF run_start [of "''lp''"], of 1 _ example_env "Inr 1" s] s
    by (simp add: empty_spool_def get_newjobno_def Let_def example_env_def)
  from printd_keeps_jobs [OF this] s show ?thesis by (simp add: sdec_1 example_env_def)
qed

text \<open>
  The file with the next number is written only when a job is taken for printing. After a
  restart before that, the daemon gives the number of the pending job to the next request and
  writes its data over the data of the pending job.
\<close>

theorem printd_restart_reuses_number:
  assumes "client_request env (empty_spool pname) = Ret (Inr i, s1)" "build_qonstart es (restart s1) = Ret s2"
    "client_request env' s2 = Ret (Inr i', s3)"
  shows "i' = i \<and> datafiles s3 (sdec i) = Some (concat (ce_chunks env'))"
proof -
  have ar: "jobfile s' = jobfile s \<and> nextjob s' = nextjob s \<and> datafiles s' = datafiles s" if "add_job jp r k s = Ret s'" for jp r k s s'
    using that by (auto simp: add_job_def Let_def set_p_next_def deref_def run_bind_Ret_iff split: if_splits option.splits)
  have cl: "k = sint (nextjob s) \<and> jobfile s' = jobfile s \<and> datafiles s' = (datafiles s)(sdec k \<mapsto> concat (ce_chunks en))"
    if req: "client_request en s = Ret (Inr k, s')" for en s k s'
  proof -
    obtain r d s0 where "spool_data (ce_writes en) (ce_chunks en) [] = Inr d" "k = sint (nextjob s)" "add_job (ce_jp en) r k s0 = Ret s'"
      "jobfile s0 = jobfile s" "datafiles s0 = (datafiles s)(sdec k \<mapsto> d)"
      using req by (auto simp: client_request_def get_newjobno_def Let_def run_bind_Ret_iff split: sum.splits option.splits if_splits)
    then show ?thesis using ar spool_data_ok by fastforce
  qed
  have bq: "nextjob s' = nextjob s" if "build_qonstart es s = Ret s'" for es s s'
    using that
  proof (induction es s rule: build_qonstart.induct)
    case (2 name opens jp es s)
    then show ?case using ar by (fastforce simp: run_bind_Ret_iff split: if_splits option.splits reqfile.splits)
  qed simp
  have "i = 1" "jobfile s1 = []" using cl [OF assms(1)] by (simp_all add: empty_spool_def)
  moreover from this have "nextjob s2 = 1" using bq [OF assms(2)] by (simp add: restart_def init_request_def)
  ultimately show ?thesis using cl [OF assms(3)] by simp
qed

definition later_env :: client_env where
  "later_env = example_env\<lparr>ce_chunks := [''second''], ce_jp := 9\<rparr>"

lemma restart_example:
  "\<exists>s1 s2 s3. client_request example_env (empty_spool ''lp'') = Ret (Inr 1, s1) \<and> build_qonstart [(''1'', True, 8)] (restart s1) = Ret s2 \<and>
     client_request later_env s2 = Ret (Inr 1, s3)"
  by (simp add: client_request_def example_env_def later_env_def empty_spool_def get_newjobno_def Let_def add_job_def restart_def
    init_request_def sdec_1 [simplified] set_p_next_def)

theorem printd_restart_reuses_number_witness:
  "\<exists>s1 s2 s3. client_request example_env (empty_spool ''lp'') = Ret (Inr 1, s1) \<and> build_qonstart [(''1'', True, 8)] (restart s1) = Ret s2 \<and>
     client_request later_env s2 = Ret (Inr 1, s3) \<and> datafiles s3 (sdec 1) = Some ''second''"
proof -
  obtain s1 s2 s3 where s: "client_request example_env (empty_spool ''lp'') = Ret (Inr 1, s1)"
    "build_qonstart [(''1'', True, 8)] (restart s1) = Ret s2" "client_request later_env s2 = Ret (Inr 1, s3)"
    using restart_example by blast
  from printd_restart_reuses_number [OF this] have "datafiles s3 (sdec 1) = Some ''second''" by (simp add: later_env_def)
  with s show ?thesis by blast
qed

text \<open>
  The list of workers holds only the first of several: a worker that is added while another
  one is in the list is not cancelled by \<^verbatim>\<open>kill_workers\<close>, and its clean-up does not find it, so that
  its socket stays open. When the first one has cleaned up, the list still starts at the block it
  freed, and the next worker that is added touches freed memory.
\<close>

theorem printd_loses_workers:
  assumes "workers s = 0" "w1 \<noteq> 0" "w2 \<noteq> 0" "w1 \<noteq> w2" "t1 \<noteq> t2"
    "add_worker w1 t1 k1 s = Ret s1" "add_worker w2 t2 k2 s1 = Ret s2"
  shows "kill_workers s2 = Some (Ret [t1]) \<and> client_cleanup t2 s2 = Some (Ret (None, s2)) \<and>
    (\<exists>s3. client_cleanup t1 s2 = Some (Ret (Some k1, s3)) \<and> (\<forall>w3 t3 k3. w3 \<noteq> 0 \<longrightarrow> w3 \<noteq> w1 \<longrightarrow> add_worker w3 t3 k3 s3 = Wild))"
proof -
  let ?e1 = "\<lparr>w_next = 0, w_prev = w2, w_tid = t1, w_sockfd = k1\<rparr>"
  let ?e2 = "\<lparr>w_next = w1, w_prev = 0, w_tid = t2, w_sockfd = k2\<rparr>"
  have s1: "s1 = s\<lparr>wthreads := (wthreads s)(w1 \<mapsto> ?e1\<lparr>w_prev := 0\<rparr>), workers := w1\<rparr>"
    using assms(1,2,6) by (auto simp: add_worker_def Let_def)
  have s2: "s2 = s\<lparr>wthreads := (wthreads s)(w2 \<mapsto> ?e2, w1 \<mapsto> ?e1), workers := w1\<rparr>"
    using assms(2-4,7) unfolding s1 by (auto simp: add_worker_def Let_def)
  have "kill_loop s2 w1 [] = Some (Ret [t1])" using assms(2) unfolding s2 by (subst kill_loop.simps, simp, subst kill_loop.simps, simp)
  moreover have "find_worker t2 s2 w1 = Some (Ret 0)" "find_worker t1 s2 w1 = Some (Ret w1)"
    using assms(2,5) unfolding s2 by (subst find_worker.simps, simp, subst find_worker.simps, simp) (subst find_worker.simps, simp)
  moreover have "workers s2 = w1" by (simp add: s2)
  ultimately show ?thesis using assms(2-4)
    by (simp add: kill_workers_def client_cleanup_def) (simp add: s2 unlink_worker_def add_worker_def Let_def)
qed

theorem printd_loses_workers_witness:
  "\<exists>s1 s2. add_worker 4 1 10 (empty_spool ''lp'') = Ret s1 \<and> add_worker 5 2 11 s1 = Ret s2 \<and> kill_workers s2 = Some (Ret [1]) \<and>
     client_cleanup 2 s2 = Some (Ret (None, s2))"
proof -
  obtain s1 s2 where s: "add_worker 4 1 10 (empty_spool ''lp'') = Ret s1" "add_worker 5 2 11 s1 = Ret s2"
    by (simp add: add_worker_def empty_spool_def Let_def)
  with printd_loses_workers [of "empty_spool ''lp''" 4 5 1 2 10 s1 11 s2] show ?thesis by (simp add: empty_spool_def)
qed

end
