(* ===== verification/Printer_Answer.thy ===== *)
theory Printer_Answer
  imports Printer_Status Printer_Props
begin

text \<open>
  Properties of the dialogue with the printer: what \<^verbatim>\<open>printer_status\<close> makes of an answer, and when
  the headers that \<^verbatim>\<open>printer_thread\<close> builds fit their buffers.
\<close>

section \<open>Scanning a buffer\<close>

lemma skip_while_at:
  assumes "bp = a @ xs @ y # z" "\<forall>c \<in> set xs. P c" "\<not> P y" "i = length a"
  shows "skip_while P bp i = Ret (length a + length xs)"
  using assms by (simp add: skip_while_def Let_def)

lemma poke_at: "i = length a \<Longrightarrow> poke (a @ y # z) i c = Ret (a @ c # z)"
  by (simp add: poke_def)

text \<open>The search for the length finds the first place where the name of the field stands.\<close>

lemma find_c_stops:
  assumes "i \<le> p" "p < datsz" "datsz \<le> length bp" "bp ! p = CHR ''C''"
  shows "\<exists>j. find_c bp datsz i = Ret j \<and> i \<le> j \<and> j \<le> p"
  using assms
proof (induction "p - i" arbitrary: i)
  case 0
  then show ?case by (simp add: find_c.simps [of bp datsz i])
next
  case (Suc n)
  show ?case
  proof (cases "bp ! i = CHR ''C'' \<or> bp ! i = CHR ''c''")
    case True
    then show ?thesis using Suc.prems by (auto simp: find_c.simps [of bp datsz i])
  next
    case False
    then have "find_c bp datsz i = find_c bp datsz (i + 1)" using Suc.prems by (simp add: find_c.simps [of bp datsz i])
    moreover have "i \<noteq> p" using False Suc.prems by blast
    ultimately show ?thesis using Suc.hyps(1) [of "i + 1"] Suc.hyps(2) Suc.prems by fastforce
  qed
qed

definition at_clen :: "string \<Rightarrow> nat \<Rightarrow> nat \<Rightarrow> piece list \<Rightarrow> (int \<times> scan) option run" where
  "at_clen bp datsz p ps =
     run_bind (skip_while is_space bp (p + 15)) (\<lambda>c. run_bind (skip_while is_digit bp c) (\<lambda>e.
     run_bind (poke bp e CHR 0x00) (\<lambda>bp. Ret (Some (atol (take (e - c) (drop c bp)), bp, datsz, e + 1, ps)))))"

lemma clen_loop_at:
  assumes "i \<le> p" "p < datsz" "datsz \<le> length bp" "bp ! p = CHR ''C''" "is_clen bp p = Ret True" "\<forall>k. i \<le> k \<and> k < p \<longrightarrow> is_clen bp k = Ret False"
  shows "clen_loop junk (bp, datsz, i, ps) = Some (at_clen bp datsz p ps)"
  using assms
proof (induction "p - i" arbitrary: i rule: less_induct)
  case less
  obtain j where j: "find_c bp datsz i = Ret j" "i \<le> j" "j \<le> p" using find_c_stops less.prems(1-4) by blast
  show ?case
  proof (cases "j = p")
    case True
    then show ?thesis using less.prems j by (subst clen_loop.simps) (simp add: more_if_def at_clen_def)
  next
    case False
    then have "is_clen bp j = Ret False" using less.prems(6) j by simp
    then have "clen_loop junk (bp, datsz, i, ps) = clen_loop junk (bp, datsz, j + 1, ps)"
      using less.prems(2) j False by (subst clen_loop.simps) (simp add: more_if_def)
    also have "\<dots> = Some (at_clen bp datsz p ps)" using less.hyps [of "j + 1"] less.prems j False by simp
    finally show ?thesis .
  qed
qed

text \<open>The end of the header.\<close>

definition ends_at :: "string \<Rightarrow> nat \<Rightarrow> bool" where
  "ends_at bp k \<longleftrightarrow> bp ! k = CHR 0x0A \<and> bp ! (k + 1) = CHR 0x0D \<and> bp ! (k + 2) = CHR 0x0A"

lemma end_scan_step:
  "i + 2 < datsz \<Longrightarrow> datsz \<le> length bp \<Longrightarrow>
   end_scan bp datsz i = (if ends_at bp i then Ret (True, i + 3) else end_scan bp datsz (i + 1))"
  by (subst end_scan.simps) (simp add: ends_at_def)

lemma end_scan_found:
  assumes "i \<le> p" "p + 2 < datsz" "datsz \<le> length bp" "ends_at bp p" "\<forall>k. i \<le> k \<and> k < p \<longrightarrow> \<not> ends_at bp k"
  shows "end_scan bp datsz i = Ret (True, p + 3)"
  using assms
proof (induction "p - i" arbitrary: i)
  case 0
  then show ?case by (simp add: end_scan_step)
next
  case (Suc n)
  then have "\<not> ends_at bp i" by simp
  then have "end_scan bp datsz i = end_scan bp datsz (i + 1)" using Suc.prems Suc.hyps(2) by (simp add: end_scan_step)
  then show ?case using Suc.hyps(1) [of "i + 1"] Suc.hyps(2) Suc.prems by simp
qed

lemma end_scan_none:
  assumes "i < datsz" "datsz \<le> length bp" "\<forall>k. i \<le> k \<and> k + 2 < datsz \<longrightarrow> \<not> ends_at bp k"
  shows "\<exists>j. end_scan bp datsz i = Ret (False, j) \<and> i \<le> j \<and> j < datsz"
  using assms
proof (induction "datsz - i" arbitrary: i)
  case (Suc n)
  show ?case
  proof (cases "int i < int datsz - 2")
    case True
    then have "\<not> ends_at bp i" using Suc.prems(3) by simp
    then have "end_scan bp datsz i = end_scan bp datsz (i + 1)" using True Suc.prems by (simp add: end_scan_step)
    then show ?thesis using Suc.hyps(1) [of "i + 1"] Suc.hyps(2) Suc.prems True by fastforce
  next
    case False
    then show ?thesis using Suc.prems by (simp add: end_scan.simps [of bp datsz i])
  qed
qed simp

lemma end_loop_at:
  assumes "i \<le> p" "p + 3 < datsz" "datsz \<le> length bp" "ends_at bp p" "\<forall>k. i \<le> k \<and> k < p \<longrightarrow> \<not> ends_at bp k"
  shows "end_loop junk (bp, datsz, i, ps) = Some (Ret (Some (bp, datsz, p + 3, ps)))"
  using assms end_scan_found [of i p datsz bp] by (subst end_loop.simps) (simp add: more_if_def)

text \<open>Without the end of the header the loop stays where it is, and reads nothing more.\<close>

definition stuck :: "scan \<Rightarrow> bool" where
  "stuck st = (case st of (bp, datsz, i, ps) \<Rightarrow> i < datsz \<and> datsz \<le> length bp \<and> (\<forall>k. i \<le> k \<and> k + 2 < datsz \<longrightarrow> \<not> ends_at bp k))"

lemma end_loop_stuck: "stuck st \<Longrightarrow> end_loop junk st = None"
proof (rule ccontr)
  assume s: "stuck st" and "end_loop junk st \<noteq> None"
  then obtain r where "end_loop junk st = Some r" by blast
  have "\<not> stuck st"
  proof (rule end_loop.raw_induct [of "\<lambda>junk st r. \<not> stuck st", OF _ \<open>end_loop junk st = Some r\<close>])
    fix f junk st r
    assume IH: "\<And>junk st r. f junk st = Some r \<Longrightarrow> \<not> stuck st"
      and e: "(case st of (bp, datsz, i, ps) \<Rightarrow>
        (case end_scan bp datsz i of
           Wild \<Rightarrow> Some Wild | Exits \<Rightarrow> Some Exits
         | Ret (found, i) \<Rightarrow>
             (case more_if junk (i \<ge> datsz) (bp, datsz, i, ps) of
                None \<Rightarrow> Some (Ret None) | Some st \<Rightarrow> if found then Some (Ret (Some st)) else f junk st))) = Some r"
    obtain bp datsz i ps where st: "st = (bp, datsz, i, ps)" by (cases st) blast
    show "\<not> stuck st"
    proof
      assume "stuck st"
      then have a: "i < datsz" "datsz \<le> length bp" "\<forall>k. i \<le> k \<and> k + 2 < datsz \<longrightarrow> \<not> ends_at bp k" by (simp_all add: st stuck_def)
      obtain j where j: "end_scan bp datsz i = Ret (False, j)" "i \<le> j" "j < datsz" using end_scan_none [OF a] by blast
      then have "f junk (bp, datsz, j, ps) = Some r" using e by (simp add: st more_if_def)
      from IH [OF this] show False using a j by (simp add: stuck_def)
    qed
  qed
  with s show False by blast
qed

section \<open>An answer in one piece\<close>

text \<open>
  The start of an answer: a protocol name of eight characters, the code, the reason, other
  fields, and the length, up to the end of its line.
\<close>

definition answer_start :: "string \<Rightarrow> nat \<Rightarrow> string \<Rightarrow> string \<Rightarrow> nat \<Rightarrow> string" where
  "answer_start v code reason h n =
     v @ '' '' @ dec code @ '' '' @ reason @ [CHR 0x0D] @ h @ ''Content-Length: '' @ dec n @ [CHR 0x0D]"

text \<open>The fields before the length: none of them contains its name.\<close>

definition other_fields :: "string \<Rightarrow> bool" where
  "other_fields h \<longleftrightarrow> list_all (\<lambda>k. map lower (take 15 (drop k (h @ ''Content-Length:''))) \<noteq> ''content-length:'') [0..<length h]"

definition start_ok :: "string \<Rightarrow> nat \<Rightarrow> string \<Rightarrow> string \<Rightarrow> bool" where
  "start_ok v code reason h \<longleftrightarrow>
     length v = 8 \<and> 200 \<le> code \<and> code \<le> 299 \<and> CHR 0x0D \<notin> set reason \<and> CHR 0x0A \<notin> set reason \<and> other_fields h"

text \<open>The buffer when the start of the answer was scanned.\<close>

definition scanned :: "string \<Rightarrow> nat \<Rightarrow> string \<Rightarrow> string \<Rightarrow> nat \<Rightarrow> string" where
  "scanned v code reason h n =
     v @ '' '' @ dec code @ [CHR 0x00] @ reason @ [CHR 0x00] @ h @ ''Content-Length: '' @ dec n @ [CHR 0x00]"

lemma length_scanned: "length (scanned v code reason h n) = length (answer_start v code reason h n)"
  by (simp add: scanned_def answer_start_def)

lemma status_line_start:
  assumes v: "length v = 8" and reason: "CHR 0x0D \<notin> set reason" "CHR 0x0A \<notin> set reason"
  shows "status_line (v @ '' '' @ dec code @ '' '' @ reason @ [CHR 0x0D] @ u) =
    Ret (Some (int code, v @ '' '' @ dec code @ [CHR 0x00] @ reason @ [CHR 0x00] @ u, length (v @ '' '' @ dec code @ [CHR 0x00] @ reason)))"
proof -
  let ?t = "reason @ [CHR 0x0D] @ u" and ?n = "9 + length (dec code)"
  let ?b = "v @ '' '' @ dec code @ '' '' @ ?t" and ?b1 = "v @ '' '' @ dec code @ [CHR 0x00] @ ?t"
  obtain c ds where d: "dec code = c # ds" by (cases "dec code") auto
  have "is_digit c" using dec_digits [of c code] d by simp
  have 1: "skip_while is_space ?b 8 = Ret 9"
    using skip_while_at [of ?b v "'' ''" c "ds @ '' '' @ ?t" is_space, OF _ _ is_space_digit [OF \<open>is_digit c\<close>] refl] unfolding v
    by (simp add: is_space_def d)
  have 2: "skip_while is_digit ?b 9 = Ret ?n"
    using skip_while_at [of ?b "v @ '' ''" "dec code" "CHR '' ''" ?t is_digit, OF _ _ _ refl] dec_digits v by simp
  have 3: "poke ?b ?n CHR 0x00 = Ret ?b1" using poke_at [of ?n "v @ '' '' @ dec code" "CHR '' ''" ?t "CHR 0x00"] v by simp
  have 4: "skip_while (\<lambda>x. x \<noteq> CHR 0x0D \<and> x \<noteq> CHR 0x0A) ?b1 (?n + 1) = Ret (?n + 1 + length reason)"
    using skip_while_at [of ?b1 "v @ '' '' @ dec code @ [CHR 0x00]" reason "CHR 0x0D" u "\<lambda>x. x \<noteq> CHR 0x0D \<and> x \<noteq> CHR 0x0A" "?n + 1"] v reason
    by auto
  have 5: "poke ?b1 (?n + 1 + length reason) CHR 0x00 = Ret (v @ '' '' @ dec code @ [CHR 0x00] @ reason @ [CHR 0x00] @ u)"
    using poke_at [of "?n + 1 + length reason" "v @ '' '' @ dec code @ [CHR 0x00] @ reason" "CHR 0x0D" u "CHR 0x00"] v by simp
  have "take (length (dec code)) (drop 9 ?b1) = dec code" using v by simp
  then show ?thesis using 1 2 3 4 5 v by (simp add: status_line_def)
qed

lemma lower_clen: "map lower ''Content-Length:'' = ''content-length:''"
  by code_simp

lemma is_clen_False:
  assumes "drop i bp = xs" "15 \<le> length xs" "map lower (take 15 xs) \<noteq> ''content-length:''"
  shows "is_clen bp i = Ret False"
proof -
  have "\<not> prefix (map lower (take 15 xs)) ''content-length:''"
  proof
    assume "prefix (map lower (take 15 xs)) ''content-length:''"
    then obtain z where z: "''content-length:'' = map lower (take 15 xs) @ z" by (auto simp: prefix_def)
    have "z = []" using assms(2) arg_cong [OF z, of length, unfolded length_append] by simp
    with z show False using assms(3) by simp
  qed
  then show ?thesis using assms(1) by (simp add: is_clen_def Let_def)
qed

lemma clen_loop_start:
  fixes n :: nat
  assumes h: "other_fields h" and m: "m \<le> length w"
  defines "u \<equiv> h @ ''Content-Length: '' @ dec n"
  shows "clen_loop junk (a @ [CHR 0x00] @ u @ [CHR 0x0D] @ w, length a + length u + 2 + m, length a, ps) =
    Some (Ret (Some (int n, a @ [CHR 0x00] @ u @ [CHR 0x00] @ w, length a + length u + 2 + m, length a + length u + 2, ps)))"
proof -
  let ?b = "a @ [CHR 0x00] @ u @ [CHR 0x0D] @ w" and ?p = "length a + 1 + length h"
  have at: "drop ?p ?b = ''Content-Length: '' @ dec n @ [CHR 0x0D] @ w" by (simp add: u_def)
  have t: "take 15 (drop ?p ?b) = ''Content-Length:''" unfolding at by simp
  have "is_clen ?b ?p = Ret True" unfolding is_clen_def Let_def t lower_clen by simp
  moreover have "is_clen ?b k = Ret False" if "length a \<le> k \<and> k < ?p" for k
  proof (cases "k = length a")
    case True
    then show ?thesis by (intro is_clen_False [OF refl]) (simp_all add: u_def lower_def)
  next
    case False
    define q where "q = k - length a - 1"
    have q: "k = length a + 1 + q" "q < length h" using False that unfolding q_def by linarith+
    define y where "y = drop q (h @ ''Content-Length:'')"
    have dk: "drop k ?b = y @ '' '' @ dec n @ [CHR 0x0D] @ w" using q by (simp add: u_def y_def)
    have "map lower (take 15 y) \<noteq> ''content-length:''" using h q unfolding y_def other_fields_def by (simp only: list_all_iff) simp
    moreover have "15 \<le> length y" using q by (simp add: y_def)
    ultimately show ?thesis by (intro is_clen_False [OF dk]) simp_all
  qed
  moreover have "?b ! ?p = CHR ''C''" by (simp add: u_def nth_append)
  ultimately have "clen_loop junk (?b, length a + length u + 2 + m, length a, ps) = Some (at_clen ?b (length a + length u + 2 + m) ?p ps)"
    using m by (intro clen_loop_at) (simp_all add: u_def)
  moreover have "at_clen ?b (length a + length u + 2 + m) ?p ps =
      Ret (Some (int n, a @ [CHR 0x00] @ u @ [CHR 0x00] @ w, length a + length u + 2 + m, length a + length u + 2, ps))"
  proof -
    define f where "f = a @ [CHR 0x00] @ h @ ''Content-Length:''"
    have b: "?b = f @ '' '' @ dec n @ [CHR 0x0D] @ w" and f: "length f = ?p + 15" by (simp_all add: f_def u_def)
    obtain c ds where d: "dec n = c # ds" by (cases "dec n") auto
    have "is_digit c" using dec_digits [of c n] d by simp
    have "\<not> is_digit CHR 0x0D" by (simp add: is_digit_def)
    have 1: "skip_while is_space ?b (?p + 15) = Ret (length f + 1)" unfolding b f [symmetric]
      using skip_while_at [of _ f "'' ''" c "ds @ [CHR 0x0D] @ w" is_space, OF refl _ is_space_digit [OF \<open>is_digit c\<close>] refl] d by (simp add: is_space_def)
    have 2: "skip_while is_digit ?b (length f + 1) = Ret (length f + 1 + length (dec n))" unfolding b
      using skip_while_at [of _ "f @ '' ''" "dec n" "CHR 0x0D" w is_digit, OF refl _ \<open>\<not> is_digit CHR 0x0D\<close> refl] dec_digits by simp
    have 3: "poke ?b (length f + 1 + length (dec n)) CHR 0x00 = Ret (f @ '' '' @ dec n @ [CHR 0x00] @ w)" unfolding b
      using poke_at [of _ "f @ '' '' @ dec n" "CHR 0x0D" w "CHR 0x00", OF refl] by simp
    have "length f + 1 + length (dec n) + 1 = length a + length u + 2" by (simp add: f_def u_def)
    moreover have "f @ '' '' @ dec n @ [CHR 0x00] @ w = a @ [CHR 0x00] @ u @ [CHR 0x00] @ w" by (simp add: f_def u_def)
    moreover have "take (length (dec n)) (drop (length f + 1) (f @ '' '' @ dec n @ [CHR 0x00] @ w)) = dec n" by simp
    ultimately show ?thesis unfolding at_clen_def 1 run_bind.simps 2 3 by simp
  qed
  ultimately show ?thesis by simp
qed

text \<open>What is left when the length is known.\<close>

definition after_end :: "(nat \<Rightarrow> char) \<Rightarrow> int \<Rightarrow> int \<Rightarrow> scan option run option \<Rightarrow> bool run option" where
  "after_end junk ident len r =
     (case r of
        None \<Rightarrow> None
      | Some (Ret (Some (bp, datsz, i, ps))) \<Rightarrow>
          (case more_if junk (int datsz - int i < len) (bp, datsz, i, ps) of
             None \<Rightarrow> Some (Ret False)
           | Some (bp, datsz, i, ps) \<Rightarrow> Some (ipp_answer ident bp i))
      | Some (Ret None) \<Rightarrow> Some (Ret False)
      | Some Wild \<Rightarrow> Some Wild
      | Some Exits \<Rightarrow> Some Exits)"

lemma status_loop_start:
  fixes n :: nat
  assumes s: "start_ok v code reason h" and w: "w \<noteq> []"
  defines "d \<equiv> answer_start v code reason h n @ w"
  assumes l: "length d \<le> length buf"
  shows "status_loop junk ident buf (Data d # ps) =
    after_end junk ident (int n)
      (end_loop junk (scanned v code reason h n @ w @ drop (length d) buf, length d, length (answer_start v code reason h n), ps))"
proof -
  let ?r = "drop (length d) buf"
  let ?u = "h @ ''Content-Length: '' @ dec n" and ?a = "v @ '' '' @ dec code @ [CHR 0x00] @ reason"
  have v: "length v = 8" "CHR 0x0D \<notin> set reason" "CHR 0x0A \<notin> set reason" "200 \<le> code" "code \<le> 299" "other_fields h" using s by (simp_all add: start_ok_def)
  have put: "put_at 0 d buf = v @ '' '' @ dec code @ '' '' @ reason @ [CHR 0x0D] @ ?u @ [CHR 0x0D] @ w @ ?r"
    by (simp add: put_at_def d_def answer_start_def)
  have line: "status_line (put_at 0 d buf) = Ret (Some (int code, ?a @ [CHR 0x00] @ ?u @ [CHR 0x0D] @ w @ ?r, length ?a))"
    unfolding put using status_line_start [OF v(1-3), of code "?u @ [CHR 0x0D] @ w @ ?r"] unfolding append_assoc .
  have ld: "length d = length ?a + length ?u + 2 + length w" by (simp add: d_def answer_start_def)
  have n: "length (answer_start v code reason h n) = length ?a + length ?u + 2" by (simp add: answer_start_def)
  have sc: "scanned v code reason h n @ w @ ?r = ?a @ [CHR 0x00] @ ?u @ [CHR 0x00] @ w @ ?r" by (simp add: scanned_def)
  have clen: "clen_loop junk (?a @ [CHR 0x00] @ ?u @ [CHR 0x0D] @ w @ ?r, length d, length ?a, ps) =
      Some (Ret (Some (int n, scanned v code reason h n @ w @ ?r, length d, length (answer_start v code reason h n), ps)))"
    unfolding sc unfolding n unfolding ld by (rule clen_loop_start [OF v(6)]) simp
  have t: "tread (length buf) (Data d # ps) = (Inr d, ps)" "d \<noteq> []" using l by (simp_all add: d_def answer_start_def)
  have "status_loop junk ident buf (Data d # ps) = answer_body junk ident (?a @ [CHR 0x00] @ ?u @ [CHR 0x0D] @ w @ ?r, length d, length ?a, ps)"
    using v(4,5) t by (subst status_loop.simps) (simp only: t line prod.case sum.case run.case option.case if_False, simp)
  also have "\<dots> = after_end junk ident (int n)
      (end_loop junk (scanned v code reason h n @ w @ ?r, length d, length (answer_start v code reason h n), ps))"
    unfolding answer_body_def clen using w by (simp add: after_end_def more_if_def d_def)
  finally show ?thesis .
qed

lemma get16_at: "k = length a \<Longrightarrow> n < 65536 \<Longrightarrow> get16 (a @ be16 n @ z) k = Ret n"
  by (simp add: get16_def peek_def be16_def nth_append) 

lemma get32_at:
  assumes "k = length a" "- (2 ^ 31) \<le> i" "i < 2 ^ 31"
  shows "get32 (a @ be32 i @ z) k = Ret i"
proof -
  define n where "n = nat (i mod 2 ^ 32)"
  have n: "n < 2 ^ 32" "int n = i mod 2 ^ 32" by (simp_all add: n_def)
  have g: "get16 (a @ be16 (n div 65536) @ be16 (n mod 65536) @ z) k = Ret (n div 65536)"
    "get16 ((a @ be16 (n div 65536)) @ be16 (n mod 65536) @ z) (k + 2) = Ret (n mod 65536)"
    using n assms(1) by (intro get16_at; simp add: be16_def)+
  have "n div 65536 * 65536 + n mod 65536 = n" by simp
  moreover have "sint (of_nat n :: 32 word) = i"
  proof -
    have "(of_nat n :: 32 word) = of_int (int n)" by simp
    also have "\<dots> = of_int i" by (simp only: n(2) of_int_eq_iff) (simp add: word_of_int_eq_iff take_bit_eq_mod)
    finally show ?thesis using assms(2,3) by (simp add: sint_uint unsigned_of_int signed_take_bit_take_bit signed_take_bit_int_eq_self)
  qed
  ultimately show ?thesis
    unfolding get32_def be32_def Let_def n_def [symmetric] append_assoc g(1) g(2) [unfolded append_assoc] run_bind.simps by simp
qed

text \<open>The header does not end before the end of \<open>x\<close>.\<close>

definition LFCRLF :: string where
  "LFCRLF = [CHR 0x0A, CHR 0x0D, CHR 0x0A]"

definition no_end :: "string \<Rightarrow> string \<Rightarrow> bool" where
  "no_end x y \<longleftrightarrow> list_all (\<lambda>k. take 3 (drop k (x @ y)) \<noteq> LFCRLF) [0..<length x]"

lemma ends_at_iff: "k + 2 < length bp \<Longrightarrow> ends_at bp k \<longleftrightarrow> take 3 (drop k bp) = LFCRLF"
  by (simp add: ends_at_def LFCRLF_def Cons_nth_drop_Suc [symmetric] numeral_3_eq_3)

lemma not_ends_at:
  assumes "no_end x y" "length a \<le> k" "k < length a + length x" "k + 2 < length a + length (x @ y)"
  shows "\<not> ends_at (a @ x @ y @ z) k"
proof -
  define q where "q = k - length a"
  have q: "k = length a + q" "q < length x" "q + 2 < length (x @ y)" using assms unfolding q_def by simp_all
  have "take 3 (drop k (a @ x @ y @ z)) = take 3 (drop q ((x @ y) @ z))" using q(1) by simp
  also have "\<dots> = take 3 (drop q (x @ y))" using q(3) by (simp only: drop_append take_append) simp
  finally have "take 3 (drop k (a @ x @ y @ z)) \<noteq> LFCRLF" using assms(1) q(2) by (simp add: no_end_def list_all_iff)
  then show ?thesis using assms(4) by (subst ends_at_iff) simp_all
qed

section \<open>Properties\<close>

text \<open>
  C36. When a successful answer with a length arrives in one piece, together with the end of its
  header and the whole body, \<^verbatim>\<open>printer_status\<close> terminates, stays within its buffer, and its result
  is right: success exactly if the body is for the same job and its status is in the class of
  success, for all other fields before and after the length, and whatever arrives later.
\<close>

theorem printer_status_complete_answer:
  assumes start: "start_ok v code reason h" and x: "no_end x LFCRLF" and body: "body = [maj, mnr] @ be16 st @ be32 i @ rest"
    and num: "st < 65536" "- (2 ^ 31) \<le> i" "i < 2 ^ 31" and n: "n \<le> length body"
    and d: "d = answer_start v code reason h n @ x @ LFCRLF @ body" "length d \<le> IOBUFSZ"
  shows "printer_status junk ident (Data d # ps) = Some (Ret (i = ident \<and> st \<le> 255))"
proof -
  let ?z = "drop (length d) (map junk [0..<IOBUFSZ])"
  let ?a = "scanned v code reason h n" 
  let ?b = "?a @ (x @ LFCRLF @ body) @ ?z" and ?p = "length ?a + length x"
  have la: "length (answer_start v code reason h n) = length ?a" by (simp add: length_scanned)
  have "body \<noteq> []" by (simp add: body)
  have l3: "length LFCRLF = 3" by (simp add: LFCRLF_def)
  have ld: "length d = ?p + 3 + length body" by (simp add: d(1) la l3)
  have "ends_at ?b ?p" by (simp add: ends_at_def LFCRLF_def nth_append)
  moreover have "\<not> ends_at ?b k" if "length ?a \<le> k \<and> k < ?p" for k
    using not_ends_at [OF x, of ?a k "body @ ?z"] that l3 by simp
  ultimately have e: "end_loop junk (?b, length d, length ?a, ps) = Some (Ret (Some (?b, length d, ?p + 3, ps)))"
    using \<open>body \<noteq> []\<close> ld l3 by (intro end_loop_at) simp_all
  define c where "c = ?a @ x @ LFCRLF"
  have b: "?b = c @ body @ ?z" and c: "length c = ?p + 3" by (simp_all add: c_def l3)
  have "get16 ?b (length c + 2) = Ret st" unfolding b unfolding body using get16_at [of _ "c @ [maj, mnr]" st "be32 i @ rest @ ?z", OF _ num(1)] by simp
  moreover have "get32 ?b (length c + 4) = Ret i" unfolding b unfolding body
    using get32_at [of "length c + 4" "c @ [maj, mnr] @ be16 st" i "rest @ ?z", OF _ num(2,3)] by (simp add: be16_def)
  ultimately have "ipp_answer ident ?b (length c) = Ret (i = ident \<and> st \<le> 255)" by (simp add: ipp_answer_def)
  then have "after_end junk ident (int n) (Some (Ret (Some (?b, length d, length c, ps)))) = Some (Ret (i = ident \<and> st \<le> 255))"
    using n ld c by (simp add: after_end_def more_if_def)
  moreover have "printer_status junk ident (Data d # ps) = after_end junk ident (int n) (end_loop junk (?b, length d, length ?a, ps))"
    unfolding printer_status_def d(1) la [symmetric] by (rule status_loop_start [OF start]) (use d \<open>body \<noteq> []\<close> in simp_all)
  ultimately show ?thesis using e c by simp
qed

text \<open>
  When such an answer arrives without the end of its header, \<^verbatim>\<open>printer_status\<close> never returns,
  whatever arrives afterwards: the loop that looks for the end stops two characters before the
  end of the data, where it does not read more.
\<close>

theorem printer_status_hangs:
  assumes start: "start_ok v code reason h" and x: "no_end x []" "x \<noteq> []"
    and d: "d = answer_start v code reason h n @ x" "length d \<le> IOBUFSZ"
  shows "printer_status junk ident (Data d # ps) = None"
proof -
  let ?z = "drop (length d) (map junk [0..<IOBUFSZ])" and ?a = "scanned v code reason h n"
  have la: "length (answer_start v code reason h n) = length ?a" by (simp add: length_scanned)
  have ld: "length d = length ?a + length x" by (simp add: d(1) la)
  have "stuck (?a @ x @ ?z, length d, length ?a, ps)"
    using not_ends_at [OF x(1), of ?a _ ?z] x(2) ld by (auto simp: stuck_def)
  then have "end_loop junk (?a @ x @ ?z, length d, length ?a, ps) = None" by (rule end_loop_stuck)
  moreover have "printer_status junk ident (Data d # ps) = after_end junk ident (int n) (end_loop junk (?a @ x @ ?z, length d, length ?a, ps))"
    unfolding printer_status_def d(1) la [symmetric] by (rule status_loop_start [OF start]) (use d x(2) in simp_all)
  ultimately show ?thesis by (simp add: after_end_def)
qed

definition sample_start :: "string" where
  "sample_start = answer_start ''HTTP/1.1'' 200 ''OK'' ([CHR 0x0A] @ ''Age: 0'' @ CRLF) 9"

definition sample_body :: "string" where
  "sample_body = [CHR 0x01, CHR 0x01] @ be16 0 @ be32 7 @ [CHR 0x03]"

lemma sample_length: "length sample_start = 43"
  by code_simp

lemma sample_start_ok: "start_ok ''HTTP/1.1'' 200 ''OK'' ([CHR 0x0A] @ ''Age: 0'' @ CRLF)"
  by code_simp

theorem printer_status_complete_answer_witness:
  "printer_status (\<lambda>_. CHR 0x00) 7 [Data (sample_start @ LFCRLF @ sample_body)] = Some (Ret True)"
proof -
  have start: "no_end [] LFCRLF" by code_simp
  have body: "length sample_body = 9" by (simp add: sample_body_def be16_def be32_def Let_def)
  then have "length (sample_start @ LFCRLF @ sample_body) \<le> IOBUFSZ" by (simp add: sample_length LFCRLF_def IOBUFSZ_def)
  then show ?thesis using start body sample_start_ok
       printer_status_complete_answer [of "''HTTP/1.1''" 200 "''OK''" "[CHR 0x0A] @ ''Age: 0'' @ CRLF" "[]" sample_body
      "CHR 0x01" "CHR 0x01" 0 7 "[CHR 0x03]" 9 "sample_start @ LFCRLF @ sample_body" "\<lambda>_. CHR 0x00" 7 "[]"]
    by (simp add: sample_start_def sample_body_def)
qed

theorem printer_status_hangs_witness:
  "printer_status (\<lambda>_. CHR 0x00) 7 [Data (sample_start @ [CHR 0x0A]), Data (CRLF @ sample_body)] = None"
proof -
  have "no_end [CHR 0x0A] []" by code_simp
  moreover have "length (sample_start @ [CHR 0x0A]) \<le> IOBUFSZ" by (simp add: sample_length IOBUFSZ_def)
  ultimately show ?thesis
    using sample_start_ok printer_status_hangs [of "''HTTP/1.1''" 200 "''OK''" "[CHR 0x0A] @ ''Age: 0'' @ CRLF" "[CHR 0x0A]"
      "sample_start @ [CHR 0x0A]" 9 "\<lambda>_. CHR 0x00" 7 "[Data (CRLF @ sample_body)]"]
    by (simp add: sample_start_def)
qed

lemma length_ipp_header:
  "length (ipp_header pname i r) = 160 + length pname + length (usernm r) + length (jobnm r) + (if is_text r then 10 else 22)"
  by (simp add: ipp_header_def add_option_def be16_def be32_def Let_def printer_uri_def)

lemma length_http_header: "length (http_header pname n) = 83 + length pname + length (dec n)"
proof -
  have "length (dec IPP_PORT) = 3" by code_simp
  then show ?thesis by (simp add: http_header_def CRLF_def)
qed

text \<open>
  The headers are built in buffers of fixed size without a check. They fit exactly if the name
  of the printer has fewer than 53 characters and the names of the printer, the user and the
  job together leave room; a name of a printer with 15 characters and a request as the client
  builds it from a long file name overrun the buffer.
\<close>

theorem printd_header_overflow_iff:
  assumes "length d < 10 ^ 18"
  shows "send_job env pname j d = Wild \<longleftrightarrow>
    53 \<le> length pname \<or>
    IBUFSZ < 160 + length pname + length (usernm (req j)) + length (jobnm (req j)) + (if is_text (req j) then 10 else 22)"
proof -
  let ?l = "length (ipp_header pname (jobid j) (req j))"
  let ?e = "length (if is_text (req j) then [CHR 0x08] else [])"
  have "length (http_header pname (length d + ?l + ?e)) \<le> HBUFSZ" if "length pname < 53" "?l \<le> IBUFSZ"
  proof -
    have "length d + ?l + ?e < 10 ^ Suc 18" using assms that(2) by (simp add: IBUFSZ_def)
    then have "length (dec (length d + ?l + ?e)) \<le> Suc 18" by (rule length_dec)
    then show ?thesis using that(1) by (simp add: length_http_header HBUFSZ_def)
  qed
  moreover have "64 \<le> length (printer_uri pname) \<longleftrightarrow> 53 \<le> length pname" by (simp add: printer_uri_def)
  ultimately show ?thesis by (auto simp: send_job_def Let_def length_ipp_header)
qed

theorem printd_header_overflow_iff_witness:
  "send_job \<lparr>pe_printer = None, pe_open = True, pe_fstat = True, pe_connect = True, pe_writev = True, pe_write = True, pe_copy = True, pe_status = True\<rparr>
     ''printer.example''
     \<lparr>p_next = 0, p_prev = 0, jobid = 1, req = make_request (Some (replicate 63 CHR ''u'')) (replicate 300 CHR ''f'') 4 False\<rparr> ''%!PS'' = Wild"
  by (subst printd_header_overflow_iff)
    (simp_all add: make_request_def IBUFSZ_def USERNM_MAX_def JOBNM_MAX_def is_text_def)

end
