(* ===== verification/Dtree.thy ===== *)
theory Dtree
  imports C_Text
begin

text \<open>
  The directory cache of \<^verbatim>\<open>tlpi-dist/inotify/inotify_dtree.c\<close>: an array of watch descriptors and
  path names that the program keeps equal to the directories of the trees it watches, from the
  events the kernel reports. What \<^verbatim>\<open>nftw\<close> visits, the results of the calls of inotify and the
  events are arguments.
\<close>

section \<open>Data\<close>

definition PATH_MAX :: nat where "PATH_MAX = 4096"
definition ALLOC_INCR :: nat where "ALLOC_INCR = 200"

definition IN_MOVED_FROM :: "32 word" where "IN_MOVED_FROM = 0x40"
definition IN_MOVED_TO :: "32 word" where "IN_MOVED_TO = 0x80"
definition IN_CREATE :: "32 word" where "IN_CREATE = 0x100"
definition IN_DELETE_SELF :: "32 word" where "IN_DELETE_SELF = 0x400"
definition IN_MOVE_SELF :: "32 word" where "IN_MOVE_SELF = 0x800"
definition IN_UNMOUNT :: "32 word" where "IN_UNMOUNT = 0x2000"
definition IN_Q_OVERFLOW :: "32 word" where "IN_Q_OVERFLOW = 0x4000"
definition IN_IGNORED :: "32 word" where "IN_IGNORED = 0x8000"
definition IN_ISDIR :: "32 word" where "IN_ISDIR = 0x40000000"

record watch =
  wt_wd :: int
  wt_path :: string

record inotify_event =
  ev_wd :: int
  ev_mask :: "32 word"
  ev_cookie :: nat
  ev_name :: string

text \<open>The global variables, and the descriptor that \<^verbatim>\<open>main\<close> holds.\<close>

record dtree =
  wlCache :: "watch list"
  rootDirPaths :: "string option list"
  ignoreRootDirs :: nat
  inotifyFd :: int
  reinitCnt :: nat
  verboseMask :: int
  checkCache :: bool
  dumpCache :: bool
  abortOnCacheProblem :: bool

text \<open>
  The world while one event is handled: what \<^verbatim>\<open>nftw\<close> visits below a path, each visit with the
  path name, whether it is a directory, and the result of \<^verbatim>\<open>inotify_add_watch\<close> on it for a
  descriptor; whether \<^verbatim>\<open>inotify_rm_watch\<close> succeeds; the result of \<^verbatim>\<open>inotify_init\<close>; and what
  \<^verbatim>\<open>lstat\<close> tells of a path (\<open>None\<close> if it fails, otherwise whether it is a directory).
\<close>

type_synonym visit = "string \<times> bool \<times> (errno + int)"

record world =
  nftw :: "int \<Rightarrow> string \<Rightarrow> visit list"
  rm_watch :: "int \<Rightarrow> int \<Rightarrow> bool"
  inotify_init :: "int option"
  lstat :: "string \<Rightarrow> bool option"

section \<open>The cache\<close>

definition first_slot :: "('a \<Rightarrow> bool) \<Rightarrow> 'a list \<Rightarrow> nat option" where
  "first_slot P xs = (let j = length (takeWhile (\<lambda>x. \<not> P x) xs) in if j < length xs then Some j else None)"

definition freeCache :: "dtree \<Rightarrow> dtree" where
  "freeCache s = s\<lparr>wlCache := []\<rparr>"

text \<open>The number of entries whose path is missing; the program ends if one is not a directory.\<close>

definition checkCacheConsistency :: "world \<Rightarrow> dtree \<Rightarrow> nat run" where
  "checkCacheConsistency e s =
     (let paths = map wt_path (filter (\<lambda>w. wt_wd w \<ge> 0) (wlCache s))
      in if Some False \<in> set (map (lstat e) paths) then Exits
         else Ret (length (filter (\<lambda>p. lstat e p = None) paths)))"

definition findWatch :: "int \<Rightarrow> dtree \<Rightarrow> nat option" where
  "findWatch wd s = first_slot (\<lambda>w. wt_wd w = wd) (wlCache s)"

definition findWatchChecked :: "int \<Rightarrow> dtree \<Rightarrow> nat option run" where
  "findWatchChecked wd s =
     (case findWatch wd s of
        Some slot \<Rightarrow> Ret (Some slot)
      | None \<Rightarrow> if abortOnCacheProblem s then Exits else Ret None)"

definition empty_slot :: watch where
  "empty_slot = \<lparr>wt_wd = -1, wt_path = []\<rparr>"

definition markCacheSlotEmpty :: "nat \<Rightarrow> dtree \<Rightarrow> dtree" where
  "markCacheSlotEmpty slot s = s\<lparr>wlCache := (wlCache s)[slot := empty_slot]\<rparr>"

definition findEmptyCacheSlot :: "dtree \<Rightarrow> nat \<times> dtree" where
  "findEmptyCacheSlot s =
     (case first_slot (\<lambda>w. wt_wd w = -1) (wlCache s) of
        Some j \<Rightarrow> (j, s)
      | None \<Rightarrow> (length (wlCache s), s\<lparr>wlCache := wlCache s @ replicate ALLOC_INCR empty_slot\<rparr>))"

definition addWatchToCache :: "int \<Rightarrow> string \<Rightarrow> dtree \<Rightarrow> dtree" where
  "addWatchToCache wd pathname s =
     (let (slot, s) = findEmptyCacheSlot s
      in s\<lparr>wlCache := (wlCache s)[slot := \<lparr>wt_wd = wd, wt_path = take PATH_MAX pathname\<rparr>]\<rparr>)"

definition pathnameToCacheSlot :: "string \<Rightarrow> dtree \<Rightarrow> nat option" where
  "pathnameToCacheSlot pathname s = first_slot (\<lambda>w. wt_wd w \<ge> 0 \<and> wt_path w = pathname) (wlCache s)"

definition pathnameInCache :: "string \<Rightarrow> dtree \<Rightarrow> bool" where
  "pathnameInCache pathname s \<longleftrightarrow> pathnameToCacheSlot pathname s \<noteq> None"

text \<open>The lines that are written: slot, descriptor and path.\<close>

definition dumpCacheToLog :: "dtree \<Rightarrow> (nat \<times> int \<times> string) list" where
  "dumpCacheToLog s =
     [(j, wt_wd w, wt_path w). (j, w) \<leftarrow> zip [0..<length (wlCache s)] (wlCache s), wt_wd w \<ge> 0]"

section \<open>The root directories\<close>

text \<open>
  The arguments of the program with what \<^verbatim>\<open>lstat\<close> tells of each: \<open>None\<close> if it fails, otherwise
  whether it is a directory, and its device and i-node.
\<close>

definition copyRootDirPaths :: "(string \<times> (bool \<times> nat \<times> nat) option) list \<Rightarrow> dtree \<Rightarrow> dtree run" where
  "copyRootDirPaths argv s =
     (if \<not> list_all (\<lambda>(p, st). st \<noteq> None \<and> fst (the st)) argv then Exits
      else if \<not> distinct (map (\<lambda>(p, st). snd (the st)) argv) then Exits
      else Ret (s\<lparr>rootDirPaths := map (Some \<circ> fst) argv, ignoreRootDirs := 0\<rparr>))"

definition findRootDirPath :: "string \<Rightarrow> dtree \<Rightarrow> nat option" where
  "findRootDirPath path s = first_slot (\<lambda>p. p = Some path) (rootDirPaths s)"

definition isRootDirPath :: "string \<Rightarrow> dtree \<Rightarrow> bool" where
  "isRootDirPath path s \<longleftrightarrow> findRootDirPath path s \<noteq> None"

definition zapRootDirPath :: "string \<Rightarrow> dtree \<Rightarrow> dtree run" where
  "zapRootDirPath path s =
     (case findRootDirPath path s of
        None \<Rightarrow> Exits
      | Some j \<Rightarrow>
          let s = s\<lparr>rootDirPaths := (rootDirPaths s)[j := None], ignoreRootDirs := ignoreRootDirs s + 1\<rparr>
          in if ignoreRootDirs s = length (rootDirPaths s) then Exits else Ret s)"

section \<open>Watching a tree\<close>

text \<open>The count is that of the directories that were added.\<close>

definition traverseTree :: "visit \<Rightarrow> nat \<times> dtree \<Rightarrow> (nat \<times> dtree) run" where
  "traverseTree v st =
     (case v of (pathname, isdir, r) \<Rightarrow> case st of (dirCnt, s) \<Rightarrow>
        if \<not> isdir then Ret st
        else
          (case r of
             Inl err \<Rightarrow> if err = ENOENT then Ret st else Exits
           | Inr wd \<Rightarrow> if findWatch wd s \<noteq> None then Ret st else Ret (dirCnt + 1, addWatchToCache wd pathname s)))"

fun traverse_all :: "visit list \<Rightarrow> nat \<times> dtree \<Rightarrow> (nat \<times> dtree) run" where
  "traverse_all [] st = Ret st"
| "traverse_all (v # vs) st = run_bind (traverseTree v st) (traverse_all vs)"

definition watchDir :: "world \<Rightarrow> int \<Rightarrow> string \<Rightarrow> dtree \<Rightarrow> (nat \<times> dtree) run" where
  "watchDir e fd pathname s = traverse_all (nftw e fd pathname) (0, s)"

definition watchSubtree :: "world \<Rightarrow> int \<Rightarrow> string \<Rightarrow> dtree \<Rightarrow> dtree run" where
  "watchSubtree e fd path s = run_bind (watchDir e fd path s) (\<lambda>(cnt, s). Ret s)"

section \<open>Changing the cache\<close>

text \<open>\<^verbatim>\<open>snprintf\<close> into a buffer of \<^verbatim>\<open>PATH_MAX\<close> characters.\<close>

definition join_path :: "string \<Rightarrow> string \<Rightarrow> string" where
  "join_path dir name = take (PATH_MAX - 1) (dir @ ''/'' @ name)"

text \<open>The test for a directory and all that is below it.\<close>

definition below :: "string \<Rightarrow> string \<Rightarrow> bool" where
  "below pn path \<longleftrightarrow>
     (let len = length pn in take len path = pn \<and> (length path = len \<or> path ! len = CHR ''/''))"

definition rewriteCachedPaths :: "string \<Rightarrow> string \<Rightarrow> string \<Rightarrow> string \<Rightarrow> dtree \<Rightarrow> dtree" where
  "rewriteCachedPaths oldPathPrefix oldName newPathPrefix newName s =
     (let fullPath = join_path oldPathPrefix oldName; newPrefix = join_path newPathPrefix newName
      in s\<lparr>wlCache := map (\<lambda>w.
           if below fullPath (wt_path w)
           then w\<lparr>wt_path := take (PATH_MAX - 1) (newPrefix @ drop (length fullPath) (wt_path w))\<rparr>
           else w) (wlCache s)\<rparr>)"

text \<open>The entries after the first failure stay; \<open>None\<close> is the result -1.\<close>

fun zap_slots :: "(int \<Rightarrow> bool) \<Rightarrow> string \<Rightarrow> watch list \<Rightarrow> nat \<Rightarrow> nat option \<times> watch list" where
  "zap_slots rm pn [] cnt = (Some cnt, [])"
| "zap_slots rm pn (w # ws) cnt =
     (if wt_wd w \<ge> 0 \<and> below pn (wt_path w) then
        (if \<not> rm (wt_wd w) then (None, w # ws)
         else (case zap_slots rm pn ws (cnt + 1) of (r, ws) \<Rightarrow> (r, empty_slot # ws)))
      else (case zap_slots rm pn ws cnt of (r, ws) \<Rightarrow> (r, w # ws)))"

definition zapSubtree :: "world \<Rightarrow> int \<Rightarrow> string \<Rightarrow> dtree \<Rightarrow> nat option \<times> dtree" where
  "zapSubtree e fd path s =
     (case zap_slots (rm_watch e fd) path (wlCache s) 0 of (cnt, ws) \<Rightarrow> (cnt, s\<lparr>wlCache := ws\<rparr>))"

text \<open>The trees of all roots that are left.\<close>

fun watch_roots :: "world \<Rightarrow> int \<Rightarrow> string option list \<Rightarrow> dtree \<Rightarrow> dtree run" where
  "watch_roots e fd [] s = Ret s"
| "watch_roots e fd (None # ps) s = watch_roots e fd ps s"
| "watch_roots e fd (Some p # ps) s = run_bind (watchSubtree e fd p s) (watch_roots e fd ps)"

definition reinitialize :: "world \<Rightarrow> int \<Rightarrow> dtree \<Rightarrow> dtree run" where
  "reinitialize e oldInotifyFd s =
     (let s = s\<lparr>reinitCnt := (if oldInotifyFd \<ge> 0 then reinitCnt s + 1 else 0)\<rparr>
      in case inotify_init e of
           None \<Rightarrow> Exits
         | Some fd \<Rightarrow> watch_roots e fd (rootDirPaths s) (freeCache (s\<lparr>inotifyFd := fd\<rparr>)))"

section \<open>The events\<close>

definition has :: "inotify_event \<Rightarrow> 32 word \<Rightarrow> bool" where
  "has ev flag \<longleftrightarrow> and (ev_mask ev) flag \<noteq> 0"

text \<open>
  What a call consumes of the buffer: one event, a pair, all that is left, or nothing because
  more must be read.
\<close>

datatype consumed = One | Two | Rest | Hanging

definition restart_cache :: "world \<Rightarrow> dtree \<Rightarrow> (consumed \<times> dtree) run" where
  "restart_cache e s = run_bind (reinitialize e (inotifyFd s) s) (\<lambda>s. Ret (Rest, s))"

definition path_of :: "nat option \<Rightarrow> dtree \<Rightarrow> string run" where
  "path_of slot s = run_bind (deref slot) (\<lambda>j. Ret (wt_path (wlCache s ! j)))"

definition zap_or_restart :: "world \<Rightarrow> string \<Rightarrow> dtree \<Rightarrow> (consumed \<times> dtree) run" where
  "zap_or_restart e path s =
     (case zapSubtree e (inotifyFd s) path s of
        (None, s) \<Rightarrow> restart_cache e s
      | (Some cnt, s) \<Rightarrow> Ret (One, s))"

definition moved_from :: "world \<Rightarrow> inotify_event \<Rightarrow> inotify_event option \<Rightarrow> bool \<Rightarrow> string \<Rightarrow> dtree \<Rightarrow> (consumed \<times> dtree) run" where
  "moved_from e ev nextEv firstTry dir s =
     (case nextEv of
        Some nev \<Rightarrow>
          if has nev IN_MOVED_TO \<and> ev_cookie nev = ev_cookie ev
          then run_bind (findWatchChecked (ev_wd nev) s) (\<lambda>slot'.
            case slot' of
              None \<Rightarrow> restart_cache e s
            | Some j \<Rightarrow> Ret (Two, rewriteCachedPaths dir (ev_name ev) (wt_path (wlCache s ! j)) (ev_name nev) s))
          else zap_or_restart e (join_path dir (ev_name ev)) s
      | None \<Rightarrow> if \<not> firstTry then zap_or_restart e (join_path dir (ev_name ev)) s else Ret (Hanging, s))"

text \<open>The branches of \<^verbatim>\<open>processNextInotifyEvent\<close>; \<open>slot\<close> is \<^verbatim>\<open>evCacheSlot\<close>, if it was assigned.\<close>

definition handle_event ::
    "world \<Rightarrow> inotify_event \<Rightarrow> inotify_event option \<Rightarrow> bool \<Rightarrow> nat option \<Rightarrow> dtree \<Rightarrow> (consumed \<times> dtree) run" where
  "handle_event e ev nextEv firstTry slot s =
     (if has ev IN_ISDIR \<and> (has ev IN_CREATE \<or> has ev IN_MOVED_TO) then
        run_bind (path_of slot s) (\<lambda>dir.
          let fullPath = join_path dir (ev_name ev)
          in if pathnameInCache fullPath s then Ret (One, s)
             else run_bind (watchSubtree e (inotifyFd s) fullPath s) (\<lambda>s. Ret (One, s)))
      else if has ev IN_DELETE_SELF then
        run_bind (path_of slot s) (\<lambda>p.
        run_bind (if isRootDirPath p s then zapRootDirPath p s else Ret s) (\<lambda>s.
        run_bind (deref slot) (\<lambda>j. Ret (One, markCacheSlotEmpty j s))))
      else if has ev IN_MOVED_FROM \<and> has ev IN_ISDIR then
        run_bind (path_of slot s) (\<lambda>dir. moved_from e ev nextEv firstTry dir s)
      else if has ev IN_Q_OVERFLOW then restart_cache e s
      else if has ev IN_UNMOUNT then run_bind (deref slot) (\<lambda>j. Ret (One, markCacheSlotEmpty j s))
      else if has ev IN_MOVE_SELF then
        run_bind (path_of slot s) (\<lambda>p.
          if isRootDirPath p s then run_bind (zapRootDirPath p s) (zap_or_restart e p) else Ret (One, s))
      else Ret (One, s))"

text \<open>The check that ends the function is left out when it returns early.\<close>

definition processNextInotifyEvent ::
    "world \<Rightarrow> inotify_event \<Rightarrow> inotify_event option \<Rightarrow> bool \<Rightarrow> dtree \<Rightarrow> (consumed \<times> dtree) run" where
  "processNextInotifyEvent e ev nextEv firstTry s =
     (let looked = ev_wd ev \<noteq> -1 \<and> \<not> has ev IN_IGNORED
      in run_bind (if looked then findWatchChecked (ev_wd ev) s else Ret None) (\<lambda>slot.
         if looked \<and> slot = None then restart_cache e s
         else
           run_bind (handle_event e ev nextEv firstTry slot s) (\<lambda>(c, s).
           if checkCache s \<and> (c = One \<or> c = Two \<or> has ev IN_Q_OVERFLOW)
           then run_bind (checkCacheConsistency e s) (\<lambda>_. Ret (c, s))
           else Ret (c, s))))"

lemma restart_cache_Rest: "restart_cache e s = Ret (c, s') \<Longrightarrow> c = Rest"
  by (auto simp: restart_cache_def run_bind_Ret_iff)

lemma zap_or_restart_not_Hanging: "zap_or_restart e p s = Ret (c, s') \<Longrightarrow> c \<noteq> Hanging"
  by (auto simp: zap_or_restart_def split: prod.splits option.splits dest: restart_cache_Rest)

lemma handle_event_Hanging: "handle_event e ev nextEv firstTry slot s = Ret (Hanging, s') \<Longrightarrow> firstTry \<and> nextEv = None \<and> s' = s"
  by (auto simp: handle_event_def moved_from_def run_bind_Ret_iff Let_def split: if_splits option.splits
    dest: restart_cache_Rest zap_or_restart_not_Hanging)

lemma Hanging_first: "processNextInotifyEvent e ev nextEv firstTry s = Ret (Hanging, s') \<Longrightarrow> firstTry \<and> nextEv = None \<and> s' = s"
  by (auto simp: processNextInotifyEvent_def Let_def run_bind_Ret_iff split: if_splits dest: handle_event_Hanging restart_cache_Rest)

text \<open>
  The loop of \<^verbatim>\<open>processInotifyEvents\<close> over the events of the buffer, each with the world in which
  it is handled, and the results of further reads; a read beyond them is interrupted by the
  alarm. The unused results are returned.
\<close>

type_synonym reads = "(errno + (inotify_event \<times> world) list) list"

function process_loop :: "(inotify_event \<times> world) list \<Rightarrow> reads \<Rightarrow> bool \<Rightarrow> dtree \<Rightarrow> (dtree \<times> reads) run" where
  "process_loop [] rds firstTry s = Ret (s, rds)"
| "process_loop ((ev, e) # evs) rds firstTry s =
     (case processNextInotifyEvent e ev (case evs of [] \<Rightarrow> None | (nev, _) # _ \<Rightarrow> Some nev) firstTry s of
        Exits \<Rightarrow> Exits
      | Wild \<Rightarrow> Wild
      | Ret (One, s) \<Rightarrow> process_loop evs rds True s
      | Ret (Two, s) \<Rightarrow> process_loop (drop 1 evs) rds True s
      | Ret (Rest, s) \<Rightarrow> Ret (s, rds)
      | Ret (Hanging, s) \<Rightarrow>
          (case rds of
             [] \<Rightarrow> process_loop ((ev, e) # evs) [] False s
           | Inl err # rds \<Rightarrow> if err = EINTR then process_loop ((ev, e) # evs) rds False s else Exits
           | Inr xs # rds \<Rightarrow> if xs = [] then Exits else process_loop ((ev, e) # evs @ xs) rds False s))"
  by pat_completeness auto
termination
  by (relation "measures [\<lambda>(evs, rds, f, s). length rds, \<lambda>(evs, rds, f, s). length evs, \<lambda>(evs, rds, f, s). if f then 1 else 0]")
    (auto dest: Hanging_first)

declare process_loop.simps(2) [simp del]

definition processInotifyEvents :: "reads \<Rightarrow> dtree \<Rightarrow> (dtree \<times> reads) run" where
  "processInotifyEvents rds s =
     (case rds of
        Inr evs # rds \<Rightarrow> if evs = [] then Exits else process_loop evs rds True s
      | _ \<Rightarrow> Exits)"

section \<open>Commands\<close>

text \<open>
  \<open>arg0\<close> is what the buffer of the argument held before. The lines that are only written are
  left out.
\<close>

definition executeCommand :: "world \<Rightarrow> string \<Rightarrow> string \<Rightarrow> dtree \<Rightarrow> dtree run" where
  "executeCommand e arg0 line s =
     (case line of
        [] \<Rightarrow> Ret s
      | cmd # rest \<Rightarrow>
          let word = takeWhile (\<lambda>c. \<not> is_space c) (dropWhile is_space rest); ns = (if word = [] then 1 else 2 :: nat);
              arg = (if ns = 2 then word else arg0)
          in if cmd = CHR ''a'' then watchSubtree e (inotifyFd s) arg (snd (zapSubtree e (inotifyFd s) arg s))
             else if cmd = CHR ''c'' \<or> cmd = CHR ''C'' then run_bind (checkCacheConsistency e s) (\<lambda>_. Ret s)
             else if cmd = CHR ''q'' then Exits
             else if cmd = CHR ''v'' then Ret (s\<lparr>verboseMask := (if ns = 2 then atol arg else if verboseMask s = 0 then 1 else 0)\<rparr>)
             else if cmd = CHR ''d'' then Ret (s\<lparr>dumpCache := \<not> dumpCache s\<rparr>)
             else if cmd = CHR ''x'' then Ret (s\<lparr>checkCache := \<not> checkCache s\<rparr>)
             else if cmd = CHR ''z'' then Ret (snd (zapSubtree e (inotifyFd s) arg s))
             else if cmd = CHR ''0'' then reinitialize e (-1) s
             else Ret s)"

text \<open>The start of \<^verbatim>\<open>main\<close>, after its options.\<close>

definition dtree_start :: "world \<Rightarrow> (string \<times> (bool \<times> nat \<times> nat) option) list \<Rightarrow> dtree \<Rightarrow> dtree run" where
  "dtree_start e argv s = run_bind (copyRootDirPaths argv s) (reinitialize e (-1))"

section \<open>The main loop\<close>

text \<open>No more reads are left than there were.\<close>

lemma process_loop_reads: "process_loop evs rds ft s = Ret (s', rds') \<Longrightarrow> length rds' \<le> length rds"
proof (induction evs rds ft s arbitrary: s' rds' rule: process_loop.induct)
  case (2 ev e evs rds ft s)
  note IH = "2.IH"
  show ?case
  proof (cases "processNextInotifyEvent e ev (case evs of [] \<Rightarrow> None | (nev, _) # _ \<Rightarrow> Some nev) ft s")
    case (Ret x)
    obtain c s1 where x: "x = (c, s1)" by (cases x)
    note r = "2.prems" [unfolded process_loop.simps(2) [of ev e evs rds ft s] Ret x run.case prod.case]
    show ?thesis
    proof (cases c)
      case One
      then show ?thesis using IH(1) [OF Ret x [symmetric]] r by simp
    next
      case Two
      then show ?thesis using IH(2) [OF Ret x [symmetric]] r by simp
    next
      case Rest
      then show ?thesis using r by simp
    next
      case Hanging
      show ?thesis
      proof (cases rds)
        case Nil
        then show ?thesis using IH(3) [OF Ret x [symmetric] Hanging] r Hanging by simp
      next
        case (Cons y ys)
        then show ?thesis using IH(4) [OF Ret x [symmetric] Hanging Cons] IH(5) [OF Ret x [symmetric] Hanging Cons] r Hanging
          by (fastforce split: sum.splits if_splits)
      qed
    qed
  qed (use "2.prems" in \<open>simp_all add: process_loop.simps(2) [of ev e evs rds ft s]\<close>)
qed simp

text \<open>The loop of \<^verbatim>\<open>main\<close> while nothing is typed.\<close>

function serve :: "reads \<Rightarrow> dtree \<Rightarrow> dtree run" where
  "serve rds s =
     (if rds = [] then Ret s
      else
        (case processInotifyEvents rds s of
           Ret (s', rds') \<Rightarrow> serve rds' s'
         | Exits \<Rightarrow> Exits
         | Wild \<Rightarrow> Wild))"
  by auto
termination
  by (relation "measure (\<lambda>(rds, s). length rds)")
    (auto simp: processInotifyEvents_def Suc_le_eq le_imp_less_Suc split: list.splits sum.splits if_splits dest: process_loop_reads)

declare serve.simps [simp del]

end
