(* ===== verification/Dtree_Props.thy ===== *)
theory Dtree_Props
  imports Dtree "HOL-Library.Sublist"
begin

text \<open>
  Properties of the directory cache. The directories that are watched are a map from watch
  descriptors to places, a place being a root and the names below it. The cache holds a map if
  its used slots are exactly the descriptors with the path names of their places.
\<close>

section \<open>Paths\<close>

type_synonym place = "nat \<times> string list"

definition slashes :: "string list \<Rightarrow> string" where
  "slashes cs = concat (map (\<lambda>n. CHR ''/'' # n) cs)"

definition render :: "string list \<Rightarrow> place \<Rightarrow> string" where
  "render R p = R ! fst p @ slashes (snd p)"

definition good_name :: "string \<Rightarrow> bool" where
  "good_name n \<longleftrightarrow> n \<noteq> [] \<and> CHR ''/'' \<notin> set n"

text \<open>No root lies below another one.\<close>

definition good_roots :: "string list \<Rightarrow> bool" where
  "good_roots R \<longleftrightarrow> [] \<notin> set R \<and> (\<forall>i < length R. \<forall>j < length R. below (R ! i) (R ! j) \<longrightarrow> i = j)"

definition good_place :: "string list \<Rightarrow> place \<Rightarrow> bool" where
  "good_place R p \<longleftrightarrow> fst p < length R \<and> (\<forall>n \<in> set (snd p). good_name n)"

lemma slashes_simps [simp]:
  "slashes [] = []" "slashes (n # cs) = CHR ''/'' # n @ slashes cs" "slashes (cs @ ds) = slashes cs @ slashes ds"
  by (simp_all add: slashes_def)

lemma slashes_start: "slashes cs = [] \<or> hd (slashes cs) = CHR ''/''"
  by (cases cs) simp_all

lemma below_iff: "below p q \<longleftrightarrow> (\<exists>z. q = p @ z \<and> (z = [] \<or> hd z = CHR ''/''))"
proof
  assume b: "below p q"
  then have "q = p @ drop (length p) q" by (metis append_take_drop_id below_def)
  moreover have "drop (length p) q = [] \<or> hd (drop (length p) q) = CHR ''/''"
    using b by (cases "length p < length q") (auto simp: below_def Let_def hd_drop_conv_nth)
  ultimately show "\<exists>z. q = p @ z \<and> (z = [] \<or> hd z = CHR ''/'')" by blast
next
  assume "\<exists>z. q = p @ z \<and> (z = [] \<or> hd z = CHR ''/'')"
  then obtain z where z: "q = p @ z" "z = [] \<or> hd z = CHR ''/''" by blast
  then show "below p q" by (cases z) (simp_all add: below_def nth_append)
qed

lemma name_unique:
  assumes "n @ x = m @ y" "good_name n" "good_name m" "x = [] \<or> hd x = CHR ''/''" "y = [] \<or> hd y = CHR ''/''"
  shows "n = m \<and> x = y"
proof -
  have t: "takeWhile (\<lambda>c. c \<noteq> CHR ''/'') (k @ z) = k" if "good_name k" "z = [] \<or> hd z = CHR ''/''" for k z
    using that by (cases z) (auto simp: good_name_def takeWhile_append2 intro: takeWhile_append2 trans)
  have "n = m" using t [OF assms(2,4)] t [OF assms(3,5)] assms(1) by simp
  then show ?thesis using assms(1) by simp
qed

lemma below_slashes:
  assumes "\<forall>n \<in> set cs. good_name n" "\<forall>n \<in> set ds. good_name n"
  shows "below (slashes cs) (slashes ds) \<longleftrightarrow> prefix cs ds"
  using assms
proof (induction cs arbitrary: ds)
  case Nil
  then show ?case using slashes_start [of ds] by (auto simp: below_iff)
next
  case (Cons c cs)
  show ?case
  proof (cases ds)
    case Nil
    then show ?thesis by (auto simp: below_iff)
  next
    case (Cons d ds')
    have "below (slashes (c # cs)) (slashes ds) \<longleftrightarrow> d = c \<and> below (slashes cs) (slashes ds')"
    proof
      assume "below (slashes (c # cs)) (slashes ds)"
      then obtain z where z: "d @ slashes ds' = c @ slashes cs @ z" "z = [] \<or> hd z = CHR ''/''" using Cons by (auto simp: below_iff)
      have "slashes cs @ z = [] \<or> hd (slashes cs @ z) = CHR ''/''" using z(2) slashes_start [of cs] by (cases cs) auto
      then show "d = c \<and> below (slashes cs) (slashes ds')"
        using name_unique [OF z(1)] Cons.prems Cons slashes_start [of ds'] z(2) by (auto simp: below_iff)
    next
      assume "d = c \<and> below (slashes cs) (slashes ds')"
      then show "below (slashes (c # cs)) (slashes ds)" using Cons by (auto simp: below_iff)
    qed
    then show ?thesis using Cons.IH [of ds'] Cons.prems Cons by auto
  qed
qed

text \<open>The test on the strings holds exactly for the directory and what is below it.\<close>

lemma below_render:
  assumes R: "good_roots R" and p: "good_place R p" and q: "good_place R q"
  shows "below (render R p) (render R q) \<longleftrightarrow> fst p = fst q \<and> prefix (snd p) (snd q)"
proof (cases "fst p = fst q")
  case True
  have "below (render R p) (render R q) \<longleftrightarrow> below (slashes (snd p)) (slashes (snd q))" by (simp add: below_iff render_def True)
  then show ?thesis using below_slashes p q True by (simp add: good_place_def)
next
  case False
  have "\<not> below (render R p) (render R q)"
  proof
    assume "below (render R p) (render R q)"
    then obtain z where z: "R ! fst q @ slashes (snd q) = R ! fst p @ slashes (snd p) @ z" "z = [] \<or> hd z = CHR ''/''"
      by (auto simp: below_iff render_def)
    have y: "slashes (snd p) @ z = [] \<or> hd (slashes (snd p) @ z) = CHR ''/''" using z(2) slashes_start [of "snd p"] by (cases "snd p") auto
    from z(1) obtain u where "R ! fst q = R ! fst p @ u \<and> u @ slashes (snd q) = slashes (snd p) @ z \<or>
        R ! fst q @ u = R ! fst p \<and> slashes (snd q) = u @ slashes (snd p) @ z" by (auto simp: append_eq_append_conv2)
    then have "below (R ! fst p) (R ! fst q) \<or> below (R ! fst q) (R ! fst p)"
    proof
      assume u: "R ! fst q = R ! fst p @ u \<and> u @ slashes (snd q) = slashes (snd p) @ z"
      then have "u = [] \<or> hd u = CHR ''/''" using y by (metis append_is_Nil_conv hd_append2)
      then show ?thesis using u by (auto simp: below_iff)
    next
      assume u: "R ! fst q @ u = R ! fst p \<and> slashes (snd q) = u @ slashes (snd p) @ z"
      then have "u = [] \<or> hd u = CHR ''/''" using slashes_start [of "snd q"] by (metis append_is_Nil_conv hd_append2)
      then show ?thesis using u by (metis below_iff)
    qed
    then show False using R p q False unfolding good_roots_def good_place_def by metis
  qed
  then show ?thesis using False by simp
qed

lemma render_inj:
  assumes R: "good_roots R" and p: "good_place R p" and q: "good_place R q" and e: "render R p = render R q"
  shows "p = q"
proof -
  have "below (render R p) (render R q)" "below (render R q) (render R p)" using e by (auto simp: below_iff)
  then have "fst p = fst q" "prefix (snd p) (snd q)" "prefix (snd q) (snd p)"
    using below_render [OF R p q] below_render [OF R q p] by simp_all
  then show ?thesis by (simp add: prod_eq_iff prefix_order.antisym)
qed

lemma render_below:
  "render R (i, cs @ ds) = render R (i, cs) @ slashes ds"
  by (simp add: render_def)

section \<open>What the cache holds\<close>

type_synonym tree = "int \<rightharpoonup> place"

definition used :: "watch list \<Rightarrow> (int \<times> string) list" where
  "used ws = map (\<lambda>w. (wt_wd w, wt_path w)) (filter (\<lambda>w. wt_wd w \<ge> 0) ws)"

lemma used_simps [simp]:
  "used [] = []"
  "used (w # ws) = (if wt_wd w \<ge> 0 then (wt_wd w, wt_path w) # used ws else used ws)"
  "used (ws @ xs) = used ws @ used xs"
  by (simp_all add: used_def)

text \<open>Every descriptor is in one slot, and a slot that is not used is empty.\<close>

definition good_cache :: "watch list \<Rightarrow> bool" where
  "good_cache ws \<longleftrightarrow> distinct (map fst (used ws)) \<and> (\<forall>w \<in> set ws. wt_wd w < 0 \<longrightarrow> w = empty_slot)"

definition good_tree :: "string list \<Rightarrow> tree \<Rightarrow> bool" where
  "good_tree R M \<longleftrightarrow>
     good_roots R \<and> inj_on M (dom M) \<and> (\<forall>wd \<in> dom M. wd \<ge> 0) \<and>
     (\<forall>p \<in> ran M. good_place R p \<and> length (render R p) < PATH_MAX)"

definition holds :: "string list \<Rightarrow> tree \<Rightarrow> dtree \<Rightarrow> bool" where
  "holds R M s \<longleftrightarrow>
     rootDirPaths s = map Some R \<and> \<not> checkCache s \<and> good_tree R M \<and> good_cache (wlCache s) \<and>
     (\<forall>wd q. (wd, q) \<in> set (used (wlCache s)) \<longleftrightarrow> map_option (render R) (M wd) = Some q)"

lemma first_slot_None [simp]: "first_slot P xs = None \<longleftrightarrow> (\<forall>x \<in> set xs. \<not> P x)"
  by (induction xs) (auto simp: first_slot_def Let_def split: if_splits)

lemma first_slot_Some:
  assumes "first_slot P xs = Some j"
  shows "j < length xs \<and> P (xs ! j)"
  using assms nth_length_takeWhile [of "\<lambda>x. \<not> P x" xs] by (auto simp: first_slot_def Let_def split: if_splits)

lemma used_iff: "(wd, p) \<in> set (used ws) \<longleftrightarrow> wd \<ge> 0 \<and> (\<exists>w \<in> set ws. wt_wd w = wd \<and> wt_path w = p)"
  by (auto simp: used_def)

lemma findWatch_holds:
  assumes h: "holds R M s" and m: "M wd = Some p"
  shows "\<exists>j. findWatch wd s = Some j \<and> j < length (wlCache s) \<and> wlCache s ! j = \<lparr>wt_wd = wd, wt_path = render R p\<rparr>"
proof -
  have u: "(wd, q) \<in> set (used (wlCache s)) \<longleftrightarrow> q = render R p" for q
    using h unfolding holds_def by (simp only: m option.map option.inject) blast
  then have wd: "wd \<ge> 0" using used_iff by blast
  obtain j where j: "findWatch wd s = Some j"
    using u unfolding findWatch_def by (cases "first_slot (\<lambda>w. wt_wd w = wd) (wlCache s)") (auto simp: used_iff)
  then have l: "j < length (wlCache s)" "wt_wd (wlCache s ! j) = wd" using first_slot_Some by (fastforce simp: findWatch_def)+
  have "(wd, wt_path (wlCache s ! j)) \<in> set (used (wlCache s))" using l wd by (auto simp: used_iff)
  then have "wt_path (wlCache s ! j) = render R p" using u by simp
  then show ?thesis using j l by (metis watch.surjective old.unit.exhaust)
qed

lemma findWatch_None:
  assumes h: "holds R M s" and wd: "wd \<ge> 0"
  shows "findWatch wd s = None \<longleftrightarrow> M wd = None"
proof
  assume "findWatch wd s = None"
  then show "M wd = None" using findWatch_holds [OF h] by (cases "M wd") fastforce+
next
  assume "M wd = None"
  then have "(wd, q) \<notin> set (used (wlCache s))" for q using h by (simp add: holds_def)
  then show "findWatch wd s = None" using wd by (auto simp: findWatch_def used_iff)
qed

lemma used_upd:
  assumes "j < length ws" "ws ! j = w"
  obtains a b where "ws = a @ w # b" "\<And>v. ws[j := v] = a @ v # b"
  using assms by (metis id_take_nth_drop upd_conv_take_nth_drop)

lemma good_tree_sub:
  assumes t: "good_tree R M" and s: "\<And>wd. M' wd = M wd \<or> M' wd = None"
  shows "good_tree R M'"
proof -
  have "dom M' \<subseteq> dom M" using s by (metis domIff subsetI)
  moreover have "ran M' \<subseteq> ran M"
  proof
    fix p assume "p \<in> ran M'"
    then obtain wd where "M' wd = Some p" by (auto simp: ran_def simp del: split_paired_All split_paired_Ex)
    then show "p \<in> ran M" using s [of wd] by (simp add: ranI)
  qed
  moreover have "inj_on M' (dom M')" unfolding inj_on_def
  proof (intro ballI impI)
    fix x y assume a: "x \<in> dom M'" "y \<in> dom M'" "M' x = M' y"
    then have "M' x = M x" "M' y = M y" using s [of x] s [of y] by (auto simp: domIff)
    then have "M x = M y" "x \<in> dom M" "y \<in> dom M" using a \<open>dom M' \<subseteq> dom M\<close> by auto
    then show "x = y" using t by (simp add: good_tree_def inj_on_def)
  qed
  ultimately show ?thesis using t unfolding good_tree_def by blast
qed

lemma markEmpty_holds:
  assumes h: "holds R M s" and m: "M wd = Some p" and j: "findWatch wd s = Some j"
  shows "holds R (M(wd := None)) (markCacheSlotEmpty j s)"
proof -
  have w: "j < length (wlCache s)" "wlCache s ! j = \<lparr>wt_wd = wd, wt_path = render R p\<rparr>" using findWatch_holds [OF h m] j by auto
  obtain a b where ab: "wlCache s = a @ \<lparr>wt_wd = wd, wt_path = render R p\<rparr> # b" "\<And>v. (wlCache s)[j := v] = a @ v # b"
    using used_upd [OF w] by blast
  have wd: "wd \<ge> 0" using h m by (auto simp: holds_def good_tree_def)
  have d: "distinct (map fst (used (wlCache s)))" and e: "(wd', q) \<in> set (used (wlCache s)) \<longleftrightarrow> map_option (render R) (M wd') = Some q" for wd' q
    using h by (simp_all add: holds_def good_cache_def)
  have n: "wd \<notin> fst ` set (used a)" "wd \<notin> fst ` set (used b)" using d wd by (simp_all add: ab(1))
  have u: "(wd', q) \<in> set (used a) \<union> set (used b) \<longleftrightarrow> map_option (render R) ((M(wd := None)) wd') = Some q" for wd' q
  proof (cases "wd' = wd")
    case True
    then show ?thesis using n by (force simp: image_iff)
  next
    case False
    then show ?thesis using e [of wd' q] wd by (auto simp: ab(1))
  qed
  have t: "good_tree R (M(wd := None))" by (rule good_tree_sub [of R M]) (use h in \<open>simp_all add: holds_def\<close>)
  have "good_cache (a @ empty_slot # b)" using h d wd by (simp add: holds_def good_cache_def ab(1) empty_slot_def)
  then show ?thesis using h t u unfolding holds_def markCacheSlotEmpty_def by (simp add: ab(2)) (simp add: empty_slot_def)
qed

section \<open>Adding directories\<close>

lemma good_treeD: "good_tree R M \<Longrightarrow> M wd = Some p \<Longrightarrow> good_place R p \<and> length (render R p) < PATH_MAX \<and> wd \<ge> 0"
  unfolding good_tree_def by (meson domI ranI)

lemma findEmptyCacheSlot_holds:
  assumes h: "holds R M s" and f: "findEmptyCacheSlot s = (j, s')"
  shows "holds R M s' \<and> j < length (wlCache s') \<and> wlCache s' ! j = empty_slot"
proof (cases "first_slot (\<lambda>w. wt_wd w = -1) (wlCache s)")
  case None
  have "used (replicate n empty_slot) = []" for n by (simp add: used_def empty_slot_def)
  then have "holds R M (s\<lparr>wlCache := wlCache s @ replicate ALLOC_INCR empty_slot\<rparr>)"
    using h by (auto simp: holds_def good_cache_def simp del: split_paired_All split_paired_Ex)
  moreover have "j = length (wlCache s)" "s' = s\<lparr>wlCache := wlCache s @ replicate ALLOC_INCR empty_slot\<rparr>"
    using f unfolding findEmptyCacheSlot_def None by simp_all
  ultimately show ?thesis by (simp add: ALLOC_INCR_def nth_append)
next
  case (Some k)
  then have "j = k" "s' = s" using f by (simp_all add: findEmptyCacheSlot_def)
  moreover have k: "k < length (wlCache s)" "wt_wd (wlCache s ! k) = -1" using first_slot_Some [OF Some] by simp_all
  moreover have "wlCache s ! k = empty_slot" using h k by (simp add: holds_def good_cache_def)
  ultimately show ?thesis using h by simp
qed

lemma addWatch_holds:
  assumes h: "holds R M s" and m: "M wd = None" and t: "good_tree R (M(wd \<mapsto> p))"
  shows "holds R (M(wd \<mapsto> p)) (addWatchToCache wd (render R p) s)"
proof -
  obtain j s' where f: "findEmptyCacheSlot s = (j, s')" by force
  note e = findEmptyCacheSlot_holds [OF h f]
  obtain a b where ab: "wlCache s' = a @ empty_slot # b" "\<And>v. (wlCache s')[j := v] = a @ v # b" using used_upd [of j "wlCache s'" empty_slot] e by blast
  have p: "length (render R p) < PATH_MAX" "wd \<ge> 0" using good_treeD [OF t, of wd p] by simp_all
  have u: "(wd', q) \<in> set (used a) \<union> set (used b) \<longleftrightarrow> map_option (render R) (M wd') = Some q" for wd' q
    using e unfolding holds_def by (simp add: ab(1) empty_slot_def)
  have nq: "(wd, q) \<notin> set (used a) \<union> set (used b)" for q unfolding u m by simp
  then have n: "wd \<notin> fst ` (set (used a) \<union> set (used b))" by (auto simp: image_iff)
  have "good_cache (a @ \<lparr>wt_wd = wd, wt_path = render R p\<rparr> # b)"
    using e n p(2) by (auto simp: holds_def good_cache_def ab(1) empty_slot_def image_Un simp del: split_paired_All split_paired_Ex)
  moreover have "(wd', q) \<in> set (used (a @ \<lparr>wt_wd = wd, wt_path = render R p\<rparr> # b)) \<longleftrightarrow>
      map_option (render R) ((M(wd \<mapsto> p)) wd') = Some q" for wd' q
    using u [of wd' q] nq [of q] p(2) by (cases "wd' = wd") auto
  ultimately show ?thesis using e t p
    unfolding holds_def addWatchToCache_def f Let_def by (simp add: ab(2))
qed

fun add_all :: "tree \<Rightarrow> (place \<times> int) list \<Rightarrow> tree" where
  "add_all M [] = M"
| "add_all M ((p, wd) # sub) = add_all (M(wd \<mapsto> p)) sub"

lemma add_all_other: "wd \<notin> snd ` set sub \<Longrightarrow> add_all M sub wd = M wd"
  by (induction M sub rule: add_all.induct) auto

definition visits_of :: "string list \<Rightarrow> (place \<times> int) list \<Rightarrow> visit list" where
  "visits_of R sub = map (\<lambda>(p, wd). (render R p, True, Inr wd)) sub"

text \<open>
  A walk that visits the given directories, with new descriptors, and other files in between,
  adds exactly these directories.
\<close>

lemma traverse_holds:
  assumes "holds R M s" "filter (\<lambda>(p, d, r). d) vs = visits_of R sub" "distinct (map snd sub)" "\<forall>wd \<in> snd ` set sub. M wd = None"
    "good_tree R (add_all M sub)"
  shows "\<exists>n' s'. traverse_all vs (n, s) = Ret (n', s') \<and> holds R (add_all M sub) s' \<and> inotifyFd s' = inotifyFd s"
  using assms
proof (induction vs arbitrary: n s M sub)
  case Nil
  then show ?case by (simp add: visits_of_def)
next
  case (Cons v vs)
  obtain pn d r where v: "v = (pn, d, r)" by (cases v) blast
  show ?case
  proof (cases d)
    case False
    then show ?thesis using Cons by (simp add: v traverseTree_def)
  next
    case True
    then obtain p wd sub' where sub: "sub = (p, wd) # sub'" "pn = render R p" "r = Inr wd" "filter (\<lambda>(p, d, r). d) vs = visits_of R sub'"
      using Cons.prems(2) v by (cases sub) (auto simp: visits_of_def)
    have m: "M wd = None" using Cons.prems(4) sub by simp
    have t: "good_tree R (add_all (M(wd \<mapsto> p)) sub')" using Cons.prems(5) sub by simp
    have t1: "good_tree R (M(wd \<mapsto> p))"
    proof (rule good_tree_sub [OF t])
      fix k show "(M(wd \<mapsto> p)) k = add_all (M(wd \<mapsto> p)) sub' k \<or> (M(wd \<mapsto> p)) k = None"
        using add_all_other [of k sub' "M(wd \<mapsto> p)"] Cons.prems(3,4) sub by (cases "k \<in> snd ` set sub'") auto
    qed
    then have "wd \<ge> 0" by (simp add: good_tree_def)
    then have "traverseTree v (n, s) = Ret (n + 1, addWatchToCache wd (render R p) s)"
      using findWatch_None [OF Cons.prems(1)] m True sub by (simp add: v traverseTree_def)
    moreover have "inotifyFd (addWatchToCache wd (render R p) s) = inotifyFd s"
      by (auto simp: addWatchToCache_def findEmptyCacheSlot_def Let_def split: option.splits)
    moreover have h: "holds R (M(wd \<mapsto> p)) (addWatchToCache wd (render R p) s)" by (rule addWatch_holds [OF Cons.prems(1) m t1])
    have d: "distinct (map snd sub')" "\<forall>k \<in> snd ` set sub'. (M(wd \<mapsto> p)) k = None" using Cons.prems(3,4) sub by auto
    obtain n' s' where "traverse_all vs (n + 1, addWatchToCache wd (render R p) s) = Ret (n', s')" "holds R (add_all (M(wd \<mapsto> p)) sub') s'"
      "inotifyFd s' = inotifyFd (addWatchToCache wd (render R p) s)" using Cons.IH [OF h sub(4) d t, of "n + 1"] by blast
    ultimately show ?thesis unfolding sub(1) by simp
  qed
qed

lemma watchSubtree_holds:
  assumes "holds R M s" "filter (\<lambda>(p, d, r). d) (nftw e fd path) = visits_of R sub" "distinct (map snd sub)" "\<forall>wd \<in> snd ` set sub. M wd = None"
    "good_tree R (add_all M sub)"
  shows "\<exists>s'. watchSubtree e fd path s = Ret s' \<and> holds R (add_all M sub) s' \<and> inotifyFd s' = inotifyFd s"
  using traverse_holds [OF assms, of 0] by (auto simp: watchSubtree_def watchDir_def)

section \<open>Moving and removing directories\<close>

definition under :: "place \<Rightarrow> place \<Rightarrow> bool" where
  "under src p \<longleftrightarrow> fst src = fst p \<and> prefix (snd src) (snd p)"

definition move_place :: "place \<Rightarrow> place \<Rightarrow> place \<Rightarrow> place" where
  "move_place src dst p = (if under src p then (fst dst, snd dst @ drop (length (snd src)) (snd p)) else p)"

definition moved :: "place \<Rightarrow> place \<Rightarrow> tree \<Rightarrow> tree" where
  "moved src dst M = (\<lambda>wd. map_option (move_place src dst) (M wd))"

definition removed :: "place \<Rightarrow> tree \<Rightarrow> tree" where
  "removed src M = (\<lambda>wd. case M wd of None \<Rightarrow> None | Some p \<Rightarrow> if under src p then None else Some p)"

lemma join_path_render: "length (render R (i, ds @ [n])) < PATH_MAX \<Longrightarrow> join_path (render R (i, ds)) n = render R (i, ds @ [n])"
  by (simp add: join_path_def render_def)

lemma render_move:
  assumes "under src p"
  shows "render R dst @ drop (length (render R src)) (render R p) = render R (move_place src dst p)"
proof -
  obtain zs where z: "fst p = fst src" "snd p = snd src @ zs" using assms by (auto simp: under_def prefix_def)
  show ?thesis using assms by (simp add: move_place_def render_def z)
qed

text \<open>
  A function on the slots that keeps the descriptors, or empties the slot, acts on the map that
  the cache holds.
\<close>

lemma holds_map:
  assumes h: "holds R M s" and t: "good_tree R M'" and e: "f empty_slot = empty_slot"
    and f: "\<And>wd p. M wd = Some p \<Longrightarrow>
      f \<lparr>wt_wd = wd, wt_path = render R p\<rparr> = (case M' wd of None \<Rightarrow> empty_slot | Some p' \<Rightarrow> \<lparr>wt_wd = wd, wt_path = render R p'\<rparr>)"
    and n: "\<And>wd. M wd = None \<Longrightarrow> M' wd = None"
  shows "holds R M' (s\<lparr>wlCache := map f (wlCache s)\<rparr>)"
proof -
  let ?ws = "wlCache s"
  have u: "(wd, q) \<in> set (used ?ws) \<longleftrightarrow> map_option (render R) (M wd) = Some q" for wd q using h by (simp add: holds_def)
  have w: "w = empty_slot \<or> (\<exists>wd p. M wd = Some p \<and> wd \<ge> 0 \<and> w = \<lparr>wt_wd = wd, wt_path = render R p\<rparr>)" if "w \<in> set ?ws" for w
  proof (cases "wt_wd w \<ge> 0")
    case True
    then have "(wt_wd w, wt_path w) \<in> set (used ?ws)" using that by (auto simp: used_iff)
    then obtain p where "M (wt_wd w) = Some p" "render R p = wt_path w" unfolding u by (cases "M (wt_wd w)") auto
    then show ?thesis using True by (intro disjI2 exI [of _ "wt_wd w"] exI [of _ p]) simp
  next
    case False
    then show ?thesis using h that by (auto simp: holds_def good_cache_def)
  qed
  have f': "f w = empty_slot \<or> (\<exists>p. M' (wt_wd w) = Some p \<and> wt_wd w \<ge> 0 \<and> f w = \<lparr>wt_wd = wt_wd w, wt_path = render R p\<rparr>)" if "w \<in> set ?ws" for w
    using w [OF that]
  proof (elim disjE exE conjE)
    fix wd p assume "M wd = Some p" "wd \<ge> 0" "w = \<lparr>wt_wd = wd, wt_path = render R p\<rparr>"
    then show ?thesis using f [of wd p] by (cases "M' wd") auto
  qed (simp add: e)
  have "distinct (map fst (used (map f xs))) \<and> fst ` set (used (map f xs)) \<subseteq> fst ` set (used xs)"
    if "distinct (map fst (used xs))" "set xs \<subseteq> set ?ws" for xs
    using that
  proof (induction xs)
    case (Cons x xs)
    have d: "distinct (map fst (used xs))" using Cons.prems(1) by (simp split: if_splits)
    have i: "distinct (map fst (used (map f xs)))" "fst ` set (used (map f xs)) \<subseteq> fst ` set (used xs)" using Cons.IH [OF d] Cons.prems(2) by auto
    from f' [of x] Cons.prems(2) have "f x = empty_slot \<or> wt_wd (f x) = wt_wd x \<and> wt_wd x \<ge> 0" by auto
    moreover have "wt_wd x \<ge> 0 \<Longrightarrow> wt_wd x \<notin> fst ` set (used (map f xs))" using Cons.prems(1) i(2) by auto
    ultimately show ?case using i by (elim disjE) (auto simp: empty_slot_def)
  qed simp
  moreover have "distinct (map fst (used ?ws))" using h by (simp add: holds_def good_cache_def)
  ultimately have "good_cache (map f ?ws)" using f' by (fastforce simp: good_cache_def)
  moreover have "(wd, q) \<in> set (used (map f ?ws)) \<longleftrightarrow> map_option (render R) (M' wd) = Some q" for wd q
  proof
    assume "(wd, q) \<in> set (used (map f ?ws))"
    then obtain w where "w \<in> set ?ws" "wt_wd (f w) = wd" "wt_path (f w) = q" "wd \<ge> 0" by (auto simp: used_iff)
    then show "map_option (render R) (M' wd) = Some q" using f' [of w] by (auto simp: empty_slot_def)
  next
    assume a: "map_option (render R) (M' wd) = Some q"
    then obtain p' where p': "M' wd = Some p'" "q = render R p'" by (cases "M' wd") auto
    then obtain p where p: "M wd = Some p" using n [of wd] by (cases "M wd") auto
    then have "(wd, render R p) \<in> set (used ?ws)" unfolding u by simp
    then obtain w where w: "w \<in> set ?ws" "w = \<lparr>wt_wd = wd, wt_path = render R p\<rparr>" "wd \<ge> 0" unfolding used_iff by (metis old.unit.exhaust watch.surjective)
    then show "(wd, q) \<in> set (used (map f ?ws))" using f [OF p] p' by (force simp: used_iff)
  qed
  ultimately show ?thesis using h t by (simp add: holds_def)
qed

lemma render_nonempty: "good_roots R \<Longrightarrow> good_place R p \<Longrightarrow> render R p \<noteq> []"
  by (metis append_is_Nil_conv good_place_def good_roots_def nth_mem render_def)

lemma not_below_Nil: "q \<noteq> [] \<Longrightarrow> \<not> below q []"
  by (simp add: below_def)

lemma rewrite_holds:
  assumes h: "holds R M s" and t: "good_tree R (moved (i, ds @ [n]) (j, es @ [n']) M)"
    and src: "good_place R (i, ds @ [n])" "length (render R (i, ds @ [n])) < PATH_MAX" and dst: "length (render R (j, es @ [n'])) < PATH_MAX"
  shows "holds R (moved (i, ds @ [n]) (j, es @ [n']) M) (rewriteCachedPaths (render R (i, ds)) n (render R (j, es)) n' s)"
proof -
  let ?src = "(i, ds @ [n])" and ?dst = "(j, es @ [n'])"
  have g: "good_tree R M" using h by (simp add: holds_def)
  then have R: "good_roots R" by (simp add: good_tree_def)
  let ?f = "\<lambda>w. if below (render R ?src) (wt_path w)
      then w\<lparr>wt_path := take (PATH_MAX - 1) (render R ?dst @ drop (length (render R ?src)) (wt_path w))\<rparr> else w"
  have "rewriteCachedPaths (render R (i, ds)) n (render R (j, es)) n' s = s\<lparr>wlCache := map ?f (wlCache s)\<rparr>"
    unfolding rewriteCachedPaths_def join_path_render [OF src(2)] join_path_render [OF dst] Let_def ..
  moreover have "holds R (moved ?src ?dst M) (s\<lparr>wlCache := map ?f (wlCache s)\<rparr>)"
  proof (rule holds_map [OF h t])
    show "?f empty_slot = empty_slot" using not_below_Nil [OF render_nonempty [OF R src(1)]] by (simp add: empty_slot_def)
    fix wd p assume m: "M wd = Some p"
    have b: "below (render R ?src) (render R p) \<longleftrightarrow> under ?src p" using below_render [OF R src(1)] good_treeD [OF g m] by (simp add: under_def)
    have m': "moved ?src ?dst M wd = Some (move_place ?src ?dst p)" by (simp add: moved_def m)
    have "length (render R (move_place ?src ?dst p)) < PATH_MAX" using good_treeD [OF t m'] by simp
    then have "under ?src p \<Longrightarrow> take (PATH_MAX - 1) (render R ?dst @ drop (length (render R ?src)) (render R p)) = render R (move_place ?src ?dst p)"
      unfolding render_move by simp
    then show "?f \<lparr>wt_wd = wd, wt_path = render R p\<rparr> =
        (case moved ?src ?dst M wd of None \<Rightarrow> empty_slot | Some p' \<Rightarrow> \<lparr>wt_wd = wd, wt_path = render R p'\<rparr>)"
      unfolding m' using b by (cases "under ?src p") (simp_all add: move_place_def)
  qed (simp add: moved_def)
  ultimately show ?thesis by simp
qed

lemma zap_slots_map:
  "\<forall>wd. rm wd \<Longrightarrow> \<exists>k. zap_slots rm pn ws cnt = (Some k, map (\<lambda>w. if wt_wd w \<ge> 0 \<and> below pn (wt_path w) then empty_slot else w) ws)"
proof (induction ws arbitrary: cnt)
  case (Cons w ws)
  obtain k l where "zap_slots rm pn ws cnt = (Some k, map (\<lambda>w. if wt_wd w \<ge> 0 \<and> below pn (wt_path w) then empty_slot else w) ws)"
    "zap_slots rm pn ws (cnt + 1) = (Some l, map (\<lambda>w. if wt_wd w \<ge> 0 \<and> below pn (wt_path w) then empty_slot else w) ws)"
    using Cons.IH [OF Cons.prems] by blast
  moreover have "rm (wt_wd w)" using Cons.prems by blast
  ultimately show ?case by (cases "wt_wd w \<ge> 0 \<and> below pn (wt_path w)") auto
qed simp

lemma zap_holds:
  assumes h: "holds R M s" and src: "good_place R src" and rm: "\<forall>wd. rm_watch e fd wd"
  shows "\<exists>k s'. zapSubtree e fd (render R src) s = (Some k, s') \<and> holds R (removed src M) s'"
proof -
  let ?f = "\<lambda>w. if wt_wd w \<ge> 0 \<and> below (render R src) (wt_path w) then empty_slot else w"
  have g: "good_tree R M" using h by (simp add: holds_def)
  have "holds R (removed src M) (s\<lparr>wlCache := map ?f (wlCache s)\<rparr>)"
  proof (rule holds_map [OF h])
    show "good_tree R (removed src M)"
      by (rule good_tree_sub [OF g]) (simp add: removed_def split: option.split)
    fix wd p assume m: "M wd = Some p"
    have "below (render R src) (render R p) \<longleftrightarrow> under src p"
      using below_render [OF _ src] good_treeD [OF g m] g by (simp add: under_def good_tree_def)
    then show "?f \<lparr>wt_wd = wd, wt_path = render R p\<rparr> =
        (case removed src M wd of None \<Rightarrow> empty_slot | Some p' \<Rightarrow> \<lparr>wt_wd = wd, wt_path = render R p'\<rparr>)"
      using good_treeD [OF g m] by (simp add: removed_def m)
  qed (simp_all add: empty_slot_def removed_def)
  moreover obtain k where "zap_slots (rm_watch e fd) (render R src) (wlCache s) 0 = (Some k, map ?f (wlCache s))"
    using zap_slots_map [OF rm] by blast
  ultimately show ?thesis by (auto simp: zapSubtree_def)
qed

section \<open>Changes of the file system\<close>

text \<open>
  What happens to the directories, with the events the kernel reports: a tree of new directories
  appears in a watched directory, created there or moved in from outside; a directory is renamed
  within the trees, moved out of them, or removed; or a file changes or a watch ends.
\<close>

datatype fsop =
    Appear int string "(string list \<times> int) list" bool
  | Rename int string int string
  | MoveOut int string
  | Rmdir int
  | Noise inotify_event

definition child :: "place option \<Rightarrow> string \<Rightarrow> place" where
  "child p n = (case p of Some (i, ds) \<Rightarrow> (i, ds @ [n]) | None \<Rightarrow> (0, [n]))"

definition subtree :: "place \<Rightarrow> (string list \<times> int) list \<Rightarrow> (place \<times> int) list" where
  "subtree p sub = map (\<lambda>(cs, wd). ((fst p, snd p @ cs), wd)) sub"

fun apply_op :: "tree \<Rightarrow> fsop \<Rightarrow> tree" where
  "apply_op M (Appear w n sub _) = add_all M (subtree (child (M w) n) sub)"
| "apply_op M (Rename w n w' n') = moved (child (M w) n) (child (M w') n') M"
| "apply_op M (MoveOut w n) = removed (child (M w) n) M"
| "apply_op M (Rmdir w) = M(w := None)"
| "apply_op M (Noise ev) = M"

fun op_events :: "nat \<Rightarrow> fsop \<Rightarrow> inotify_event list" where
  "op_events c (Appear w n sub mv) = [\<lparr>ev_wd = w, ev_mask = or IN_ISDIR (if mv then IN_MOVED_TO else IN_CREATE), ev_cookie = c, ev_name = n\<rparr>]"
| "op_events c (Rename w n w' n') =
     [\<lparr>ev_wd = w, ev_mask = or IN_ISDIR IN_MOVED_FROM, ev_cookie = c, ev_name = n\<rparr>,
      \<lparr>ev_wd = w', ev_mask = or IN_ISDIR IN_MOVED_TO, ev_cookie = c, ev_name = n'\<rparr>]"
| "op_events c (MoveOut w n) = [\<lparr>ev_wd = w, ev_mask = or IN_ISDIR IN_MOVED_FROM, ev_cookie = c, ev_name = n\<rparr>]"
| "op_events c (Rmdir w) = [\<lparr>ev_wd = w, ev_mask = IN_DELETE_SELF, ev_cookie = c, ev_name = []\<rparr>]"
| "op_events c (Noise ev) = [ev\<lparr>ev_cookie := c\<rparr>]"

text \<open>
  When a change is possible, and what the world shows while its events are handled: a walk of the
  new tree finds exactly its directories, and removing a watch succeeds. The new directories
  are not yet watched, the place is free, and a root is not removed.
\<close>

fun op_ok :: "string list \<Rightarrow> tree \<Rightarrow> fsop \<Rightarrow> world \<Rightarrow> bool" where
  "op_ok R M (Appear w n sub _) e \<longleftrightarrow>
     w \<in> dom M \<and> child (M w) n \<notin> ran M \<and> [] \<in> fst ` set sub \<and> distinct (map snd sub) \<and> (\<forall>wd \<in> snd ` set sub. M wd = None) \<and>
     (\<forall>fd. filter (\<lambda>(p, d, r). d) (nftw e fd (render R (child (M w) n))) = visits_of R (subtree (child (M w) n) sub))"
| "op_ok R M (Rename w n w' n') e \<longleftrightarrow> w \<in> dom M \<and> w' \<in> dom M \<and> child (M w) n \<in> ran M"
| "op_ok R M (MoveOut w n) e \<longleftrightarrow> w \<in> dom M \<and> child (M w) n \<in> ran M \<and> (\<forall>fd wd. rm_watch e fd wd)"
| "op_ok R M (Rmdir w) e \<longleftrightarrow> (\<exists>p. M w = Some p \<and> snd p \<noteq> [])"
| "op_ok R M (Noise ev) e \<longleftrightarrow> ev_mask ev = IN_IGNORED \<or> ev_wd ev \<in> dom M \<and> ev_mask ev \<in> {IN_CREATE, IN_MOVED_FROM, IN_MOVED_TO}"

section \<open>Handling the events of one change\<close>

lemmas masks = has_def IN_MOVED_FROM_def IN_MOVED_TO_def IN_CREATE_def IN_DELETE_SELF_def IN_MOVE_SELF_def IN_UNMOUNT_def
  IN_Q_OVERFLOW_def IN_IGNORED_def IN_ISDIR_def

lemma slot_of:
  assumes h: "holds R M s" and m: "M w = Some p"
  obtains j where "findWatchChecked w s = Ret (Some j)" "findWatch w s = Some j" "path_of (Some j) s = Ret (render R p)"
    "wlCache s ! j = \<lparr>wt_wd = w, wt_path = render R p\<rparr>" "w \<noteq> -1"
proof -
  obtain j where j: "findWatch w s = Some j" "wlCache s ! j = \<lparr>wt_wd = w, wt_path = render R p\<rparr>" using findWatch_holds [OF h m] by blast
  have "w \<ge> 0" using h m good_treeD [of R M w p] by (simp add: holds_def)
  then show ?thesis using that [of j] j by (simp add: findWatchChecked_def path_of_def)
qed

text \<open>Without \<^verbatim>\<open>checkCache\<close>, an event of a watched directory is handled by its branch.\<close>

lemma process_watched:
  assumes h: "holds R M s" and m: "M (ev_wd ev) = Some p" and i: "\<not> has ev IN_IGNORED"
    and e: "\<And>j. findWatch (ev_wd ev) s = Some j \<Longrightarrow> handle_event e ev nextEv ft (Some j) s = Ret (c, s')" and c: "\<not> checkCache s'"
  shows "processNextInotifyEvent e ev nextEv ft s = Ret (c, s')"
proof -
  obtain j where "findWatchChecked (ev_wd ev) s = Ret (Some j)" "findWatch (ev_wd ev) s = Some j" "ev_wd ev \<noteq> -1" using slot_of [OF h m] by metis
  then show ?thesis using e c i by (simp add: processNextInotifyEvent_def Let_def)
qed

lemma pathnameInCache_holds:
  assumes h: "holds R M s" and p: "good_place R p"
  shows "pathnameInCache (render R p) s \<longleftrightarrow> p \<in> ran M"
proof -
  have g: "good_tree R M" using h by (simp add: holds_def)
  then have R: "good_roots R" by (simp add: good_tree_def)
  have u: "(wd, q) \<in> set (used (wlCache s)) \<longleftrightarrow> map_option (render R) (M wd) = Some q" for wd q using h by (simp add: holds_def)
  have "pathnameInCache (render R p) s \<longleftrightarrow> (\<exists>wd. (wd, render R p) \<in> set (used (wlCache s)))"
    by (auto simp: pathnameInCache_def pathnameToCacheSlot_def used_iff)
  also have "\<dots> \<longleftrightarrow> p \<in> ran M"
  proof
    assume "\<exists>wd. (wd, render R p) \<in> set (used (wlCache s))"
    then obtain wd q where q: "M wd = Some q" "render R q = render R p" unfolding u by (auto simp: map_option_eq_Some)
    then have "q = p" using render_inj [OF R _ p] good_treeD [OF g q(1)] by blast
    then show "p \<in> ran M" using q by (simp add: ranI)
  next
    assume "p \<in> ran M"
    then obtain wd where "M wd = Some p" by (auto simp: ran_def simp del: split_paired_Ex)
    then show "\<exists>wd. (wd, render R p) \<in> set (used (wlCache s))" unfolding u by (intro exI [of _ wd]) simp
  qed
  finally show ?thesis .
qed

lemma add_all_ran: "(p, wd) \<in> set sub \<Longrightarrow> distinct (map snd sub) \<Longrightarrow> add_all M sub wd = Some p"
proof (induction sub arbitrary: M)
  case (Cons x sub)
  obtain q k where x: "x = (q, k)" by (cases x)
  show ?case
  proof (cases "(p, wd) \<in> set sub")
    case True
    then show ?thesis unfolding x add_all.simps by (rule Cons.IH) (use Cons.prems(2) in simp)
  next
    case False
    then have "p = q" "wd = k" using Cons.prems x by auto
    then show ?thesis using add_all_other [of k sub "M(k \<mapsto> q)"] Cons.prems(2) x by simp
  qed
qed simp

lemma appear_step:
  assumes h: "holds R M s" and ok: "op_ok R M (Appear w n sub mv) e" and t: "good_tree R (apply_op M (Appear w n sub mv))"
    and ev: "[ev] = op_events c (Appear w n sub mv)"
  shows "\<exists>s'. processNextInotifyEvent e ev nextEv ft s = Ret (One, s') \<and> holds R (apply_op M (Appear w n sub mv)) s'"
proof -
  obtain i ds where m: "M w = Some (i, ds)" using ok by auto
  let ?p = "(i, ds @ [n])"
  have ch: "child (M w) n = ?p" by (simp add: child_def m)
  obtain wd0 where "([], wd0) \<in> set sub" using ok by auto
  then have "(?p, wd0) \<in> set (subtree ?p sub)" by (force simp: subtree_def)
  moreover have d: "distinct (map snd (subtree ?p sub))" using ok by (simp add: subtree_def comp_def case_prod_beta)
  ultimately have "add_all M (subtree ?p sub) wd0 = Some ?p" by (rule add_all_ran)
  then have g: "good_place R ?p" "length (render R ?p) < PATH_MAX" using good_treeD [OF t] ch by simp_all
  have j: "join_path (render R (i, ds)) n = render R ?p" by (rule join_path_render [OF g(2)])
  have nf: "\<forall>wd \<in> snd ` set (subtree ?p sub). M wd = None" using ok by (force simp: subtree_def)
  have "filter (\<lambda>(p, d, r). d) (nftw e (inotifyFd s) (render R ?p)) = visits_of R (subtree ?p sub)" using ok unfolding op_ok.simps ch by blast
  from watchSubtree_holds [OF h this d nf] t obtain s' where s': "watchSubtree e (inotifyFd s) (render R ?p) s = Ret s'"
    "holds R (add_all M (subtree ?p sub)) s'" by (auto simp: ch)
  have np: "\<not> pathnameInCache (render R ?p) s" using pathnameInCache_holds [OF h g(1)] ok ch by simp
  have evs: "ev_wd ev = w" "ev_name ev = n" "\<not> has ev IN_IGNORED" "has ev IN_ISDIR \<and> (has ev IN_CREATE \<or> has ev IN_MOVED_TO)"
    using ev by (simp_all add: masks)
  have "processNextInotifyEvent e ev nextEv ft s = Ret (One, s')"
  proof (rule process_watched [OF h])
    show "M (ev_wd ev) = Some (i, ds)" using m evs by simp
    fix j0 assume "findWatch (ev_wd ev) s = Some j0"
    then have "path_of (Some j0) s = Ret (render R (i, ds))" using slot_of [OF h m] evs(1) by (metis option.inject)
    then show "handle_event e ev nextEv ft (Some j0) s = Ret (One, s')" using evs s'(1) np by (simp add: handle_event_def j)
  qed (use evs s'(2) in \<open>simp_all add: holds_def\<close>)
  then show ?thesis using s'(2) by (simp add: ch)
qed

lemma rmdir_step:
  assumes h: "holds R M s" and ok: "op_ok R M (Rmdir w) e" and ev: "[ev] = op_events c (Rmdir w)"
  shows "\<exists>s'. processNextInotifyEvent e ev nextEv ft s = Ret (One, s') \<and> holds R (apply_op M (Rmdir w)) s'"
proof -
  obtain p where m: "M w = Some p" "snd p \<noteq> []" using ok by auto
  have g: "good_tree R M" and R: "good_roots R" "rootDirPaths s = map Some R" using h by (simp_all add: holds_def good_tree_def)
  obtain j where j: "findWatch w s = Some j" "path_of (Some j) s = Ret (render R p)" using slot_of [OF h m(1)] by metis
  have "\<not> isRootDirPath (render R p) s"
  proof
    assume "isRootDirPath (render R p) s"
    then obtain k where k: "k < length R" "R ! k = render R p" by (auto simp: isRootDirPath_def findRootDirPath_def R(2) in_set_conv_nth)
    then have "render R (k, []) = render R p" "good_place R (k, [])" by (simp_all add: render_def good_place_def)
    then have "(k, []) = p" using render_inj [OF R(1)] good_treeD [OF g m(1)] by blast
    then show False using m(2) by auto
  qed
  then have he: "handle_event e ev nextEv ft (Some j) s = Ret (One, markCacheSlotEmpty j s)" using ev j(2) by (simp add: handle_event_def masks)
  have hs: "holds R (M(w := None)) (markCacheSlotEmpty j s)" by (rule markEmpty_holds [OF h m(1) j(1)])
  have "processNextInotifyEvent e ev nextEv ft s = Ret (One, markCacheSlotEmpty j s)"
    by (rule process_watched [OF h, of _ p]) (use ev m j he hs in \<open>auto simp: masks holds_def\<close>)
  then show ?thesis using hs by simp
qed

lemma noise_step:
  assumes h: "holds R M s" and ok: "op_ok R M (Noise ev0) e" and ev: "[ev] = op_events c (Noise ev0)"
  shows "processNextInotifyEvent e ev nextEv ft s = Ret (One, s)"
proof (cases "ev_mask ev0 = IN_IGNORED")
  case True
  then show ?thesis using h ev by (simp add: processNextInotifyEvent_def handle_event_def Let_def masks holds_def)
next
  case False
  then obtain p where m: "M (ev_wd ev) = Some p" and k: "ev_mask ev \<in> {IN_CREATE, IN_MOVED_FROM, IN_MOVED_TO}" using ok ev by auto
  have n: "\<not> has ev IN_ISDIR" "\<not> has ev IN_DELETE_SELF" "\<not> has ev IN_Q_OVERFLOW" "\<not> has ev IN_UNMOUNT" "\<not> has ev IN_MOVE_SELF" "\<not> has ev IN_IGNORED"
    using k by (auto simp: masks)
  have "handle_event e ev nextEv ft (Some j) s = Ret (One, s)" for j by (simp add: handle_event_def n)
  then show ?thesis using h n(6) by (intro process_watched [OF h m]) (simp_all add: holds_def)
qed

lemma child_dom: "w \<in> dom M \<Longrightarrow> \<exists>i ds. M w = Some (i, ds) \<and> child (M w) n = (i, ds @ [n])"
  by (auto simp: child_def)

lemma from_event:
  assumes "ev_mask ev = or IN_ISDIR IN_MOVED_FROM"
  shows "handle_event e ev nextEv ft slot s = run_bind (path_of slot s) (\<lambda>dir. moved_from e ev nextEv ft dir s)" "\<not> has ev IN_IGNORED"
  using assms by (simp_all add: handle_event_def masks)

lemma rename_step:
  assumes h: "holds R M s" and ok: "op_ok R M (Rename w n w' n') e" and t: "good_tree R (apply_op M (Rename w n w' n'))"
    and ev: "[ev, ev'] = op_events c (Rename w n w' n')"
  shows "\<exists>s'. processNextInotifyEvent e ev (Some ev') ft s = Ret (Two, s') \<and> holds R (apply_op M (Rename w n w' n')) s'"
proof -
  obtain i ds k es where m: "M w = Some (i, ds)" "child (M w) n = (i, ds @ [n])" "M w' = Some (k, es)" "child (M w') n' = (k, es @ [n'])"
    using ok child_dom [of w M n] child_dom [of w' M n'] by auto
  let ?src = "(i, ds @ [n])" and ?dst = "(k, es @ [n'])"
  have g: "good_tree R M" using h by (simp add: holds_def)
  obtain wd where wd: "M wd = Some ?src" using ok m(2) by (auto simp: ran_def)
  have t': "good_tree R (moved ?src ?dst M)" using t m by simp
  have "moved ?src ?dst M wd = Some ?dst" using wd by (simp add: moved_def move_place_def under_def)
  then have d: "length (render R ?dst) < PATH_MAX" using good_treeD [OF t'] by blast
  have s: "good_place R ?src" "length (render R ?src) < PATH_MAX" using good_treeD [OF g wd] by simp_all
  let ?s' = "rewriteCachedPaths (render R (i, ds)) n (render R (k, es)) n' s"
  have hs: "holds R (moved ?src ?dst M) ?s'" by (rule rewrite_holds [OF h t' s d])
  obtain j' where j': "findWatchChecked w' s = Ret (Some j')" "wlCache s ! j' = \<lparr>wt_wd = w', wt_path = render R (k, es)\<rparr>" using slot_of [OF h m(3)] by metis
  have e: "ev_wd ev = w" "ev_name ev = n" "ev_wd ev' = w'" "ev_name ev' = n'" "ev_cookie ev' = ev_cookie ev"
    "ev_mask ev = or IN_ISDIR IN_MOVED_FROM" "has ev' IN_MOVED_TO" using ev by (simp_all add: masks)
  have "processNextInotifyEvent e ev (Some ev') ft s = Ret (Two, ?s')"
  proof (rule process_watched [OF h])
    show "M (ev_wd ev) = Some (i, ds)" using m e by simp
    fix j assume "findWatch (ev_wd ev) s = Some j"
    then have "path_of (Some j) s = Ret (render R (i, ds))" using slot_of [OF h m(1)] e(1) by (metis option.inject)
    then show "handle_event e ev (Some ev') ft (Some j) s = Ret (Two, ?s')" using e j' by (simp add: from_event moved_from_def)
  qed (use e hs in \<open>simp_all add: from_event holds_def\<close>)
  then show ?thesis using hs m by auto
qed

lemma moveout_step:
  assumes h: "holds R M s" and ok: "op_ok R M (MoveOut w n) e" and ev: "[ev] = op_events c (MoveOut w n)"
    and nx: "nextEv = None \<and> \<not> ft \<or> (\<exists>ev'. nextEv = Some ev' \<and> (\<not> has ev' IN_MOVED_TO \<or> ev_cookie ev' \<noteq> c))"
  shows "\<exists>s'. processNextInotifyEvent e ev nextEv ft s = Ret (One, s') \<and> holds R (apply_op M (MoveOut w n)) s'"
proof -
  obtain i ds where m: "M w = Some (i, ds)" "child (M w) n = (i, ds @ [n])" using ok child_dom [of w M n] by auto
  let ?src = "(i, ds @ [n])"
  have g: "good_tree R M" using h by (simp add: holds_def)
  obtain wd where wd: "M wd = Some ?src" using ok m(2) by (auto simp: ran_def)
  have s: "good_place R ?src" "length (render R ?src) < PATH_MAX" using good_treeD [OF g wd] by simp_all
  have rm: "\<forall>wd. rm_watch e (inotifyFd s) wd" using ok by simp
  obtain k s' where z: "zapSubtree e (inotifyFd s) (render R ?src) s = (Some k, s')" "holds R (removed ?src M) s'" using zap_holds [OF h s(1) rm] by blast
  have e: "ev_wd ev = w" "ev_name ev = n" "ev_cookie ev = c" "ev_mask ev = or IN_ISDIR IN_MOVED_FROM" using ev by simp_all
  have "processNextInotifyEvent e ev nextEv ft s = Ret (One, s')"
  proof (rule process_watched [OF h])
    show "M (ev_wd ev) = Some (i, ds)" using m e by simp
    fix j assume "findWatch (ev_wd ev) s = Some j"
    then have p: "path_of (Some j) s = Ret (render R (i, ds))" using slot_of [OF h m(1)] e(1) by (metis option.inject)
    have "zap_or_restart e (join_path (render R (i, ds)) n) s = Ret (One, s')" by (simp add: zap_or_restart_def join_path_render [OF s(2)] z(1))
    then show "handle_event e ev nextEv ft (Some j) s = Ret (One, s')"
      using e p nx by (auto simp: from_event moved_from_def)
  qed (use e z in \<open>simp_all add: from_event holds_def\<close>)
  then show ?thesis using z m by auto
qed

lemma from_hangs:
  assumes h: "holds R M s" and w: "w \<in> dom M" and e: "ev_wd ev = w" "ev_mask ev = or IN_ISDIR IN_MOVED_FROM"
  shows "processNextInotifyEvent e ev None True s = Ret (Hanging, s)"
proof -
  obtain i ds where m: "M w = Some (i, ds)" using w by auto
  show ?thesis
  proof (rule process_watched [OF h])
    show "M (ev_wd ev) = Some (i, ds)" using m e by simp
    fix j assume "findWatch (ev_wd ev) s = Some j"
    then have "path_of (Some j) s = Ret (render R (i, ds))" using slot_of [OF h m] e(1) by (metis option.inject)
    then show "handle_event e ev None True (Some j) s = Ret (Hanging, s)" using e by (simp add: from_event moved_from_def)
  qed (use e h in \<open>simp_all add: from_event holds_def\<close>)
qed

section \<open>Sequences of changes\<close>

text \<open>Changes with the cookie of their events and the world in which they are handled.\<close>

type_synonym fsstep = "nat \<times> fsop \<times> world"

definition step_events :: "fsstep \<Rightarrow> (inotify_event \<times> world) list" where
  "step_events x = (case x of (c, op, e) \<Rightarrow> map (\<lambda>ev. (ev, e)) (op_events c op))"

definition pend :: "fsstep list \<Rightarrow> (inotify_event \<times> world) list" where
  "pend ops = concat (map step_events ops)"

fun run_fs :: "tree \<Rightarrow> fsstep list \<Rightarrow> tree" where
  "run_fs M [] = M"
| "run_fs M ((c, op, e) # ops) = run_fs (apply_op M op) ops"

fun ops_ok :: "string list \<Rightarrow> tree \<Rightarrow> fsstep list \<Rightarrow> bool" where
  "ops_ok R M [] \<longleftrightarrow> True"
| "ops_ok R M ((c, op, e) # ops) \<longleftrightarrow>
     op_ok R M op e \<and> good_tree R (apply_op M op) \<and> c \<notin> fst ` set ops \<and> ops_ok R (apply_op M op) ops"

lemma pend_simps [simp]:
  "pend [] = []" "pend ((c, op, e) # ops) = map (\<lambda>ev. (ev, e)) (op_events c op) @ pend ops"
  by (simp_all add: pend_def step_events_def)

lemma pend_cookie: "(ev, e) \<in> set (pend ops) \<Longrightarrow> ev_cookie ev \<in> fst ` set ops"
proof (induction ops)
  case (Cons x ops)
  obtain c op e0 where x: "x = (c, op, e0)" by (cases x)
  have "ev_cookie ev' = c" if "ev' \<in> set (op_events c op)" for ev' using that by (cases op) auto
  then show ?case using Cons x by auto
qed simp

definition next_ev :: "(inotify_event \<times> world) list \<Rightarrow> inotify_event option" where
  "next_ev evs = (case evs of [] \<Rightarrow> None | (nev, _) # _ \<Rightarrow> Some nev)"

lemma process_loop_One:
  "processNextInotifyEvent e ev (next_ev evs) ft s = Ret (One, s') \<Longrightarrow> process_loop ((ev, e) # evs) rds ft s = process_loop evs rds True s'"
  by (simp add: process_loop.simps(2) next_ev_def)

lemma process_loop_Two:
  "processNextInotifyEvent e ev (next_ev evs) ft s = Ret (Two, s') \<Longrightarrow> process_loop ((ev, e) # evs) rds ft s = process_loop (drop 1 evs) rds True s'"
  by (simp add: process_loop.simps(2) next_ev_def)

lemma process_loop_Hanging:
  assumes "processNextInotifyEvent e ev (next_ev evs) ft s = Ret (Hanging, s')" "[] \<notin> set cs"
  shows "process_loop ((ev, e) # evs) (map Inr cs) ft s = process_loop ((ev, e) # evs @ concat (take 1 cs)) (map Inr (drop 1 cs)) False s'"
  using assms by (cases cs) (auto simp: process_loop.simps(2) [of _ _ _ _ ft] next_ev_def)

text \<open>
  The events of a sequence of changes, divided into reads in any way, are handled change by
  change.
\<close>

definition followed :: "string list \<Rightarrow> tree \<Rightarrow> fsstep list \<Rightarrow> nat \<Rightarrow> (dtree \<times> reads) run \<Rightarrow> bool" where
  "followed R M ops n r \<longleftrightarrow>
     (\<exists>s' cs' ops1 ops2. r = Ret (s', map Inr cs') \<and> length cs' \<le> n \<and> [] \<notin> set cs' \<and> ops = ops1 @ ops2 \<and>
        holds R (run_fs M ops1) s' \<and> concat cs' = pend ops2 \<and> ops_ok R (run_fs M ops1) ops2)"

lemma followed_step:
  assumes "followed R (apply_op M op) ops n r" "n \<le> n'"
  shows "followed R M ((c, op, e) # ops) n' r"
proof -
  obtain s' cs' ops1 ops2 where r: "r = Ret (s', map Inr cs')" "length cs' \<le> n" "[] \<notin> set cs'" "ops = ops1 @ ops2"
    "holds R (run_fs (apply_op M op) ops1) s'" "concat cs' = pend ops2" "ops_ok R (run_fs (apply_op M op) ops1) ops2"
    using assms(1) unfolding followed_def by blast
  show ?thesis unfolding followed_def
    by (intro exI [of _ s'] exI [of _ cs'] exI [of _ "(c, op, e) # ops1"] exI [of _ ops2]) (use r assms(2) in simp)
qed

lemma followed_mono: "followed R M ops n r \<Longrightarrow> n \<le> n' \<Longrightarrow> followed R M ops n' r"
  unfolding followed_def by (elim exE conjE, intro exI conjI, assumption, erule (1) le_trans) assumption+

lemma loop_follows:
  assumes "holds R M s" "ops_ok R M ops" "evs @ concat cs = pend ops" "[] \<notin> set cs" "ft \<or> evs \<noteq> [] \<and> (2 \<le> length evs \<or> cs = [])"
  shows "followed R M ops (length cs) (process_loop evs (map Inr cs) ft s)"
  using assms
proof (induction "2 * length (pend ops) + length cs + (if ft then 1 else 0)" arbitrary: evs cs ft s M ops rule: less_induct)
  case less
  note h = less.prems(1) and ok = less.prems(2) and pe = less.prems(3) and cs = less.prems(4) and ft = less.prems(5)
  show ?case
  proof (cases evs)
    case Nil
    then show ?thesis using less.prems unfolding followed_def
      by (intro exI [of _ s] exI [of _ cs] exI [of _ "[]"] exI [of _ ops]) simp
  next
    case (Cons x evs')
    obtain ev e0 where x: "x = (ev, e0)" by (cases x)
    obtain c op e ops' where ops: "ops = (c, op, e) # ops'" using pe Cons by (cases ops) auto
    have ok': "op_ok R M op e" "good_tree R (apply_op M op)" "c \<notin> fst ` set ops'" "ops_ok R (apply_op M op) ops'" using ok ops by simp_all
    have one: ?thesis if "op_events c op = [ev]" "e0 = e" "processNextInotifyEvent e ev (next_ev evs') ft s = Ret (One, s')" "holds R (apply_op M op) s'" for s'
    proof -
      have "evs' @ concat cs = pend ops'" using pe Cons x ops that by simp
      then have "followed R (apply_op M op) ops' (length cs) (process_loop evs' (map Inr cs) True s')"
        using that(1) by (intro less.hyps) (use that ok' cs ops in auto)
      then show ?thesis using followed_step process_loop_One [OF that(3)] Cons x ops that(2) by simp
    qed
    have hang: ?thesis if "evs' = []" "ft" "processNextInotifyEvent e0 ev None True s = Ret (Hanging, s)"
    proof -
      have "followed R M ops (length (drop 1 cs)) (process_loop ((ev, e0) # concat (take 1 cs)) (map Inr (drop 1 cs)) False s)"
      proof (rule less.hyps)
        show "((ev, e0) # concat (take 1 cs)) @ concat (drop 1 cs) = pend ops" using pe Cons x that by (cases cs) simp_all
      qed (use that h ok cs in \<open>cases cs; auto simp: Suc_le_eq\<close>)+
      then show ?thesis using process_loop_Hanging [of e0 ev "[]" True s s cs] that cs Cons x
        by (auto simp: next_ev_def intro: followed_mono)
    qed
    show ?thesis
    proof (cases op)
      case (Appear w n sub mv)
      have e: "op_events c op = [ev]" "e0 = e" using pe Cons x ops Appear by simp_all
      show ?thesis using appear_step [OF h, of w n sub mv e ev c "next_ev evs'" ft] ok'(1,2) one [OF e] e Appear by metis
    next
      case (Rename w n w' n')
      obtain ev' where e: "op_events c op = [ev, ev']" "e0 = e" "evs' @ concat cs = (ev', e) # pend ops'" using pe Cons x ops Rename by simp
      show ?thesis
      proof (cases evs')
        case Nil
        then have "cs \<noteq> []" using e(3) by auto
        then have "ft" using ft Cons Nil by auto
        have "processNextInotifyEvent e0 ev None True s = Ret (Hanging, s)" by (rule from_hangs [OF h, of w]) (use ok'(1) e(1) Rename in auto)
        then show ?thesis using hang Nil \<open>ft\<close> by simp
      next
        case (Cons y ys)
        then have y: "y = (ev', e)" "ys @ concat cs = pend ops'" using e(3) by simp_all
        obtain s' where s': "processNextInotifyEvent e ev (Some ev') ft s = Ret (Two, s')" "holds R (apply_op M op) s'"
          using rename_step [OF h, of w n w' n' e ev ev' c ft] ok'(1,2) e(1) Rename by auto
        have "followed R (apply_op M op) ops' (length cs) (process_loop ys (map Inr cs) True s')"
          by (intro less.hyps) (use s' ok' cs ops y e(1) in auto)
        moreover have "process_loop evs (map Inr cs) ft s = process_loop ys (map Inr cs) True s'"
          using process_loop_Two [of e ev evs' ft s s' "map Inr cs"] s'(1) y Cons \<open>evs = x # evs'\<close> x e(2) by (simp add: next_ev_def)
        ultimately show ?thesis using followed_step ops by simp
      qed
    next
      case (MoveOut w n)
      have e: "op_events c op = [ev]" "e0 = e" "evs' @ concat cs = pend ops'" using pe Cons x ops MoveOut by simp_all
      show ?thesis
      proof (cases "evs' = [] \<and> ft")
        case True
        have "processNextInotifyEvent e0 ev None True s = Ret (Hanging, s)" by (rule from_hangs [OF h, of w]) (use ok'(1) e(1) MoveOut in auto)
        then show ?thesis using hang True by simp
      next
        case False
        have "next_ev evs' = None \<and> \<not> ft \<or> (\<exists>ev'. next_ev evs' = Some ev' \<and> (\<not> has ev' IN_MOVED_TO \<or> ev_cookie ev' \<noteq> c))"
        proof (cases evs')
          case (Cons y ys)
          obtain ev' e' where y: "y = (ev', e')" by (cases y)
          have "(ev', e') \<in> set (pend ops')" unfolding e(3) [symmetric] Cons y by simp
          then show ?thesis using pend_cookie ok'(3) by (fastforce simp: next_ev_def Cons y)
        qed (use False in \<open>simp add: next_ev_def\<close>)
        then show ?thesis using moveout_step [OF h, of w n e ev c "next_ev evs'" ft] ok'(1) one [OF e(1,2)] e MoveOut by metis
      qed
    next
      case (Rmdir w)
      have e: "op_events c op = [ev]" "e0 = e" using pe Cons x ops Rmdir by simp_all
      show ?thesis using rmdir_step [OF h, of w e ev c "next_ev evs'" ft] ok'(1) one [OF e] e Rmdir by metis
    next
      case (Noise ev0)
      have e: "op_events c op = [ev]" "e0 = e" using pe Cons x ops Noise by simp_all
      show ?thesis using noise_step [OF h, of ev0 e ev c "next_ev evs'" ft] ok'(1) one [OF e, of s] e Noise h by simp
    qed
  qed
qed

lemma serve_follows:
  assumes "holds R M s" "ops_ok R M ops" "concat cs = pend ops" "[] \<notin> set cs"
  shows "\<exists>s'. serve (map Inr cs) s = Ret s' \<and> holds R (run_fs M ops) s'"
  using assms
proof (induction "length cs" arbitrary: cs s M ops rule: less_induct)
  case less
  show ?case
  proof (cases cs)
    case Nil
    have "ops = []"
    proof (cases ops)
      case (Cons x ops')
      obtain c op e where "x = (c, op, e)" by (cases x)
      moreover have "op_events c op \<noteq> []" by (cases op) simp_all
      ultimately show ?thesis using less.prems(3) Nil Cons by simp
    qed
    then show ?thesis using less.prems(1) Nil by (simp add: serve.simps)
  next
    case (Cons c cs')
    have "followed R M ops (length cs') (process_loop c (map Inr cs') True s)"
      by (rule loop_follows [OF less.prems(1,2)]) (use less.prems Cons in simp_all)
    then obtain s' cs2 ops1 ops2 where f: "process_loop c (map Inr cs') True s = Ret (s', map Inr cs2)" "length cs2 \<le> length cs'" "[] \<notin> set cs2"
      "ops = ops1 @ ops2" "holds R (run_fs M ops1) s'" "concat cs2 = pend ops2" "ops_ok R (run_fs M ops1) ops2" unfolding followed_def by blast
    have "serve (map Inr cs) s = serve (map Inr cs2) s'"
      using less.prems(4) Cons f(1) by (subst serve.simps) (auto simp: processInotifyEvents_def)
    moreover have "run_fs M (ops1 @ ops2) = run_fs (run_fs M ops1) ops2" for M :: tree and ops1 ops2
      by (induction M ops1 rule: run_fs.induct) simp_all
    ultimately show ?thesis using less.hyps [OF _ f(5,7,6,3)] f(2,4) Cons by simp
  qed
qed

text \<open>The walks of all roots, with the descriptors of a new inotify instance.\<close>

definition walks :: "string list \<Rightarrow> world \<Rightarrow> int \<Rightarrow> (place \<times> int) list list \<Rightarrow> bool" where
  "walks R e fd subs \<longleftrightarrow>
     inotify_init e = Some fd \<and> length subs = length R \<and> distinct (map snd (concat subs)) \<and>
     (\<forall>i < length R. filter (\<lambda>(p, d, r). d) (nftw e fd (R ! i)) = visits_of R (subs ! i)) \<and>
     good_tree R (add_all Map.empty (concat subs))"

lemma add_all_append: "add_all M (xs @ ys) = add_all (add_all M xs) ys"
proof (induction xs arbitrary: M)
  case (Cons x xs)
  then show ?case by (cases x) (simp only: append_Cons add_all.simps)
qed simp

lemma watch_roots_holds:
  assumes "holds R M s" "length subs = length Q" "\<forall>i < length Q. filter (\<lambda>(p, d, r). d) (nftw e fd (Q ! i)) = visits_of R (subs ! i)"
    "distinct (map snd (concat subs))" "\<forall>wd \<in> snd ` set (concat subs). M wd = None" "good_tree R (add_all M (concat subs))"
  shows "\<exists>s'. watch_roots e fd (map Some Q) s = Ret s' \<and> holds R (add_all M (concat subs)) s' \<and> inotifyFd s' = inotifyFd s"
  using assms
proof (induction Q arbitrary: subs M s)
  case (Cons q Q)
  obtain sub subs' where subs: "subs = sub # subs'" using Cons.prems(2) by (cases subs) auto
  let ?M = "add_all M sub"
  have t: "good_tree R (add_all ?M (concat subs'))" using Cons.prems(6) by (simp add: subs add_all_append)
  have n: "\<forall>wd \<in> snd ` set (concat subs'). ?M wd = None"
  proof
    fix wd assume wd: "wd \<in> snd ` set (concat subs')"
    then have "wd \<notin> snd ` set sub" using Cons.prems(4) by (auto simp: subs)
    then show "?M wd = None" using add_all_other [of wd sub M] Cons.prems(5) wd by (auto simp: subs)
  qed
  have tm: "good_tree R ?M"
  proof (rule good_tree_sub [OF t])
    fix wd show "?M wd = add_all ?M (concat subs') wd \<or> ?M wd = None"
      using bspec [OF n, of wd] add_all_other [of wd "concat subs'" ?M] by (cases "wd \<in> snd ` set (concat subs')") metis+
  qed
  have "filter (\<lambda>(p, d, r). d) (nftw e fd q) = visits_of R sub" using Cons.prems(3) subs by force
  then obtain s1 where s1: "watchSubtree e fd q s = Ret s1" "holds R ?M s1" "inotifyFd s1 = inotifyFd s"
    using watchSubtree_holds [OF Cons.prems(1) _ _ _ tm, of e fd q] Cons.prems(4,5) subs by auto
  have "\<forall>i < length Q. filter (\<lambda>(p, d, r). d) (nftw e fd (Q ! i)) = visits_of R (subs' ! i)"
    using Cons.prems(3) subs by (metis Suc_less_eq length_Cons nth_Cons_Suc)
  moreover have "length subs' = length Q" "distinct (map snd (concat subs'))" using Cons.prems(2,4) subs by simp_all
  ultimately obtain s2 where "watch_roots e fd (map Some Q) s1 = Ret s2" "holds R (add_all ?M (concat subs')) s2" "inotifyFd s2 = inotifyFd s1"
    using Cons.IH [OF s1(2) _ _ _ n t] by blast
  then show ?case using s1 subs by (simp add: add_all_append)
qed simp

lemma reinitialize_holds:
  assumes r: "rootDirPaths s = map Some R" "\<not> checkCache s" and w: "walks R e fd subs"
  shows "\<exists>s'. reinitialize e old s = Ret s' \<and> holds R (add_all Map.empty (concat subs)) s' \<and> inotifyFd s' = fd"
proof -
  let ?s = "freeCache (s\<lparr>reinitCnt := (if old \<ge> 0 then reinitCnt s + 1 else 0), inotifyFd := fd\<rparr>)"
  have t: "good_tree R (add_all Map.empty (concat subs))" using w by (simp add: walks_def)
  have "holds R Map.empty ?s" using r good_tree_sub [OF t, of Map.empty] by (simp add: holds_def freeCache_def good_cache_def)
  then obtain s' where "watch_roots e fd (map Some R) ?s = Ret s'" "holds R (add_all Map.empty (concat subs)) s'" "inotifyFd s' = fd"
    using watch_roots_holds [of R Map.empty ?s subs R e fd] w by (auto simp: walks_def freeCache_def)
  then show ?thesis using w r by (simp add: reinitialize_def Let_def walks_def)
qed

section \<open>Properties\<close>


text \<open>
  Whatever the cache holds, an overflow of the queue of events, or an event of a descriptor
  that is not in the cache, makes it equal to the directories again: the rest of the buffer is
  dropped and the cache is built anew from the walks of the roots.
\<close>

theorem dtree_cache_recovers:
  assumes "rootDirPaths s = map Some R" "\<not> checkCache s" "walks R e fd subs"
    "ev_wd ev = -1 \<and> ev_mask ev = IN_Q_OVERFLOW \<or>
     ev_wd ev \<noteq> -1 \<and> \<not> has ev IN_IGNORED \<and> findWatch (ev_wd ev) s = None \<and> \<not> abortOnCacheProblem s"
  shows "\<exists>s'. processNextInotifyEvent e ev nextEv firstTry s = Ret (Rest, s') \<and> holds R (add_all Map.empty (concat subs)) s' \<and> inotifyFd s' = fd"
proof -
  obtain s' where s': "reinitialize e (inotifyFd s) s = Ret s'" "holds R (add_all Map.empty (concat subs)) s'" "inotifyFd s' = fd"
    using reinitialize_holds [OF assms(1-3)] by blast
  have r: "restart_cache e s = Ret (Rest, s')" by (simp add: restart_cache_def s'(1))
  have "processNextInotifyEvent e ev nextEv firstTry s = Ret (Rest, s')" using assms(4)
  proof
    assume o: "ev_wd ev = -1 \<and> ev_mask ev = IN_Q_OVERFLOW"
    then have "handle_event e ev nextEv firstTry None s = restart_cache e s" by (simp add: handle_event_def masks)
    then show ?thesis using o r s'(2) by (simp add: processNextInotifyEvent_def Let_def holds_def)
  next
    assume "ev_wd ev \<noteq> -1 \<and> \<not> has ev IN_IGNORED \<and> findWatch (ev_wd ev) s = None \<and> \<not> abortOnCacheProblem s"
    then show ?thesis using r by (simp add: processNextInotifyEvent_def Let_def findWatchChecked_def)
  qed
  then show ?thesis using s' by blast
qed

text \<open>
  A directory that is moved into the trees in place of an empty one is lost: the event of
  the move finds the path in the cache and adds nothing, and the event that follows, of the
  removal of the directory that was replaced, takes the path away.
\<close>

theorem dtree_loses_replaced:
  assumes "holds R M s" "M w = Some p" "M d = Some q" "q = child (M w) n" "findWatch d s = Some j"
  shows "\<exists>s'. serve [Inr
      [(\<lparr>ev_wd = w, ev_mask = or IN_ISDIR IN_MOVED_TO, ev_cookie = c, ev_name = n\<rparr>, e),
       (\<lparr>ev_wd = d, ev_mask = IN_DELETE_SELF, ev_cookie = 0, ev_name = []\<rparr>, e)]] s = Ret s' \<and>
    holds R (M(d := None)) s' \<and> \<not> pathnameInCache (render R q) s'"
proof -
  obtain i ds where p: "p = (i, ds)" by (cases p)
  have q: "q = (i, ds @ [n])" using assms(2,4) p by (simp add: child_def)
  have g: "good_tree R M" using assms(1) by (simp add: holds_def)
  note gq = good_treeD [OF g assms(3)]
  let ?e1 = "\<lparr>ev_wd = w, ev_mask = or IN_ISDIR IN_MOVED_TO, ev_cookie = c, ev_name = n\<rparr>"
  let ?e2 = "\<lparr>ev_wd = d, ev_mask = IN_DELETE_SELF, ev_cookie = 0, ev_name = []\<rparr>"
  have 1: "processNextInotifyEvent e ?e1 (Some ?e2) True s = Ret (One, s)"
  proof (rule process_watched [OF assms(1)])
    show "M (ev_wd ?e1) = Some (i, ds)" using assms(2) p by simp
    fix k assume "findWatch (ev_wd ?e1) s = Some k"
    then have "path_of (Some k) s = Ret (render R (i, ds))" using slot_of [OF assms(1,2)] p by (metis inotify_event.select_convs(1) option.inject)
    moreover have "join_path (render R (i, ds)) n = render R q" using gq q by (simp add: join_path_render)
    moreover have "pathnameInCache (render R q) s" using pathnameInCache_holds [OF assms(1)] gq assms(3) by (simp add: ranI)
    ultimately show "handle_event e ?e1 (Some ?e2) True (Some k) s = Ret (One, s)" by (simp add: handle_event_def masks)
  qed (use assms(1) in \<open>simp_all add: masks holds_def\<close>)
  have "op_ok R M (Rmdir d) e" using assms(3) q by auto
  from rmdir_step [OF assms(1) this, of ?e2 0 None True] obtain s' where
    2: "processNextInotifyEvent e ?e2 None True s = Ret (One, s')" "holds R (M(d := None)) s'" by auto
  have "serve [Inr [(?e1, e), (?e2, e)]] s = Ret s'"
    using process_loop_One [of e ?e1 "[(?e2, e)]" True s s "[]"] process_loop_One [of e ?e2 "[]" True s s' "[]"] 1 2(1)
    by (subst serve.simps) (simp add: processInotifyEvents_def next_ev_def serve.simps)
  moreover have "\<not> pathnameInCache (render R q) s'"
  proof -
    have "q \<notin> ran (M(d := None))"
    proof
      assume "q \<in> ran (M(d := None))"
      then obtain k where "(M(d := None)) k = Some q" by (auto simp: ran_def simp del: split_paired_Ex)
      then have "k \<noteq> d" "M k = Some q" by (auto split: if_splits)
      then show False using g assms(3) unfolding good_tree_def inj_on_def by (metis domI)
    qed
    then show ?thesis using pathnameInCache_holds [OF 2(2)] gq by simp
  qed
  ultimately show ?thesis using 2(2) by blast
qed

text \<open>One root with one directory, which is renamed; the two events arrive in two reads.\<close>

definition small_world :: world where
  "small_world =
     \<lparr>nftw = (\<lambda>fd p. if p = ''t'' then [(''t'', True, Inr 1), (''t/f'', False, Inl ENOENT), (''t/a'', True, Inr 2)] else []),
      rm_watch = (\<lambda>_ _. True), inotify_init = Some 3, lstat = (\<lambda>_. Some True)\<rparr>"

definition small_subs :: "(place \<times> int) list list" where
  "small_subs = [[((0, []), 1), ((0, [''a'']), 2)]]"

definition small_start :: dtree where
  "small_start =
     \<lparr>wlCache = [], rootDirPaths = [Some ''t''], ignoreRootDirs = 0, inotifyFd = -1, reinitCnt = 0, verboseMask = 0,
      checkCache = False, dumpCache = False, abortOnCacheProblem = False\<rparr>"

lemma small_roots: "good_roots [''t'']"
  by (simp add: good_roots_def)

lemma good_tree_small:
  assumes "good_name n"  "length n < 100"
  shows "good_tree [''t''] [1 \<mapsto> (0, []), 2 \<mapsto> (0, [n])]"
  using assms small_roots unfolding good_tree_def
  by (auto simp: ran_def inj_on_def good_place_def render_def PATH_MAX_def split: if_splits)

lemma small_walks: "walks [''t''] small_world 3 small_subs"
proof -
  have "good_tree [''t''] (add_all Map.empty (concat small_subs))"
    using good_tree_small [of "''a''"] by (simp add: small_subs_def good_name_def)
  then show ?thesis by (simp add: walks_def small_world_def small_subs_def visits_of_def render_def)
qed


theorem dtree_cache_recovers_witness:
  "\<exists>s'. processNextInotifyEvent small_world \<lparr>ev_wd = 9, ev_mask = IN_CREATE, ev_cookie = 0, ev_name = ''x''\<rparr> None True small_start = Ret (Rest, s') \<and>
     holds [''t''] (add_all Map.empty (concat small_subs)) s' \<and> inotifyFd s' = 3"
  by (rule dtree_cache_recovers [OF _ _ small_walks]) (simp_all add: small_start_def masks findWatch_def)

lemma small_held: "\<exists>s. reinitialize small_world (-1) small_start = Ret s \<and> holds [''t''] [1 \<mapsto> (0, []), 2 \<mapsto> (0, [''a''])] s"
  using reinitialize_holds [OF _ _ small_walks, of small_start "-1"] by (auto simp: small_start_def small_subs_def)

theorem dtree_loses_replaced_witness:
  "\<exists>s s'. reinitialize small_world (-1) small_start = Ret s \<and> pathnameInCache ''t/a'' s \<and>
     serve [Inr
       [(\<lparr>ev_wd = 1, ev_mask = or IN_ISDIR IN_MOVED_TO, ev_cookie = 5, ev_name = ''a''\<rparr>, small_world),
        (\<lparr>ev_wd = 2, ev_mask = IN_DELETE_SELF, ev_cookie = 0, ev_name = []\<rparr>, small_world)]] s = Ret s' \<and>
     \<not> pathnameInCache ''t/a'' s'"
proof -
  obtain s where s: "reinitialize small_world (-1) small_start = Ret s" "holds [''t''] [1 \<mapsto> (0, []), 2 \<mapsto> (0, [''a''])] s"
    using small_held by blast
  let ?M = "[1 \<mapsto> (0 :: nat, [] :: string list), 2 \<mapsto> (0, [''a''])] :: tree"
  obtain j where j: "findWatch 2 s = Some j" using findWatch_holds [OF s(2), of 2] by auto
  have r: "render [''t''] (0, [''a'']) = ''t/a''" by (simp add: render_def)
  have "good_place [''t''] (0, [''a''])" by (simp add: good_place_def good_name_def)
  from pathnameInCache_holds [OF s(2) this] have "pathnameInCache ''t/a'' s" by (simp add: r ranI [of ?M 2])
  moreover from dtree_loses_replaced [OF s(2), of 1 "(0, [])" 2 "(0, [''a''])" "''a''" j 5 small_world] j
  have "\<exists>s'. serve [Inr
       [(\<lparr>ev_wd = 1, ev_mask = or IN_ISDIR IN_MOVED_TO, ev_cookie = 5, ev_name = ''a''\<rparr>, small_world),
        (\<lparr>ev_wd = 2, ev_mask = IN_DELETE_SELF, ev_cookie = 0, ev_name = []\<rparr>, small_world)]] s = Ret s' \<and> \<not> pathnameInCache ''t/a'' s'"
    by (auto simp: child_def r)
  ultimately show ?thesis using s(1) by blast
qed

end
