(* ===== verification/Ring_Buffer.thy ===== *)
theory Ring_Buffer
  imports Monitor
begin

text \<open>
  The bounded buffers of \<^verbatim>\<open>UNIX_Systems_Programming/chapter16\<close> and the barrier of \<^verbatim>\<open>chapter13\<close>: a ring
  of eight items, with a mutex alone (\<^verbatim>\<open>buffer.c\<close>), with condition variables (\<^verbatim>\<open>buffercond.c\<close>), with
  a flag that ends the transfer (\<^verbatim>\<open>bufferconddone.c\<close>), and with semaphores (\<^verbatim>\<open>buffersem.c\<close>,
  \<^verbatim>\<open>bufferseminit.c\<close>) that are initialised once. The type of an item is a parameter.
\<close>

section \<open>The ring\<close>

definition BUFSIZE :: nat where "BUFSIZE = 8"

record 'a ring =
  rbuf :: "'a list"
  bufin :: nat
  bufout :: nat
  totalitems :: int
  doneflag :: bool

text \<open>The static variables when the program starts; \<open>z\<close> is the number zero.\<close>

definition ring_initial :: "'a \<Rightarrow> 'a ring" where
  "ring_initial z = \<lparr>rbuf = replicate BUFSIZE z, bufin = 0, bufout = 0, totalitems = 0, doneflag = False\<rparr>"

text \<open>The statements that move an item.\<close>

definition take_item :: "'a ring \<Rightarrow> 'a \<times> 'a ring" where
  "take_item s = (rbuf s ! bufout s, s\<lparr>bufout := (bufout s + 1) mod BUFSIZE\<rparr>)"

definition store_item :: "'a \<Rightarrow> 'a ring \<Rightarrow> 'a ring" where
  "store_item item s = s\<lparr>rbuf := (rbuf s)[bufin s := item], bufin := (bufin s + 1) mod BUFSIZE\<rparr>"

section \<open>With a mutex\<close>

text \<open>The results of locking and of unlocking are arguments.\<close>

definition getitem :: "rc \<Rightarrow> rc \<Rightarrow> 'a ring \<Rightarrow> (errno + 'a) \<times> 'a ring" where
  "getitem lk ul s =
     (case lk of
        Some e \<Rightarrow> (Inl e, s)
      | None \<Rightarrow>
          let (r, s) =
            (if totalitems s > 0 then (case take_item s of (x, s) \<Rightarrow> (Inr x, s\<lparr>totalitems := totalitems s - 1\<rparr>))
             else (Inl EAGAIN, s))
          in case ul of Some e \<Rightarrow> (Inl e, s) | None \<Rightarrow> (r, s))"

definition putitem :: "rc \<Rightarrow> rc \<Rightarrow> 'a \<Rightarrow> 'a ring \<Rightarrow> rc \<times> 'a ring" where
  "putitem lk ul item s =
     (case lk of
        Some e \<Rightarrow> (Some e, s)
      | None \<Rightarrow>
          let (r, s) =
            (if totalitems s < int BUFSIZE then (None, (store_item item s)\<lparr>totalitems := totalitems s + 1\<rparr>)
             else (Some EAGAIN, s))
          in case ul of Some e \<Rightarrow> (Some e, s) | None \<Rightarrow> (r, s))"

section \<open>With condition variables\<close>

datatype rcond = Items | Slots

datatype 'a rcall = Get | Put 'a | SetDone | GetDone

datatype 'a rret = Got 'a | Stored | Failed errno | Flag bool | IsDone

text \<open>
  What a call does from its lock, or from the return of \<^verbatim>\<open>pthread_cond_wait\<close>, up to the next wait or
  its end; both test the condition first.
\<close>

type_synonym 'a rstep = "'a ring \<times> rcond wake list \<times> ('a rcall, rcond, 'a rret) outcome"

definition getitem_cond :: "'a ring \<Rightarrow> 'a rstep" where
  "getitem_cond s =
     (if totalitems s \<le> 0 then (s, [], Wait Items Get)
      else (case take_item s of (x, s) \<Rightarrow> (s\<lparr>totalitems := totalitems s - 1\<rparr>, [Signal Slots], Return (Got x))))"

definition putitem_cond :: "'a \<Rightarrow> 'a ring \<Rightarrow> 'a rstep" where
  "putitem_cond item s =
     (if totalitems s \<ge> int BUFSIZE then (s, [], Wait Slots (Put item))
      else ((store_item item s)\<lparr>totalitems := totalitems s + 1\<rparr>, [Signal Items], Return Stored))"

definition getitem_done :: "'a ring \<Rightarrow> 'a rstep" where
  "getitem_done s =
     (if totalitems s \<le> 0 \<and> \<not> doneflag s then (s, [], Wait Items Get)
      else if doneflag s \<and> totalitems s \<le> 0 then (s, [], Return (Failed ECANCELED))
      else (case take_item s of (x, s) \<Rightarrow> (s\<lparr>totalitems := totalitems s - 1\<rparr>, [Signal Slots], Return (Got x))))"

definition putitem_done :: "'a \<Rightarrow> 'a ring \<Rightarrow> 'a rstep" where
  "putitem_done item s =
     (if totalitems s \<ge> int BUFSIZE \<and> \<not> doneflag s then (s, [], Wait Slots (Put item))
      else if doneflag s then (s, [], Return (Failed ECANCELED))
      else ((store_item item s)\<lparr>totalitems := totalitems s + 1\<rparr>, [Signal Items], Return Stored))"

definition getdone :: "'a ring \<Rightarrow> 'a rstep" where
  "getdone s = (s, [], Return (Flag (doneflag s)))"

definition setdone :: "'a ring \<Rightarrow> 'a rstep" where
  "setdone s = (s\<lparr>doneflag := True\<rparr>, [Broadcast Items, Broadcast Slots], Return IsDone)"

text \<open>The calls of the two files.\<close>

fun cond_body :: "tid \<Rightarrow> 'a rcall \<Rightarrow> 'a ring \<Rightarrow> 'a rstep" where
  "cond_body t Get s = getitem_cond s"
| "cond_body t (Put item) s = putitem_cond item s"
| "cond_body t SetDone s = (s, [], Return IsDone)"
| "cond_body t GetDone s = (s, [], Return IsDone)"

fun done_body :: "tid \<Rightarrow> 'a rcall \<Rightarrow> 'a ring \<Rightarrow> 'a rstep" where
  "done_body t Get s = getitem_done s"
| "done_body t (Put item) s = putitem_done item s"
| "done_body t SetDone s = setdone s"
| "done_body t GetDone s = getdone s"

section \<open>The barrier\<close>

record barrier =
  b_count :: int
  b_limit :: int

datatype bcall = InitBarrier int | WaitBarrier | AtBarrier

definition initbarrier :: "int \<Rightarrow> barrier \<Rightarrow> barrier \<times> unit wake list \<times> (bcall, unit, rc) outcome" where
  "initbarrier n b = (if b_limit b \<noteq> 0 then (b, [], Return (Some EINVAL)) else (b\<lparr>b_limit := n\<rparr>, [], Return None))"

text \<open>The loop of \<^verbatim>\<open>waitbarrier\<close> and what follows it.\<close>

definition at_barrier :: "barrier \<Rightarrow> barrier \<times> unit wake list \<times> (bcall, unit, rc) outcome" where
  "at_barrier b = (if b_count b < b_limit b then (b, [], Wait () AtBarrier) else (b, [Broadcast ()], Return None))"

definition waitbarrier :: "barrier \<Rightarrow> barrier \<times> unit wake list \<times> (bcall, unit, rc) outcome" where
  "waitbarrier b = (if b_limit b \<le> 0 then (b, [], Return (Some EINVAL)) else at_barrier (b\<lparr>b_count := b_count b + 1\<rparr>))"

fun barrier_body :: "tid \<Rightarrow> bcall \<Rightarrow> barrier \<Rightarrow> barrier \<times> unit wake list \<times> (bcall, unit, rc) outcome" where
  "barrier_body t (InitBarrier n) b = initbarrier n b"
| "barrier_body t WaitBarrier b = waitbarrier b"
| "barrier_body t AtBarrier b = at_barrier b"

section \<open>With semaphores\<close>

text \<open>
  \<^verbatim>\<open>getitem\<close> and \<^verbatim>\<open>putitem\<close> of \<^verbatim>\<open>bufferseminit.c\<close> in three steps: \<^verbatim>\<open>sem_wait\<close>, which blocks while the value
  is 0 (the result \<open>None\<close>) and starts again when a signal interrupts it, the section that holds the
  mutex, and \<^verbatim>\<open>sem_post\<close>. The point of a call is the step it takes next.
\<close>

record 'a sring =
  s_ring :: "'a ring"
  semitems :: nat
  semslots :: nat

datatype 'a spoint = GetWait | GetTake | GetPost 'a | PutWait 'a | PutStore 'a | PutPost

definition bufferinit :: "rc \<Rightarrow> rc \<Rightarrow> rc \<times> (nat \<times> nat) option" where
  "bufferinit r1 r2 =
     (case r1 of
        Some e \<Rightarrow> (Some e, None)
      | None \<Rightarrow> (case r2 of Some e \<Rightarrow> (Some e, None) | None \<Rightarrow> (None, Some (0, BUFSIZE))))"

fun ring_sem_call :: "'a spoint \<Rightarrow> 'a sring \<Rightarrow> (('a spoint + 'a rret) \<times> 'a sring) option" where
  "ring_sem_call GetWait s = (if semitems s = 0 then None else Some (Inl GetTake, s\<lparr>semitems := semitems s - 1\<rparr>))"
| "ring_sem_call GetTake s = (case take_item (s_ring s) of (x, q) \<Rightarrow> Some (Inl (GetPost x), s\<lparr>s_ring := q\<rparr>))"
| "ring_sem_call (GetPost x) s = Some (Inr (Got x), s\<lparr>semslots := semslots s + 1\<rparr>)"
| "ring_sem_call (PutWait x) s = (if semslots s = 0 then None else Some (Inl (PutStore x), s\<lparr>semslots := semslots s - 1\<rparr>))"
| "ring_sem_call (PutStore x) s = Some (Inl PutPost, s\<lparr>s_ring := store_item x (s_ring s)\<rparr>)"
| "ring_sem_call PutPost s = Some (Inr Stored, s\<lparr>semitems := semitems s + 1\<rparr>)"

text \<open>
  Initialisation at most once, in its two forms: under a mutex with a flag, and with
  \<^verbatim>\<open>pthread_once\<close>. \<open>sems\<close> are the two semaphores, once they are initialised.
\<close>

record sinit =
  seminit :: bool
  once :: bool
  initerror :: rc
  initdone :: bool
  sems :: "(nat \<times> nat) option"
  inits :: nat

definition run_init :: "rc \<Rightarrow> rc \<Rightarrow> sinit \<Rightarrow> rc \<times> sinit" where
  "run_init r1 r2 s =
     (case bufferinit r1 r2 of (r, v) \<Rightarrow> (r, if r = None then s\<lparr>sems := v, inits := inits s + 1\<rparr> else s))"

definition bufferinitmutex :: "rc \<Rightarrow> rc \<Rightarrow> rc \<Rightarrow> rc \<Rightarrow> sinit \<Rightarrow> rc \<times> sinit" where
  "bufferinitmutex lk ul r1 r2 s =
     (case lk of
        Some e \<Rightarrow> (Some e, s)
      | None \<Rightarrow>
          let (errorinit, s) =
            (if \<not> seminit s then (case run_init r1 r2 s of (r, s) \<Rightarrow> (r, if r = None then s\<lparr>seminit := True\<rparr> else s)) else (None, s))
          in (case errorinit of Some e \<Rightarrow> Some e | None \<Rightarrow> ul, s))"

definition bufferinitonce :: "rc \<Rightarrow> rc \<Rightarrow> rc \<Rightarrow> sinit \<Rightarrow> rc \<times> sinit" where
  "bufferinitonce on r1 r2 s =
     (case on of
        Some e \<Rightarrow> (Some e, s)
      | None \<Rightarrow>
          let s = (if once s then s else (case run_init r1 r2 s of (r, s) \<Rightarrow> s\<lparr>once := True, initerror := r\<rparr>))
          in (initerror s, s))"

text \<open>
  The start of \<^verbatim>\<open>getitem\<close> and \<^verbatim>\<open>putitem\<close> in \<^verbatim>\<open>buffersem.c\<close>, which ignores the result of the
  initialisation; what follows uses the semaphores.
\<close>

definition ensure_init :: "rc \<Rightarrow> rc \<Rightarrow> rc \<Rightarrow> sinit \<Rightarrow> sinit" where
  "ensure_init on r1 r2 s =
     (if initdone s then s
      else (case bufferinitonce on r1 r2 s of (_, s') \<Rightarrow> if once s' \<and> initerror s' = None then s'\<lparr>initdone := True\<rparr> else s'))"

definition sem_initial :: "sinit" where
  "sem_initial = \<lparr>seminit = False, once = False, initerror = None, initdone = False, sems = None, inits = 0\<rparr>"

end
