(* ===== verification/Ring_Props.thy ===== *)
theory Ring_Props
  imports Ring_Buffer
begin

text \<open>
  Properties of the bounded buffers and of the barrier under all interleavings: the items leave
  in the order in which they came, nobody sleeps when there is something for him to do, and no
  thread passes the barrier before all have arrived.
\<close>

section \<open>What the ring holds\<close>

definition ritems :: "nat \<Rightarrow> 'a ring \<Rightarrow> 'a list" where
  "ritems n s = map (\<lambda>i. rbuf s ! ((bufout s + i) mod BUFSIZE)) [0..<n]"

definition ring_ok :: "nat \<Rightarrow> 'a ring \<Rightarrow> bool" where
  "ring_ok n s \<longleftrightarrow> length (rbuf s) = BUFSIZE \<and> bufout s < BUFSIZE \<and> n \<le> BUFSIZE \<and> bufin s = (bufout s + n) mod BUFSIZE"

lemma ring_initial_ok: "ring_ok 0 (ring_initial z)" "ritems 0 (ring_initial z) = []"
  by (simp_all add: ring_ok_def ring_initial_def BUFSIZE_def ritems_def)

lemma ritems_totalitems [simp]: "ritems n (s\<lparr>totalitems := i\<rparr>) = ritems n s" "ritems n (s\<lparr>doneflag := b\<rparr>) = ritems n s"
  by (simp_all add: ritems_def)

lemma ring_ok_totalitems [simp]: "ring_ok n (s\<lparr>totalitems := i\<rparr>) = ring_ok n s" "ring_ok n (s\<lparr>doneflag := b\<rparr>) = ring_ok n s"
  by (simp_all add: ring_ok_def)

lemma take_item_ok:
  assumes "ring_ok (Suc n) s" "take_item s = (x, s')"
  shows "ring_ok n s' \<and> ritems (Suc n) s = x # ritems n s' \<and> totalitems s' = totalitems s \<and> doneflag s' = doneflag s"
proof -
  have s: "x = rbuf s ! bufout s" "s' = s\<lparr>bufout := (bufout s + 1) mod BUFSIZE\<rparr>" using assms(2) by (simp_all add: take_item_def)
  have "(bufout s + Suc i) mod BUFSIZE = ((bufout s + 1) mod BUFSIZE + i) mod BUFSIZE" for i by (simp add: mod_add_left_eq)
  then have "ritems (Suc n) s = x # ritems n s'" using assms(1)
    unfolding ritems_def s by (simp add: upt_conv_Cons map_Suc_upt [symmetric] ring_ok_def comp_def del: upt_Suc)
  moreover have "ring_ok n s'" using assms(1) by (auto simp: ring_ok_def s BUFSIZE_def mod_simps)
  ultimately show ?thesis by (simp add: s)
qed

lemma store_item_ok:
  assumes "ring_ok n s" "n < BUFSIZE"
  shows "ring_ok (Suc n) (store_item x s) \<and> ritems (Suc n) (store_item x s) = ritems n s @ [x]"
proof -
  have ok: "length (rbuf s) = BUFSIZE" "bufout s < BUFSIZE" "bufin s = (bufout s + n) mod BUFSIZE" using assms(1) by (simp_all add: ring_ok_def)
  have "(bufout s + i) mod BUFSIZE \<noteq> (bufout s + n) mod BUFSIZE" if "i < n" for i
  proof
    assume "(bufout s + i) mod BUFSIZE = (bufout s + n) mod BUFSIZE"
    then have "BUFSIZE dvd n - i" using that by (metis add_diff_cancel_left le_add1 less_imp_le mod_eq_dvd_iff_nat nat_add_left_cancel_le)
    then show False using that assms(2) by (auto dest: dvd_imp_le)
  qed
  then have "(rbuf s)[(bufout s + n) mod BUFSIZE := x] ! ((bufout s + i) mod BUFSIZE) = rbuf s ! ((bufout s + i) mod BUFSIZE)" if "i < n" for i
    using that by (metis nth_list_update_neq)
  then show ?thesis using ok assms(2) by (auto simp: ring_ok_def ritems_def store_item_def mod_simps)
qed

section \<open>Sequences of calls\<close>

text \<open>
  Without waiting, the calls of \<^verbatim>\<open>buffer.c\<close> are those of a queue of at most eight items.
\<close>

definition queue_holds :: "'a ring \<Rightarrow> 'a list \<Rightarrow> bool" where
  "queue_holds s xs \<longleftrightarrow> totalitems s = int (length xs) \<and> ring_ok (length xs) s \<and> xs = ritems (length xs) s"

lemma getitem_queue:
  assumes "queue_holds s xs"
  shows "getitem None None s = (case xs of [] \<Rightarrow> (Inl EAGAIN, s) | x # _ \<Rightarrow> (Inr x, snd (getitem None None s))) \<and>
    queue_holds (snd (getitem None None s)) (tl xs)"
proof (cases xs)
  case Nil
  then show ?thesis using assms by (simp add: queue_holds_def getitem_def)
next
  case (Cons x ys)
  obtain y s' where t: "take_item s = (y, s')" by force
  have "ring_ok (Suc (length ys)) s" "x # ys = ritems (Suc (length ys)) s" "totalitems s = 1 + int (length ys)" using assms Cons by (auto simp: queue_holds_def)
  then show ?thesis using take_item_ok [OF _ t] Cons by (auto simp: getitem_def t queue_holds_def)
qed

lemma putitem_queue:
  assumes "queue_holds s xs"
  shows "if length xs < BUFSIZE then fst (putitem None None x s) = None \<and> queue_holds (snd (putitem None None x s)) (xs @ [x])
    else putitem None None x s = (Some EAGAIN, s)"
  using assms store_item_ok [of "length xs" s x] by (auto simp: putitem_def queue_holds_def)

section \<open>Interleavings\<close>

text \<open>The state with the items put and got so far, in order.\<close>

type_synonym 'a rlog = "'a ring \<times> 'a list \<times> 'a list"

fun put_log :: "'a rcall \<Rightarrow> ('a rcall, rcond, 'a rret) outcome \<Rightarrow> 'a list" where
  "put_log (Put x) (Return Stored) = [x]"
| "put_log _ _ = []"

fun got_log :: "('a rcall, rcond, 'a rret) outcome \<Rightarrow> 'a list" where
  "got_log (Return (Got x)) = [x]"
| "got_log _ = []"

definition logged :: "(tid \<Rightarrow> 'a rcall \<Rightarrow> 'a ring \<Rightarrow> 'a rstep) \<Rightarrow> ('a rlog, rcond, 'a rcall, 'a rret) body" where
  "logged body t k y =
     (case y of (s, ps, gs) \<Rightarrow> case body t k s of (s', ws, out) \<Rightarrow> ((s', ps @ put_log k out, gs @ got_log out), ws, out))"

fun waits_on :: "'a rcall \<Rightarrow> rcond option" where
  "waits_on Get = Some Items"
| "waits_on (Put x) = Some Slots"
| "waits_on _ = None"

text \<open>How many woken threads want what a condition variable announces.\<close>

definition woken :: "rcond \<Rightarrow> (tid \<times> 'a rcall) list \<Rightarrow> nat" where
  "woken c r = length (filter (\<lambda>(t, k). waits_on k = Some c) r)"

definition asleep :: "rcond \<Rightarrow> (tid \<times> rcond \<times> 'a rcall) list \<Rightarrow> bool" where
  "asleep c w \<longleftrightarrow> (\<exists>t k. (t, c, k) \<in> set w)"

definition sleepers_ok :: "(tid \<times> rcond \<times> 'a rcall) list \<Rightarrow> bool" where
  "sleepers_ok w \<longleftrightarrow> (\<forall>(t, c, k) \<in> set w. waits_on k = Some c)"

text \<open>
  The invariant: the items got and the items in the ring are the items put; a sleeper that waits
  for an item has, for every item there is, a woken thread before him, and so for free slots;
  and nobody sleeps once the transfer has ended. \<open>k\<close> is the call that runs, if any.
\<close>

definition enough :: "nat \<Rightarrow> 'a rcall option \<Rightarrow> (tid \<times> rcond \<times> 'a rcall) list \<Rightarrow> (tid \<times> 'a rcall) list \<Rightarrow> bool" where
  "enough n k w r \<longleftrightarrow>
     (asleep Items w \<longrightarrow> n \<le> woken Items r + (if Option.bind k waits_on = Some Items then 1 else 0)) \<and>
     (asleep Slots w \<longrightarrow> BUFSIZE - n \<le> woken Slots r + (if Option.bind k waits_on = Some Slots then 1 else 0))"

definition ring_inv :: "'a rcall option \<Rightarrow> 'a rlog \<Rightarrow> (tid \<times> rcond \<times> 'a rcall) list \<Rightarrow> (tid \<times> 'a rcall) list \<Rightarrow> bool" where
  "ring_inv k y w r \<longleftrightarrow>
     (case y of (s, ps, gs) \<Rightarrow>
        \<exists>n. totalitems s = int n \<and> ring_ok n s \<and> ps = gs @ ritems n s \<and> sleepers_ok w \<and> (doneflag s \<longrightarrow> w = []) \<and> enough n k w r)"

lemma woken_simps [simp]:
  "woken c [] = 0" "woken c ((t, k) # r) = (if waits_on k = Some c then 1 else 0) + woken c r" "woken c (r @ r') = woken c r + woken c r'"
  by (simp_all add: woken_def)

lemma asleep_Nil [simp]: "\<not> asleep c []"
  by (simp add: asleep_def)

lemma asleep_snoc [simp]: "asleep c (w @ [(t, d, k)]) \<longleftrightarrow> asleep c w \<or> c = d"
  by (auto simp: asleep_def)

lemma signal_woken:
  assumes "wake_step (Signal c) (w, r) (w', r')" "sleepers_ok w"
  shows "sleepers_ok w' \<and> (\<forall>d. asleep d w' \<longrightarrow> asleep d w) \<and> (\<forall>d. d \<noteq> c \<longrightarrow> woken d r' = woken d r) \<and>
    (asleep c w' \<longrightarrow> woken c r' = Suc (woken c r))"
  using assms(1)
proof (cases rule: wake_step.cases)
  case signal_none
  then show ?thesis using assms(2) by (auto simp: asleep_def)
next
  case (signal_one w1 t k w2)
  then show ?thesis using assms(2) by (auto simp: asleep_def sleepers_ok_def)
qed

lemma done_step:
  assumes inv: "ring_inv (Some k) y w r" and b: "logged done_body t k y = (y', ws, out)" and wk: "wake_steps ws (w, r) (w', r')"
  shows "ring_inv None y' (sleep_on t out w') r'"
proof -
  obtain s ps gs where y: "y = (s, ps, gs)" by (cases y)
  obtain n where n: "totalitems s = int n" "ring_ok n s" "ps = gs @ ritems n s" "sleepers_ok w" "doneflag s \<longrightarrow> w = []" "enough n (Some k) w r"
    using inv by (auto simp: ring_inv_def y)
  have le: "n \<le> BUFSIZE" using n(2) by (simp add: ring_ok_def)
  show ?thesis
  proof (cases k)
    case Get
    show ?thesis
    proof (cases "n = 0")
      case True
      then show ?thesis using b wk n Get unfolding y logged_def
        by (auto simp: getitem_done_def ring_inv_def sleepers_ok_def enough_def split: if_splits)
    next
      case False
      then obtain m where m: "n = Suc m" by (cases n) auto
      obtain x s' where t: "take_item s = (x, s')" by force
      note ti = take_item_ok [OF n(2) [unfolded m] t]
      have e: "y' = (s'\<lparr>totalitems := totalitems s' - 1\<rparr>, ps, gs @ [x])" "ws = [Signal Slots]" "out = Return (Got x)"
        using b n(1) m unfolding y logged_def Get by (auto simp: getitem_done_def t)
      have "wake_step (Signal Slots) (w, r) (w', r')" using wk e by simp
      note sg = signal_woken [OF this n(4)]
      have "enough m None w' r'" using sg n(6) m le by (auto simp: enough_def Get)
      moreover have "doneflag s \<longrightarrow> w' = []" using wake_steps_wait [OF wk] n(5) by auto
      ultimately show ?thesis using sg e ti n(1,3) m by (auto simp: ring_inv_def)
    qed
  next
    case (Put x)
    show ?thesis
    proof (cases "n < BUFSIZE \<and> \<not> doneflag s")
      case False
      then show ?thesis using b wk n le Put unfolding y logged_def
        by (auto simp: putitem_done_def ring_inv_def sleepers_ok_def enough_def split: if_splits)
    next
      case True
      let ?s = "(store_item x s)\<lparr>totalitems := totalitems s + 1\<rparr>"
      have e: "y' = (?s, ps @ [x], gs)" "ws = [Signal Items]" "out = Return Stored"
        using b n(1) True unfolding y logged_def Put by (auto simp: putitem_done_def)
      have "wake_step (Signal Items) (w, r) (w', r')" using wk e by simp
      note sg = signal_woken [OF this n(4)]
      have "enough (Suc n) None w' r'" using sg n(6) True by (auto simp: enough_def Put)
      moreover have "\<not> doneflag ?s" using True by (simp add: store_item_def)
      ultimately show ?thesis using sg e store_item_ok [OF n(2), of x] n(1,3) True by (auto simp: ring_inv_def intro!: exI [of _ "Suc n"])
    qed
  next
    case SetDone
    have "set w' \<subseteq> {}"
    proof
      fix z assume "z \<in> set w'"
      moreover obtain t c k' where "z = (t, c, k')" by (cases z)
      ultimately show "z \<in> {}" using b wk unfolding y logged_def SetDone
        by (cases c) (auto simp: setdone_def wake_steps_Cons elim!: wake_step.cases)
    qed
    then show ?thesis using b n unfolding y logged_def SetDone
      by (auto simp: setdone_def ring_inv_def sleepers_ok_def enough_def asleep_def)
  next
    case GetDone
    then show ?thesis using b wk n unfolding y logged_def by (auto simp: getdone_def ring_inv_def enough_def)
  qed
qed

lemma ring_inv_enter: "ring_inv None y w r \<Longrightarrow> ring_inv (Some k) y w r"
  by (fastforce simp: ring_inv_def enough_def)

lemma ring_inv_resume: "ring_inv None y w (r1 @ (t, k) # r2) \<Longrightarrow> ring_inv (Some k) y w (r1 @ r2)"
  by (fastforce simp: ring_inv_def enough_def)

lemma ring_inv_spurious:
  assumes "ring_inv None y (w1 @ (t, c, k) # w2) r"
  shows "ring_inv None y (w1 @ w2) ((t, k) # r)"
proof -
  have "asleep d (w1 @ w2) \<Longrightarrow> asleep d (w1 @ (t, c, k) # w2)" for d by (auto simp: asleep_def)
  then show ?thesis using assms by (fastforce simp: ring_inv_def enough_def sleepers_ok_def)
qed

text \<open>Any thread may make any call of \<^verbatim>\<open>bufferconddone.c\<close>; those of \<^verbatim>\<open>buffercond.c\<close> get and put only.\<close>

interpretation donemon: monitor_global "logged done_body" "\<lambda>_ _ _. True" "ring_inv None"
proof (unfold_locales, goal_cases)
  case (1 s w r t k s' ws out w' r')
  then show ?case using done_step [OF ring_inv_enter] by blast
next
  case (2 s w r1 t k r2 s' ws out w' r')
  then show ?case using done_step [OF ring_inv_resume] by blast
next
  case 3
  then show ?case by (rule ring_inv_spurious)
qed

definition gets_and_puts :: "tid \<Rightarrow> 'a rcall \<Rightarrow> 'a rlog \<Rightarrow> bool" where
  "gets_and_puts t k y \<longleftrightarrow> waits_on k \<noteq> None"

definition cond_inv :: "'a rlog \<Rightarrow> (tid \<times> rcond \<times> 'a rcall) list \<Rightarrow> (tid \<times> 'a rcall) list \<Rightarrow> bool" where
  "cond_inv y w r \<longleftrightarrow> ring_inv None y w r \<and> \<not> doneflag (fst y) \<and> (\<forall>(t, k) \<in> set r. waits_on k \<noteq> None)"

lemma cond_is_done:
  assumes "waits_on k \<noteq> None" "\<not> doneflag (fst y)"
  shows "logged cond_body t k y = logged done_body t k y" "logged cond_body t k y = (y', ws, out) \<Longrightarrow> \<not> doneflag (fst y')"
    "logged cond_body t k y = (y', ws, out) \<Longrightarrow> out = Wait c k' \<Longrightarrow> k' = k"
  using assms
  by (cases y; cases k; auto simp: logged_def getitem_cond_def getitem_done_def putitem_cond_def putitem_done_def take_item_def store_item_def split: if_splits)+

lemma cond_step:
  assumes inv: "ring_inv (Some k) y w r" and d: "\<not> doneflag (fst y)" and k: "waits_on k \<noteq> None" "\<forall>(t, k) \<in> set r. waits_on k \<noteq> None"
    and b: "logged cond_body t k y = (y', ws, out)" and wk: "wake_steps ws (w, r) (w', r')"
  shows "cond_inv y' (sleep_on t out w') r'"
proof -
  have "ring_inv None y' (sleep_on t out w') r'" using done_step [OF inv _ wk] b cond_is_done(1) [OF k(1) d] by metis
  moreover have "waits_on k' \<noteq> None" if "(t', k') \<in> set r'" for t' k'
  proof -
    have "(t', k') \<in> mon_calls (w, r)" using wake_steps_calls [OF wk] that by (auto simp: mon_calls_def)
    then show ?thesis using inv k(2) by (auto simp: mon_calls_def ring_inv_def sleepers_ok_def)
  qed
  ultimately show ?thesis using cond_is_done(2) [OF k(1) d b] by (auto simp: cond_inv_def)
qed

interpretation condmon: monitor_global "logged cond_body" gets_and_puts cond_inv
proof (unfold_locales, goal_cases)
  case (1 s w r t k s' ws out w' r')
  then show ?case by (intro cond_step [OF ring_inv_enter]) (simp_all add: cond_inv_def gets_and_puts_def)
next
  case (2 s w r1 t k r2 s' ws out w' r')
  then show ?case by (intro cond_step [OF ring_inv_resume]) (auto simp: cond_inv_def)
next
  case (3 s w1 t c k w2 r)
  then show ?case using ring_inv_spurious [of s w1 t c k w2 r] by (auto simp: cond_inv_def ring_inv_def sleepers_ok_def)
qed

lemma ring_inv_initial: "ring_inv None (ring_initial z, [], []) [] []"
  using ring_initial_ok by (fastforce simp: ring_inv_def sleepers_ok_def enough_def ring_initial_def)

text \<open>What the invariant says of the items and of the sleepers.\<close>

definition orderly :: "('a rlog, rcond, 'a rcall) mon \<Rightarrow> bool" where
  "orderly m \<longleftrightarrow>
     (case mshared m of (s, ps, gs) \<Rightarrow>
        \<exists>xs. queue_holds s xs \<and> length xs \<le> BUFSIZE \<and> ps = gs @ xs \<and>
          (asleep Items (mwait m) \<longrightarrow> length xs \<le> woken Items (mready m)) \<and>
          (asleep Slots (mwait m) \<longrightarrow> BUFSIZE - length xs \<le> woken Slots (mready m)))"

lemma ring_inv_orderly: "ring_inv None (mshared m) (mwait m) (mready m) \<Longrightarrow> orderly m"
proof -
  assume "ring_inv None (mshared m) (mwait m) (mready m)"
  moreover obtain s ps gs where m: "mshared m = (s, ps, gs)" by (cases "mshared m")
  ultimately obtain n where n: "totalitems s = int n" "ring_ok n s" "ps = gs @ ritems n s" "enough n None (mwait m) (mready m)"
    by (auto simp: ring_inv_def)
  have "length (ritems n s) = n" by (simp add: ritems_def)
  then show ?thesis using n unfolding orderly_def m prod.case
    by (intro exI [of _ "ritems n s"]) (simp add: queue_holds_def enough_def ring_ok_def)
qed

section \<open>Semaphores\<close>

text \<open>
  Any number of threads that start calls and take their steps in any order: the multiset of the
  points of the calls in progress, and the items put and got.
\<close>

inductive sem_run :: "'a sring \<Rightarrow> 'a sring \<Rightarrow> 'a spoint multiset \<Rightarrow> 'a list \<Rightarrow> 'a list \<Rightarrow> bool" for s0 where
  sem_start: "sem_run s0 s0 {#} [] []"
| sem_get: "sem_run s0 s M ps gs \<Longrightarrow> sem_run s0 s (add_mset GetWait M) ps gs"
| sem_put: "sem_run s0 s M ps gs \<Longrightarrow> sem_run s0 s (add_mset (PutWait x) M) ps gs"
| sem_goes: "sem_run s0 s (add_mset p M) ps gs \<Longrightarrow> ring_sem_call p s = Some (Inl p', s') \<Longrightarrow>
    sem_run s0 s' (add_mset p' M) (ps @ (case p of PutStore x \<Rightarrow> [x] | _ \<Rightarrow> [])) (gs @ (case p' of GetPost x \<Rightarrow> [x] | _ \<Rightarrow> []))"
| sem_ends: "sem_run s0 s (add_mset p M) ps gs \<Longrightarrow> ring_sem_call p s = Some (Inr r, s') \<Longrightarrow> sem_run s0 s' M ps gs"

text \<open>The points between taking from a semaphore and giving to the other one.\<close>

fun holds_item :: "'a spoint \<Rightarrow> bool" where
  "holds_item GetTake = True" | "holds_item PutPost = True" | "holds_item _ = False"

fun holds_slot :: "'a spoint \<Rightarrow> bool" where
  "holds_slot (GetPost x) = True" | "holds_slot (PutStore x) = True" | "holds_slot _ = False"

definition sem_inv :: "'a sring \<Rightarrow> 'a spoint multiset \<Rightarrow> 'a list \<Rightarrow> 'a list \<Rightarrow> bool" where
  "sem_inv s M ps gs \<longleftrightarrow>
     (\<exists>n. ring_ok n (s_ring s) \<and> ps = gs @ ritems n (s_ring s) \<and>
        n = semitems s + size (filter_mset holds_item M) \<and> BUFSIZE = n + semslots s + size (filter_mset holds_slot M))"

lemma sem_goes_inv:
  assumes "sem_inv s (add_mset p M) ps gs" "ring_sem_call p s = Some (Inl p', s')"
  shows "sem_inv s' (add_mset p' M) (ps @ (case p of PutStore x \<Rightarrow> [x] | _ \<Rightarrow> [])) (gs @ (case p' of GetPost x \<Rightarrow> [x] | _ \<Rightarrow> []))"
proof (cases p)
  case GetTake
  obtain x q where t: "take_item (s_ring s) = (x, q)" by force
  obtain m where "ring_ok (Suc m) (s_ring s)" "ps = gs @ ritems (Suc m) (s_ring s)" "Suc m = semitems s + Suc (size (filter_mset holds_item M))"
    "BUFSIZE = Suc m + semslots s + size (filter_mset holds_slot M)"
    using assms(1) GetTake by (auto simp: sem_inv_def)
  then show ?thesis using take_item_ok [OF _ t] assms(2) GetTake t by (auto simp: sem_inv_def)
next
  case (PutStore x)
  obtain n where n: "ring_ok n (s_ring s)" "ps = gs @ ritems n (s_ring s)" "n = semitems s + size (filter_mset holds_item M)"
    "BUFSIZE = n + semslots s + Suc (size (filter_mset holds_slot M))"
    using assms(1) PutStore by (auto simp: sem_inv_def)
  then show ?thesis using store_item_ok [OF n(1), of x] assms(2) PutStore by (auto simp: sem_inv_def intro!: exI [of _ "Suc n"])
qed (use assms in \<open>auto simp: sem_inv_def split: if_splits\<close>)

lemma sem_ends_inv: "sem_inv s (add_mset p M) ps gs \<Longrightarrow> ring_sem_call p s = Some (Inr r, s') \<Longrightarrow> sem_inv s' M ps gs"
  by (cases p) (auto simp: sem_inv_def split: if_splits prod.splits)

lemma sem_run_inv:
  assumes "sem_run s0 s M ps gs" "sem_inv s0 {#} [] []"
  shows "sem_inv s M ps gs"
  using assms
proof (induction rule: sem_run.induct)
  case (sem_goes s p M ps gs p' s')
  then show ?case using sem_goes_inv by blast
next
  case (sem_ends s p M ps gs r s')
  then show ?case using sem_ends_inv by blast
qed (auto simp: sem_inv_def)

definition sring_initial :: "'a \<Rightarrow> nat \<times> nat \<Rightarrow> 'a sring" where
  "sring_initial z v = \<lparr>s_ring = ring_initial z, semitems = fst v, semslots = snd v\<rparr>"

section \<open>The barrier\<close>

text \<open>The state with the number of calls that arrived and of those that passed.\<close>

type_synonym blog = "barrier \<times> int \<times> nat"

definition barrier_logged :: "(blog, unit, bcall, rc) body" where
  "barrier_logged t k y =
     (case y of (b, arr, passed) \<Rightarrow> case barrier_body t k b of (b', ws, out) \<Rightarrow>
        ((b', if k = WaitBarrier \<and> b_limit b > 0 then arr + 1 else arr,
          if (k = WaitBarrier \<or> k = AtBarrier) \<and> out = Return None then passed + 1 else passed), ws, out))"

definition may_call :: "tid \<Rightarrow> bcall \<Rightarrow> blog \<Rightarrow> bool" where
  "may_call t k y \<longleftrightarrow> k \<noteq> AtBarrier"

definition barrier_inv :: "blog \<Rightarrow> (tid \<times> unit \<times> bcall) list \<Rightarrow> (tid \<times> bcall) list \<Rightarrow> bool" where
  "barrier_inv y w r \<longleftrightarrow>
     (case y of (b, arr, passed) \<Rightarrow>
        b_count b = arr \<and> arr \<ge> 0 \<and> (passed > 0 \<longrightarrow> b_limit b > 0 \<and> arr \<ge> b_limit b) \<and> (w \<noteq> [] \<longrightarrow> arr < b_limit b) \<and>
        (\<forall>(t, c, k) \<in> set w. k = AtBarrier) \<and> (\<forall>(t, k) \<in> set r. k = AtBarrier) \<and> (r \<noteq> [] \<longrightarrow> b_limit b > 0) \<and> (w \<noteq> [] \<longrightarrow> b_limit b > 0))"

lemma wake_barrier:
  assumes "wake_steps [Broadcast ()] (w, r) (w', r')"
  shows "w' = []" "set r' = (\<lambda>(t, d, k). (t, k)) ` set w \<union> set r"
proof -
  have "wake_step (Broadcast ()) (w, r) (w', r')" using assms by simp
  then show "w' = []" "set r' = (\<lambda>(t, d, k). (t, k)) ` set w \<union> set r" by (cases rule: wake_step.cases; simp)+
qed

lemma barrier_step:
  assumes inv: "barrier_inv y w r" and k: "k = AtBarrier \<longrightarrow> b_limit (fst y) > 0" and b: "barrier_logged t k y = (y', ws, out)"
    and wk: "wake_steps ws (w, r) (w', r')"
  shows "barrier_inv y' (sleep_on t out w') r'"
proof -
  obtain bb arr passed where y: "y = (bb, arr, passed)" by (cases y)
  show ?thesis
  proof (cases "\<exists>b'. barrier_body t k bb = (b', [], out)")
    case True
    then have "w' = w" "r' = r" using b wk by (auto simp: barrier_logged_def y)
    then show ?thesis using inv k b True y
      by (cases k) (auto simp: barrier_inv_def barrier_logged_def initbarrier_def waitbarrier_def at_barrier_def split: if_splits)
  next
    case False
    then have e: "ws = [Broadcast ()]" "out = Return None" "k \<noteq> AtBarrier \<longrightarrow> k = WaitBarrier" "b_limit bb > 0"
      using b k y by (cases k; auto simp: barrier_logged_def initbarrier_def waitbarrier_def at_barrier_def split: if_splits)+
    have w: "w' = []" "set r' = (\<lambda>(t, d, k). (t, k)) ` set w \<union> set r" using wake_barrier [OF wk [unfolded e(1)]] .
    have "\<forall>(t, k) \<in> set r'. k = AtBarrier" using inv unfolding w(2) by (auto simp: barrier_inv_def y)
    then show ?thesis using inv b e w(1) y False
      by (cases k) (auto simp: barrier_inv_def barrier_logged_def waitbarrier_def at_barrier_def split: if_splits)
  qed
qed

interpretation barmon: monitor_global barrier_logged may_call barrier_inv
proof (unfold_locales, goal_cases)
  case (1 s w r t k s' ws out w' r')
  then show ?case by (intro barrier_step) (auto simp: may_call_def)
next
  case (2 s w r1 t k r2 s' ws out w' r')
  have "barrier_inv s w (r1 @ r2)" "b_limit (fst s) > 0" using 2(1) by (auto simp: barrier_inv_def)
  then show ?case using barrier_step [OF _ _ 2(2,3)] by blast
next
  case (3 s w1 t c k w2 r)
  then show ?case by (auto simp: barrier_inv_def)
qed

section \<open>Properties\<close>

text \<open>
  C12. The buffer with condition variables, under every interleaving of any number of producers
  and consumers, with spurious wake-ups: the items got and then the items in the ring are the
  items put, in their order, and at most eight are in the ring; and no wake-up is lost: for
  every item there is while a consumer sleeps, a woken consumer is on its way, and for every
  free slot while a producer sleeps, a woken producer.
\<close>

theorem buffercond_fifo:
  assumes "mon_reach (logged cond_body) gets_and_puts sp (ring_initial z, [], []) m"
  shows "orderly m"
proof -
  have "cond_inv (ring_initial z, [], []) [] []" using ring_inv_initial by (simp add: cond_inv_def ring_initial_def)
  from condmon.reach_global [OF assms this] show ?thesis using ring_inv_orderly by (auto simp: cond_inv_def)
qed

text \<open>
  C13. The buffer whose transfer can be ended: the same holds while threads also set and read the
  flag, and once it is set nobody sleeps and no call waits: consumers get the items that are
  left and then \<^verbatim>\<open>ECANCELED\<close>, producers get \<^verbatim>\<open>ECANCELED\<close> at once.
\<close>

theorem bufferconddone_ends:
  assumes "mon_reach (logged done_body) (\<lambda>_ _ _. True) sp (ring_initial z, [], []) m"
  shows "orderly m \<and>
    (doneflag (fst (mshared m)) \<longrightarrow>
       mwait m = [] \<and>
       (\<exists>xs. queue_holds (fst (mshared m)) xs \<and>
          snd (snd (done_body t Get (fst (mshared m)))) = Return (case xs of [] \<Rightarrow> Failed ECANCELED | y # _ \<Rightarrow> Got y)) \<and>
       snd (snd (done_body t (Put x) (fst (mshared m)))) = Return (Failed ECANCELED))"
proof -
  from donemon.reach_global [OF assms ring_inv_initial] have inv: "ring_inv None (mshared m) (mwait m) (mready m)" .
  obtain s ps gs where m: "mshared m = (s, ps, gs)" by (cases "mshared m")
  have o: "orderly m" using ring_inv_orderly [OF inv] .
  then obtain xs where q: "queue_holds s xs" unfolding orderly_def m by auto
  have "mwait m = []" if "doneflag s" using inv m that by (auto simp: ring_inv_def)
  moreover have "snd (snd (done_body t Get s)) = Return (case xs of [] \<Rightarrow> Failed ECANCELED | y # _ \<Rightarrow> Got y)" if d: "doneflag s"
  proof (cases xs)
    case Nil
    then show ?thesis using q d by (simp add: queue_holds_def getitem_done_def)
  next
    case (Cons y ys)
    obtain x' s' where t: "take_item s = (x', s')" by force
    have "ring_ok (Suc (length ys)) s" "y # ys = ritems (Suc (length ys)) s" "totalitems s = 1 + int (length ys)" using q Cons by (auto simp: queue_holds_def)
    then show ?thesis using take_item_ok [OF _ t] t d Cons by (auto simp: getitem_done_def)
  qed
  moreover have "snd (snd (done_body t (Put x) s)) = Return (Failed ECANCELED)" if "doneflag s" using that by (simp add: putitem_done_def)
  ultimately show ?thesis using o q m by auto
qed

text \<open>
  C14. The buffer with semaphores, initialised with the values of \<^verbatim>\<open>bufferinit\<close>: under every
  interleaving of the steps of any number of calls the items leave in their order, no item is
  overwritten or taken twice, and when no call can go on, waiting consumers mean that the ring is
  empty and waiting producers that it is full.
\<close>

theorem buffersem_fifo:
  assumes "bufferinit None None = (None, Some v)" "sem_run (sring_initial z v) s M ps gs"
  shows "\<exists>n \<le> BUFSIZE. ring_ok n (s_ring s) \<and> ps = gs @ ritems n (s_ring s) \<and>
    ((\<forall>p \<in># M. ring_sem_call p s = None) \<longrightarrow> (GetWait \<in># M \<longrightarrow> n = 0) \<and> (\<forall>x. PutWait x \<in># M \<longrightarrow> n = BUFSIZE))"
proof -
  have "sem_inv (sring_initial z v) {#} [] []"
    using ring_initial_ok [of z] assms(1) by (auto simp: sem_inv_def sring_initial_def bufferinit_def)
  from sem_run_inv [OF assms(2) this] obtain n where n: "ring_ok n (s_ring s)" "ps = gs @ ritems n (s_ring s)"
    "n = semitems s + size (filter_mset holds_item M)" "BUFSIZE = n + semslots s + size (filter_mset holds_slot M)" by (auto simp: sem_inv_def)
  have "(GetWait \<in># M \<longrightarrow> n = 0) \<and> (\<forall>x. PutWait x \<in># M \<longrightarrow> n = BUFSIZE)" if b: "\<forall>p \<in># M. ring_sem_call p s = None"
  proof -
    have "\<not> holds_item p \<and> \<not> holds_slot p" if "p \<in># M" for p using b that by (cases p) (auto split: prod.splits)
    then have z: "filter_mset holds_item M = {#}" "filter_mset holds_slot M = {#}" by (auto simp: multiset_eq_iff simp flip: not_in_iff)
    have "n = semitems s" "BUFSIZE = n + semslots s" using n(3,4) unfolding z by simp_all
    moreover have "GetWait \<in># M \<Longrightarrow> semitems s = 0" "PutWait x \<in># M \<Longrightarrow> semslots s = 0" for x
      using bspec [OF b, of GetWait] bspec [OF b, of "PutWait x"] by (simp_all split: if_splits)
    ultimately show ?thesis by auto
  qed
  then show ?thesis using n by (intro exI [of _ n]) auto
qed

text \<open>
  C16. The barrier: under every interleaving, with spurious wake-ups, no call of \<^verbatim>\<open>waitbarrier\<close>
  passes before as many calls as the barrier was initialised for have arrived, and as soon as
  they have arrived nobody sleeps.
\<close>

theorem tbarrier_safe:
  assumes "mon_reach barrier_logged may_call sp (\<lparr>b_count = 0, b_limit = 0\<rparr>, 0, 0) m" "mshared m = (b, arr, passed)"
  shows "(passed > 0 \<longrightarrow> b_limit b > 0 \<and> arr \<ge> b_limit b) \<and> (arr \<ge> b_limit b \<longrightarrow> mwait m = [])"
  using barmon.reach_global [OF assms(1)] assms(2) by (auto simp: barrier_inv_def)

text \<open>A consumer sleeps, a producer wakes it, and it gets the item.\<close>

lemma cond_run:
  "\<exists>m. mon_reach (logged cond_body) gets_and_puts False (ring_initial (0 :: int), [], []) m \<and> snd (snd (mshared m)) = [5]"
proof -
  let ?R = "mon_reach (logged cond_body) gets_and_puts False (ring_initial (0 :: int), [], [])"
  let ?s = "ring_initial (0 :: int)"
  have 0: "?R \<lparr>mshared = (?s, [], []), mwait = [], mready = []\<rparr>" using reach_init by (metis mon_init_def)
  have b1: "logged cond_body 1 Get (?s, [], []) = ((?s, [], []), [], Wait Items Get)" by (simp add: logged_def getitem_cond_def ring_initial_def)
  have 1: "?R \<lparr>mshared = (?s, [], []), mwait = [(1, Items, Get)], mready = []\<rparr>"
    using reach_enter [OF 0 b1, of "[]" "[]"] by (simp add: gets_and_puts_def)
  have b2: "logged cond_body 2 (Put 5) (?s, [], []) = (((store_item 5 ?s)\<lparr>totalitems := 1\<rparr>, [5], []), [Signal Items], Return Stored)"
    by (simp add: logged_def putitem_cond_def ring_initial_def BUFSIZE_def)
  have 2: "?R \<lparr>mshared = ((store_item 5 ?s)\<lparr>totalitems := 1\<rparr>, [5], []), mwait = [], mready = [(1, Get)]\<rparr>"
    using reach_enter [OF 1 b2, of "[]" "[(1, Get)]"] by (simp add: gets_and_puts_def wake_signal_one)
  obtain s' where b: "logged cond_body 1 Get ((store_item 5 ?s)\<lparr>totalitems := 1\<rparr>, [5], []) = ((s', [5], [5]), [Signal Slots], Return (Got 5))"
    by (simp add: logged_def getitem_cond_def take_item_def store_item_def ring_initial_def BUFSIZE_def)
  have "?R \<lparr>mshared = (s', [5], [5]), mwait = [], mready = []\<rparr>" using reach_resume [OF 2 b, of "[]" "[]"] by (simp add: signal_none)
  then show ?thesis by (intro exI) auto
qed

theorem buffercond_fifo_witness:
  "\<exists>m. mon_reach (logged cond_body) gets_and_puts False (ring_initial (0 :: int), [], []) m \<and> snd (snd (mshared m)) = [5] \<and> orderly m"
proof -
  obtain m where m: "mon_reach (logged cond_body) gets_and_puts False (ring_initial (0 :: int), [], []) m" "snd (snd (mshared m)) = [5]"
    using cond_run by (elim exE conjE)
  from buffercond_fifo [OF m(1)] m show ?thesis by (intro exI [of _ m]) simp
qed

lemma done_run:
  "\<exists>m. mon_reach (logged done_body) (\<lambda>_ _ _. True) False (ring_initial (0 :: int), [], []) m \<and> doneflag (fst (mshared m))"
proof -
  let ?R = "mon_reach (logged done_body) (\<lambda>_ _ _. True) False (ring_initial (0 :: int), [], [])"
  have 0: "?R \<lparr>mshared = (ring_initial 0, [], []), mwait = [], mready = []\<rparr>" using reach_init by (metis mon_init_def)
  have b: "logged done_body 1 SetDone (ring_initial (0 :: int), [], []) =
      (((ring_initial 0)\<lparr>doneflag := True\<rparr>, [], []), [Broadcast Items, Broadcast Slots], Return IsDone)" by (simp add: logged_def setdone_def)
  have "wake_steps [Broadcast Items, Broadcast Slots] ([], []) ([], [] :: (tid \<times> int rcall) list)"
    using wake_more [OF broadcast [of Items "[]" "[]", simplified] wake_more [OF broadcast [of Slots "[]" "[]", simplified] wake_done]] .
  from reach_enter [OF 0 b _ _ this] have "?R \<lparr>mshared = ((ring_initial 0)\<lparr>doneflag := True\<rparr>, [], []), mwait = [], mready = []\<rparr>" by simp
  then show ?thesis by (intro exI) auto
qed

theorem bufferconddone_ends_witness:
  "\<exists>m. doneflag (fst (mshared m)) \<and> orderly m \<and> mwait m = [] \<and> snd (snd (done_body 1 (Put (5 :: int)) (fst (mshared m)))) = Return (Failed ECANCELED)"
proof -
  obtain m where m: "mon_reach (logged done_body) (\<lambda>_ _ _. True) False (ring_initial (0 :: int), [], []) m" "doneflag (fst (mshared m))"
    using done_run by (elim exE conjE)
  from bufferconddone_ends [OF m(1), of 1 5] m show ?thesis by (intro exI [of _ m]) simp
qed

lemma sem_example: "\<exists>s. sem_run (sring_initial (0 :: int) (0, BUFSIZE)) s {#} [5] []"
proof -
  let ?s0 = "sring_initial (0 :: int) (0, BUFSIZE)"
  have "sem_run ?s0 ?s0 (add_mset (PutWait 5) {#}) [] []" by (intro sem_put sem_start)
  then have "sem_run ?s0 (?s0\<lparr>semslots := BUFSIZE - 1\<rparr>) (add_mset (PutStore 5) {#}) [] []"
    using sem_goes [of ?s0 ?s0 "PutWait 5" "{#}" "[]" "[]" "PutStore 5" "?s0\<lparr>semslots := BUFSIZE - 1\<rparr>"]
    by (simp add: sring_initial_def BUFSIZE_def)
  from sem_goes [OF this, of PutPost] have "sem_run ?s0 ((?s0\<lparr>semslots := BUFSIZE - 1\<rparr>)\<lparr>s_ring := store_item 5 (s_ring ?s0)\<rparr>) (add_mset PutPost {#}) [5] []"
    by (simp add: sring_initial_def)
  from sem_ends [OF this] show ?thesis by auto
qed

theorem buffersem_fifo_witness:
  "\<exists>s. sem_run (sring_initial (0 :: int) (0, BUFSIZE)) s {#} [5] [] \<and> (\<exists>n. ring_ok n (s_ring s) \<and> [5] = ritems n (s_ring s))"
proof -
  obtain s where s: "sem_run (sring_initial (0 :: int) (0, BUFSIZE)) s {#} [5] []" using sem_example by blast
  from buffersem_fifo [OF _ s] s show ?thesis by (auto simp: bufferinit_def)
qed

theorem tbarrier_safe_witness:
  "\<exists>m. mon_reach barrier_logged may_call False (\<lparr>b_count = 0, b_limit = 0\<rparr>, 0, 0) m \<and> mshared m = (\<lparr>b_count = 1, b_limit = 1\<rparr>, 1, 1) \<and> mwait m = []"
proof -
  let ?R = "mon_reach barrier_logged may_call False (\<lparr>b_count = 0, b_limit = 0\<rparr>, 0, 0)"
  have 0: "?R \<lparr>mshared = (\<lparr>b_count = 0, b_limit = 0\<rparr>, 0, 0), mwait = [], mready = []\<rparr>" using reach_init by (metis mon_init_def)
  have b1: "barrier_logged 1 (InitBarrier 1) (\<lparr>b_count = 0, b_limit = 0\<rparr>, 0, 0) = ((\<lparr>b_count = 0, b_limit = 1\<rparr>, 0, 0), [], Return None)"
    by (simp add: barrier_logged_def initbarrier_def)
  have 1: "?R \<lparr>mshared = (\<lparr>b_count = 0, b_limit = 1\<rparr>, 0, 0), mwait = [], mready = []\<rparr>"
    using reach_enter [OF 0 b1, of "[]" "[]"] by (simp add: may_call_def)
  have b2: "barrier_logged 2 WaitBarrier (\<lparr>b_count = 0, b_limit = 1\<rparr>, 0, 0) = ((\<lparr>b_count = 1, b_limit = 1\<rparr>, 1, 1), [Broadcast ()], Return None)"
    by (simp add: barrier_logged_def waitbarrier_def at_barrier_def)
  have 2: "?R \<lparr>mshared = (\<lparr>b_count = 1, b_limit = 1\<rparr>, 1, 1), mwait = [], mready = []\<rparr>"
    using reach_enter [OF 1 b2, of "[]" "[]"] broadcast [of "()" "[]" "[]"] by (simp add: may_call_def)
  from tbarrier_safe [OF 2] 2 show ?thesis by fastforce
qed

section \<open>Initialisation\<close>

text \<open>
  Under the mutex the semaphores are initialised again until that succeeds, and then never again;
  with \<^verbatim>\<open>pthread_once\<close> a failure is final, and \<^verbatim>\<open>buffersem.c\<close> goes on with semaphores that were never
  initialised.
\<close>

lemma bufferinitmutex_once:
  assumes "seminit s \<longleftrightarrow> sems s = Some (0, BUFSIZE)" "inits s = (if seminit s then 1 else 0)" "bufferinitmutex lk ul r1 r2 s = (r, s')"
  shows "(seminit s' \<longleftrightarrow> sems s' = Some (0, BUFSIZE)) \<and> inits s' = (if seminit s' then 1 else 0) \<and> (seminit s \<longrightarrow> s' = s) \<and> (r = None \<longrightarrow> seminit s')"
  using assms by (auto simp: bufferinitmutex_def run_init_def bufferinit_def Let_def split: option.splits if_splits)

lemma bufferinitonce_final:
  assumes "once s" "on = None"
  shows "bufferinitonce on r1 r2 s = (initerror s, s)"
  using assms by (simp add: bufferinitonce_def Let_def)

lemma ensure_init_ignores_failure:
  assumes "r1 = Some e"
  shows "sems (ensure_init None r1 r2 sem_initial) = None \<and> ensure_init None r1' r2' (ensure_init None r1 r2 sem_initial) = ensure_init None r1 r2 sem_initial"
  using assms by (simp add: ensure_init_def bufferinitonce_def run_init_def bufferinit_def sem_initial_def Let_def)

end
