(* ===== verification/Semaph.thy ===== *)
theory Semaph
  imports Prelude
begin

text \<open>
  The semaphores of \<^verbatim>\<open>apue.3e/lib/semaph.c\<close>: each is a set of three System V semaphores, its value, a
  counter of the processes that have it open, and a lock. Every system call is a step, and any
  number of processes take their steps in any order.
\<close>

section \<open>System V semaphores\<close>

text \<open>
  \<^verbatim>\<open>semop\<close> on the values of a set: all operations at once, or \<open>None\<close> when the caller must wait.
\<close>

fun semop :: "(nat \<times> int) list \<Rightarrow> int list \<Rightarrow> int list option" where
  "semop [] v = Some v"
| "semop ((k, d) # ops) v =
     (if d = 0 then (if v ! k = 0 then semop ops v else None)
      else if v ! k + d < 0 then None
      else semop ops (v[k := v ! k + d]))"

text \<open>
  The set that belongs to the key, if it exists, with its identifier; and the identifier of the
  next set, as one that was removed is not used again.
\<close>

type_synonym semsys = "nat \<times> (nat \<times> int list) option"

section \<open>The functions\<close>

definition BIGCOUNT :: int where "BIGCOUNT = 10000"

definition op_lock :: "(nat \<times> int) list" where "op_lock = [(2, 0), (2, 1)]"
definition op_endcreate :: "(nat \<times> int) list" where "op_endcreate = [(1, -1), (2, -1)]"
definition op_open :: "(nat \<times> int) list" where "op_open = [(1, -1)]"
definition op_close :: "(nat \<times> int) list" where "op_close = [(2, 0), (2, 1), (1, 1)]"
definition op_unlock :: "(nat \<times> int) list" where "op_unlock = [(2, -1)]"

text \<open>
  The point of a process: in \<^verbatim>\<open>sem_create\<close> before \<^verbatim>\<open>semget\<close>, before the lock, asleep on the lock, before
  reading the counter, before each of the two assignments and before the end; in \<^verbatim>\<open>sem_open\<close>; with
  the semaphore open; in \<^verbatim>\<open>sem_op\<close> with an amount; in \<^verbatim>\<open>sem_close\<close> before the lock, before reading the
  counter, before removing and before unlocking; finished; or ended by \<^verbatim>\<open>err_sys\<close>.
\<close>

datatype sproc =
    CGet int | CLock int nat | CSleep int nat | CVal int nat | CSet0 int nat | CSet1 nat | CEnd nat
  | OGet | OOpen nat | OSleep nat
  | Has nat | Op nat int
  | XLock nat | XVal nat | XRm nat | XUnlock nat
  | Closed | Died

text \<open>
  A call of \<^verbatim>\<open>semop\<close> on a set: \<open>gone\<close> is where the process goes when the set does not exist
  (\<^verbatim>\<open>EINVAL\<close>, or \<^verbatim>\<open>EIDRM\<close> for a sleeper), \<open>busy\<close> where it sleeps (\<open>None\<close>: it is asleep already).
\<close>

definition on_set :: "nat \<Rightarrow> (nat \<times> int) list \<Rightarrow> sproc \<Rightarrow> sproc option \<Rightarrow> sproc \<Rightarrow> semsys \<Rightarrow> (sproc \<times> semsys) option" where
  "on_set sid ops done busy gone y =
     (case y of (n, S) \<Rightarrow>
        (case S of
           Some (i, v) \<Rightarrow>
             if i = sid
             then (case semop ops v of
                 Some v' \<Rightarrow> Some (done, (n, Some (i, v')))
               | None \<Rightarrow> map_option (\<lambda>p. (p, y)) busy)
             else Some (gone, y)
         | None \<Rightarrow> Some (gone, y)))"

text \<open>\<^verbatim>\<open>semctl\<close> with \<^verbatim>\<open>GETVAL\<close>, \<^verbatim>\<open>SETVAL\<close> and \<^verbatim>\<open>IPC_RMID\<close>.\<close>

definition semctl_getval :: "nat \<Rightarrow> nat \<Rightarrow> semsys \<Rightarrow> int option" where
  "semctl_getval sid k y = (case snd y of Some (i, v) \<Rightarrow> if i = sid then Some (v ! k) else None | None \<Rightarrow> None)"

definition semctl_setval :: "nat \<Rightarrow> nat \<Rightarrow> int \<Rightarrow> semsys \<Rightarrow> semsys option" where
  "semctl_setval sid k x y =
     (case y of (n, S) \<Rightarrow> case S of Some (i, v) \<Rightarrow> if i = sid then Some (n, Some (i, v[k := x])) else None | None \<Rightarrow> None)"

definition sem_rm :: "nat \<Rightarrow> semsys \<Rightarrow> semsys option" where
  "sem_rm sid y = (case y of (n, S) \<Rightarrow> case S of Some (i, v) \<Rightarrow> if i = sid then Some (n, None) else None | None \<Rightarrow> None)"

definition or_die :: "('a \<Rightarrow> sproc \<times> semsys) \<Rightarrow> semsys \<Rightarrow> 'a option \<Rightarrow> (sproc \<times> semsys) option" where
  "or_die f y r = Some (case r of Some x \<Rightarrow> f x | None \<Rightarrow> (Died, y))"

text \<open>
  The guards on the key with which \<^verbatim>\<open>sem_create\<close> and \<^verbatim>\<open>sem_open\<close> start: \<open>None\<close> is the return of -1.
\<close>

definition IPC_PRIVATE :: int where "IPC_PRIVATE = 0"

definition call_sem_create :: "int \<Rightarrow> int \<Rightarrow> sproc option" where
  "call_sem_create key initval = (if key = IPC_PRIVATE then None else if key = -1 then None else Some (CGet initval))"

definition call_sem_open :: "int \<Rightarrow> sproc option" where
  "call_sem_open key = (if key = IPC_PRIVATE then None else if key = -1 then None else Some OGet)"

text \<open>\<open>None\<close> means that the process sleeps.\<close>

fun sem_create :: "sproc \<Rightarrow> semsys \<Rightarrow> (sproc \<times> semsys) option" where
  "sem_create (CGet iv) (n, S) =
     (case S of
        Some (i, v) \<Rightarrow> Some (CLock iv i, (n, S))
      | None \<Rightarrow> Some (CLock iv n, (n + 1, Some (n, [0, 0, 0]))))"
| "sem_create (CLock iv i) y = on_set i op_lock (CVal iv i) (Some (CSleep iv i)) (CGet iv) y"
| "sem_create (CSleep iv i) y = on_set i op_lock (CVal iv i) None Died y"
| "sem_create (CVal iv i) y = or_die (\<lambda>semval. (if semval = 0 then CSet0 iv i else CEnd i, y)) y (semctl_getval i 1 y)"
| "sem_create (CSet0 iv i) y = or_die (\<lambda>y. (CSet1 i, y)) y (semctl_setval i 0 iv y)"
| "sem_create (CSet1 i) y = or_die (\<lambda>y. (CEnd i, y)) y (semctl_setval i 1 BIGCOUNT y)"
| "sem_create (CEnd i) y = on_set i op_endcreate (Has i) None Died y"
| "sem_create p y = None"

fun sem_open :: "sproc \<Rightarrow> semsys \<Rightarrow> (sproc \<times> semsys) option" where
  "sem_open OGet (n, S) = (case S of Some (i, v) \<Rightarrow> Some (OOpen i, (n, S)) | None \<Rightarrow> Some (Closed, (n, S)))"
| "sem_open (OOpen i) y = on_set i op_open (Has i) (Some (OSleep i)) Died y"
| "sem_open (OSleep i) y = on_set i op_open (Has i) None Died y"
| "sem_open p y = None"

text \<open>\<^verbatim>\<open>sem_op\<close> with an amount that is not 0; \<^verbatim>\<open>sem_wait\<close> and \<^verbatim>\<open>sem_signal\<close> are its two uses.\<close>

fun sem_op :: "sproc \<Rightarrow> semsys \<Rightarrow> (sproc \<times> semsys) option" where
  "sem_op (Op i d) y = (if d = 0 then Some (Died, y) else on_set i [(0, d)] (Has i) None Died y)"
| "sem_op p y = None"

definition sem_wait :: "nat \<Rightarrow> sproc" where "sem_wait i = Op i (-1)"
definition sem_signal :: "nat \<Rightarrow> sproc" where "sem_signal i = Op i 1"

fun sem_close :: "sproc \<Rightarrow> semsys \<Rightarrow> (sproc \<times> semsys) option" where
  "sem_close (XLock i) y = on_set i op_close (XVal i) None Died y"
| "sem_close (XVal i) y =
     or_die (\<lambda>semval. (if semval > BIGCOUNT then Died else if semval = BIGCOUNT then XRm i else XUnlock i, y)) y (semctl_getval i 1 y)"
| "sem_close (XRm i) y = or_die (\<lambda>y. (Closed, y)) y (sem_rm i y)"
| "sem_close (XUnlock i) y = on_set i op_unlock Closed None Died y"
| "sem_close p y = None"

text \<open>A process that ends gives back what \<^verbatim>\<open>SEM_UNDO\<close> noted: its part of the counter and the lock.\<close>

fun has_open :: "sproc \<Rightarrow> nat option" where
  "has_open (Has i) = Some i" | "has_open (Op i d) = Some i" | "has_open (XLock i) = Some i" | "has_open p = None"

fun has_lock :: "sproc \<Rightarrow> nat option" where
  "has_lock (CVal iv i) = Some i" | "has_lock (CSet0 iv i) = Some i" | "has_lock (CSet1 i) = Some i" | "has_lock (CEnd i) = Some i"
| "has_lock (XVal i) = Some i" | "has_lock (XRm i) = Some i" | "has_lock (XUnlock i) = Some i" | "has_lock p = None"

text \<open>\<open>x\<close> is the value of the first semaphore after its own adjustment.\<close>

definition undo :: "sproc \<Rightarrow> int \<Rightarrow> semsys \<Rightarrow> semsys" where
  "undo p x y =
     (case y of (n, S) \<Rightarrow>
        (n, map_option (\<lambda>(i, v).
           (i, [x, v ! 1 + (if has_open p = Some i then 1 else 0), v ! 2 - (if has_lock p = Some i then 1 else 0)])) S))"

end
