(* ===== verification/Semaph_Props.thy ===== *)
theory Semaph_Props
  imports Semaph
begin

text \<open>
  Properties of the semaphores of \<^verbatim>\<open>semaph.c\<close> under all interleavings of system calls, with processes
  that end at any point: a set is removed only when nobody has it open, as long as it is opened
  with \<^verbatim>\<open>sem_create\<close>.
\<close>

section \<open>Processes\<close>

text \<open>One step of a process in one of the functions.\<close>

definition semaph_step :: "sproc \<Rightarrow> semsys \<Rightarrow> (sproc \<times> semsys) option" where
  "semaph_step p y =
     (case sem_create p y of
        Some r \<Rightarrow> Some r
      | None \<Rightarrow> (case sem_open p y of
            Some r \<Rightarrow> Some r
          | None \<Rightarrow> (case sem_op p y of Some r \<Rightarrow> Some r | None \<Rightarrow> sem_close p y)))"

text \<open>
  Processes come with a call of \<^verbatim>\<open>sem_create\<close>, or of \<^verbatim>\<open>sem_open\<close> where \<open>opens\<close> allows it; those that have
  the semaphore open operate on it or close it; every process may end at any point, which
  is also what a failing \<^verbatim>\<open>semget\<close> amounts to. There are fewer than \<^verbatim>\<open>BIGCOUNT\<close> of them at a time.
\<close>

inductive semaph_run :: "bool \<Rightarrow> semsys \<Rightarrow> sproc multiset \<Rightarrow> bool" for opens where
  run_boot: "semaph_run opens (0, None) {#}"
| run_create: "semaph_run opens y M \<Longrightarrow> call_sem_create key iv = Some p \<Longrightarrow> int (size M) + 1 < BIGCOUNT \<Longrightarrow> semaph_run opens y (add_mset p M)"
| run_open: "semaph_run opens y M \<Longrightarrow> opens \<Longrightarrow> call_sem_open key = Some p \<Longrightarrow> int (size M) + 1 < BIGCOUNT \<Longrightarrow> semaph_run opens y (add_mset p M)"
| run_op: "semaph_run opens y (add_mset (Has i) M) \<Longrightarrow> d \<noteq> 0 \<Longrightarrow> semaph_run opens y (add_mset (Op i d) M)"
| run_close: "semaph_run opens y (add_mset (Has i) M) \<Longrightarrow> semaph_run opens y (add_mset (XLock i) M)"
| run_step: "semaph_run opens y (add_mset p M) \<Longrightarrow> semaph_step p y = Some (p', y') \<Longrightarrow> semaph_run opens y' (add_mset p' M)"
| run_exit: "semaph_run opens y (add_mset p M) \<Longrightarrow> semaph_run opens (undo p x y) M"

section \<open>The invariant\<close>

fun mentions :: "sproc \<Rightarrow> nat set" where
  "mentions (CLock iv i) = {i}" | "mentions (CSleep iv i) = {i}" | "mentions (OOpen i) = {i}" | "mentions (OSleep i) = {i}"
| "mentions p = set_option (has_open p) \<union> set_option (has_lock p)"

text \<open>The points at which the counter has been initialised, has not been, or has no other holder.\<close>

fun after_init :: "sproc \<Rightarrow> bool" where
  "after_init (CEnd i) = True" | "after_init (XVal i) = True" | "after_init (XRm i) = True" | "after_init (XUnlock i) = True"
| "after_init p = False"

fun before_init :: "sproc \<Rightarrow> bool" where
  "before_init (CSet0 iv i) = True" | "before_init (CSet1 i) = True" | "before_init p = False"

fun removing :: "sproc \<Rightarrow> bool" where
  "removing (XRm i) = True" | "removing p = False"

text \<open>The points in \<^verbatim>\<open>sem_open\<close>, and a call of \<^verbatim>\<open>sem_op\<close> with 0.\<close>

fun stray :: "sproc \<Rightarrow> bool" where
  "stray OGet = True" | "stray (Op i d) = (d = 0)" | "stray (OOpen i) = True" | "stray (OSleep i) = True" | "stray p = False"

definition holders :: "nat \<Rightarrow> sproc multiset \<Rightarrow> nat" where
  "holders i M = size (filter_mset (\<lambda>p. has_open p = Some i) M)"

definition lockers :: "nat \<Rightarrow> sproc multiset \<Rightarrow> nat" where
  "lockers i M = size (filter_mset (\<lambda>p. has_lock p = Some i) M)"

definition counters_ok :: "nat \<Rightarrow> int list \<Rightarrow> sproc multiset \<Rightarrow> bool" where
  "counters_ok i v M \<longleftrightarrow>
     (\<exists>a b c. v = [a, b, c] \<and> c = int (lockers i M) \<and> c \<le> 1 \<and>
        (b = BIGCOUNT - int (holders i M) \<or> b = 0 \<and> holders i M = 0 \<and> (\<forall>p \<in># M. \<not> after_init p)) \<and>
        (\<forall>p \<in># M. removing p \<longrightarrow> holders i M = 0) \<and> (\<forall>p \<in># M. before_init p \<longrightarrow> b = 0))"

definition semaph_inv :: "semsys \<Rightarrow> sproc multiset \<Rightarrow> bool" where
  "semaph_inv y M \<longleftrightarrow>
     (case y of (n, S) \<Rightarrow>
        int (size M) < BIGCOUNT \<and> (\<forall>p \<in># M. \<not> stray p \<and> (\<forall>i \<in> mentions p. i < n)) \<and>
        (\<forall>p \<in># M. \<forall>j. has_open p = Some j \<or> has_lock p = Some j \<longrightarrow> (\<exists>v. S = Some (j, v))) \<and>
        (\<forall>i v. S = Some (i, v) \<longrightarrow> i < n \<and> counters_ok i v M))"

lemma holders_add [simp]: "holders i (add_mset p M) = (if has_open p = Some i then 1 else 0) + holders i M"
  by (simp add: holders_def)

lemma lockers_add [simp]: "lockers i (add_mset p M) = (if has_lock p = Some i then 1 else 0) + lockers i M"
  by (simp add: lockers_def)

lemma holders_less: "holders i M \<le> size M"
  by (simp add: holders_def size_filter_mset_lesseq)

lemmas step_simps = semaph_step_def on_set_def or_die_def semctl_getval_def semctl_setval_def sem_rm_def op_lock_def op_endcreate_def
  op_close_def op_unlock_def

lemma semaph_invD:
  assumes "semaph_inv (n, S) (add_mset p M)"
  shows "int (size M) + 1 < BIGCOUNT" "\<not> stray p" "\<forall>q \<in># M. \<not> stray q \<and> (\<forall>i \<in> mentions q. i < n)" "\<forall>i \<in> mentions p. i < n"
    "has_open p = Some j \<or> has_lock p = Some j \<Longrightarrow> \<exists>a b c. S = Some (j, [a, b, c]) \<and> counters_ok j [a, b, c] (add_mset p M)"
    "S = Some (i, v) \<Longrightarrow> i < n \<and> counters_ok i v (add_mset p M)"
    "q \<in># M \<Longrightarrow> has_open q = Some j \<or> has_lock q = Some j \<Longrightarrow> \<exists>v. S = Some (j, v)"
proof -
  note d = assms [unfolded semaph_inv_def prod.case]
  have all: "q \<in># add_mset p M \<Longrightarrow> has_open q = Some j \<or> has_lock q = Some j \<Longrightarrow> \<exists>v. S = Some (j, v)" for q j using d by simp blast
  show "int (size M) + 1 < BIGCOUNT" "\<not> stray p" "\<forall>q \<in># M. \<not> stray q \<and> (\<forall>i \<in> mentions q. i < n)" "\<forall>i \<in> mentions p. i < n"
    using d by simp_all
  show "S = Some (i, v) \<Longrightarrow> i < n \<and> counters_ok i v (add_mset p M)" using d by blast
  show "q \<in># M \<Longrightarrow> has_open q = Some j \<or> has_lock q = Some j \<Longrightarrow> \<exists>v. S = Some (j, v)" using all [of q j] by auto
  assume "has_open p = Some j \<or> has_lock p = Some j"
  then obtain v where v: "S = Some (j, v)" using all [of p j] by auto
  then have "counters_ok j v (add_mset p M)" using d by blast
  moreover from this obtain a b c where "v = [a, b, c]" unfolding counters_ok_def by blast
  ultimately show "\<exists>a b c. S = Some (j, [a, b, c]) \<and> counters_ok j [a, b, c] (add_mset p M)" using v by blast
qed

lemma semaph_invI:
  assumes "int (size M) + 1 < BIGCOUNT" "\<not> stray p" "\<forall>q \<in># M. \<not> stray q \<and> (\<forall>i \<in> mentions q. i < n)" "\<forall>i \<in> mentions p. i < n"
    "\<And>j. has_open p = Some j \<or> has_lock p = Some j \<Longrightarrow> \<exists>v. S = Some (j, v)"
    "\<And>q j. q \<in># M \<Longrightarrow> has_open q = Some j \<or> has_lock q = Some j \<Longrightarrow> \<exists>v. S = Some (j, v)"
    "\<And>i v. S = Some (i, v) \<Longrightarrow> i < n \<and> counters_ok i v (add_mset p M)"
  shows "semaph_inv (n, S) (add_mset p M)"
  using assms unfolding semaph_inv_def by auto

lemma lock_points: "after_init p \<Longrightarrow> has_lock p \<noteq> None" "before_init p \<Longrightarrow> has_lock p \<noteq> None" "removing p \<Longrightarrow> has_lock p \<noteq> None"
  by (cases p; simp)+

lemma no_lockers: "lockers i M = 0 \<longleftrightarrow> (\<forall>p \<in># M. has_lock p \<noteq> Some i)"
  by (auto simp: lockers_def)

lemma no_holders: "holders i M = 0 \<longleftrightarrow> (\<forall>p \<in># M. has_open p \<noteq> Some i)"
  by (auto simp: holders_def)

text \<open>A step that changes neither the set nor what the process has.\<close>

lemma same_set:
  assumes inv: "semaph_inv (n, S) (add_mset p M)" and h: "has_open p' = has_open p" "has_lock p' = has_lock p" and o: "\<not> stray p'"
    and m: "\<forall>i \<in> mentions p'. i < n"
    and q: "\<And>i b. S = Some (i, b) \<Longrightarrow> after_init p' \<Longrightarrow> after_init p \<or> b ! 1 \<noteq> 0" "\<And>i b. S = Some (i, b) \<Longrightarrow> before_init p' \<Longrightarrow> b ! 1 = 0"
      "\<And>i b. S = Some (i, b) \<Longrightarrow> removing p' \<Longrightarrow> b ! 1 = BIGCOUNT"
  shows "semaph_inv (n, S) (add_mset p' M)"
proof (rule semaph_invI)
  note D = semaph_invD [OF inv]
  show "int (size M) + 1 < BIGCOUNT" "\<not> stray p'" "\<forall>q \<in># M. \<not> stray q \<and> (\<forall>i \<in> mentions q. i < n)" "\<forall>i \<in> mentions p'. i < n"
    using D(1,3) o m by auto
  show "\<exists>v. S = Some (j, v)" if "has_open p' = Some j \<or> has_lock p' = Some j" for j using D(5) [of j] that h by auto
  show "\<exists>v. S = Some (j, v)" if "q \<in># M" "has_open q = Some j \<or> has_lock q = Some j" for q j using D(7) that by blast
  show "i < n \<and> counters_ok i v (add_mset p' M)" if s: "S = Some (i, v)" for i v
  proof
    show "i < n" using D(6) [OF s] by simp
    obtain a b c where v: "v = [a, b, c]" "c = int (lockers i (add_mset p M))" "c \<le> 1"
      "b = BIGCOUNT - int (holders i (add_mset p M)) \<or> b = 0 \<and> holders i (add_mset p M) = 0 \<and> (\<forall>p \<in># add_mset p M. \<not> after_init p)"
      "\<forall>q \<in># add_mset p M. removing q \<longrightarrow> holders i (add_mset p M) = 0" "\<forall>p \<in># add_mset p M. before_init p \<longrightarrow> b = 0"
      using D(6) [OF s] unfolding counters_ok_def by blast
    let ?h = "holders i (add_mset p M)"
    have hl: "holders i (add_mset p' M) = ?h" "lockers i (add_mset p' M) = lockers i (add_mset p M)" using h by simp_all
    have b: "after_init p' \<longrightarrow> b = BIGCOUNT - int ?h" "removing p' \<longrightarrow> ?h = 0" "before_init p' \<longrightarrow> b = 0"
      using q [OF s] v(1,4) by (auto simp: BIGCOUNT_def)
    have "b = BIGCOUNT - int ?h \<or> b = 0 \<and> ?h = 0 \<and> (\<forall>q \<in># add_mset p' M. \<not> after_init q)" using v(4) b(1) by auto
    moreover have "\<forall>q \<in># add_mset p' M. removing q \<longrightarrow> ?h = 0" "\<forall>q \<in># add_mset p' M. before_init q \<longrightarrow> b = 0" using v(5,6) b(2,3) by auto
    ultimately show "counters_ok i v (add_mset p' M)" unfolding counters_ok_def hl using v(1-3) by blast
  qed
qed

lemma counters_okD:
  assumes "counters_ok i [a, b, c] M"
  shows "c = int (lockers i M)" "c \<le> 1" "b = BIGCOUNT - int (holders i M) \<or> b = 0 \<and> holders i M = 0 \<and> (\<forall>p \<in># M. \<not> after_init p)"
    "q \<in># M \<Longrightarrow> removing q \<Longrightarrow> holders i M = 0" "q \<in># M \<Longrightarrow> before_init q \<Longrightarrow> b = 0"
  using assms unfolding counters_ok_def by auto

lemma quiet:
  assumes inv: "semaph_inv (n, Some (i, v)) (add_mset p M)" and l: "lockers i M = 0"
  shows "\<forall>q \<in># M. \<not> after_init q \<and> \<not> before_init q \<and> \<not> removing q"
proof
  fix q assume q: "q \<in># M"
  have "has_lock q = None"
  proof (cases "has_lock q")
    case (Some j)
    then have "j = i" using semaph_invD(7) [OF inv q, of j] by auto
    then show ?thesis using l q Some by (auto simp: no_lockers)
  qed
  then show "\<not> after_init q \<and> \<not> before_init q \<and> \<not> removing q" using lock_points [of q] by auto
qed

text \<open>A step that changes the set.\<close>

lemma change_set:
  assumes inv: "semaph_inv (n, Some (i, v)) (add_mset p M)" and o: "\<not> stray p'" "\<forall>j \<in> mentions p'. j = i"
    and b': "b' = BIGCOUNT - int (holders i (add_mset p' M)) \<or> b' = 0 \<and> holders i (add_mset p' M) = 0 \<and> (\<forall>q \<in># add_mset p' M. \<not> after_init q)"
    and c': "c' = int (lockers i (add_mset p' M))" "c' \<le> 1"
    and q: "\<forall>q \<in># add_mset p' M. (removing q \<longrightarrow> holders i (add_mset p' M) = 0) \<and> (before_init q \<longrightarrow> b' = 0)"
  shows "semaph_inv (n, Some (i, [a', b', c'])) (add_mset p' M)"
proof (rule semaph_invI)
  note D = semaph_invD [OF inv]
  have i: "i < n" using D(6) by simp
  have m: "set_option (has_open p') \<union> set_option (has_lock p') \<subseteq> mentions p'" by (cases p') auto
  show "int (size M) + 1 < BIGCOUNT" "\<not> stray p'" "\<forall>q \<in># M. \<not> stray q \<and> (\<forall>i \<in> mentions q. i < n)" "\<forall>i \<in> mentions p'. i < n"
    using D(1,3) o i by auto
  show "\<exists>v. Some (i, [a', b', c']) = Some (j, v)" if "has_open p' = Some j \<or> has_lock p' = Some j" for j using m o(2) that by auto
  show "\<exists>v. Some (i, [a', b', c']) = Some (j, v)" if "q \<in># M" "has_open q = Some j \<or> has_lock q = Some j" for q j using D(7) [OF that] by auto
  show "k < n \<and> counters_ok k v (add_mset p' M)" if "Some (i, [a', b', c']) = Some (k, v)" for k v
    using that i b' c' q unfolding counters_ok_def by auto
qed

lemma drop_process:
  assumes inv: "semaph_inv (n, S) (add_mset p M)" and p: "has_open p = None" "has_lock p = None"
  shows "semaph_inv (n, S) M"
proof -
  note D = semaph_invD [OF inv]
  have "\<not> after_init p" "\<not> before_init p" "\<not> removing p" using p(2) lock_points by blast+
  then have "counters_ok i v M" if "S = Some (i, v)" for i v
    using D(6) [OF that] p unfolding counters_ok_def by auto
  moreover have "i < n" if "S = Some (i, v)" for i v using D(6) [OF that] by simp
  ultimately show ?thesis using D(1,3,7) unfolding semaph_inv_def by auto
qed

lemma drop_set:
  assumes inv: "semaph_inv (n, Some (i, v)) (add_mset p M)" and h: "holders i M = 0" "lockers i M = 0"
    and p: "has_open p' = None" "has_lock p' = None" "\<not> stray p'" "mentions p' = {}"
  shows "semaph_inv (n, None) (add_mset p' M)"
proof (rule semaph_invI)
  note D = semaph_invD [OF inv]
  show "int (size M) + 1 < BIGCOUNT" "\<not> stray p'" "\<forall>q \<in># M. \<not> stray q \<and> (\<forall>i \<in> mentions q. i < n)" "\<forall>i \<in> mentions p'. i < n"
    using D(1,3) p by auto
  show "\<exists>v. None = Some (j, v)" if "has_open p' = Some j \<or> has_lock p' = Some j" for j using that p by auto
  show "\<exists>v. None = Some (j, v)" if "q \<in># M" "has_open q = Some j \<or> has_lock q = Some j" for q j
    using D(7) [OF that] that h by (auto simp: no_holders no_lockers)
qed simp

text \<open>The steps of the three functions keep the invariant.\<close>

lemma get_inv:
  assumes inv: "semaph_inv (n, None) (add_mset (CGet iv) M)"
  shows "semaph_inv (n + 1, Some (n, [0, 0, 0])) (add_mset (CLock iv n) M)"
proof (rule semaph_invI)
  note D = semaph_invD [OF inv]
  have q: "has_open q = None \<and> has_lock q = None" if "q \<in># M" for q using D(7) [OF that] by (meson not_Some_eq option.distinct(1))
  then have "holders n M = 0" "lockers n M = 0" "\<forall>q \<in># M. \<not> after_init q \<and> \<not> before_init q \<and> \<not> removing q"
    using lock_points by (fastforce simp: no_holders no_lockers)+
  then have "counters_ok n [0, 0, 0] (add_mset (CLock iv n) M)" unfolding counters_ok_def by auto
  then show "i < n + 1 \<and> counters_ok i v (add_mset (CLock iv n) M)" if "Some (n, [0, 0, 0]) = Some (i, v)" for i v using that by auto
  show "int (size M) + 1 < BIGCOUNT" "\<not> stray (CLock iv n)" "\<forall>q \<in># M. \<not> stray q \<and> (\<forall>i \<in> mentions q. i < n + 1)"
    "\<forall>i \<in> mentions (CLock iv n). i < n + 1" using D(1,3) less_SucI by (simp, simp, fastforce, simp)
  show "\<exists>v. Some (n, [0, 0, 0]) = Some (j, v)" if "q \<in># M" "has_open q = Some j \<or> has_lock q = Some j" for q j using q that by auto
qed auto

lemma lock_inv:
  assumes inv: "semaph_inv (n, Some (i, [a, b, 0])) (add_mset p M)" and p: "p = CLock iv i \<or> p = CSleep iv i"
  shows "semaph_inv (n, Some (i, [a, b, 1])) (add_mset (CVal iv i) M)"
proof -
  have ok: "counters_ok i [a, b, 0] (add_mset p M)" using semaph_invD(6) [OF inv] by simp
  have n: "has_open p = None" "has_lock p = None" using p by auto
  have l: "lockers i M = 0" using counters_okD(1) [OF ok] n by simp
  note q = quiet [OF inv l]
  show ?thesis
    by (rule change_set [OF inv]) (use counters_okD(3) [OF ok] n l q in auto)
qed

lemma lock_alone:
  assumes inv: "semaph_inv (n, S) (add_mset p M)" and p: "has_lock p = Some i"
  obtains a b where "S = Some (i, [a, b, 1])" "lockers i M = 0" "has_open p = None" "\<forall>q \<in># M. \<not> after_init q \<and> \<not> before_init q \<and> \<not> removing q"
    "counters_ok i [a, b, 1] (add_mset p M)"
proof -
  obtain a b c where s: "S = Some (i, [a, b, c])" and ok: "counters_ok i [a, b, c] (add_mset p M)" using semaph_invD(5) [OF inv, of i] p by blast
  have l: "lockers i M = 0" "c = 1" using counters_okD(1,2) [OF ok] p by auto
  have "has_open p = None" using p by (cases p) auto
  then show ?thesis using that [OF s [unfolded l]] l(1) quiet [OF inv [unfolded s] l(1)] ok l by blast
qed

lemma val_inv:
  assumes inv: "semaph_inv (n, S) (add_mset (CVal iv i) M)" and st: "semaph_step (CVal iv i) (n, S) = Some (p', y')"
  shows "semaph_inv y' (add_mset p' M) \<and> p' \<noteq> Died"
proof -
  obtain a b where s: "S = Some (i, [a, b, 1])" by (rule lock_alone [OF inv, of i]) auto
  then have y: "y' = (n, S)" "p' = (if b = 0 then CSet0 iv i else CEnd i)" using st by (auto simp: step_simps)
  have "\<forall>j \<in> mentions p'. j < n" using semaph_invD(4) [OF inv] y by auto
  then have "semaph_inv (n, S) (add_mset p' M)"
    by (intro same_set [OF inv]) (use y(2) s in \<open>auto split: if_splits\<close>)
  then show ?thesis using y by auto
qed

lemma set0_inv:
  assumes inv: "semaph_inv (n, S) (add_mset (CSet0 iv i) M)" and st: "semaph_step (CSet0 iv i) (n, S) = Some (p', y')"
  shows "semaph_inv y' (add_mset p' M) \<and> p' \<noteq> Died"
proof -
  obtain a b where s: "S = Some (i, [a, b, 1])" "lockers i M = 0" and q: "\<forall>q \<in># M. \<not> after_init q \<and> \<not> before_init q \<and> \<not> removing q"
    and ok: "counters_ok i [a, b, 1] (add_mset (CSet0 iv i) M)" by (rule lock_alone [OF inv, of i]) auto
  have y: "y' = (n, Some (i, [iv, b, 1]))" "p' = CSet1 i" using st s by (auto simp: step_simps)
  have b: "b = 0" using counters_okD(5) [OF ok, of "CSet0 iv i"] by simp
  have "semaph_inv (n, Some (i, [iv, b, 1])) (add_mset p' M)"
    by (rule change_set [OF inv [unfolded s]]) (use counters_okD(3) [OF ok] s(2) q b y(2) in auto)
  then show ?thesis using y by simp
qed

lemma set1_inv:
  assumes inv: "semaph_inv (n, S) (add_mset (CSet1 i) M)" and st: "semaph_step (CSet1 i) (n, S) = Some (p', y')"
  shows "semaph_inv y' (add_mset p' M) \<and> p' \<noteq> Died"
proof -
  obtain a b where s: "S = Some (i, [a, b, 1])" "lockers i M = 0" and q: "\<forall>q \<in># M. \<not> after_init q \<and> \<not> before_init q \<and> \<not> removing q"
    and ok: "counters_ok i [a, b, 1] (add_mset (CSet1 i) M)" by (rule lock_alone [OF inv, of i]) auto
  have y: "y' = (n, Some (i, [a, BIGCOUNT, 1]))" "p' = CEnd i" using st s by (auto simp: step_simps)
  have b: "b = 0" using counters_okD(5) [OF ok, of "CSet1 i"] by simp
  have "int (holders i M) < BIGCOUNT" using semaph_invD(1) [OF inv] holders_less [of i M] by linarith
  then have h: "holders i M = 0" using counters_okD(3) [OF ok] b by auto
  have "semaph_inv (n, Some (i, [a, BIGCOUNT, 1])) (add_mset p' M)"
    by (rule change_set [OF inv [unfolded s]]) (use s(2) q h y(2) in auto)
  then show ?thesis using y by simp
qed

lemma end_inv:
  assumes inv: "semaph_inv (n, S) (add_mset (CEnd i) M)" and st: "semaph_step (CEnd i) (n, S) = Some (p', y')"
  shows "semaph_inv y' (add_mset p' M) \<and> p' \<noteq> Died"
proof -
  obtain a b where s: "S = Some (i, [a, b, 1])" "lockers i M = 0" and q: "\<forall>q \<in># M. \<not> after_init q \<and> \<not> before_init q \<and> \<not> removing q"
    and ok: "counters_ok i [a, b, 1] (add_mset (CEnd i) M)" by (rule lock_alone [OF inv, of i]) auto
  have b: "b = BIGCOUNT - int (holders i M)" using counters_okD(3) [OF ok] by auto
  have "int (holders i M) < BIGCOUNT" using semaph_invD(1) [OF inv] holders_less [of i M] by linarith
  then have y: "y' = (n, Some (i, [a, b - 1, 0]))" "p' = Has i" using st s b by (auto simp: step_simps split: if_splits)
  have "semaph_inv (n, Some (i, [a, b - 1, 0])) (add_mset p' M)"
    by (rule change_set [OF inv [unfolded s]]) (use s(2) q b y(2) in auto)
  then show ?thesis using y by simp
qed

lemma open_counted:
  assumes inv: "semaph_inv (n, S) (add_mset p M)" and p: "has_open p = Some i"
  obtains a b c where "S = Some (i, [a, b, c])" "counters_ok i [a, b, c] (add_mset p M)" "b = BIGCOUNT - (1 + int (holders i M))" "0 < b"
    "has_lock p = None" "c = int (lockers i M)" "c \<le> 1" "\<forall>q \<in># M. \<not> removing q \<and> \<not> before_init q"
proof -
  obtain a b c where s: "S = Some (i, [a, b, c])" and ok: "counters_ok i [a, b, c] (add_mset p M)" using semaph_invD(5) [OF inv, of i] p by blast
  have b: "b = BIGCOUNT - (1 + int (holders i M))" using counters_okD(3) [OF ok] p by auto
  have b0: "0 < b" using semaph_invD(1) [OF inv] holders_less [of i M] b by linarith
  have l: "has_lock p = None" using p by (cases p) auto
  have "\<forall>q \<in># M. \<not> removing q \<and> \<not> before_init q" using counters_okD(4,5) [OF ok] p b0 by auto
  then show ?thesis using that [OF s ok b b0 l] counters_okD(1,2) [OF ok] l by simp
qed

lemma op_inv:
  assumes inv: "semaph_inv (n, S) (add_mset (Op i d) M)" and st: "semaph_step (Op i d) (n, S) = Some (p', y')"
  shows "semaph_inv y' (add_mset p' M) \<and> p' \<noteq> Died"
proof -
  obtain a b c where s: "S = Some (i, [a, b, c])" "b = BIGCOUNT - (1 + int (holders i M))" "0 < b" "c = int (lockers i M)" "c \<le> 1"
    "\<forall>q \<in># M. \<not> removing q \<and> \<not> before_init q" by (rule open_counted [OF inv, of i]) auto
  have y: "y' = (n, Some (i, [a + d, b, c]))" "p' = Has i" using st s(1) semaph_invD(2) [OF inv] by (auto simp: step_simps split: if_splits)
  have "semaph_inv (n, Some (i, [a + d, b, c])) (add_mset p' M)"
    by (rule change_set [OF inv [unfolded s(1)]]) (use s y(2) in auto)
  then show ?thesis using y by simp
qed

lemma xlock_inv:
  assumes inv: "semaph_inv (n, S) (add_mset (XLock i) M)" and st: "semaph_step (XLock i) (n, S) = Some (p', y')"
  shows "semaph_inv y' (add_mset p' M) \<and> p' \<noteq> Died"
proof -
  obtain a b c where s: "S = Some (i, [a, b, c])" "b = BIGCOUNT - (1 + int (holders i M))" "0 < b" "c = int (lockers i M)" "c \<le> 1"
    "\<forall>q \<in># M. \<not> removing q \<and> \<not> before_init q" by (rule open_counted [OF inv, of i]) auto
  have y: "y' = (n, Some (i, [a, b + 1, 1]))" "p' = XVal i" "c = 0" using st s by (auto simp: step_simps split: if_splits)
  have "semaph_inv (n, Some (i, [a, b + 1, 1])) (add_mset p' M)"
    by (rule change_set [OF inv [unfolded s(1)]]) (use s y(2,3) in auto)
  then show ?thesis using y by simp
qed

lemma xlocked:
  assumes inv: "semaph_inv (n, S) (add_mset p M)" and p: "has_lock p = Some i" "after_init p"
  obtains a b where "S = Some (i, [a, b, 1])" "lockers i M = 0" "b = BIGCOUNT - int (holders i M)" "has_open p = None"
    "\<forall>q \<in># M. \<not> after_init q \<and> \<not> before_init q \<and> \<not> removing q" "removing p \<Longrightarrow> holders i M = 0"
proof -
  obtain a b where s: "S = Some (i, [a, b, 1])" "lockers i M = 0" "has_open p = None" "\<forall>q \<in># M. \<not> after_init q \<and> \<not> before_init q \<and> \<not> removing q"
    and ok: "counters_ok i [a, b, 1] (add_mset p M)" by (rule lock_alone [OF inv p(1)]) auto
  show ?thesis by (rule that) (use s counters_okD(3) [OF ok] counters_okD(4) [OF ok, of p] p in auto)
qed

lemma xval_inv:
  assumes inv: "semaph_inv (n, S) (add_mset (XVal i) M)" and st: "semaph_step (XVal i) (n, S) = Some (p', y')"
  shows "semaph_inv y' (add_mset p' M) \<and> p' \<noteq> Died"
proof -
  obtain a b where s: "S = Some (i, [a, b, 1])" "b = BIGCOUNT - int (holders i M)" by (rule xlocked [OF inv, of i]) auto
  then have y: "y' = (n, S)" "p' = (if b = BIGCOUNT then XRm i else XUnlock i)" using st by (auto simp: step_simps split: if_splits)
  have "\<forall>j \<in> mentions p'. j < n" using semaph_invD(4) [OF inv] y by auto
  then have "semaph_inv (n, S) (add_mset p' M)"
    by (intro same_set [OF inv]) (use y(2) s in \<open>auto split: if_splits\<close>)
  then show ?thesis using y by auto
qed

lemma xrm_inv:
  assumes inv: "semaph_inv (n, S) (add_mset (XRm i) M)" and st: "semaph_step (XRm i) (n, S) = Some (p', y')"
  shows "semaph_inv y' (add_mset p' M) \<and> p' \<noteq> Died"
proof -
  obtain a b where s: "S = Some (i, [a, b, 1])" "lockers i M = 0" "holders i M = 0" by (rule xlocked [OF inv, of i]) auto
  then have y: "y' = (n, None)" "p' = Closed" using st by (auto simp: step_simps split: if_splits)
  show ?thesis unfolding y using drop_set [OF inv [unfolded s(1)] s(3,2), of Closed] by simp
qed

lemma xunlock_inv:
  assumes inv: "semaph_inv (n, S) (add_mset (XUnlock i) M)" and st: "semaph_step (XUnlock i) (n, S) = Some (p', y')"
  shows "semaph_inv y' (add_mset p' M) \<and> p' \<noteq> Died"
proof -
  obtain a b where s: "S = Some (i, [a, b, 1])" "lockers i M = 0" "b = BIGCOUNT - int (holders i M)"
    "\<forall>q \<in># M. \<not> after_init q \<and> \<not> before_init q \<and> \<not> removing q" by (rule xlocked [OF inv, of i]) auto
  then have y: "y' = (n, Some (i, [a, b, 0]))" "p' = Closed" using st by (auto simp: step_simps split: if_splits)
  have "semaph_inv (n, Some (i, [a, b, 0])) (add_mset p' M)"
    by (rule change_set [OF inv [unfolded s(1)]]) (use s y(2) in auto)
  then show ?thesis using y by simp
qed

lemma create_lock_inv:
  assumes inv: "semaph_inv (n, S) (add_mset p M)" and p: "p = CLock iv i \<or> p = CSleep iv i" and st: "semaph_step p (n, S) = Some (p', y')"
  shows "semaph_inv y' (add_mset p' M) \<and> (p' = Died \<longrightarrow> p = CSleep iv i)"
proof -
  have i: "i < n" using semaph_invD(4) [OF inv] p by auto
  have same: "semaph_inv (n, S) (add_mset p' M)" if "p' \<in> {CSleep iv i, CGet iv, Died}"
    by (rule same_set [OF inv]) (use p i that in auto)
  show ?thesis
  proof (cases "\<exists>a b. S = Some (i, [a, b, 0])")
    case True
    then obtain a b where s: "S = Some (i, [a, b, 0])" by blast
    then have "y' = (n, Some (i, [a, b, 1])) \<and> p' = CVal iv i" using st p by (auto simp: step_simps)
    then show ?thesis using lock_inv [OF inv [unfolded s] p] by auto
  next
    case False
    have "\<exists>a b c. v = [a, b, c]" if "S = Some (j, v)" for j v using semaph_invD(6) [OF inv that] unfolding counters_ok_def by blast
    then have "y' = (n, S) \<and> p' \<in> {CSleep iv i, CGet iv, Died} \<and> (p' = Died \<longrightarrow> p = CSleep iv i)"
      using st p False by (cases S) (auto simp: step_simps split: if_splits)
    then show ?thesis using same by auto
  qed
qed

lemma semaph_step_inv:
  assumes inv: "semaph_inv (n, S) (add_mset p M)" and st: "semaph_step p (n, S) = Some (p', y')"
  shows "semaph_inv y' (add_mset p' M) \<and> (p' = Died \<longrightarrow> (\<exists>iv i. p = CSleep iv i))"
proof (cases p)
  case (CGet iv)
  show ?thesis
  proof (cases S)
    case None
    then show ?thesis using st CGet get_inv [of n iv M] inv by (auto simp: step_simps)
  next
    case (Some s)
    obtain i v where s: "S = Some (i, v)" using Some by (cases s) auto
    have "semaph_inv (n, S) (add_mset (CLock iv i) M)"
      by (rule same_set [OF inv]) (use CGet s semaph_invD(6) [OF inv s] in auto)
    then show ?thesis using st CGet s by (auto simp: step_simps)
  qed
next
  case (CVal iv i)
  then show ?thesis using val_inv [OF inv [unfolded CVal] st [unfolded CVal]] by simp
next
  case (CSet0 iv i)
  then show ?thesis using set0_inv [OF inv [unfolded CSet0] st [unfolded CSet0]] by simp
next
  case (CSet1 i)
  then show ?thesis using set1_inv [OF inv [unfolded CSet1] st [unfolded CSet1]] by simp
next
  case (CEnd i)
  then show ?thesis using end_inv [OF inv [unfolded CEnd] st [unfolded CEnd]] by simp
next
  case (Op i d)
  then show ?thesis using op_inv [OF inv [unfolded Op] st [unfolded Op]] by simp
next
  case (XLock i)
  then show ?thesis using xlock_inv [OF inv [unfolded XLock] st [unfolded XLock]] by simp
next
  case (XVal i)
  then show ?thesis using xval_inv [OF inv [unfolded XVal] st [unfolded XVal]] by simp
next
  case (XRm i)
  then show ?thesis using xrm_inv [OF inv [unfolded XRm] st [unfolded XRm]] by simp
next
  case (XUnlock i)
  then show ?thesis using xunlock_inv [OF inv [unfolded XUnlock] st [unfolded XUnlock]] by simp
next
  case (CLock iv i)
  then show ?thesis using create_lock_inv [OF inv _ st, of iv i] by auto
next
  case (CSleep iv i)
  then show ?thesis using create_lock_inv [OF inv _ st, of iv i] by auto
qed (use st semaph_invD(2) [OF inv] in \<open>simp_all add: semaph_step_def\<close>)

lemma exit_inv:
  assumes inv: "semaph_inv (n, S) (add_mset p M)"
  shows "semaph_inv (undo p x (n, S)) M"
proof -
  have "semaph_inv (undo p x (n, S)) (add_mset Closed M)"
  proof (cases S)
    case None
    have "has_open p = None" "has_lock p = None" using semaph_invD(5) [OF inv] None by (cases "has_open p"; cases "has_lock p"; auto)+
    then have "semaph_inv (n, None) (add_mset Closed M)"
      by (intro same_set [OF inv [unfolded None]]) auto
    then show ?thesis using None by (simp add: undo_def)
  next
    case (Some s)
    obtain i v where iv: "S = Some (i, v)" using Some by (cases s) auto
    then have ok': "counters_ok i v (add_mset p M)" using semaph_invD(6) [OF inv] by simp
    then obtain a b c where v: "v = [a, b, c]" unfolding counters_ok_def by blast
    note s = iv [unfolded v] and ok = ok' [unfolded v]
    consider (n) "has_open p = None" "has_lock p = None" | (o) "has_open p = Some i" | (l) "has_lock p = Some i"
      using semaph_invD(5) [OF inv] s by (metis not_Some_eq option.inject prod.inject)
    then show ?thesis
    proof cases
      case n
      then have "\<not> after_init p" "\<not> before_init p" "\<not> removing p" using lock_points [of p] by auto
      then have "semaph_inv (n, Some (i, [x, b, c])) (add_mset Closed M)"
        by (intro change_set [OF inv [unfolded s]]) (use n counters_okD [OF ok] in auto)
      then show ?thesis using n s by (simp add: undo_def)
    next
      case o
      then obtain "b = BIGCOUNT - (1 + int (holders i M))" "has_lock p = None" "c = int (lockers i M)" "c \<le> 1"
        "\<forall>q \<in># M. \<not> removing q \<and> \<not> before_init q" using s by (auto intro: open_counted [OF inv o])
      then have "semaph_inv (n, Some (i, [x, b + 1, c])) (add_mset Closed M)"
        by (intro change_set [OF inv [unfolded s]]) auto
      then show ?thesis using o s \<open>has_lock p = None\<close> by (simp add: undo_def)
    next
      case l
      then obtain "c = 1" "lockers i M = 0" "has_open p = None" "\<forall>q \<in># M. \<not> after_init q \<and> \<not> before_init q \<and> \<not> removing q"
        using s by (auto intro: lock_alone [OF inv l])
      then have "semaph_inv (n, Some (i, [x, b, 0])) (add_mset Closed M)"
        by (intro change_set [OF inv [unfolded s]]) (use counters_okD(3) [OF ok] in auto)
      then show ?thesis using l s \<open>c = 1\<close> \<open>has_open p = None\<close> by (simp add: undo_def)
    qed
  qed
  then show ?thesis using drop_process [of n _ Closed M] by (auto simp: undo_def)
qed

lemma semaph_run_inv: "semaph_run False y M \<Longrightarrow> semaph_inv y M"
proof (induction rule: semaph_run.induct)
  case run_boot
  show ?case by (simp add: semaph_inv_def BIGCOUNT_def)
next
  case (run_create y M key iv p)
  have p: "p = CGet iv" using run_create.hyps(2) by (auto simp: call_sem_create_def split: if_splits)
  have "counters_ok i v (add_mset (CGet iv) M)" if "counters_ok i v M" for i v using that unfolding counters_ok_def by auto
  then show ?case using run_create.IH run_create.hyps(3) unfolding p semaph_inv_def by (auto split: prod.splits)
next
  case (run_op y i M d)
  obtain n S where y: "y = (n, S)" by (cases y)
  show ?case unfolding y by (rule same_set [OF run_op.IH [unfolded y]]) (use run_op.hyps semaph_invD(4) [OF run_op.IH [unfolded y]] in auto)
next
  case (run_close y i M)
  obtain n S where y: "y = (n, S)" by (cases y)
  show ?case unfolding y by (rule same_set [OF run_close.IH [unfolded y]]) (use semaph_invD(4) [OF run_close.IH [unfolded y]] in auto)
next
  case (run_step y p M p' y')
  then show ?case using semaph_step_inv [of "fst y" "snd y" p M p' y'] by simp
next
  case (run_exit y p M x)
  then show ?case using exit_inv [of "fst y" "snd y" p M x] by simp
qed simp

section \<open>Properties\<close>

lemma run_has: "semaph_run opens (1, Some (0, [iv, 9999, 0])) {#Has 0#}"
proof -
  have "call_sem_create 1 iv = Some (CGet iv)" by (simp add: call_sem_create_def IPC_PRIVATE_def)
  note a0 = run_create [OF run_boot this]
  have "semaph_run opens (0, None) {#CGet iv#}" using a0 by (simp add: BIGCOUNT_def)
  note a1 = run_step [OF this]
  have "semaph_run opens (1, Some (0, [0, 0, 0])) {#CLock iv 0#}" by (rule a1) (simp add: step_simps)
  note a2 = run_step [OF this]
  have "semaph_run opens (1, Some (0, [0, 0, 1])) {#CVal iv 0#}" by (rule a2) (simp add: step_simps)
  note a3 = run_step [OF this]
  have "semaph_run opens (1, Some (0, [0, 0, 1])) {#CSet0 iv 0#}" by (rule a3) (simp add: step_simps)
  note a4 = run_step [OF this]
  have "semaph_run opens (1, Some (0, [iv, 0, 1])) {#CSet1 0#}" by (rule a4) (simp add: step_simps)
  note a5 = run_step [OF this]
  have "semaph_run opens (1, Some (0, [iv, 10000, 1])) {#CEnd 0#}" by (rule a5) (simp add: step_simps BIGCOUNT_def)
  note a6 = run_step [OF this]
  show ?thesis by (rule a6) (simp add: step_simps)
qed

text \<open>A process that closes the semaphore, alone, up to the removal, while another takes its steps.\<close>

lemma run_closing: "semaph_run opens (1, Some (0, [iv, 10000, 1])) {#XRm 0#}"
proof -
  have "semaph_run opens (1, Some (0, [iv, 9999, 0])) {#XLock 0#}" by (rule run_close, rule run_has)
  note a1 = run_step [OF this]
  have "semaph_run opens (1, Some (0, [iv, 10000, 1])) {#XVal 0#}" by (rule a1) (simp add: step_simps)
  note a2 = run_step [OF this]
  show ?thesis by (rule a2) (simp add: step_simps BIGCOUNT_def)
qed



text \<open>
  Two races that remain. \<^verbatim>\<open>sem_open\<close> decrements the counter without the lock, so it can come between
  the look of \<^verbatim>\<open>sem_close\<close> at the counter and the removal: its caller then has a semaphore that no
  longer exists, and every operation on it ends the process. And a process that sleeps on the lock
  in \<^verbatim>\<open>sem_create\<close> when \<^verbatim>\<open>sem_close\<close> removes the set is not sent back to \<^verbatim>\<open>semget\<close>, as the error is then
  \<^verbatim>\<open>EIDRM\<close> and not the \<^verbatim>\<open>EINVAL\<close> that the function expects: it ends, even when only \<^verbatim>\<open>sem_create\<close> is used.
\<close>

theorem semaph_removal_races:
  "semaph_run True (1, None) {#Has 0, Closed#} \<and> semaph_step (sem_wait 0) (1, None) = Some (Died, (1, None)) \<and>
     semaph_step (sem_signal 0) (1, None) = Some (Died, (1, None)) \<and> semaph_step (XLock 0) (1, None) = Some (Died, (1, None)) \<and>
   semaph_run False (1, None) {#CSleep iv 0, Closed#} \<and> semaph_step (CSleep iv 0) (1, None) = Some (Died, (1, None))"
proof -
  have k: "call_sem_create 1 iv = Some (CGet iv)" "call_sem_open 1 = Some OGet"
    by (simp_all add: call_sem_create_def call_sem_open_def IPC_PRIVATE_def)
  have b: "int (size {#XRm 0#}) + 1 < BIGCOUNT" "int (size {#XLock 0#}) + 1 < BIGCOUNT" by (simp_all add: BIGCOUNT_def)
  note o0 = run_open [OF run_closing TrueI k(2) b(1)]
  note o1 = run_step [OF o0]
  have "semaph_run True (1, Some (0, [iv, 10000, 1])) {#OOpen 0, XRm 0#}" by (rule o1) (simp add: step_simps)
  note o2 = run_step [OF this]
  have "semaph_run True (1, Some (0, [iv, 9999, 1])) {#Has 0, XRm 0#}" by (rule o2) (simp add: step_simps op_open_def)
  note o3 = run_step [OF this [unfolded add_mset_commute [of "Has 0"]]]
  have o: "semaph_run True (1, None) {#Closed, Has 0#}" by (rule o3) (simp add: step_simps)
  note c0 = run_create [OF run_closing k(1) b(1), of False]
  note c1 = run_step [OF c0]
  have "semaph_run False (1, Some (0, [iv, 10000, 1])) {#CLock iv 0, XRm 0#}" by (rule c1) (simp add: step_simps)
  note c2 = run_step [OF this]
  have "semaph_run False (1, Some (0, [iv, 10000, 1])) {#CSleep iv 0, XRm 0#}" by (rule c2) (simp add: step_simps)
  note c3 = run_step [OF this [unfolded add_mset_commute [of "CSleep iv 0"]]]
  have "semaph_run False (1, None) {#Closed, CSleep iv 0#}" by (rule c3) (simp add: step_simps)
  then show ?thesis using o by (simp add: add_mset_commute step_simps sem_wait_def sem_signal_def)
qed

end
