(* ===== verification/Loop_Run.thy ===== *)
theory Loop_Run
  imports Prelude
begin

text \<open>
  Functions with loops that may not end and that may touch memory they must not: \<open>None\<close> is a loop
  without end, \<open>Some Wild\<close> a wrong access.
\<close>

definition lbind :: "'a run option \<Rightarrow> ('a \<Rightarrow> 'b run option) \<Rightarrow> 'b run option" where
  "lbind m f = Option.bind m (\<lambda>r. case r of Ret x \<Rightarrow> f x | Exits \<Rightarrow> Some Exits | Wild \<Rightarrow> Some Wild)"

lemma lbind_simps [simp]:
  "lbind (Some (Ret x)) f = f x" "lbind (Some Wild) f = Some Wild" "lbind (Some Exits) f = Some Exits" "lbind None f = None"
  by (simp_all add: lbind_def)

lemma lbind_assoc: "lbind (lbind m f) g = lbind m (\<lambda>x. lbind (f x) g)"
proof (cases m)
  case (Some r)
  then show ?thesis by (cases r) simp_all
qed simp

lemma lbind_mono [partial_function_mono]:
  assumes "mono_option B" "\<And>x. mono_option (C x)"
  shows "mono_option (\<lambda>f. lbind (B f) (\<lambda>x. C x f))"
  unfolding lbind_def
proof (rule bind_mono [OF assms(1)])
  show "mono_option (\<lambda>f. case r of Ret x \<Rightarrow> C x f | Exits \<Rightarrow> Some Exits | Wild \<Rightarrow> Some Wild)" for r
    by (cases r) (simp_all add: assms(2) option.const_mono)
qed

text \<open>An access through a pointer.\<close>

definition at_ptr :: "(nat \<rightharpoonup> 'n) \<Rightarrow> nat \<Rightarrow> ('n \<Rightarrow> 'b run option) \<Rightarrow> 'b run option" where
  "at_ptr h p f = (case h p of None \<Rightarrow> Some Wild | Some n \<Rightarrow> f n)"

lemma at_ptr_simps [simp]: "h p = Some n \<Longrightarrow> at_ptr h p f = f n" "h p = None \<Longrightarrow> at_ptr h p f = Some Wild"
  by (simp_all add: at_ptr_def)

lemma at_ptr_mono [partial_function_mono]: "(\<And>n. mono_option (C n)) \<Longrightarrow> mono_option (\<lambda>f. at_ptr h p (\<lambda>n. C n f))"
  by (cases "h p") (simp_all add: option.const_mono)

end
