(* ===== verification/Bin_Tree.thy ===== *)
theory Bin_Tree
  imports Loop_Run "HOL-Library.Tree"
begin

text \<open>
  The binary search tree of \<^verbatim>\<open>Misc/bin_tree.c\<close>: insertion, and the three traversals, each by
  recursion and with a stack of thirty pointers.
\<close>

section \<open>Building the tree\<close>

record bnode =
  data :: int
  leftchild :: nat
  rightchild :: nat

type_synonym bheap = "nat \<rightharpoonup> bnode"

text \<open>\<open>m\<close> is what \<^verbatim>\<open>malloc\<close> returns; the result is the new value of the root and the heap.\<close>

definition InitBinaryTree :: "nat \<Rightarrow> int \<Rightarrow> bheap \<Rightarrow> nat \<times> bheap" where
  "InitBinaryTree m elem h = (if m = 0 then (0, h) else (m, h(m \<mapsto> \<lparr>data = elem, leftchild = 0, rightchild = 0\<rparr>)))"

text \<open>The walk down: the node below which the new one goes, or \<open>None\<close> when the element exists.\<close>

partial_function (option) insert_walk :: "bheap \<Rightarrow> int \<Rightarrow> nat \<Rightarrow> nat \<Rightarrow> nat option run option" where
  "insert_walk h x last_p p =
     (if p = 0 then Some (Ret (Some last_p))
      else at_ptr h p (\<lambda>n.
        if x < data n then insert_walk h x p (leftchild n)
        else if x > data n then insert_walk h x p (rightchild n)
        else Some (Ret None)))"

definition InsertNode :: "nat \<Rightarrow> nat \<Rightarrow> int \<Rightarrow> bheap \<Rightarrow> bheap run option" where
  "InsertNode m root elem h =
     (if m = 0 then Some (Ret h)
      else
        let h = h(m \<mapsto> \<lparr>data = elem, leftchild = 0, rightchild = 0\<rparr>) in
        lbind (insert_walk h elem 0 root) (\<lambda>r.
          case r of
            None \<Rightarrow> Some (Ret (h(m := None)))
          | Some p \<Rightarrow> at_ptr h p (\<lambda>n.
              Some (Ret (h(p \<mapsto> (if elem < data n then n\<lparr>leftchild := m\<rparr> else n\<lparr>rightchild := m\<rparr>)))))))"

text \<open>
  The loop over the elements; \<open>alloc\<close> is the address \<^verbatim>\<open>malloc\<close> takes, and the flag next to an element
  says whether it succeeds.
\<close>

definition malloc :: "(bheap \<Rightarrow> nat) \<Rightarrow> bool \<Rightarrow> bheap \<Rightarrow> nat" where
  "malloc alloc ok h = (if ok then alloc h else 0)"

fun CreatBinarySearchTree :: "(bheap \<Rightarrow> nat) \<Rightarrow> nat \<Rightarrow> (int \<times> bool) list \<Rightarrow> bheap \<Rightarrow> (nat \<times> bheap) run option" where
  "CreatBinarySearchTree alloc root [] h = Some (Ret (root, h))"
| "CreatBinarySearchTree alloc root ((d, ok) # ds) h =
     (if root = 0
      then (case InitBinaryTree (malloc alloc ok h) d h of (root, h) \<Rightarrow> CreatBinarySearchTree alloc root ds h)
      else lbind (InsertNode (malloc alloc ok h) root d h) (\<lambda>h. CreatBinarySearchTree alloc root ds h))"

section \<open>Traversals by recursion\<close>

text \<open>The result is the sequence of numbers that is printed.\<close>

partial_function (option) PreOrderRec :: "bheap \<Rightarrow> nat \<Rightarrow> int list run option" where
  "PreOrderRec h root =
     (if root = 0 then Some (Ret [])
      else at_ptr h root (\<lambda>n.
        lbind (PreOrderRec h (leftchild n)) (\<lambda>l.
        lbind (PreOrderRec h (rightchild n)) (\<lambda>r.
        Some (Ret (data n # l @ r))))))"

partial_function (option) InOrderRec :: "bheap \<Rightarrow> nat \<Rightarrow> int list run option" where
  "InOrderRec h root =
     (if root = 0 then Some (Ret [])
      else at_ptr h root (\<lambda>n.
        lbind (InOrderRec h (leftchild n)) (\<lambda>l.
        lbind (InOrderRec h (rightchild n)) (\<lambda>r.
        Some (Ret (l @ data n # r))))))"

partial_function (option) PostOrderRec :: "bheap \<Rightarrow> nat \<Rightarrow> int list run option" where
  "PostOrderRec h root =
     (if root = 0 then Some (Ret [])
      else at_ptr h root (\<lambda>n.
        lbind (PostOrderRec h (leftchild n)) (\<lambda>l.
        lbind (PostOrderRec h (rightchild n)) (\<lambda>r.
        Some (Ret (l @ r @ [data n]))))))"

section \<open>Traversals with a stack\<close>

definition STACK :: nat where "STACK = 30"

text \<open>
  The inner loop, which goes to the left and pushes; in \<^verbatim>\<open>PreOrderNoRec\<close> it prints as well. A push
  beyond the array is a wrong access.
\<close>

partial_function (option) go_left ::
  "bool \<Rightarrow> bheap \<Rightarrow> nat \<Rightarrow> nat list \<Rightarrow> nat \<Rightarrow> int list \<Rightarrow> (nat list \<times> nat \<times> int list) run option" where
  "go_left pr h p stack num out =
     (if p = 0 then Some (Ret (stack, num, out))
      else at_ptr h p (\<lambda>n.
        if num < STACK then go_left pr h (leftchild n) (stack[num := p]) (num + 1) (if pr then out @ [data n] else out)
        else Some Wild))"

partial_function (option) pre_loop :: "bheap \<Rightarrow> nat \<Rightarrow> nat list \<Rightarrow> nat \<Rightarrow> int list \<Rightarrow> int list run option" where
  "pre_loop h p stack num out =
     (if p \<noteq> 0 \<or> num > 0
      then lbind (go_left True h p stack num out) (\<lambda>(stack, num, out).
        let num = num - 1 in at_ptr h (stack ! num) (\<lambda>n. pre_loop h (rightchild n) stack num out))
      else Some (Ret out))"

partial_function (option) in_loop :: "bheap \<Rightarrow> nat \<Rightarrow> nat list \<Rightarrow> nat \<Rightarrow> int list \<Rightarrow> int list run option" where
  "in_loop h p stack num out =
     (if p \<noteq> 0 \<or> num > 0
      then lbind (go_left False h p stack num out) (\<lambda>(stack, num, out).
        let num = num - 1 in at_ptr h (stack ! num) (\<lambda>n. in_loop h (rightchild n) stack num (out @ [data n])))
      else Some (Ret out))"

partial_function (option) post_loop :: "bheap \<Rightarrow> nat \<Rightarrow> nat list \<Rightarrow> nat \<Rightarrow> nat \<Rightarrow> int list \<Rightarrow> int list run option" where
  "post_loop h p stack num have_visited out =
     (if p \<noteq> 0 \<or> num > 0
      then lbind (go_left False h p stack num out) (\<lambda>(stack, num, out).
        let p = stack ! (num - 1) in at_ptr h p (\<lambda>n.
          if rightchild n = 0 \<or> have_visited = rightchild n
          then post_loop h 0 stack (num - 1) p (out @ [data n])
          else post_loop h (rightchild n) stack num have_visited out))
      else Some (Ret out))"

text \<open>The array is not initialised: \<open>junk\<close> is what it holds at first.\<close>

definition PreOrderNoRec :: "nat list \<Rightarrow> bheap \<Rightarrow> nat \<Rightarrow> int list run option" where
  "PreOrderNoRec junk h root = pre_loop h root junk 0 []"

definition InOrderNoRec :: "nat list \<Rightarrow> bheap \<Rightarrow> nat \<Rightarrow> int list run option" where
  "InOrderNoRec junk h root = in_loop h root junk 0 []"

definition PostOrderNoRec :: "nat list \<Rightarrow> bheap \<Rightarrow> nat \<Rightarrow> int list run option" where
  "PostOrderNoRec junk h root = post_loop h root junk 0 0 []"

end
