(* ===== verification/Bin_Tree_Props.thy ===== *)
theory Bin_Tree_Props
  imports Bin_Tree
begin

text \<open>
  Properties of the binary search tree: what is built, that the traversals with a stack print what
  the recursive ones print, and exactly when the stack of thirty pointers is too small.
\<close>

section \<open>Trees in the heap\<close>

text \<open>\<open>t\<close> is the tree of the addresses that \<open>p\<close> points to; \<open>keys\<close> replaces addresses by elements.\<close>

fun tree_at :: "bheap \<Rightarrow> nat tree \<Rightarrow> nat \<Rightarrow> bool" where
  "tree_at h Leaf p \<longleftrightarrow> p = 0"
| "tree_at h (Node l a r) p \<longleftrightarrow>
     p = a \<and> a \<noteq> 0 \<and> (case h a of None \<Rightarrow> False | Some n \<Rightarrow> tree_at h l (leftchild n) \<and> tree_at h r (rightchild n))"

definition key :: "bheap \<Rightarrow> nat \<Rightarrow> int" where
  "key h a = (case map_option data (h a) of Some d \<Rightarrow> d | None \<Rightarrow> 0)"

definition keys :: "bheap \<Rightarrow> nat tree \<Rightarrow> int tree" where
  "keys h t = map_tree (key h) t"

lemma keys_simps [simp]: "keys h Leaf = Leaf" "keys h (Node l a r) = Node (keys h l) (key h a) (keys h r)"
  by (simp_all add: keys_def)

lemma set_keys: "set_tree (keys h t) = key h ` set_tree t"
  by (simp add: keys_def tree.set_map)

lemma tree_at_dom: "tree_at h t p \<Longrightarrow> set_tree t \<subseteq> dom h \<and> 0 \<notin> set_tree t"
  by (induction t arbitrary: p) (fastforce split: option.splits)+

lemma tree_at_root: "tree_at h t p \<Longrightarrow> p \<noteq> 0 \<Longrightarrow> p \<in> set_tree t" "tree_at h t p \<Longrightarrow> p = 0 \<longleftrightarrow> t = Leaf"
  by (cases t; auto)+

lemma tree_at_cong: "(\<And>a. a \<in> set_tree t \<Longrightarrow> h' a = h a) \<Longrightarrow> tree_at h' t p = tree_at h t p"
  by (induction t arbitrary: p) (auto split: option.splits)

lemma keys_cong: "(\<And>a. a \<in> set_tree t \<Longrightarrow> map_option data (h' a) = map_option data (h a)) \<Longrightarrow> keys h' t = keys h t"
  unfolding keys_def key_def by (rule tree.map_cong) simp_all

text \<open>The elements of a search tree tell its nodes apart.\<close>

lemma bst_disjoint:
  assumes "bst (keys h (Node l a r))"
  shows "a \<notin> set_tree l" "a \<notin> set_tree r" "set_tree l \<inter> set_tree r = {}"
  using assms by (fastforce simp: set_keys)+

fun addr_distinct :: "nat tree \<Rightarrow> bool" where
  "addr_distinct Leaf = True"
| "addr_distinct (Node l a r) \<longleftrightarrow>
     a \<notin> set_tree l \<and> a \<notin> set_tree r \<and> set_tree l \<inter> set_tree r = {} \<and> addr_distinct l \<and> addr_distinct r"

lemma bst_distinct: "bst (keys h t) \<Longrightarrow> addr_distinct t"
  by (induction t) (use bst_disjoint in \<open>simp_all\<close>)

section \<open>Recursion\<close>

lemma rec_traversals:
  assumes "tree_at h t p"
  shows "PreOrderRec h p = Some (Ret (preorder (keys h t)))" "InOrderRec h p = Some (Ret (inorder (keys h t)))"
    "PostOrderRec h p = Some (Ret (postorder (keys h t)))"
  using assms
proof (induction t arbitrary: p)
  case Leaf
  { case 1 then show ?case by (simp add: PreOrderRec.simps)
  next case 2 then show ?case by (simp add: InOrderRec.simps)
  next case 3 then show ?case by (simp add: PostOrderRec.simps) }
next
  case (Node l a r)
  { case 1 then show ?case using Node.IH(1,4) by (auto simp: PreOrderRec.simps [of h a] key_def split: option.splits)
  next case 2 then show ?case using Node.IH(2,5) by (auto simp: InOrderRec.simps [of h a] key_def split: option.splits)
  next case 3 then show ?case using Node.IH(3,6) by (auto simp: PostOrderRec.simps [of h a] key_def split: option.splits) }
qed

section \<open>Stacks\<close>

text \<open>
  The places a traversal needs: with the left subtree, the node itself is on the stack; with the
  right one it is not, except in postorder, which needs the height.
\<close>

fun left_height :: "'a tree \<Rightarrow> nat" where
  "left_height Leaf = 0"
| "left_height (Node l a r) = max (Suc (left_height l)) (left_height r)"

text \<open>What is printed, when \<open>f\<close> is printed at the push of an element and \<open>g\<close> at its pop.\<close>

fun printed :: "(int \<Rightarrow> int list) \<Rightarrow> (int \<Rightarrow> int list) \<Rightarrow> int tree \<Rightarrow> int list" where
  "printed f g Leaf = []"
| "printed f g (Node l a r) = f a @ printed f g l @ g a @ printed f g r"

text \<open>A loop that pushes on the way to the left and leaves each node to the right.\<close>

locale stack_walk =
  fixes loop :: "bheap \<Rightarrow> nat \<Rightarrow> nat list \<Rightarrow> nat \<Rightarrow> int list \<Rightarrow> int list run option" and f g :: "int \<Rightarrow> int list"
  assumes stop: "loop h 0 st 0 out = Some (Ret out)"
    and push: "p \<noteq> 0 \<Longrightarrow> h p = Some n \<Longrightarrow>
      loop h p st num out = (if num < STACK then loop h (leftchild n) (st[num := p]) (Suc num) (out @ f (data n)) else Some Wild)"
    and pop: "h (st ! num) = Some n \<Longrightarrow> loop h 0 st (Suc num) out = loop h (rightchild n) st num (out @ g (data n))"
begin

text \<open>A whole subtree: the loop comes out with the stack it had, or overruns it.\<close>

lemma subtree:
  assumes "tree_at h t p" "num \<le> STACK" "length st = STACK"
  shows "if num + left_height t \<le> STACK
    then \<exists>st'. length st' = STACK \<and> take num st' = take num st \<and> loop h p st num out = loop h 0 st' num (out @ printed f g (keys h t))
    else loop h p st num out = Some Wild"
  using assms
proof (induction t arbitrary: p num st out)
  case Leaf
  then show ?case by auto
next
  case (Node l a r)
  obtain n where n: "p = a" "a \<noteq> 0" "h a = Some n" "tree_at h l (leftchild n)" "tree_at h r (rightchild n)"
    using Node.prems(1) by (auto split: option.splits)
  show ?case
  proof (cases "num < STACK")
    case False
    then show ?thesis using push [of a h n st num out] n Node.prems(2) by (simp add: max_def)
  next
    case True
    let ?st = "st[num := a]"
    have p: "loop h p st num out = loop h (leftchild n) ?st (Suc num) (out @ f (data n))" using push n True by simp
    note L = Node.IH(1) [OF n(4), of "Suc num" ?st "out @ f (data n)"]
    show ?thesis
    proof (cases "Suc num + left_height l \<le> STACK")
      case False
      then show ?thesis using L p True Node.prems(3) by (simp add: max_def)
    next
      case le: True
      then obtain s1 where s1: "length s1 = STACK" "take (Suc num) s1 = take (Suc num) ?st"
        "loop h p st num out = loop h 0 s1 (Suc num) ((out @ f (data n)) @ printed f g (keys h l))"
        using L p True Node.prems(3) by auto
      have nth: "s1 ! num = a" using arg_cong [OF s1(2), of "\<lambda>xs. xs ! num"] True Node.prems(3) by simp
      have tk: "take num s1 = take num st" using arg_cong [OF s1(2), of "take num"] by (simp add: min_def)
      let ?o = "((out @ f (data n)) @ printed f g (keys h l)) @ g (data n)"
      have q: "loop h p st num out = loop h (rightchild n) s1 num ?o" using s1(3) pop [of h s1 num n] nth n(3) by simp
      have eq: "num + left_height (Node l a r) \<le> STACK \<longleftrightarrow> num + left_height r \<le> STACK" using le by (simp add: max_def)
      show ?thesis unfolding eq using Node.IH(2) [OF n(5), of num s1 ?o] True s1(1) tk q n(3)
        by (cases "num + left_height r \<le> STACK") (auto simp: key_def)
    qed
  qed
qed

lemma walk:
  assumes "tree_at h t p" "length st = STACK"
  shows "loop h p st 0 [] = Some (if left_height t \<le> STACK then Ret (printed f g (keys h t)) else Wild)"
  using subtree [OF assms(1) _ assms(2), of 0 "[]"] by (auto simp: stop split: if_splits)

end

lemma go_left_0 [simp]: "go_left pr h 0 st num out = Some (Ret (st, num, out))"
  by (simp add: go_left.simps)

lemma go_left_node:
  "p \<noteq> 0 \<Longrightarrow> h p = Some n \<Longrightarrow>
   go_left pr h p st num out = (if num < STACK then go_left pr h (leftchild n) (st[num := p]) (Suc num) (if pr then out @ [data n] else out) else Some Wild)"
  by (simp add: go_left.simps [of pr h p])

interpretation prew: stack_walk pre_loop "\<lambda>d. [d]" "\<lambda>d. []"
proof unfold_locales
  fix h :: bheap and p n st num out assume p: "p \<noteq> 0" "h p = Some n"
  show "pre_loop h p st num out = (if num < STACK then pre_loop h (leftchild n) (st[num := p]) (Suc num) (out @ [data n]) else Some Wild)"
    using p pre_loop.simps [of h p st num out] pre_loop.simps [of h "leftchild n" "st[num := p]" "Suc num" "out @ [data n]"]
    by (simp add: go_left_node)
qed (simp_all add: pre_loop.simps [of _ 0 _ 0] pre_loop.simps [of _ 0 _ "Suc _"])

interpretation inw: stack_walk in_loop "\<lambda>d. []" "\<lambda>d. [d]"
proof unfold_locales
  fix h :: bheap and p n st num out assume p: "p \<noteq> 0" "h p = Some n"
  show "in_loop h p st num out = (if num < STACK then in_loop h (leftchild n) (st[num := p]) (Suc num) (out @ []) else Some Wild)"
    using p in_loop.simps [of h p st num out] in_loop.simps [of h "leftchild n" "st[num := p]" "Suc num" out]
    by (simp add: go_left_node)
qed (simp_all add: in_loop.simps [of _ 0 _ 0] in_loop.simps [of _ 0 _ "Suc _"])

lemma printed_orders: "printed (\<lambda>d. [d]) (\<lambda>d. []) t = preorder t" "printed (\<lambda>d. []) (\<lambda>d. [d]) t = inorder t"
  by (induction t) simp_all

text \<open>In postorder a node stays on the stack while its right subtree is visited.\<close>

lemma post_push:
  assumes "p \<noteq> 0" "h p = Some n"
  shows "post_loop h p st num v out = (if num < STACK then post_loop h (leftchild n) (st[num := p]) (Suc num) v out else Some Wild)"
  using assms post_loop.simps [of h p st num v out] post_loop.simps [of h "leftchild n" "st[num := p]" "Suc num" v out]
  by (simp add: go_left_node)

lemma post_pop:
  assumes "h (st ! num) = Some n"
  shows "post_loop h 0 st (Suc num) v out =
    (if rightchild n = 0 \<or> v = rightchild n then post_loop h 0 st num (st ! num) (out @ [data n]) else post_loop h (rightchild n) st (Suc num) v out)"
  using assms by (simp add: post_loop.simps [of h 0 st "Suc num"])

lemma take_push:
  assumes "take (Suc num) s1 = take (Suc num) (st[num := a])" "num < length st"
  shows "s1 ! num = a" "take num s1 = take num st"
proof -
  show "s1 ! num = a" using arg_cong [OF assms(1), of "\<lambda>xs. xs ! num"] assms(2) by simp
  show "take num s1 = take num st" using arg_cong [OF assms(1), of "take num"] by (simp add: min_def)
qed

lemma post_subtree:
  assumes "tree_at h t p" "addr_distinct t" "v \<notin> set_tree t" "num \<le> STACK" "length st = STACK"
  shows "if num + height t \<le> STACK
    then \<exists>st'. length st' = STACK \<and> take num st' = take num st \<and>
      post_loop h p st num v out = post_loop h 0 st' num (if t = Leaf then v else p) (out @ postorder (keys h t))
    else post_loop h p st num v out = Some Wild"
  using assms
proof (induction t arbitrary: p num v st out)
  case Leaf
  then show ?case by auto
next
  case (Node l a r)
  obtain n where n: "p = a" "a \<noteq> 0" "h a = Some n" "tree_at h l (leftchild n)" "tree_at h r (rightchild n)"
    using Node.prems(1) by (auto split: option.splits)
  have dist: "addr_distinct l" "addr_distinct r" "v \<notin> set_tree l" "v \<notin> set_tree r" "set_tree l \<inter> set_tree r = {}" using Node.prems(2,3) by auto
  show ?case
  proof (cases "num < STACK")
    case False
    then show ?thesis using post_push [of a h n st num v out] n Node.prems(4) by (simp add: max_def)
  next
    case True
    let ?st = "st[num := a]"
    have p: "post_loop h p st num v out = post_loop h (leftchild n) ?st (Suc num) v out" using post_push n True by simp
    note L = Node.IH(1) [OF n(4) dist(1,3), of "Suc num" ?st out]
    show ?thesis
    proof (cases "Suc num + height l \<le> STACK")
      case False
      then show ?thesis using L p True Node.prems(5) by (simp add: max_def)
    next
      case le: True
      let ?v = "if l = Leaf then v else leftchild n" and ?o = "out @ postorder (keys h l)"
      obtain s1 where s1: "length s1 = STACK" "take (Suc num) s1 = take (Suc num) ?st" "post_loop h p st num v out = post_loop h 0 s1 (Suc num) ?v ?o"
        using L p True le Node.prems(5) by auto
      note t1 = take_push [OF s1(2)]
      have v: "?v \<notin> set_tree r" using dist tree_at_root(1) [OF n(4)] tree_at_root(2) [OF n(4)] by auto
      then have "?v \<noteq> rightchild n" if "rightchild n \<noteq> 0" using tree_at_root(1) [OF n(5) that] by auto
      then have q: "post_loop h p st num v out =
        (if r = Leaf then post_loop h 0 s1 num a (?o @ [data n]) else post_loop h (rightchild n) s1 (Suc num) ?v ?o)"
        using s1(3) post_pop [of h s1 num n ?v ?o] t1(1) True Node.prems(5) n(3) tree_at_root(2) [OF n(5)] by auto
      show ?thesis
      proof (cases "r = Leaf")
        case True
        then show ?thesis using q s1(1) t1 le n \<open>num < STACK\<close> Node.prems(5) by (auto simp: key_def)
      next
        case r: False
        have eq: "num + height (Node l a r) \<le> STACK \<longleftrightarrow> Suc num + height r \<le> STACK" using le by (simp add: max_def)
        note R = Node.IH(2) [OF n(5) dist(2) v, of "Suc num" s1 ?o]
        show ?thesis
        proof (cases "Suc num + height r \<le> STACK")
          case False
          then show ?thesis unfolding eq using R q r True s1(1) by simp
        next
          case ler: True
          then obtain s2 where s2: "length s2 = STACK" "take (Suc num) s2 = take (Suc num) s1"
            "post_loop h p st num v out = post_loop h 0 s2 (Suc num) (rightchild n) (?o @ postorder (keys h r))"
            using R q r True s1(1) by auto
          have t2: "s2 ! num = a" "take num s2 = take num st" using take_push [OF s2(2) [unfolded s1(2)]] True Node.prems(5) by simp_all
          then have "post_loop h p st num v out = post_loop h 0 s2 num a ((?o @ postorder (keys h r)) @ [data n])"
            using s2(3) post_pop [of h s2 num n] n(3) by simp
          then show ?thesis unfolding eq using ler s2(1) t2 n by (auto simp: key_def)
        qed
      qed
    qed
  qed
qed

section \<open>Insertion\<close>

fun tins :: "int \<Rightarrow> int tree \<Rightarrow> int tree" where
  "tins x Leaf = Node Leaf x Leaf"
| "tins x (Node l a r) = (if x < a then Node (tins x l) a r else if x > a then Node l a (tins x r) else Node l a r)"

lemma tins_set [simp]: "set_tree (tins x t) = insert x (set_tree t)"
  by (induction t) auto

lemma tins_bst: "bst t \<Longrightarrow> bst (tins x t)"
  by (induction t) auto

lemma tins_in: "bst t \<Longrightarrow> x \<in> set_tree t \<Longrightarrow> tins x t = t"
  by (induction t) auto

text \<open>The same on trees of addresses: where the walk ends and what the tree is with the new node.\<close>

fun place :: "bheap \<Rightarrow> int \<Rightarrow> nat \<Rightarrow> nat tree \<Rightarrow> nat option" where
  "place h x last_p Leaf = Some last_p"
| "place h x last_p (Node l a r) = (if x < key h a then place h x a l else if x > key h a then place h x a r else None)"

fun addr_ins :: "bheap \<Rightarrow> int \<Rightarrow> nat \<Rightarrow> nat tree \<Rightarrow> nat tree" where
  "addr_ins h x m Leaf = Node Leaf m Leaf"
| "addr_ins h x m (Node l a r) =
     (if x < key h a then Node (addr_ins h x m l) a r else if x > key h a then Node l a (addr_ins h x m r) else Node l a r)"

lemma insert_walk_place: "tree_at h t p \<Longrightarrow> insert_walk h x last_p p = Some (Ret (place h x last_p t))"
proof (induction t arbitrary: p last_p)
  case Leaf
  then show ?case by (simp add: insert_walk.simps)
next
  case (Node l a r)
  then show ?case by (auto simp: insert_walk.simps [of h x last_p a] key_def split: option.splits)
qed

lemma place_None: "bst (keys h t) \<Longrightarrow> place h x last_p t = None \<longleftrightarrow> x \<in> set_tree (keys h t)"
  by (induction t arbitrary: last_p) (auto simp: set_keys)

lemma keys_addr_ins: "key h m = x \<Longrightarrow> keys h (addr_ins h x m t) = tins x (keys h t)"
  by (induction t) auto

definition hang :: "int \<Rightarrow> nat \<Rightarrow> bnode \<Rightarrow> bnode" where
  "hang x m n = (if x < data n then n\<lparr>leftchild := m\<rparr> else n\<lparr>rightchild := m\<rparr>)"

lemma hang_data [simp]: "data (hang x m n) = data n"
  by (simp add: hang_def)

lemma upd_outside:
  assumes "c \<notin> set_tree t"
  shows "tree_at (h(c := k)) t p = tree_at h t p" "keys (h(c := k)) t = keys h t"
  using assms by (auto intro!: tree_at_cong keys_cong)

lemma tree_at_node:
  "h a = Some n \<Longrightarrow> a \<noteq> 0 \<Longrightarrow> leftchild n = b \<Longrightarrow> rightchild n = c \<Longrightarrow> tree_at h l b \<Longrightarrow> tree_at h r c \<Longrightarrow> tree_at h (Node l a r) a"
  by simp

lemma place_hang:
  assumes "tree_at h t p" "t \<noteq> Leaf" "addr_distinct t" "m \<notin> set_tree t" "m \<noteq> 0" "h m = Some \<lparr>data = x, leftchild = 0, rightchild = 0\<rparr>"
    "place h x last_p t = Some q"
  shows "\<exists>n. q \<in> set_tree t \<and> h q = Some n \<and> tree_at (h(q \<mapsto> hang x m n)) (addr_ins h x m t) p"
  using assms
proof (induction t arbitrary: p last_p)
  case (Node l a r)
  obtain n where n: "p = a" "a \<noteq> 0" "h a = Some n" "tree_at h l (leftchild n)" "tree_at h r (rightchild n)"
    using Node.prems(1) by (auto split: option.splits)
  have d: "a \<notin> set_tree l" "a \<notin> set_tree r" "set_tree l \<inter> set_tree r = {}" "addr_distinct l" "addr_distinct r" "m \<noteq> a" "m \<notin> set_tree l" "m \<notin> set_tree r"
    using Node.prems(3,4) by auto
  have key: "key h a = data n" using n by (simp add: key_def)
  note same = upd_outside(1)
  have root: "tree_at (h(a \<mapsto> k)) (Node Leaf m Leaf) m" for k using Node.prems(5,6) d(6) by simp
  consider (l) "x < data n" | (r) "x > data n" using Node.prems(7) key by fastforce
  then show ?case
  proof cases
    case l
    show ?thesis
    proof (cases "l = Leaf")
      case True
      have "q = a" using Node.prems(7) l key True by simp
      moreover have "tree_at (h(a \<mapsto> hang x m n)) r (rightchild n)" using n(5) same [OF d(2)] by simp
      then have "tree_at (h(a \<mapsto> hang x m n)) (Node (Node Leaf m Leaf) a r) a"
        by (intro tree_at_node [of _ a "hang x m n" m]) (use root l n in \<open>simp_all add: hang_def\<close>)
      ultimately show ?thesis using n l key True by (simp del: tree_at.simps fun_upd_apply)
    next
      case False
      have "place h x a l = Some q" using Node.prems(7) l key by simp
      note IH = Node.IH(1) [OF n(4) False d(4,7) Node.prems(5,6) this]
      then obtain k where k: "q \<in> set_tree l" "h q = Some k" "tree_at (h(q \<mapsto> hang x m k)) (addr_ins h x m l) (leftchild n)" by blast
      then have "q \<noteq> a" "q \<notin> set_tree r" using d by auto
      then have "tree_at (h(q \<mapsto> hang x m k)) (Node (addr_ins h x m l) a r) a" by (intro tree_at_node [OF _ n(2) refl refl k(3)]) (use n same in simp_all)
      then show ?thesis using n l key k by (simp del: tree_at.simps fun_upd_apply)
    qed
  next
    case r
    show ?thesis
    proof (cases "r = Leaf")
      case True
      have "q = a" using Node.prems(7) r key True by simp
      moreover have "tree_at (h(a \<mapsto> hang x m n)) l (leftchild n)" using n(4) same [OF d(1)] by simp
      then have "tree_at (h(a \<mapsto> hang x m n)) (Node l a (Node Leaf m Leaf)) a"
        by (intro tree_at_node [of _ a "hang x m n" _ m]) (use root r n in \<open>simp_all add: hang_def\<close>)
      ultimately show ?thesis using n r key True by (simp del: tree_at.simps fun_upd_apply)
    next
      case False
      have "place h x a r = Some q" using Node.prems(7) r key by simp
      note IH = Node.IH(2) [OF n(5) False d(5,8) Node.prems(5,6) this]
      then obtain k where k: "q \<in> set_tree r" "h q = Some k" "tree_at (h(q \<mapsto> hang x m k)) (addr_ins h x m r) (rightchild n)" by blast
      then have "q \<noteq> a" "q \<notin> set_tree l" using d by auto
      then have "tree_at (h(q \<mapsto> hang x m k)) (Node l a (addr_ins h x m r)) a" by (intro tree_at_node [OF _ n(2) refl refl _ k(3)]) (use n same in simp_all)
      then show ?thesis using n r key k by (simp del: tree_at.simps fun_upd_apply)
    qed
  qed
qed simp

lemma InsertNode_inserts:
  assumes "tree_at h t root" "root \<noteq> 0" "bst (keys h t)" "m \<noteq> 0" "m \<notin> dom h"
  shows "\<exists>h' t'. InsertNode m root x h = Some (Ret h') \<and> tree_at h' t' root \<and> keys h' t' = tins x (keys h t) \<and> dom h' \<subseteq> insert m (dom h)"
proof -
  let ?h = "h(m \<mapsto> \<lparr>data = x, leftchild = 0, rightchild = 0\<rparr>)"
  have m: "m \<notin> set_tree t" using tree_at_dom [OF assms(1)] assms(5) by blast
  have t: "tree_at ?h t root" "keys ?h t = keys h t"
    using assms(1) by (simp_all add: upd_outside [OF m])
  have nl: "t \<noteq> Leaf" using assms(1,2) by auto
  have w: "insert_walk ?h x 0 root = Some (Ret (place ?h x 0 t))" by (rule insert_walk_place [OF t(1)])
  show ?thesis
  proof (cases "place ?h x 0 t")
    case None
    have "x \<in> set_tree (keys h t)" using None place_None [of ?h t x 0] t(2) assms(3) by simp
    moreover have "?h(m := None) = h" using assms(5) by (auto simp: fun_eq_iff)
    ultimately show ?thesis using w None assms(1,3,4) by (auto simp: InsertNode_def Let_def tins_in)
  next
    case (Some q)
    have "addr_distinct t" by (rule bst_distinct [OF assms(3)])
    then obtain n where n: "q \<in> set_tree t" "?h q = Some n" "tree_at (?h(q \<mapsto> hang x m n)) (addr_ins ?h x m t) root"
      using place_hang [OF t(1) nl _ m assms(4) _ Some] by auto
    have "keys (?h(q \<mapsto> hang x m n)) (addr_ins ?h x m t) = keys ?h (addr_ins ?h x m t)" using n(2) by (intro keys_cong) (auto split: if_splits)
    also have "\<dots> = tins x (keys h t)" using keys_addr_ins [of ?h m x t] t(2) by (simp add: key_def)
    finally have "keys (?h(q \<mapsto> hang x m n)) (addr_ins ?h x m t) = tins x (keys h t)" .
    moreover have "InsertNode m root x h = Some (Ret (?h(q \<mapsto> hang x m n)))"
      using w Some n(2) assms(4) unfolding InsertNode_def Let_def by (simp add: hang_def)
    moreover have "dom (?h(q \<mapsto> hang x m n)) \<subseteq> insert m (dom h)" using n(1) tree_at_dom [OF assms(1)] by auto
    ultimately show ?thesis using n(3) by blast
  qed
qed

text \<open>What \<^verbatim>\<open>malloc\<close> promises when it succeeds.\<close>

definition fresh_alloc :: "(bheap \<Rightarrow> nat) \<Rightarrow> bool" where
  "fresh_alloc alloc \<longleftrightarrow> (\<forall>h. finite (dom h) \<longrightarrow> alloc h \<noteq> 0 \<and> alloc h \<notin> dom h)"

definition tins_all :: "(int \<times> bool) list \<Rightarrow> int tree \<Rightarrow> int tree" where
  "tins_all ds t = fold (\<lambda>(d, ok) t. if ok then tins d t else t) ds t"

lemma tins_all_simps [simp]: "tins_all [] t = t" "tins_all ((d, ok) # ds) t = tins_all ds (if ok then tins d t else t)"
  by (simp_all add: tins_all_def)

lemma tins_all_bst: "bst t \<Longrightarrow> bst (tins_all ds t)"
  by (induction ds arbitrary: t) (auto simp: tins_bst)

lemma tins_all_set: "set_tree (tins_all ds t) = {d. (d, True) \<in> set ds} \<union> set_tree t"
  by (induction ds arbitrary: t) (auto split: if_splits)

lemma create_builds:
  assumes "fresh_alloc alloc"
  shows "tree_at h t root \<Longrightarrow> bst (keys h t) \<Longrightarrow> finite (dom h) \<Longrightarrow>
    \<exists>root' h' t'. CreatBinarySearchTree alloc root ds h = Some (Ret (root', h')) \<and> tree_at h' t' root' \<and> keys h' t' = tins_all ds (keys h t)"
proof (induction ds arbitrary: h t root)
  case Nil
  then show ?case by auto
next
  case (Cons e ds)
  obtain d ok where e: "e = (d, ok)" by (cases e)
  let ?m = "alloc h"
  have m: "?m \<noteq> 0" "?m \<notin> dom h" using assms Cons.prems(3) by (auto simp: fresh_alloc_def)
  show ?case
  proof (cases ok)
    case False
    then have "CreatBinarySearchTree alloc root (e # ds) h = CreatBinarySearchTree alloc root ds h"
      by (auto simp: e malloc_def InitBinaryTree_def InsertNode_def)
    then show ?thesis using Cons.IH [OF Cons.prems] False e by simp
  next
    case ok: True
    show ?thesis
    proof (cases "root = 0")
      case True
      let ?h = "h(?m \<mapsto> \<lparr>data = d, leftchild = 0, rightchild = 0\<rparr>)"
      have t: "t = Leaf" using Cons.prems(1) True by (cases t) auto
      have k: "tree_at ?h (Node Leaf ?m Leaf) ?m" "keys ?h (Node Leaf ?m Leaf) = Node Leaf d Leaf" using m by (simp_all add: key_def)
      have b: "bst (keys ?h (Node Leaf ?m Leaf))" "finite (dom ?h)" "tins_all (e # ds) (keys h t) = tins_all ds (keys ?h (Node Leaf ?m Leaf))"
        unfolding k(2) using Cons.prems(3) t e ok by simp_all
      have "CreatBinarySearchTree alloc root (e # ds) h = CreatBinarySearchTree alloc ?m ds ?h"
        using True ok m by (simp add: e malloc_def InitBinaryTree_def)
      then show ?thesis unfolding b(3) by (simp only:) (rule Cons.IH [OF k(1) b(1,2)])
    next
      case False
      obtain h' t' where i: "InsertNode ?m root d h = Some (Ret h')" "tree_at h' t' root" "keys h' t' = tins d (keys h t)" "dom h' \<subseteq> insert ?m (dom h)"
        using InsertNode_inserts [OF Cons.prems(1) False Cons.prems(2) m, of d] by auto
      have "bst (keys h' t')" "finite (dom h')" using i(3,4) Cons.prems(2,3) tins_bst finite_subset by (auto intro: finite_subset)
      then show ?thesis using Cons.IH [OF i(2)] i False e ok by (simp add: malloc_def)
    qed
  qed
qed

section \<open>Properties\<close>

text \<open>
  C24. \<^verbatim>\<open>CreatBinarySearchTree\<close>, started without a root, never follows a wild pointer and ends, and what
  it builds is a binary search tree of exactly the elements for which \<^verbatim>\<open>malloc\<close> succeeded, so that
  \<^verbatim>\<open>InOrderRec\<close> prints these elements in ascending order, each once, for every sequence of elements and of
  failing allocations (the first of which may leave the root empty for a while).
\<close>

theorem bin_tree_builds_set:
  assumes "fresh_alloc alloc" "finite (dom h)"
  shows "\<exists>root h' t. CreatBinarySearchTree alloc 0 ds h = Some (Ret (root, h')) \<and> tree_at h' t root \<and> bst (keys h' t) \<and>
    set_tree (keys h' t) = {d. (d, True) \<in> set ds} \<and> InOrderRec h' root = Some (Ret (sorted_list_of_set {d. (d, True) \<in> set ds}))"
proof -
  obtain root h' t where c: "CreatBinarySearchTree alloc 0 ds h = Some (Ret (root, h'))" "tree_at h' t root" "keys h' t = tins_all ds Leaf"
    using create_builds [OF assms(1), of h Leaf 0 ds] assms(2) by auto
  have b: "bst (keys h' t)" "set_tree (keys h' t) = {d. (d, True) \<in> set ds}" unfolding c(3) by (simp_all add: tins_all_bst tins_all_set)
  have "inorder (keys h' t) = sorted_list_of_set (set (inorder (keys h' t)))"
    using b(1) bst_iff_sorted_wrt_less [of "keys h' t"] strict_sorted_equal by (metis sorted_list_of_set.idem_if_sorted_distinct strict_sorted_iff)
  then have "InOrderRec h' root = Some (Ret (sorted_list_of_set {d. (d, True) \<in> set ds}))"
    using rec_traversals(2) [OF c(2)] b(2) by simp
  then show ?thesis using c(1,2) b by blast
qed

definition next_addr :: "bheap \<Rightarrow> nat" where
  "next_addr h = Suc (Max (insert 0 (dom h)))"

lemma next_addr_fresh: "fresh_alloc next_addr"
  unfolding fresh_alloc_def next_addr_def
  by (metis Max_ge Suc_n_not_le_n finite_insert insertCI nat.distinct(1))

theorem bin_tree_builds_set_witness:
  "\<exists>root h'. CreatBinarySearchTree next_addr 0 [(7, False), (5, True), (2, True), (5, True), (8, True)] Map.empty = Some (Ret (root, h')) \<and>
    InOrderRec h' root = Some (Ret [2, 5, 8])"
proof -
  have s: "{d. (d, True) \<in> set [(7, False), (5, True), (2, True), (5, True), (8, True)]} = {2, 5, 8::int}" by auto
  show ?thesis using bin_tree_builds_set [OF next_addr_fresh, of Map.empty "[(7, False), (5, True), (2, True), (5, True), (8, True)]"]
    unfolding s by auto
qed

text \<open>
  C38. On every search tree, each traversal with a stack prints exactly what the recursive one prints, and
  ends, as long as its array of thirty pointers is large enough; and exactly when it is not, the loop
  writes beyond it. Preorder and inorder need a place for each step to the left on a path, postorder
  one for each node on a path.
\<close>

theorem bin_tree_stack_exact:
  assumes "tree_at h t root" "bst (keys h t)" "length junk = STACK"
  shows "PreOrderNoRec junk h root = (if left_height t \<le> 30 then PreOrderRec h root else Some Wild) \<and>
    InOrderNoRec junk h root = (if left_height t \<le> 30 then InOrderRec h root else Some Wild) \<and>
    PostOrderNoRec junk h root = (if height t \<le> 30 then PostOrderRec h root else Some Wild)"
proof -
  note r = rec_traversals [OF assms(1)]
  have "0 \<notin> set_tree t" using tree_at_dom [OF assms(1)] by simp
  note p = post_subtree [OF assms(1) bst_distinct [OF assms(2)] this _ assms(3), of 0 "[]"]
  have "post_loop h 0 st 0 v out = Some (Ret out)" for st v out by (simp add: post_loop.simps)
  then have "PostOrderNoRec junk h root = (if height t \<le> 30 then PostOrderRec h root else Some Wild)"
    using p r(3) by (auto simp: PostOrderNoRec_def STACK_def split: if_splits)
  then show ?thesis using prew.walk [OF assms(1,3)] inw.walk [OF assms(1,3)] r
    by (simp add: PreOrderNoRec_def InOrderNoRec_def printed_orders STACK_def)
qed

theorem bin_tree_stack_exact_witness:
  "PostOrderNoRec (replicate 30 0) [1 \<mapsto> \<lparr>data = 5, leftchild = 2, rightchild = 3\<rparr>, 2 \<mapsto> \<lparr>data = 2, leftchild = 0, rightchild = 0\<rparr>,
     3 \<mapsto> \<lparr>data = 8, leftchild = 0, rightchild = 0\<rparr>] 1 = Some (Ret [2, 8, 5])"
proof -
  let ?h = "[1 \<mapsto> \<lparr>data = 5, leftchild = 2, rightchild = 3\<rparr>, 2 \<mapsto> \<lparr>data = 2, leftchild = 0, rightchild = 0\<rparr>,
     3 \<mapsto> \<lparr>data = 8, leftchild = 0, rightchild = 0\<rparr>] :: bheap"
  let ?t = "Node (Node Leaf 2 Leaf) 1 (Node Leaf (3::nat) Leaf)"
  have t: "tree_at ?h ?t 1" "bst (keys ?h ?t)" by (simp_all add: key_def)
  show ?thesis using bin_tree_stack_exact [OF t, of "replicate 30 0"] rec_traversals(3) [OF t(1)] by (simp add: STACK_def key_def)
qed

end
