(* ===== verification/Line_Io.thy ===== *)
theory Line_Io
  imports Restart
begin

text \<open>
  Reading and writing exactly so many bytes, and reading lines, in the libraries of the textbooks:
  \<^verbatim>\<open>readn\<close> and \<^verbatim>\<open>writen\<close> of \<^verbatim>\<open>unpv13e/lib\<close>, \<^verbatim>\<open>apue.3e/lib\<close> and \<^verbatim>\<open>tlpi-dist/sockets/rdwrn.c\<close>, the buffered \<^verbatim>\<open>readline\<close> of
  \<^verbatim>\<open>unpv13e/lib\<close> and \<^verbatim>\<open>unpv22e/lib\<close>, and \<^verbatim>\<open>read_line.c\<close> and \<^verbatim>\<open>read_line_buf.c\<close> of \<^verbatim>\<open>tlpi-dist/sockets\<close>. The
  descriptor and the answers of the kernel are those of the restart library.
\<close>

section \<open>Exactly n bytes\<close>

text \<open>\<open>got\<close> is what the buffer holds so far; what is returned is its length, or -1 with \<^verbatim>\<open>errno\<close>.\<close>

partial_function (option) unp_readn_loop :: "nat \<Rightarrow> string \<Rightarrow> fds \<Rightarrow> ((errno + string) \<times> fds) option" where
  "unp_readn_loop nleft got w =
     (if nleft > 0 then
        (case sys_read nleft w of
           None \<Rightarrow> None
         | Some (r, w') \<Rightarrow>
             (case r of
                Inl e \<Rightarrow> if e = EINTR then unp_readn_loop nleft got w' else Some (Inl e, w')
              | Inr bs \<Rightarrow> if bs = [] then Some (Inr got, w') else unp_readn_loop (nleft - length bs) (got @ bs) w'))
      else Some (Inr got, w))"

definition unp_readn :: "nat \<Rightarrow> fds \<Rightarrow> ((errno + string) \<times> fds) option" where
  "unp_readn n w = unp_readn_loop n [] w"

partial_function (option) tlpi_readn_loop :: "nat \<Rightarrow> string \<Rightarrow> fds \<Rightarrow> ((errno + string) \<times> fds) option" where
  "tlpi_readn_loop n got w =
     (if length got < n then
        (case sys_read (n - length got) w of
           None \<Rightarrow> None
         | Some (r, w') \<Rightarrow>
             (case r of
                Inl e \<Rightarrow> if e = EINTR then tlpi_readn_loop n got w' else Some (Inl e, w')
              | Inr bs \<Rightarrow> if bs = [] then Some (Inr got, w') else tlpi_readn_loop n (got @ bs) w'))
      else Some (Inr got, w))"

definition tlpi_readn :: "nat \<Rightarrow> fds \<Rightarrow> ((errno + string) \<times> fds) option" where
  "tlpi_readn n w = tlpi_readn_loop n [] w"

partial_function (option) apue_readn_loop :: "nat \<Rightarrow> nat \<Rightarrow> string \<Rightarrow> fds \<Rightarrow> ((errno + string) \<times> fds) option" where
  "apue_readn_loop n nleft got w =
     (if nleft > 0 then
        (case sys_read nleft w of
           None \<Rightarrow> None
         | Some (r, w') \<Rightarrow>
             (case r of
                Inl e \<Rightarrow> if nleft = n then Some (Inl e, w') else Some (Inr got, w')
              | Inr bs \<Rightarrow> if bs = [] then Some (Inr got, w') else apue_readn_loop n (nleft - length bs) (got @ bs) w'))
      else Some (Inr got, w))"

definition apue_readn :: "nat \<Rightarrow> fds \<Rightarrow> ((errno + string) \<times> fds) option" where
  "apue_readn n w = apue_readn_loop n n [] w"

text \<open>
  \<open>bs\<close> is what is left to write and \<open>t\<close> what was written; \<open>e0\<close> is the \<^verbatim>\<open>errno\<close> of before, for a \<^verbatim>\<open>write\<close> that
  returns 0.
\<close>

partial_function (option) unp_writen_loop :: "errno \<Rightarrow> string \<Rightarrow> nat \<Rightarrow> fds \<Rightarrow> ((errno + nat) \<times> fds) option" where
  "unp_writen_loop e0 bs t w =
     (if bs \<noteq> [] then
        (case sys_write bs w of
           None \<Rightarrow> None
         | Some (r, w') \<Rightarrow>
             (case r of
                Inl e \<Rightarrow> if e = EINTR then unp_writen_loop e bs t w' else Some (Inl e, w')
              | Inr m \<Rightarrow> if m = 0 then Some (Inl e0, w') else unp_writen_loop e0 (drop m bs) (t + m) w'))
      else Some (Inr t, w))"

definition unp_writen :: "errno \<Rightarrow> string \<Rightarrow> fds \<Rightarrow> ((errno + nat) \<times> fds) option" where
  "unp_writen e0 bs w = unp_writen_loop e0 bs 0 w"

text \<open>Here \<open>buf\<close> is all that is to be written.\<close>

partial_function (option) tlpi_writen_loop :: "errno \<Rightarrow> string \<Rightarrow> nat \<Rightarrow> fds \<Rightarrow> ((errno + nat) \<times> fds) option" where
  "tlpi_writen_loop e0 buf totWritten w =
     (if totWritten < length buf then
        (case sys_write (drop totWritten buf) w of
           None \<Rightarrow> None
         | Some (r, w') \<Rightarrow>
             (case r of
                Inl e \<Rightarrow> if e = EINTR then tlpi_writen_loop e buf totWritten w' else Some (Inl e, w')
              | Inr m \<Rightarrow> if m = 0 then Some (Inl e0, w') else tlpi_writen_loop e0 buf (totWritten + m) w'))
      else Some (Inr totWritten, w))"

definition tlpi_writen :: "errno \<Rightarrow> string \<Rightarrow> fds \<Rightarrow> ((errno + nat) \<times> fds) option" where
  "tlpi_writen e0 bs w = tlpi_writen_loop e0 bs 0 w"

partial_function (option) apue_writen_loop :: "nat \<Rightarrow> string \<Rightarrow> nat \<Rightarrow> fds \<Rightarrow> ((errno + nat) \<times> fds) option" where
  "apue_writen_loop n bs t w =
     (if bs \<noteq> [] then
        (case sys_write bs w of
           None \<Rightarrow> None
         | Some (r, w') \<Rightarrow>
             (case r of
                Inl e \<Rightarrow> if length bs = n then Some (Inl e, w') else Some (Inr t, w')
              | Inr m \<Rightarrow> if m = 0 then Some (Inr t, w') else apue_writen_loop n (drop m bs) (t + m) w'))
      else Some (Inr t, w))"

definition apue_writen :: "string \<Rightarrow> fds \<Rightarrow> ((errno + nat) \<times> fds) option" where
  "apue_writen bs w = apue_writen_loop (length bs) bs 0 w"

section \<open>Lines through a buffer\<close>

text \<open>The static variables of \<^verbatim>\<open>readline.c\<close>; \<open>read_ptr\<close> is an index, and \<open>chan\<close> the descriptor.\<close>

record rline =
  chan :: fds
  read_cnt :: int
  read_ptr :: nat
  read_buf :: string

definition MAXLINE :: nat where "MAXLINE = 4096"

text \<open>The next byte, \<open>None\<close> at the end of the file.\<close>

definition my_read :: "rline \<Rightarrow> ((errno + char option) \<times> rline) option" where
  "my_read st =
     (if read_cnt st \<le> 0 then
        (case r_read MAXLINE (chan st) of
           None \<Rightarrow> None
         | Some (Inl e, w) \<Rightarrow> Some (Inl e, st\<lparr>chan := w, read_cnt := -1\<rparr>)
         | Some (Inr bs, w) \<Rightarrow>
             if bs = [] then Some (Inr None, st\<lparr>chan := w, read_cnt := 0\<rparr>)
             else Some (Inr (Some (bs ! 0)), \<lparr>chan = w, read_cnt = int (length bs) - 1, read_ptr = 1, read_buf = bs\<rparr>))
      else Some (Inr (Some (read_buf st ! read_ptr st)), st\<lparr>read_cnt := read_cnt st - 1, read_ptr := read_ptr st + 1\<rparr>))"

text \<open>
  The loops of \<^verbatim>\<open>readline\<close> over \<open>n\<close>, for a function that gives the next byte; the result is what is
  returned and what is in the buffer before the null byte.
\<close>

function unp13_loop :: "('s \<Rightarrow> ((errno + char option) \<times> 's) option) \<Rightarrow> nat \<Rightarrow> nat \<Rightarrow> string \<Rightarrow> 's \<Rightarrow> ((errno + nat \<times> string) \<times> 's) option" where
  "unp13_loop rd maxlen n got st =
     (if n < maxlen then
        (case rd st of
           None \<Rightarrow> None
         | Some (Inl e, st) \<Rightarrow> Some (Inl e, st)
         | Some (Inr None, st) \<Rightarrow> Some (Inr (n - 1, got), st)
         | Some (Inr (Some c), st) \<Rightarrow>
             if c = CHR 0x0A then Some (Inr (n, got @ [c]), st) else unp13_loop rd maxlen (n + 1) (got @ [c]) st)
      else Some (Inr (n, got), st))"
  by pat_completeness auto
termination by (relation "measure (\<lambda>(rd, maxlen, n, got, st). maxlen - n)") auto

function unp22_loop :: "('s \<Rightarrow> ((errno + char option) \<times> 's) option) \<Rightarrow> nat \<Rightarrow> nat \<Rightarrow> string \<Rightarrow> 's \<Rightarrow> ((errno + nat \<times> string) \<times> 's) option" where
  "unp22_loop rd maxlen n got st =
     (if n < maxlen then
        (case rd st of
           None \<Rightarrow> None
         | Some (Inl e, st) \<Rightarrow> Some (Inl e, st)
         | Some (Inr None, st) \<Rightarrow> if n = 1 then Some (Inr (0, got), st) else Some (Inr (n, got), st)
         | Some (Inr (Some c), st) \<Rightarrow>
             if c = CHR 0x0A then Some (Inr (n, got @ [c]), st) else unp22_loop rd maxlen (n + 1) (got @ [c]) st)
      else Some (Inr (n, got), st))"
  by pat_completeness auto
termination by (relation "measure (\<lambda>(rd, maxlen, n, got, st). maxlen - n)") auto

declare unp13_loop.simps [simp del] unp22_loop.simps [simp del]

definition unp13_readline :: "nat \<Rightarrow> rline \<Rightarrow> ((errno + nat \<times> string) \<times> rline) option" where
  "unp13_readline maxlen st = unp13_loop my_read maxlen 1 [] st"

definition unp22_readline :: "nat \<Rightarrow> rline \<Rightarrow> ((errno + nat \<times> string) \<times> rline) option" where
  "unp22_readline maxlen st = unp22_loop my_read maxlen 1 [] st"

definition readlinebuf :: "rline \<Rightarrow> int \<times> nat option" where
  "readlinebuf st = (read_cnt st, if read_cnt st \<noteq> 0 then Some (read_ptr st) else None)"

section \<open>Lines without a limit on the input\<close>

text \<open>What \<^verbatim>\<open>readLine\<close> puts into the buffer, without the null byte; its length is what is returned.\<close>

partial_function (option) readLine_loop :: "nat \<Rightarrow> string \<Rightarrow> fds \<Rightarrow> ((errno + string) \<times> fds) option" where
  "readLine_loop n buf w =
     (case sys_read 1 w of
        None \<Rightarrow> None
      | Some (r, w') \<Rightarrow>
          (case r of
             Inl e \<Rightarrow> if e = EINTR then readLine_loop n buf w' else Some (Inl e, w')
           | Inr bs \<Rightarrow>
               if bs = [] then Some (Inr buf, w')
               else
                 let buf = (if length buf < n - 1 then buf @ [hd bs] else buf) in
                 if hd bs = CHR 0x0A then Some (Inr buf, w') else readLine_loop n buf w'))"

definition readLine :: "nat \<Rightarrow> fds \<Rightarrow> ((errno + string) \<times> fds) option" where
  "readLine n w = (if n = 0 then Some (Inl EINVAL, w) else readLine_loop n [] w)"

record ReadLineBuf =
  rl_chan :: fds
  rl_buf :: string
  rl_next :: int
  rl_len :: int

definition RL_MAX_BUF :: nat where "RL_MAX_BUF = 10"

definition readLineBufInit :: "fds \<Rightarrow> string \<Rightarrow> ReadLineBuf" where
  "readLineBufInit fd junk = \<lparr>rl_chan = fd, rl_buf = junk, rl_next = 0, rl_len = 0\<rparr>"

text \<open>The part of the loop that obtains the next byte.\<close>

definition rl_fetch :: "ReadLineBuf \<Rightarrow> ((errno + char option) \<times> ReadLineBuf) option" where
  "rl_fetch b =
     (if rl_next b \<ge> rl_len b then
        (case sys_read RL_MAX_BUF (rl_chan b) of
           None \<Rightarrow> None
         | Some (Inl e, w) \<Rightarrow> Some (Inl e, b\<lparr>rl_chan := w, rl_len := -1\<rparr>)
         | Some (Inr bs, w) \<Rightarrow>
             if bs = [] then Some (Inr None, b\<lparr>rl_chan := w, rl_len := 0\<rparr>)
             else Some (Inr (Some (bs ! 0)), \<lparr>rl_chan = w, rl_buf = bs, rl_next = 1, rl_len = int (length bs)\<rparr>))
      else Some (Inr (Some (rl_buf b ! nat (rl_next b))), b\<lparr>rl_next := rl_next b + 1\<rparr>))"

partial_function (option) readLineBuf_loop ::
  "('s \<Rightarrow> ((errno + char option) \<times> 's) option) \<Rightarrow> nat \<Rightarrow> string \<Rightarrow> 's \<Rightarrow> ((errno + string) \<times> 's) option" where
  "readLineBuf_loop fetch n buf b =
     (case fetch b of
        None \<Rightarrow> None
      | Some (r, b') \<Rightarrow>
          (case r of
             Inl e \<Rightarrow> Some (Inl e, b')
           | Inr None \<Rightarrow> Some (Inr buf, b')
           | Inr (Some c) \<Rightarrow>
               let buf = (if length buf < n then buf @ [c] else buf) in
               if c = CHR 0x0A then Some (Inr buf, b') else readLineBuf_loop fetch n buf b'))"

definition readLineBuf :: "nat \<Rightarrow> ReadLineBuf \<Rightarrow> ((errno + string) \<times> ReadLineBuf) option" where
  "readLineBuf n b = (if n = 0 then Some (Inl EINVAL, b) else readLineBuf_loop rl_fetch n [] b)"

end
