(* ===== verification/Line_Io_Props.thy ===== *)
theory Line_Io_Props
  imports Line_Io
begin

text \<open>
  Properties of the functions that read lines and numbers of bytes: however the kernel divides and
  interrupts the input, the line readers of three books give the same lines; where their results are
  wrong; and the functions for n bytes.
\<close>

section \<open>Lines\<close>

text \<open>The first line of a text with its newline, if it has one, and all lines.\<close>

fun line_of :: "string \<Rightarrow> string" where
  "line_of [] = []"
| "line_of (c # cs) = (if c = CHR 0x0A then [c] else c # line_of cs)"

lemma line_of_length: "s \<noteq> [] \<Longrightarrow> 0 < length (line_of s)" "length (line_of s) \<le> length s"
  by (induction s) auto

function lines_of :: "string \<Rightarrow> string list" where
  "lines_of s = (if s = [] then [] else line_of s # lines_of (drop (length (line_of s)) s))"
  by pat_completeness auto
termination
proof (relation "measure length")
  show "(drop (length (line_of s)) s, s) \<in> measure length" if "s \<noteq> []" for s using that line_of_length(1) [OF that] by (cases s) auto
qed simp

declare lines_of.simps [simp del]

lemma lines_of_Nil [simp]: "lines_of [] = []"
  by (simp add: lines_of.simps)

section \<open>A source of bytes\<close>

text \<open>
  What the loops rely on: as long as the state is \<open>ok k\<close>, the next byte of the rest comes, or, up to \<open>k\<close>
  times, the end of the file.
\<close>

locale byte_source =
  fixes getb :: "'s \<Rightarrow> ((errno + char option) \<times> 's) option" and rest :: "'s \<Rightarrow> string" and ok :: "nat \<Rightarrow> 's \<Rightarrow> bool"
  assumes get_char: "ok k s \<Longrightarrow> rest s = c # cs \<Longrightarrow> \<exists>s'. getb s = Some (Inr (Some c), s') \<and> rest s' = cs \<and> ok k s'"
    and get_end: "ok (Suc k) s \<Longrightarrow> rest s = [] \<Longrightarrow> \<exists>s'. getb s = Some (Inr None, s') \<and> rest s' = [] \<and> ok k s'"
    and ok_less: "ok (Suc k) s \<Longrightarrow> ok k s"
begin

text \<open>
  \<open>b\<close> is the room in the buffer. The count that is returned is right unless the line does not fit, or
  fills the buffer without a newline.
\<close>

lemma unp13_ok:
  assumes "ok (Suc k) s" "1 \<le> n" "n \<le> maxlen"
  shows "let l = line_of (rest s); b = maxlen - n in
    \<exists>s'. unp13_loop getb maxlen n got s =
        Some (Inr (if length l < b \<or> length l = b \<and> l \<noteq> [] \<and> last l = CHR 0x0A then n - 1 + length l else maxlen, got @ take b l), s') \<and>
      rest s' = drop (length (take b l)) (rest s) \<and> ok k s'"
  using assms
proof (induction "rest s" arbitrary: s n got)
  case Nil
  show ?case
  proof (cases "n < maxlen")
    case True
    obtain s' where "getb s = Some (Inr None, s')" "rest s' = []" "ok k s'" using get_end [OF Nil.prems(1)] Nil.hyps by auto
    then show ?thesis using True Nil.hyps [symmetric] by (simp add: unp13_loop.simps)
  next
    case False
    then show ?thesis using Nil ok_less by (simp add: unp13_loop.simps)
  qed
next
  case (Cons c cs)
  show ?case
  proof (cases "n < maxlen")
    case False
    then show ?thesis using Cons.prems ok_less by (auto simp add: unp13_loop.simps Let_def)
  next
    case n: True
    obtain s1 where s1: "getb s = Some (Inr (Some c), s1)" "rest s1 = cs" "ok (Suc k) s1"
      using get_char [OF Cons.prems(1) Cons.hyps(2) [symmetric]] by auto
    show ?thesis
    proof (cases "c = CHR 0x0A")
      case True
      then show ?thesis using n s1 Cons.prems Cons.hyps(2) [symmetric] ok_less by (auto simp add: unp13_loop.simps Let_def)
    next
      case False
      have "unp13_loop getb maxlen n got s = unp13_loop getb maxlen (n + 1) (got @ [c]) s1"
        using n s1 False by (simp add: unp13_loop.simps [of getb maxlen n])
      moreover have b: "maxlen - n = Suc (maxlen - (n + 1))" using n by simp
      ultimately show ?thesis
        using Cons.hyps(1) [of s1 "n + 1" "got @ [c]"] s1 n Cons.prems Cons.hyps(2) [symmetric] False
        unfolding Let_def b by (auto simp: b)
    qed
  qed
qed

text \<open>The older version counts one byte too many in a last line without a newline as well.\<close>

lemma unp22_ok:
  assumes "ok (Suc k) s" "1 \<le> n" "n \<le> maxlen"
  shows "let l = line_of (rest s); b = maxlen - n in
    \<exists>s'. unp22_loop getb maxlen n got s =
        Some (Inr (if length l \<le> b \<and> l \<noteq> [] \<and> last l = CHR 0x0A then n - 1 + length l
                   else if length l < b then (if l = [] \<and> n = 1 then 0 else n + length l) else maxlen, got @ take b l), s') \<and>
      rest s' = drop (length (take b l)) (rest s) \<and> ok k s'"
  using assms
proof (induction "rest s" arbitrary: s n got)
  case Nil
  show ?case
  proof (cases "n < maxlen")
    case True
    obtain s' where "getb s = Some (Inr None, s')" "rest s' = []" "ok k s'" using get_end [OF Nil.prems(1)] Nil.hyps by auto
    then show ?thesis using True Nil.hyps [symmetric] by (simp add: unp22_loop.simps)
  next
    case False
    then show ?thesis using Nil ok_less by (simp add: unp22_loop.simps)
  qed
next
  case (Cons c cs)
  show ?case
  proof (cases "n < maxlen")
    case False
    then show ?thesis using Cons.prems ok_less by (auto simp add: unp22_loop.simps Let_def)
  next
    case n: True
    obtain s1 where s1: "getb s = Some (Inr (Some c), s1)" "rest s1 = cs" "ok (Suc k) s1"
      using get_char [OF Cons.prems(1) Cons.hyps(2) [symmetric]] by auto
    show ?thesis
    proof (cases "c = CHR 0x0A")
      case True
      then show ?thesis using n s1 Cons.prems Cons.hyps(2) [symmetric] ok_less by (auto simp add: unp22_loop.simps Let_def)
    next
      case False
      have "unp22_loop getb maxlen n got s = unp22_loop getb maxlen (n + 1) (got @ [c]) s1"
        using n s1 False by (simp add: unp22_loop.simps [of getb maxlen n])
      moreover have b: "maxlen - n = Suc (maxlen - (n + 1))" using n by simp
      ultimately show ?thesis
        using Cons.hyps(1) [of s1 "n + 1" "got @ [c]"] s1 n Cons.prems Cons.hyps(2) [symmetric] False
        unfolding Let_def b by (auto simp: b)
    qed
  qed
qed

lemma readLineBuf_ok:
  assumes "ok (Suc k) s" "length buf \<le> n"
  shows "\<exists>s'. readLineBuf_loop getb n buf s = Some (Inr (take n (buf @ line_of (rest s))), s') \<and>
    rest s' = drop (length (line_of (rest s))) (rest s) \<and> ok k s'"
  using assms
proof (induction "rest s" arbitrary: s buf)
  case Nil
  obtain s' where "getb s = Some (Inr None, s')" "rest s' = []" "ok k s'" using get_end [OF Nil.prems(1)] Nil.hyps by auto
  then show ?case using Nil.hyps [symmetric] Nil.prems by (simp add: readLineBuf_loop.simps)
next
  case (Cons c cs)
  obtain s1 where s1: "getb s = Some (Inr (Some c), s1)" "rest s1 = cs" "ok (Suc k) s1"
    using get_char [OF Cons.prems(1) Cons.hyps(2) [symmetric]] by auto
  let ?b = "if length buf < n then buf @ [c] else buf"
  have t: "take n (?b @ x) = take n (buf @ c # x)" for x using Cons.prems(2) by (auto simp: take_Cons')
  show ?case
  proof (cases "c = CHR 0x0A")
    case True
    then show ?thesis using s1 Cons.prems(2) Cons.hyps(2) [symmetric] ok_less by (auto simp: readLineBuf_loop.simps)
  next
    case False
    have "readLineBuf_loop getb n buf s = readLineBuf_loop getb n ?b s1"
      using s1 False by (simp add: readLineBuf_loop.simps [of getb n buf])
    then show ?thesis using Cons.hyps(1) [of s1 ?b] s1 Cons.prems(2) Cons.hyps(2) [symmetric] False t [of "line_of cs"]
      by (auto simp: if_distrib)
  qed
qed

end

section \<open>The buffers are sources\<close>

definition rline_rest :: "rline \<Rightarrow> string" where
  "rline_rest st = take (nat (read_cnt st)) (drop (read_ptr st) (read_buf st)) @ pending (chan st)"

definition rline_ok :: "nat \<Rightarrow> rline \<Rightarrow> bool" where
  "rline_ok k st \<longleftrightarrow> benign (answers (chan st)) \<and> length (pending (chan st)) + k \<le> moves (answers (chan st)) \<and>
     (read_cnt st > 0 \<longrightarrow> read_ptr st + nat (read_cnt st) \<le> length (read_buf st))"

lemma my_read_cached:
  assumes "rline_ok k st" "read_cnt st > 0" "rline_rest st = c # cs"
  shows "\<exists>st'. my_read st = Some (Inr (Some c), st') \<and> rline_rest st' = cs \<and> rline_ok k st'"
proof -
  obtain n where n: "nat (read_cnt st) = Suc n" using assms(2) by (cases "nat (read_cnt st)") auto
  have l: "read_ptr st < length (read_buf st)" using assms(1,2) by (auto simp: rline_ok_def)
  let ?st = "st\<lparr>read_cnt := read_cnt st - 1, read_ptr := read_ptr st + 1\<rparr>"
  have d: "drop (read_ptr st) (read_buf st) = read_buf st ! read_ptr st # drop (read_ptr st + 1) (read_buf st)"
    using Cons_nth_drop_Suc [OF l] by simp
  have "c = read_buf st ! read_ptr st" "cs = take n (drop (read_ptr st + 1) (read_buf st)) @ pending (chan st)"
    using assms(3) unfolding rline_rest_def n d by simp_all
  moreover have "nat (read_cnt st - 1) = n" using n by simp
  ultimately show ?thesis using assms(1,2) by (auto simp: my_read_def rline_rest_def rline_ok_def)
qed

lemma my_read_fill:
  assumes "rline_ok k st" "\<not> read_cnt st > 0" "0 < moves (answers (chan st))"
  shows "\<exists>m w. 0 < m \<and> r_read MAXLINE (chan st) = Some (Inr (take m (pending (chan st))), w) \<and> pending w = drop m (pending (chan st)) \<and>
    benign (answers w) \<and> Suc (moves (answers w)) = moves (answers (chan st))"
  using r_read_ok [of "chan st" MAXLINE] assms by (auto simp: rline_ok_def MAXLINE_def)

interpretation rl: byte_source my_read rline_rest rline_ok
proof
  fix k st c cs assume ok: "rline_ok k st" and r: "rline_rest st = c # cs"
  show "\<exists>st'. my_read st = Some (Inr (Some c), st') \<and> rline_rest st' = cs \<and> rline_ok k st'"
  proof (cases "read_cnt st > 0")
    case True
    then show ?thesis using my_read_cached ok r by blast
  next
    case False
    then have p: "pending (chan st) = c # cs" using r by (simp add: rline_rest_def)
    then have "0 < moves (answers (chan st))" using ok by (simp add: rline_ok_def)
    then obtain m w where m: "0 < m" "r_read MAXLINE (chan st) = Some (Inr (take m (pending (chan st))), w)"
      "pending w = drop m (pending (chan st))" "benign (answers w)" "Suc (moves (answers w)) = moves (answers (chan st))"
      using my_read_fill [OF ok False] by auto
    obtain j where j: "m = Suc j" using m(1) by (cases m) auto
    show ?thesis using m ok False unfolding p j by (auto simp: my_read_def rline_rest_def rline_ok_def p j min_def)
  qed
next
  fix k st assume ok: "rline_ok (Suc k) st" and r: "rline_rest st = []"
  have c: "\<not> read_cnt st > 0" and p: "pending (chan st) = []" using r ok by (auto simp: rline_rest_def rline_ok_def)
  then have "0 < moves (answers (chan st))" using ok by (simp add: rline_ok_def)
  then obtain w where w: "r_read MAXLINE (chan st) = Some (Inr [], w)" "pending w = []" "benign (answers w)" "Suc (moves (answers w)) = moves (answers (chan st))"
    using my_read_fill [OF ok c] p by auto
  then show "\<exists>st'. my_read st = Some (Inr None, st') \<and> rline_rest st' = [] \<and> rline_ok k st'"
    using c ok by (auto simp: my_read_def rline_rest_def rline_ok_def)
next
  show "rline_ok (Suc k) st \<Longrightarrow> rline_ok k st" for k st by (simp add: rline_ok_def)
qed

text \<open>\<^verbatim>\<open>readLineBuf\<close> does not start an interrupted read again, so its answers must have no error at all.\<close>

definition rlb_rest :: "ReadLineBuf \<Rightarrow> string" where
  "rlb_rest b = take (nat (rl_len b - rl_next b)) (drop (nat (rl_next b)) (rl_buf b)) @ pending (rl_chan b)"

definition rlb_ok :: "nat \<Rightarrow> ReadLineBuf \<Rightarrow> bool" where
  "rlb_ok k b \<longleftrightarrow> (\<forall>a \<in> set (answers (rl_chan b)). \<exists>j. a = Moves j) \<and> length (pending (rl_chan b)) + k \<le> length (answers (rl_chan b)) \<and>
     0 \<le> rl_next b \<and> (rl_next b < rl_len b \<longrightarrow> rl_len b \<le> int (length (rl_buf b)))"

lemma rl_fetch_cached:
  assumes "rlb_ok k b" "rl_next b < rl_len b" "rlb_rest b = c # cs"
  shows "\<exists>b'. rl_fetch b = Some (Inr (Some c), b') \<and> rlb_rest b' = cs \<and> rlb_ok k b'"
proof -
  obtain n where n: "nat (rl_len b - rl_next b) = Suc n" using assms(2) by (cases "nat (rl_len b - rl_next b)") auto
  have l: "nat (rl_next b) < length (rl_buf b)" "nat (rl_next b + 1) = nat (rl_next b) + 1" "nat (rl_len b - (rl_next b + 1)) = n"
    using assms(1,2) n by (auto simp: rlb_ok_def)
  have d: "drop (nat (rl_next b)) (rl_buf b) = rl_buf b ! nat (rl_next b) # drop (nat (rl_next b) + 1) (rl_buf b)"
    using Cons_nth_drop_Suc [OF l(1)] by simp
  have "c = rl_buf b ! nat (rl_next b)" "cs = take n (drop (nat (rl_next b) + 1) (rl_buf b)) @ pending (rl_chan b)"
    using assms(3) unfolding rlb_rest_def n d by simp_all
  then show ?thesis using assms(1,2) l by (auto simp: rl_fetch_def rlb_rest_def rlb_ok_def)
qed

interpretation rlb: byte_source rl_fetch rlb_rest rlb_ok
proof
  fix k b c cs assume ok: "rlb_ok k b" and r: "rlb_rest b = c # cs"
  show "\<exists>b'. rl_fetch b = Some (Inr (Some c), b') \<and> rlb_rest b' = cs \<and> rlb_ok k b'"
  proof (cases "rl_next b < rl_len b")
    case True
    then show ?thesis using rl_fetch_cached ok r by blast
  next
    case False
    then have p: "pending (rl_chan b) = c # cs" using r by (simp add: rlb_rest_def)
    obtain a as where as: "answers (rl_chan b) = a # as" using ok p by (cases "answers (rl_chan b)") (auto simp: rlb_ok_def)
    obtain j where j: "a = Moves j" using ok as by (auto simp: rlb_ok_def)
    show ?thesis using ok False as j unfolding rl_fetch_def sys_read_def
      by (auto simp: p rlb_ok_def rlb_rest_def RL_MAX_BUF_def min_def)
  qed
next
  fix k b assume ok: "rlb_ok (Suc k) b" and r: "rlb_rest b = []"
  have c: "\<not> rl_next b < rl_len b" and p: "pending (rl_chan b) = []" using r ok by (auto simp: rlb_rest_def rlb_ok_def)
  obtain a as where as: "answers (rl_chan b) = a # as" using ok by (cases "answers (rl_chan b)") (auto simp: rlb_ok_def)
  obtain j where j: "a = Moves j" using ok as by (auto simp: rlb_ok_def)
  show "\<exists>b'. rl_fetch b = Some (Inr None, b') \<and> rlb_rest b' = [] \<and> rlb_ok k b'"
    using ok c as j unfolding rl_fetch_def sys_read_def by (auto simp: p rlb_ok_def rlb_rest_def)
next
  show "rlb_ok (Suc k) b \<Longrightarrow> rlb_ok k b" for k b by (simp add: rlb_ok_def)
qed

section \<open>Without a buffer\<close>

definition fd_ok :: "nat \<Rightarrow> fds \<Rightarrow> bool" where
  "fd_ok k w \<longleftrightarrow> benign (answers w) \<and> length (pending w) + k \<le> moves (answers w)"

lemma readLine_loop_ok:
  assumes "fd_ok (Suc k) w" "length buf \<le> n - 1"
  shows "\<exists>w'. readLine_loop n buf w = Some (Inr (take (n - 1) (buf @ line_of (pending w))), w') \<and>
    pending w' = drop (length (line_of (pending w))) (pending w) \<and> fd_ok k w'"
  using assms
proof (induction "answers w" arbitrary: w buf)
  case Nil
  then show ?case by (metis add_Suc_right fd_ok_def le_zero_eq moves_simps(1) nat.distinct(1))
next
  case (Cons a as)
  have w: "answers w = a # as" using Cons.hyps(2) by simp
  let ?w = "w\<lparr>answers := as\<rparr>"
  show ?case
  proof (cases a)
    case (Fails e)
    then have "readLine_loop n buf w = readLine_loop n buf ?w"
      using w Cons.prems(1) by (simp add: readLine_loop.simps [of n buf w] sys_read_def fd_ok_def)
    then show ?thesis using Cons.hyps(1) [of ?w buf] Cons.prems w Fails by (simp add: fd_ok_def)
  next
    case (Moves j)
    show ?thesis
    proof (cases "pending w")
      case Nil
      then show ?thesis using w Moves Cons.prems by (auto simp: readLine_loop.simps [of n buf w] sys_read_def fd_ok_def)
    next
      case p: (Cons c cs)
      let ?v = "?w\<lparr>pending := cs\<rparr>" and ?b = "if length buf < n - 1 then buf @ [c] else buf"
      have s: "readLine_loop n buf w = (if c = CHR 0x0A then Some (Inr ?b, ?v) else readLine_loop n ?b ?v)"
        using w Moves p by (simp add: readLine_loop.simps [of n buf w] sys_read_def)
      have t: "take (n - 1) (?b @ x) = take (n - 1) (buf @ c # x)" for x using Cons.prems(2) by (auto simp: take_Cons')
      have ok: "fd_ok (Suc k) ?v" using Cons.prems(1) w Moves p by (simp add: fd_ok_def)
      show ?thesis
      proof (cases "c = CHR 0x0A")
        case True
        then show ?thesis using s t [of "[]"] p ok Cons.prems(2) by (auto simp: fd_ok_def)
      next
        case False
        then show ?thesis using s p Cons.hyps(1) [of ?v ?b] ok Cons.prems(2) t [of "line_of cs"] by (auto simp: if_distrib)
      qed
    qed
  qed
qed

section \<open>Sequences of calls\<close>

text \<open>\<open>k\<close> calls in a row; \<open>None\<close> when one does not return or returns an error.\<close>

fun calls :: "('s \<Rightarrow> ((errno + 'r) \<times> 's) option) \<Rightarrow> nat \<Rightarrow> 's \<Rightarrow> 'r list option" where
  "calls f 0 s = Some []"
| "calls f (Suc k) s = (case f s of Some (Inr r, s') \<Rightarrow> map_option ((#) r) (calls f k s') | _ \<Rightarrow> None)"

text \<open>The lines of a text, and then empty lines for the end of the file.\<close>

definition lines_then_end :: "nat \<Rightarrow> string \<Rightarrow> string list" where
  "lines_then_end k s = take k (lines_of s) @ replicate (k - length (lines_of s)) []"

lemma lines_then_end_simps [simp]:
  "lines_then_end 0 s = []" "lines_then_end (Suc k) s = line_of s # lines_then_end k (drop (length (line_of s)) s)"
proof -
  show "lines_then_end (Suc k) s = line_of s # lines_then_end k (drop (length (line_of s)) s)"
  proof (cases "s = []")
    case False
    then show ?thesis unfolding lines_then_end_def by (subst (1 2) lines_of.simps) simp
  qed (simp add: lines_then_end_def)
qed (simp add: lines_then_end_def)

lemma fits_step:
  assumes "\<forall>l \<in> set (lines_of s). length l < n" "0 < n"
  shows "length (line_of s) < n" "\<forall>l \<in> set (lines_of (drop (length (line_of s)) s)). length l < n"
  using assms by (cases "s = []"; simp add: lines_of.simps [of s])+

lemma calls_lines:
  assumes step: "\<And>k s. ok (Suc k) s \<Longrightarrow> length (line_of (rest s)) < n \<Longrightarrow>
      \<exists>s'. f s = Some (Inr (g (line_of (rest s))), s') \<and> rest s' = drop (length (line_of (rest s))) (rest s) \<and> ok k s'"
    and "0 < n"
  shows "ok k s \<Longrightarrow> \<forall>l \<in> set (lines_of (rest s)). length l < n \<Longrightarrow> calls f k s = Some (map g (lines_then_end k (rest s)))"
proof (induction k arbitrary: s)
  case (Suc k)
  note fit = fits_step [OF Suc.prems(2) assms(2)]
  obtain s' where "f s = Some (Inr (g (line_of (rest s))), s')" "rest s' = drop (length (line_of (rest s))) (rest s)" "ok k s'"
    using step [OF Suc.prems(1) fit(1)] by auto
  then show ?case using Suc.IH [of s'] fit(2) by simp
qed simp

section \<open>Properties\<close>


text \<open>
  What both versions of \<^verbatim>\<open>readline\<close> return is not always the number of bytes in the buffer: for a line that
  does not fit they return the size of the buffer, which has one byte less, and the older version
  counts one byte too many in every last line that has no newline.
\<close>

theorem readline_counts_wrong:
  assumes "rline_ok (Suc k) st" "1 < maxlen"
  shows "(maxlen - 1 < length (line_of (rline_rest st)) \<longrightarrow>
      (\<exists>st'. unp13_readline maxlen st = Some (Inr (maxlen, take (maxlen - 1) (line_of (rline_rest st))), st')) \<and>
      (\<exists>st'. unp22_readline maxlen st = Some (Inr (maxlen, take (maxlen - 1) (line_of (rline_rest st))), st'))) \<and>
    (rline_rest st \<noteq> [] \<and> CHR 0x0A \<notin> set (rline_rest st) \<and> length (rline_rest st) < maxlen - 1 \<longrightarrow>
      (\<exists>st'. unp22_readline maxlen st = Some (Inr (length (rline_rest st) + 1, rline_rest st), st')))"
proof -
  have "line_of s = s" if "CHR 0x0A \<notin> set s" for s using that by (induction s) auto
  moreover have "rline_rest st \<noteq> [] \<Longrightarrow> CHR 0x0A \<notin> set (rline_rest st) \<Longrightarrow> last (rline_rest st) \<noteq> CHR 0x0A" by (metis last_in_set)
  ultimately show ?thesis
    using rl.unp13_ok [OF assms(1), of 1 maxlen "[]"] rl.unp22_ok [OF assms(1), of 1 maxlen "[]"] assms(2)
    by (auto simp: unp13_readline_def unp22_readline_def Let_def)
qed

theorem readline_counts_wrong_witness:
  "\<exists>st'. unp22_readline 80 \<lparr>chan = \<lparr>pending = ''last'', sent = [], answers = replicate 9 (Moves 1)\<rparr>, read_cnt = 0, read_ptr = 0, read_buf = []\<rparr> =
     Some (Inr (5, ''last''), st')"
  using readline_counts_wrong [of 0 "\<lparr>chan = \<lparr>pending = ''last'', sent = [], answers = replicate 9 (Moves 1)\<rparr>, read_cnt = 0, read_ptr = 0, read_buf = []\<rparr>" 80]
  by (simp add: rline_ok_def rline_rest_def benign_replicate moves_replicate eval_nat_numeral)

section \<open>Exactly n bytes\<close>

text \<open>The loops of the two books that start interrupted reads again are one function, whatever the kernel answers.\<close>

lemma readn_loops_agree: "length got \<le> n \<Longrightarrow> tlpi_readn_loop n got w = unp_readn_loop (n - length got) got w"
proof (induction "length (answers w)" arbitrary: w got rule: less_induct)
  case less
  show ?case
  proof (cases "length got < n")
    case False
    then show ?thesis by (simp add: tlpi_readn_loop.simps [of n] unp_readn_loop.simps [of 0])
  next
    case True
    show ?thesis
    proof (cases "sys_read (n - length got) w")
      case None
      then show ?thesis using True by (simp add: tlpi_readn_loop.simps [of n] unp_readn_loop.simps [of "n - length got"])
    next
      case (Some r)
      obtain x w' where x: "r = (x, w')" by (cases r)
      have l: "length (answers w') < length (answers w)" "x = Inr bs \<Longrightarrow> length bs \<le> n - length got" for bs
        using Some x by (auto simp: sys_read_def split: list.splits io_answer.splits)
      then have "length (got @ bs) \<le> n" if "x = Inr bs" for bs using that True by fastforce
      then have ih: "x = Inr bs \<Longrightarrow> tlpi_readn_loop n (got @ bs) w' = unp_readn_loop (n - length got - length bs) (got @ bs) w'" for bs
        using less.hyps [OF l(1), of "got @ bs"] by simp
      have "tlpi_readn_loop n got w' = unp_readn_loop (n - length got) got w'" by (rule less.hyps [OF l(1) less.prems])
      then show ?thesis using Some x True ih
        by (cases x) (simp_all add: tlpi_readn_loop.simps [of n got w] unp_readn_loop.simps [of "n - length got" got w])
    qed
  qed
qed

lemma tlpi_readn_unp: "tlpi_readn n w = unp_readn n w"
  using readn_loops_agree [of "[]" n w] by (simp add: tlpi_readn_def unp_readn_def)

lemma unp_readn_loop_ok:
  assumes "benign (answers w)" "nleft < moves (answers w)"
  shows "\<exists>w'. unp_readn_loop nleft got w = Some (Inr (got @ take nleft (pending w)), w') \<and> pending w' = drop nleft (pending w) \<and> sent w' = sent w"
  using assms
proof (induction "answers w" arbitrary: w nleft got)
  case Nil
  then show ?case by (metis moves_simps(1) not_less_zero)
next
  case (Cons a as)
  have w: "answers w = a # as" using Cons.hyps(2) by simp
  show ?case
  proof (cases "nleft = 0")
    case True
    then show ?thesis by (simp add: unp_readn_loop.simps)
  next
    case n: False
    show ?thesis
    proof (cases a)
      case (Fails e)
      then have "unp_readn_loop nleft got w = unp_readn_loop nleft got (w\<lparr>answers := as\<rparr>)"
        using n w Cons.prems(1) by (simp add: unp_readn_loop.simps [of nleft got w] sys_read_def)
      then show ?thesis using Cons.hyps(1) [of "w\<lparr>answers := as\<rparr>" nleft got] Cons.prems w Fails by simp
    next
      case (Moves j)
      let ?m = "min nleft (Suc j)" and ?w = "w\<lparr>answers := as, pending := drop (min nleft (Suc j)) (pending w)\<rparr>"
      have s: "unp_readn_loop nleft got w = (if take ?m (pending w) = [] then Some (Inr got, ?w)
          else unp_readn_loop (nleft - length (take ?m (pending w))) (got @ take ?m (pending w)) ?w)"
        using n w Moves by (simp add: unp_readn_loop.simps [of nleft got w] sys_read_def)
      show ?thesis
      proof (cases "pending w = []")
        case True
        then show ?thesis using s by simp
      next
        case False
        let ?l = "length (take ?m (pending w))"
        have l: "0 < ?l" "?l \<le> nleft" using False n by auto
        have m: "take nleft (pending w) = take ?m (pending w) @ take (nleft - ?l) (drop ?m (pending w))"
          "drop nleft (pending w) = drop (nleft - ?l) (drop ?m (pending w))"
          using take_add [of ?m "nleft - ?m" "pending w"] by (auto simp: min_def)
        have "\<exists>w'. unp_readn_loop (nleft - ?l) (got @ take ?m (pending w)) ?w = Some (Inr ((got @ take ?m (pending w)) @ take (nleft - ?l) (pending ?w)), w') \<and>
            pending w' = drop (nleft - ?l) (pending ?w) \<and> sent w' = sent ?w"
        proof (rule Cons.hyps(1))
          have "nleft \<le> moves as" using Cons.prems(2) w Moves by simp
          then have "nleft - ?l < moves as" using l by linarith
          then show "nleft - ?l < moves (answers ?w)" by simp
        qed (use Cons.prems w Moves in simp_all)
        then obtain w' where w': "unp_readn_loop (nleft - ?l) (got @ take ?m (pending w)) ?w = Some (Inr ((got @ take ?m (pending w)) @ take (nleft - ?l) (drop ?m (pending w))), w')"
          "pending w' = drop (nleft - ?l) (drop ?m (pending w))" "sent w' = sent w" by (elim exE conjE) simp
        have "take ?m (pending w) \<noteq> []" using l(1) by (metis length_greater_0_conv)
        then show ?thesis unfolding s m using w' by (simp only: if_False append_assoc) blast
      qed
    qed
  qed
qed

lemma sys_write_less: "sys_write bs w = Some (r, w') \<Longrightarrow> length (answers w') < length (answers w)"
  by (auto simp: sys_write_def split: list.splits io_answer.splits)

lemma unp_writen_restarts: "unp_writen_loop e0 bs t w = r_write_loop bs t w"
proof (induction "length (answers w)" arbitrary: e0 w bs t rule: less_induct)
  case less
  show ?case
  proof (cases "bs = []")
    case True
    then show ?thesis by (simp add: unp_writen_loop.simps [of e0] r_write_loop.simps [of "[]"])
  next
    case bs: False
    show ?thesis
    proof (cases "sys_write bs w")
      case None
      then show ?thesis using bs by (simp add: unp_writen_loop.simps [of e0] r_write_loop.simps [of bs])
    next
      case (Some r)
      obtain x w' where x: "r = (x, w')" by (cases r)
      note ih = less.hyps [OF sys_write_less [OF Some [unfolded x]]]
      have "x = Inr m \<Longrightarrow> m \<noteq> 0" for m using Some x bs by (auto simp: sys_write_def split: list.splits io_answer.splits)
      then show ?thesis using Some x bs ih
        by (cases x) (simp_all add: unp_writen_loop.simps [of e0 bs t w] r_write_loop.simps [of bs t w])
    qed
  qed
qed

lemma tlpi_writen_restarts: "t \<le> length buf \<Longrightarrow> tlpi_writen_loop e0 buf t w = r_write_loop (drop t buf) t w"
proof (induction "length (answers w)" arbitrary: e0 w t rule: less_induct)
  case less
  show ?case
  proof (cases "t < length buf")
    case False
    then show ?thesis by (simp add: tlpi_writen_loop.simps [of e0] r_write_loop.simps [of "[]"])
  next
    case t: True
    show ?thesis
    proof (cases "sys_write (drop t buf) w")
      case None
      then show ?thesis using t by (simp add: tlpi_writen_loop.simps [of e0] r_write_loop.simps [of "drop t buf"])
    next
      case (Some r)
      obtain x w' where x: "r = (x, w')" by (cases r)
      note ih = less.hyps [OF sys_write_less [OF Some [unfolded x]]]
      have "x = Inr m \<Longrightarrow> m \<noteq> 0 \<and> t + m \<le> length buf" for m
        using Some x t by (auto simp: sys_write_def split: list.splits io_answer.splits)
      then show ?thesis using Some x t ih
        by (cases x) (simp_all add: tlpi_writen_loop.simps [of e0 buf t w] r_write_loop.simps [of "drop t buf" t w] add.commute)
    qed
  qed
qed

text \<open>The versions that do not start interrupted calls again are the same where no call fails.\<close>

definition faultless :: "io_answer list \<Rightarrow> bool" where
  "faultless as \<longleftrightarrow> (\<forall>a \<in> set as. case a of Fails _ \<Rightarrow> False | Moves _ \<Rightarrow> True)"

lemma faultless_simps [simp]: "faultless []" "faultless (Moves j # as) = faultless as" "\<not> faultless (Fails e # as)"
  by (auto simp: faultless_def)

lemma faultless_benign: "faultless as \<Longrightarrow> benign as"
  by (auto simp: faultless_def benign_def split: io_answer.splits)

lemma apue_readn_faultless: "faultless (answers w) \<Longrightarrow> apue_readn_loop n nleft got w = unp_readn_loop nleft got w"
proof (induction "answers w" arbitrary: w nleft got)
  case Nil
  then show ?case by (simp add: apue_readn_loop.simps [of n nleft] unp_readn_loop.simps [of nleft] sys_read_def)
next
  case (Cons a as)
  obtain j where a: "a = Moves j" using Cons.hyps(2) [symmetric] Cons.prems by (cases a) auto
  let ?m = "min nleft (Suc j)"
  have "apue_readn_loop n x y (w\<lparr>answers := as, pending := drop ?m (pending w)\<rparr>) = unp_readn_loop x y (w\<lparr>answers := as, pending := drop ?m (pending w)\<rparr>)" for x y
    by (rule Cons.hyps(1)) (use Cons.hyps(2) [symmetric] Cons.prems a in simp_all)
  then show ?case using Cons.hyps(2) [symmetric] a
    unfolding apue_readn_loop.simps [of n nleft got w] unp_readn_loop.simps [of nleft got w] by (auto simp: sys_read_def)
qed

lemma apue_writen_faultless: "faultless (answers w) \<Longrightarrow> apue_writen_loop n bs t w = r_write_loop bs t w"
proof (induction "answers w" arbitrary: w bs t)
  case Nil
  then show ?case by (simp add: apue_writen_loop.simps [of n bs] r_write_loop.simps [of bs] sys_write_def)
next
  case (Cons a as)
  obtain j where a: "a = Moves j" using Cons.hyps(2) [symmetric] Cons.prems by (cases a) auto
  let ?m = "min (length bs) (Suc j)"
  have "apue_writen_loop n x y (w\<lparr>answers := as, sent := sent w @ take ?m bs\<rparr>) = r_write_loop x y (w\<lparr>answers := as, sent := sent w @ take ?m bs\<rparr>)" for x y
    by (rule Cons.hyps(1)) (use Cons.hyps(2) [symmetric] Cons.prems a in simp_all)
  then show ?case using Cons.hyps(2) [symmetric] a
    unfolding apue_writen_loop.simps [of n bs t w] r_write_loop.simps [of bs t w] by (auto simp: sys_write_def min_def split: if_splits)
qed

text \<open>
  \<^verbatim>\<open>readn\<close> of \<^verbatim>\<open>unpv13e\<close> and of \<^verbatim>\<open>tlpi-dist\<close> end, however the kernel divides and interrupts their reads, with exactly
  the first n bytes or all that there are; \<^verbatim>\<open>writen\<close> ends with everything sent. The functions of the two
  books are the same for all answers of the kernel, errors included, and \<^verbatim>\<open>readn\<close> and \<^verbatim>\<open>writen\<close> of \<^verbatim>\<open>apue.3e\<close> are
  the same where no call fails.
\<close>

theorem readn_writen_exact:
  assumes "benign (answers w)" "n < moves (answers w)" "length bs \<le> moves (answers w)"
  shows "(\<exists>w'. unp_readn n w = Some (Inr (take n (pending w)), w') \<and> pending w' = drop n (pending w) \<and> sent w' = sent w) \<and>
    (\<exists>w'. unp_writen e0 bs w = Some (Inr (length bs), w') \<and> sent w' = sent w @ bs \<and> pending w' = pending w) \<and>
    tlpi_readn k v = unp_readn k v \<and> tlpi_writen e0 cs v = unp_writen e0 cs v \<and>
    (faultless (answers v) \<longrightarrow> apue_readn k v = unp_readn k v \<and> apue_writen cs v = unp_writen e0 cs v)"
proof -
  have "\<exists>w'. unp_writen e0 bs w = Some (Inr (length bs), w') \<and> sent w' = sent w @ bs \<and> pending w' = pending w"
    using r_write_ok [OF assms(1,3), of 0] by (auto simp: unp_writen_def unp_writen_restarts)
  then show ?thesis using unp_readn_loop_ok [OF assms(1,2), of "[]"] apue_readn_faultless [of v] apue_writen_faultless [of v]
    by (simp add: unp_readn_def tlpi_readn_unp apue_readn_def apue_writen_def unp_writen_def unp_writen_restarts tlpi_writen_def tlpi_writen_restarts)
qed

theorem readn_writen_exact_witness:
  "\<exists>w'. unp_readn 3 \<lparr>pending = ''abcde'', sent = [], answers = Moves 0 # Fails EINTR # replicate 9 (Moves 0)\<rparr> = Some (Inr ''abc'', w') \<and> pending w' = ''de''"
  using readn_writen_exact [of "\<lparr>pending = ''abcde'', sent = [], answers = Moves 0 # Fails EINTR # replicate 9 (Moves 0)\<rparr>" 3 "[]" EINTR 0
      "\<lparr>pending = [], sent = [], answers = []\<rparr>" "[]"]
  by (auto simp: benign_replicate moves_replicate eval_nat_numeral)

text \<open>An interruption in the middle makes the versions of \<^verbatim>\<open>apue.3e\<close> return fewer bytes, although more are there.\<close>

lemma apue_readn_interrupted:
  assumes "answers w = Moves j # Fails e # as" "Suc j < n" "Suc j < length (pending w)"
  shows "\<exists>w'. apue_readn n w = Some (Inr (take (Suc j) (pending w)), w')"
  using assms by (auto simp: apue_readn_def apue_readn_loop.simps sys_read_def)

end
