(* ===== verification/Bufio.thy ===== *)
theory Bufio
  imports Line_Io_Props Loop_Run
begin

text \<open>
  The buffered input and output of \<^verbatim>\<open>Advanced_Unix_Programming/c2/bufio.c\<close>. The descriptor and the answers of
  the kernel are those of the restart library; \<open>b_sel\<close> has the answers of \<^verbatim>\<open>select\<close>.
\<close>

section \<open>The functions\<close>

definition BUFSIZ :: nat where "BUFSIZ = 8192"

text \<open>\<open>b_total\<close> is -1 after a failed read; the time limit is in microseconds.\<close>

record BUFIO =
  b_fd :: fds
  b_dir :: char
  b_total :: int
  b_next :: nat
  b_buf :: string
  b_fdopen :: bool
  b_timeout :: nat
  b_sel :: "(errno + nat option) list"

text \<open>
  \<open>path\<close> says whether a path was given, \<open>mem\<close> whether \<^verbatim>\<open>calloc\<close> gave memory, and \<open>opened\<close> is the result of \<^verbatim>\<open>open\<close>
  with its flags; \<open>fd\<close> is the descriptor that is passed, \<open>Inl\<close> for -1 with what
  \<^verbatim>\<open>errno\<close> is then.
\<close>

datatype open_flags = O_RDONLY | O_WRONLY_CREAT_TRUNC

definition Bopen_internal ::
  "errno + fds \<Rightarrow> bool \<Rightarrow> string \<Rightarrow> bool \<Rightarrow> (open_flags \<Rightarrow> errno + fds) \<Rightarrow> (errno + nat option) list \<Rightarrow> errno + BUFIO" where
  "Bopen_internal fd path dir mem opened sels =
     (case (if dir \<noteq> [] \<and> hd dir = CHR ''r'' then Some O_RDONLY
            else if dir \<noteq> [] \<and> hd dir = CHR ''w'' then Some O_WRONLY_CREAT_TRUNC else None) of
        None \<Rightarrow> Inl EINVAL
      | Some flags \<Rightarrow>
          if \<not> mem then Inl ENOMEM
          else
            (case (if path then opened flags else fd) of
               Inl e \<Rightarrow> Inl e
             | Inr f \<Rightarrow> Inr \<lparr>b_fd = f, b_dir = hd dir, b_total = 0, b_next = 0, b_buf = replicate BUFSIZ CHR 0x00,
                            b_fdopen = (\<not> path), b_timeout = 0, b_sel = sels\<rparr>))"

definition Bfdopen :: "errno + fds \<Rightarrow> string \<Rightarrow> bool \<Rightarrow> (errno + nat option) list \<Rightarrow> errno + BUFIO" where
  "Bfdopen fd dir mem sels = Bopen_internal fd False dir mem (\<lambda>_. Inl EINVAL) sels"

definition Bopen :: "string \<Rightarrow> bool \<Rightarrow> (open_flags \<Rightarrow> errno + fds) \<Rightarrow> (errno + nat option) list \<Rightarrow> errno + BUFIO" where
  "Bopen dir mem opened sels = Bopen_internal (Inl EBADF) True dir mem opened sels"

text \<open>
  Waiting with the time limit: \<open>Inr True\<close> when there is something to read. \<^verbatim>\<open>select\<close> writes back the time that is
  left, 0 when it is over.
\<close>

definition wait_input :: "BUFIO \<Rightarrow> ((errno + bool) \<times> BUFIO) option" where
  "wait_input b =
     (if b_timeout b = 0 then Some (Inr True, b)
      else
        (case b_sel b of
           [] \<Rightarrow> None
         | Inl e # ss \<Rightarrow> Some (Inl e, b\<lparr>b_sel := ss\<rparr>)
         | Inr None # ss \<Rightarrow> Some (Inr False, b\<lparr>b_sel := ss, b_timeout := 0\<rparr>)
         | Inr (Some left) # ss \<Rightarrow> Some (Inr True, b\<lparr>b_sel := ss, b_timeout := left\<rparr>)))"

text \<open>\<open>Inr False\<close> is the end of the file, with \<^verbatim>\<open>errno\<close> 0.\<close>

definition readbuf :: "BUFIO \<Rightarrow> ((errno + bool) \<times> BUFIO) option" where
  "readbuf b =
     (case wait_input b of
        None \<Rightarrow> None
      | Some (Inl e, b) \<Rightarrow> Some (Inl e, b)
      | Some (Inr False, b) \<Rightarrow> Some (Inl ETIMEDOUT, b)
      | Some (Inr True, b) \<Rightarrow>
          (case sys_read BUFSIZ (b_fd b) of
             None \<Rightarrow> None
           | Some (Inl e, w) \<Rightarrow> Some (Inl e, b\<lparr>b_fd := w, b_total := -1\<rparr>)
           | Some (Inr bs, w) \<Rightarrow>
               if bs = [] then Some (Inr False, b\<lparr>b_fd := w, b_total := 0\<rparr>)
               else Some (Inr True, b\<lparr>b_fd := w, b_total := int (length bs), b_next := 0, b_buf := bs @ drop (length bs) (b_buf b)\<rparr>)))"

partial_function (option) writebuf_loop :: "nat \<Rightarrow> BUFIO \<Rightarrow> (bool \<times> BUFIO) option" where
  "writebuf_loop tot b =
     (if tot < b_next b then
        (case sys_write (take (b_next b - tot) (drop tot (b_buf b))) (b_fd b) of
           None \<Rightarrow> None
         | Some (r, w) \<Rightarrow>
             (case r of
                Inl e \<Rightarrow> Some (False, b\<lparr>b_fd := w\<rparr>)
              | Inr n \<Rightarrow> writebuf_loop (tot + n) (b\<lparr>b_fd := w\<rparr>)))
      else Some (True, b\<lparr>b_next := 0\<rparr>))"

definition writebuf :: "BUFIO \<Rightarrow> (bool \<times> BUFIO) option" where
  "writebuf b = writebuf_loop 0 b"

text \<open>The byte, or -1 without an error (\<open>None\<close>), or -1 with an error.\<close>

definition Bgetc :: "BUFIO \<Rightarrow> ((errno + char option) \<times> BUFIO) option" where
  "Bgetc b =
     (if int (b_next b) \<ge> b_total b then
        (case readbuf b of
           None \<Rightarrow> None
         | Some (Inl e, b) \<Rightarrow> Some (Inl e, b)
         | Some (Inr False, b) \<Rightarrow> Some (Inr None, b)
         | Some (Inr True, b) \<Rightarrow> Some (Inr (Some (b_buf b ! b_next b)), b\<lparr>b_next := b_next b + 1\<rparr>))
      else Some (Inr (Some (b_buf b ! b_next b)), b\<lparr>b_next := b_next b + 1\<rparr>))"

definition Bputc :: "BUFIO \<Rightarrow> char \<Rightarrow> (bool \<times> BUFIO) run option" where
  "Bputc b c =
     (if b_next b < BUFSIZ then
        let b = b\<lparr>b_buf := (b_buf b)[b_next b := c], b_next := b_next b + 1\<rparr> in
        if b_next b \<ge> BUFSIZ then map_option Ret (writebuf b) else Some (Ret (True, b))
      else Some Wild)"

text \<open>\<open>rcl\<close> is the result of \<^verbatim>\<open>close\<close>; the last part of the result says whether the structure was freed.\<close>

definition Bclose :: "rc \<Rightarrow> BUFIO \<Rightarrow> (bool \<times> BUFIO \<times> bool) option" where
  "Bclose rcl b =
     (case (if b_dir b = CHR ''w'' then writebuf b else Some (True, b)) of
        None \<Rightarrow> None
      | Some (flushed, b) \<Rightarrow>
          if \<not> flushed then Some (False, b, False)
          else if \<not> b_fdopen b \<and> rcl \<noteq> None then Some (False, b, False)
          else Some (True, b, True))"

text \<open>The loop of \<^verbatim>\<open>Bgets\<close> up to the limit, which for \<^verbatim>\<open>smax\<close> 0 wraps around.\<close>

function Bgets_loop :: "('s \<Rightarrow> ((errno + char option) \<times> 's) option) \<Rightarrow> nat \<Rightarrow> string \<Rightarrow> 's \<Rightarrow> ((bool \<times> string) \<times> 's) option" where
  "Bgets_loop getb limit s b =
     (if length s < limit then
        (case getb b of
           None \<Rightarrow> None
         | Some (Inr (Some c), b) \<Rightarrow> if c = CHR 0x0A then Some ((True, s), b) else Bgets_loop getb limit (s @ [c]) b
         | Some (_, b) \<Rightarrow> Some ((length s > 0, s), b))
      else Some ((True, s), b))"
  by pat_completeness auto
termination by (relation "measure (\<lambda>(getb, limit, s, b). limit - length s)") auto

declare Bgets_loop.simps [simp del]

definition Bgets :: "nat \<Rightarrow> BUFIO \<Rightarrow> ((bool \<times> string) \<times> BUFIO) option" where
  "Bgets smax b = Bgets_loop Bgetc (if smax = 0 then 2 ^ 64 - 1 else smax - 1) [] b"

definition Bsettimeout :: "nat \<Rightarrow> BUFIO \<Rightarrow> BUFIO" where
  "Bsettimeout timeout b = b\<lparr>b_timeout := timeout\<rparr>"

end
