(* ===== verification/Bufio_Props.thy ===== *)
theory Bufio_Props
  imports Bufio
begin

text \<open>
  Properties of the buffered input and output: what is put and closed is what is got back, however the
  kernel divides the calls; and what a failed flush leaves behind.
\<close>

section \<open>Output\<close>

text \<open>Bytes are put one after the other; a call that returns false stops the sequence.\<close>

fun put_all :: "string \<Rightarrow> BUFIO \<Rightarrow> (bool \<times> BUFIO) run option" where
  "put_all [] b = Some (Ret (True, b))"
| "put_all (c # cs) b = lbind (Bputc b c) (\<lambda>(done, b). if done then put_all cs b else Some (Ret (False, b)))"

text \<open>\<open>k\<close> more bytes can be put and written.\<close>

definition out_ok :: "nat \<Rightarrow> BUFIO \<Rightarrow> bool" where
  "out_ok k b \<longleftrightarrow> faultless (answers (b_fd b)) \<and> b_next b + k \<le> moves (answers (b_fd b)) \<and> b_next b < BUFSIZ \<and> length (b_buf b) = BUFSIZ"

definition written :: "BUFIO \<Rightarrow> string" where
  "written b = sent (b_fd b) @ take (b_next b) (b_buf b)"

lemma writebuf_loop_ok:
  assumes "faultless (answers (b_fd b))" "b_next b - tot \<le> moves (answers (b_fd b))" "b_next b \<le> length (b_buf b)"
  shows "\<exists>w. writebuf_loop tot b = Some (True, b\<lparr>b_fd := w, b_next := 0\<rparr>) \<and> sent w = sent (b_fd b) @ take (b_next b - tot) (drop tot (b_buf b)) \<and>
    pending w = pending (b_fd b) \<and> faultless (answers w) \<and> moves (answers (b_fd b)) \<le> moves (answers w) + (b_next b - tot)"
  using assms
proof (induction "answers (b_fd b)" arbitrary: b tot)
  case Nil
  then have "\<not> tot < b_next b" by (metis diff_is_0_eq le_zero_eq moves_simps(1) not_less)
  then show ?case using Nil.prems(1) by (auto simp: writebuf_loop.simps intro!: exI [of _ "b_fd b"])
next
  case (Cons a as)
  have w: "answers (b_fd b) = a # as" using Cons.hyps(2) by simp
  obtain j where a: "a = Moves j" using w Cons.prems(1) by (cases a) auto
  show ?case
  proof (cases "tot < b_next b")
    case False
    then show ?thesis using Cons.prems(1) by (auto simp: writebuf_loop.simps intro!: exI [of _ "b_fd b"])
  next
    case True
    let ?bs = "take (b_next b - tot) (drop tot (b_buf b))"
    have l: "length ?bs = b_next b - tot" using Cons.prems(3) by simp
    define m where "m = min (b_next b - tot) (Suc j)"
    have m: "0 < m" "m \<le> b_next b - tot" using True by (simp_all add: m_def)
    let ?w = "(b_fd b)\<lparr>answers := as, sent := sent (b_fd b) @ take m ?bs\<rparr>"
    have s: "writebuf_loop tot b = writebuf_loop (tot + m) (b\<lparr>b_fd := ?w\<rparr>)"
      using True w a l by (simp add: writebuf_loop.simps [of tot b] sys_write_def m_def)
    have "\<exists>w. writebuf_loop (tot + m) (b\<lparr>b_fd := ?w\<rparr>) = Some (True, b\<lparr>b_fd := ?w\<rparr>\<lparr>b_fd := w, b_next := 0\<rparr>) \<and>
        sent w = sent ?w @ take (b_next b - (tot + m)) (drop (tot + m) (b_buf b)) \<and> pending w = pending (b_fd b) \<and> faultless (answers w) \<and>
        moves as \<le> moves (answers w) + (b_next b - (tot + m))"
      using Cons.hyps(1) [of "b\<lparr>b_fd := ?w\<rparr>" "tot + m"] Cons.prems w a m by auto
    moreover have "take m ?bs @ take (b_next b - (tot + m)) (drop (tot + m) (b_buf b)) = ?bs"
    proof -
      have "take m ?bs = take m (drop tot (b_buf b))" using m by (simp add: min_absorb1)
      moreover have "?bs = take m (drop tot (b_buf b)) @ take (b_next b - tot - m) (drop m (drop tot (b_buf b)))"
        using take_add [of m "b_next b - tot - m" "drop tot (b_buf b)"] m(2) by (simp only: le_add_diff_inverse)
      ultimately show ?thesis by (simp add: add.commute)
    qed
    ultimately show ?thesis using s w a m by (auto simp: le_diff_conv)
  qed
qed

lemma Bputc_ok:
  assumes "out_ok (Suc k) b"
  shows "\<exists>b'. Bputc b c = Some (Ret (True, b')) \<and> written b' = written b @ [c] \<and> out_ok k b' \<and> b_dir b' = b_dir b \<and> b_fdopen b' = b_fdopen b"
proof -
  let ?b = "b\<lparr>b_buf := (b_buf b)[b_next b := c], b_next := b_next b + 1\<rparr>"
  have b: "b_next b < BUFSIZ" "length (b_buf b) = BUFSIZ" "faultless (answers (b_fd b))" "b_next b + Suc k \<le> moves (answers (b_fd b))"
    using assms by (auto simp: out_ok_def)
  have t: "take (b_next b + 1) ((b_buf b)[b_next b := c]) = take (b_next b) (b_buf b) @ [c]"
    using b(1,2) by (simp add: take_Suc_conv_app_nth)
  show ?thesis
  proof (cases "b_next b + 1 < BUFSIZ")
    case True
    then show ?thesis using b t by (auto simp: Bputc_def out_ok_def written_def)
  next
    case False
    have "\<exists>w. writebuf ?b = Some (True, ?b\<lparr>b_fd := w, b_next := 0\<rparr>) \<and> sent w = sent (b_fd b) @ take (b_next b) (b_buf b) @ [c] \<and>
        pending w = pending (b_fd b) \<and> faultless (answers w) \<and> moves (answers (b_fd b)) \<le> moves (answers w) + (b_next b + 1)"
      using writebuf_loop_ok [of ?b 0] b t by (auto simp: writebuf_def)
    then show ?thesis using False b by (auto simp: Bputc_def out_ok_def written_def BUFSIZ_def Let_def)
  qed
qed

lemma put_all_ok:
  assumes "out_ok (length s) b"
  shows "\<exists>b'. put_all s b = Some (Ret (True, b')) \<and> written b' = written b @ s \<and> out_ok 0 b' \<and> b_dir b' = b_dir b \<and> b_fdopen b' = b_fdopen b"
  using assms
proof (induction s arbitrary: b)
  case (Cons c s)
  obtain b1 where "Bputc b c = Some (Ret (True, b1))" "written b1 = written b @ [c]" "out_ok (length s) b1" "b_dir b1 = b_dir b" "b_fdopen b1 = b_fdopen b"
    using Bputc_ok [of "length s" b c] Cons.prems by auto
  then show ?case using Cons.IH [of b1] by auto
qed simp

lemma Bclose_ok:
  assumes "out_ok 0 b" "b_dir b = CHR ''w''"
  shows "\<exists>b'. Bclose None b = Some (True, b', True) \<and> sent (b_fd b') = written b"
  using writebuf_loop_ok [of b 0] assms by (auto simp: Bclose_def writebuf_def out_ok_def written_def)

section \<open>Input\<close>

definition in_rest :: "BUFIO \<Rightarrow> string" where
  "in_rest b = take (nat (b_total b - int (b_next b))) (drop (b_next b) (b_buf b)) @ pending (b_fd b)"

definition in_ok :: "nat \<Rightarrow> BUFIO \<Rightarrow> bool" where
  "in_ok k b \<longleftrightarrow> faultless (answers (b_fd b)) \<and> length (pending (b_fd b)) + k \<le> moves (answers (b_fd b)) \<and> b_timeout b = 0 \<and>
     b_total b \<le> int (length (b_buf b))"

lemma Bgetc_cached:
  assumes "in_ok k b" "int (b_next b) < b_total b" "in_rest b = c # cs"
  shows "\<exists>b'. Bgetc b = Some (Inr (Some c), b') \<and> in_rest b' = cs \<and> in_ok k b'"
proof -
  obtain n where n: "nat (b_total b - int (b_next b)) = Suc n" using assms(2) by (cases "nat (b_total b - int (b_next b))") auto
  have l: "b_next b < length (b_buf b)" "nat (b_total b - int (b_next b + 1)) = n" using assms(1,2) n by (auto simp: in_ok_def)
  have d: "drop (b_next b) (b_buf b) = b_buf b ! b_next b # drop (b_next b + 1) (b_buf b)" using Cons_nth_drop_Suc [OF l(1)] by simp
  have "c = b_buf b ! b_next b" "cs = take n (drop (b_next b + 1) (b_buf b)) @ pending (b_fd b)"
    using assms(3) unfolding in_rest_def n d by simp_all
  then show ?thesis using assms(1,2) l by (auto simp: Bgetc_def in_rest_def in_ok_def)
qed

interpretation bio: byte_source Bgetc in_rest in_ok
proof
  fix k b c cs assume ok: "in_ok k b" and r: "in_rest b = c # cs"
  show "\<exists>b'. Bgetc b = Some (Inr (Some c), b') \<and> in_rest b' = cs \<and> in_ok k b'"
  proof (cases "int (b_next b) < b_total b")
    case True
    then show ?thesis using Bgetc_cached ok r by blast
  next
    case False
    then have p: "pending (b_fd b) = c # cs" using r by (simp add: in_rest_def)
    obtain a as where as: "answers (b_fd b) = a # as" using ok p by (cases "answers (b_fd b)") (auto simp: in_ok_def)
    obtain j where j: "a = Moves j" using ok as by (cases a) (auto simp: in_ok_def)
    show ?thesis using ok False as j unfolding Bgetc_def readbuf_def wait_input_def sys_read_def
      by (auto simp: p in_ok_def in_rest_def BUFSIZ_def min_def)
  qed
next
  fix k b assume ok: "in_ok (Suc k) b" and r: "in_rest b = []"
  have c: "\<not> int (b_next b) < b_total b" and p: "pending (b_fd b) = []" using r ok by (auto simp: in_rest_def in_ok_def)
  obtain a as where as: "answers (b_fd b) = a # as" using ok by (cases "answers (b_fd b)") (auto simp: in_ok_def)
  obtain j where j: "a = Moves j" using ok as by (cases a) (auto simp: in_ok_def)
  show "\<exists>b'. Bgetc b = Some (Inr None, b') \<and> in_rest b' = [] \<and> in_ok k b'"
    using ok c as j unfolding Bgetc_def readbuf_def wait_input_def sys_read_def by (auto simp: p in_ok_def in_rest_def)
next
  show "in_ok (Suc k) b \<Longrightarrow> in_ok k b" for k b by (simp add: in_ok_def)
qed

context byte_source begin

lemma get_all: "ok k s \<Longrightarrow> calls getb (length (rest s) + k) s = Some (map Some (rest s) @ replicate k None)"
proof (induction "rest s" arbitrary: s)
  case Nil
  then show ?case
  proof (induction k arbitrary: s)
    case (Suc k)
    obtain s' where "getb s = Some (Inr None, s')" "rest s' = []" "ok k s'" using get_end [OF Suc.prems(2)] Suc.prems(1) by auto
    then show ?case using Suc.IH [of s'] Suc.prems(1) [symmetric] by simp
  qed simp
next
  case (Cons c cs)
  obtain s' where "getb s = Some (Inr (Some c), s')" "rest s' = cs" "ok k s'"
    using get_char [OF Cons.prems Cons.hyps(2) [symmetric]] by auto
  then show ?case using Cons.hyps(1) [of s'] Cons.hyps(2) [symmetric] by simp
qed

text \<open>\<^verbatim>\<open>Bgets\<close> gives the line without its newline; what does not fit stays for the next call.\<close>

lemma Bgets_ok:
  assumes "ok (Suc k) s" "length got \<le> limit"
  shows "let l = takeWhile (\<lambda>c. c \<noteq> CHR 0x0A) (rest s); room = limit - length got in
    \<exists>s'. Bgets_loop getb limit got s =
        Some ((if length l < room then CHR 0x0A \<in> set (rest s) \<or> got @ l \<noteq> [] else True, got @ take room l), s') \<and>
      rest s' = (if length l < room then drop (Suc (length l)) (rest s) else drop room (rest s)) \<and> ok k s'"
  using assms
proof (induction "rest s" arbitrary: s got)
  case Nil
  show ?case
  proof (cases "length got < limit")
    case True
    obtain s' where "getb s = Some (Inr None, s')" "rest s' = []" "ok k s'" using get_end [OF Nil.prems(1)] Nil.hyps by auto
    then show ?thesis using True Nil.hyps [symmetric] by (simp add: Bgets_loop.simps)
  next
    case False
    then show ?thesis using Nil ok_less by (simp add: Bgets_loop.simps)
  qed
next
  case (Cons c cs)
  show ?case
  proof (cases "length got < limit")
    case False
    then show ?thesis using Cons.prems ok_less by (simp add: Bgets_loop.simps)
  next
    case n: True
    obtain s1 where s1: "getb s = Some (Inr (Some c), s1)" "rest s1 = cs" "ok (Suc k) s1"
      using get_char [OF Cons.prems(1) Cons.hyps(2) [symmetric]] by auto
    show ?thesis
    proof (cases "c = CHR 0x0A")
      case True
      then show ?thesis using n s1 Cons.hyps(2) [symmetric] ok_less by (simp add: Bgets_loop.simps)
    next
      case False
      have "Bgets_loop getb limit got s = Bgets_loop getb limit (got @ [c]) s1"
        using n s1 False by (simp add: Bgets_loop.simps [of getb limit got])
      moreover have r: "limit - length got = Suc (limit - length (got @ [c]))" using n by simp
      ultimately show ?thesis
        using Cons.hyps(1) [of s1 "got @ [c]"] s1 n Cons.hyps(2) [symmetric] False unfolding Let_def r by auto
    qed
  qed
qed

end

section \<open>Properties\<close>

text \<open>
  C31. What is put with \<^verbatim>\<open>Bputc\<close> and closed is what \<^verbatim>\<open>Bgetc\<close> gives back: for every text, and however the kernel
  divides the writes and the reads, opening, putting, closing, opening again and getting never
  leave the buffer, succeed, and give exactly the bytes of the text and then the end of the file as
  often as it is asked for.
\<close>

theorem bufio_roundtrip:
  assumes "faultless (answers w)" "length s \<le> moves (answers w)" "sent w = []"
    and "faultless (answers r)" "length s + k \<le> moves (answers r)"
  shows "\<exists>b b1 b2 c. Bopen ''w'' True (\<lambda>_. Inr w) [] = Inr b \<and> put_all s b = Some (Ret (True, b1)) \<and> Bclose None b1 = Some (True, b2, True) \<and>
    sent (b_fd b2) = s \<and> Bopen ''r'' True (\<lambda>_. Inr (r\<lparr>pending := sent (b_fd b2)\<rparr>)) [] = Inr c \<and>
    calls Bgetc (length s + k) c = Some (map Some s @ replicate k None)"
proof -
  obtain b where b: "Bopen ''w'' True (\<lambda>_. Inr w) [] = Inr b" "b_fd b = w" "b_next b = 0" "length (b_buf b) = BUFSIZ" "b_dir b = CHR ''w''"
    by (simp add: Bopen_def Bopen_internal_def)
  have "out_ok (length s) b" "written b = []" using b assms(1-3) by (simp_all add: out_ok_def written_def BUFSIZ_def)
  then obtain b1 where b1: "put_all s b = Some (Ret (True, b1))" "written b1 = s" "out_ok 0 b1" "b_dir b1 = CHR ''w''"
    using put_all_ok [of s b] b(5) by auto
  then obtain b2 where b2: "Bclose None b1 = Some (True, b2, True)" "sent (b_fd b2) = s" using Bclose_ok by auto
  obtain c where c: "Bopen ''r'' True (\<lambda>_. Inr (r\<lparr>pending := s\<rparr>)) [] = Inr c" "b_fd c = r\<lparr>pending := s\<rparr>" "b_next c = 0" "b_total c = 0" "b_timeout c = 0"
    by (simp add: Bopen_def Bopen_internal_def)
  then have "in_ok k c" "in_rest c = s" using assms(4,5) by (simp_all add: in_ok_def in_rest_def)
  then have "calls Bgetc (length s + k) c = Some (map Some s @ replicate k None)" using bio.get_all [of k c] by simp
  then show ?thesis using b(1) b1(1) b2 c(1) by auto
qed

theorem bufio_roundtrip_witness:
  "\<exists>b b1 b2. Bopen ''w'' True (\<lambda>_. Inr \<lparr>pending = [], sent = [], answers = replicate 9 (Moves 1)\<rparr>) [] = Inr b \<and>
    put_all ''text'' b = Some (Ret (True, b1)) \<and> Bclose None b1 = Some (True, b2, True) \<and> sent (b_fd b2) = ''text''"
proof -
  have "faultless (replicate 9 (Moves 1))" by (simp add: faultless_def)
  then show ?thesis
    using bufio_roundtrip [of "\<lparr>pending = [], sent = [], answers = replicate 9 (Moves 1)\<rparr>" "''text''"
        "\<lparr>pending = [], sent = [], answers = replicate 9 (Moves 1)\<rparr>" 1]
    by (auto simp: moves_replicate)
qed

text \<open>
  After a flush that failed, \<^verbatim>\<open>Bputc\<close> has returned false with the buffer full; a further call writes beyond the
  buffer.
\<close>

lemma Bputc_after_failed_flush:
  assumes "b_next b = BUFSIZ - 1" "length (b_buf b) = BUFSIZ" "answers (b_fd b) = Fails e # as"
  shows "\<exists>b'. Bputc b c = Some (Ret (False, b')) \<and> Bputc b' d = Some Wild"
  using assms by (auto simp: Bputc_def writebuf_def writebuf_loop.simps sys_write_def BUFSIZ_def Let_def)

text \<open>A failed write in the middle of a flush keeps what was written in the buffer, so a second attempt writes it again.\<close>

lemma Bclose_writes_twice:
  assumes "b_dir b = CHR ''w''" "b_next b = 2" "b_buf b = x # y # zs" "answers (b_fd b) = Moves 0 # Fails e # Moves 1 # as"
  shows "\<exists>b' b''. Bclose None b = Some (False, b', False) \<and> Bclose None b' = Some (True, b'', True) \<and> sent (b_fd b'') = sent (b_fd b) @ [x, x, y]"
  using assms by (auto simp: Bclose_def writebuf_def writebuf_loop.simps sys_write_def eval_nat_numeral)

end
