(* ===== verification/Setenv.thy ===== *)
theory Setenv
  imports Prelude
begin

text \<open>
  The environment functions of \<^verbatim>\<open>Advanced_Unix_Programming/c5/setenv.c\<close> and the assignments of the shells in
  \<^verbatim>\<open>c5/builtin.c\<close>. The environment is a list of strings; \<open>None\<close> is an entry that was not initialised, and
  following it is a wrong access. \<^verbatim>\<open>malloc\<close> succeeds or not by arguments.
\<close>

section \<open>The functions\<close>

type_synonym environ = "string option list"

definition env_match :: "string \<Rightarrow> string \<Rightarrow> bool" where
  "env_match var s \<longleftrightarrow> take (length var) s = var \<and> length var < length s \<and> s ! length var = CHR ''=''"

text \<open>The loop of \<^verbatim>\<open>setenv\<close>: the index of the entry of the variable, or of the end.\<close>

fun find_env :: "string \<Rightarrow> nat \<Rightarrow> environ \<Rightarrow> nat run" where
  "find_env var i [] = Ret i"
| "find_env var i (None # es) = Wild"
| "find_env var i (Some s # es) = (if env_match var s then Ret i else find_env var (i + 1) es)"

text \<open>The loop of \<^verbatim>\<open>unsetenv\<close> goes on to the end: \<open>found\<close> is the last entry of the variable.\<close>

fun find_last :: "string \<Rightarrow> nat \<Rightarrow> nat option \<Rightarrow> environ \<Rightarrow> nat option run" where
  "find_last var i found [] = Ret found"
| "find_last var i found (None # es) = Wild"
| "find_last var i found (Some s # es) = find_last var (i + 1) (if env_match var s then Some i else found) es"

definition setnew :: "bool \<Rightarrow> nat \<Rightarrow> string \<Rightarrow> string \<Rightarrow> environ \<Rightarrow> rc \<times> environ" where
  "setnew mem i var val env = (if \<not> mem then (Some ENOMEM, env) else (None, env[i := Some (var @ ''='' @ val)]))"

text \<open>
  \<open>m1\<close> is the first \<^verbatim>\<open>malloc\<close>, for a longer array, whose new entry is not initialised; \<open>m2\<close> the one of \<^verbatim>\<open>setnew\<close>.
  A value that is not longer is copied over the old one.
\<close>

definition setenv :: "bool \<Rightarrow> bool \<Rightarrow> string \<Rightarrow> string \<Rightarrow> bool \<Rightarrow> environ \<Rightarrow> (rc \<times> environ) run" where
  "setenv m1 m2 var val overwrite env =
     (if var = [] \<or> CHR ''='' \<in> set var then Ret (Some EINVAL, env)
      else
        run_bind (find_env var 0 env) (\<lambda>i.
          if i = length env then
            if \<not> m1 then Ret (Some ENOMEM, env) else Ret (setnew m2 i var val (env @ [None]))
          else if overwrite then
            run_bind (deref (env ! i)) (\<lambda>s.
              if length (drop (length var + 1) s) \<ge> length val
              then Ret (None, env[i := Some (take (length var + 1) s @ val)])
              else Ret (setnew m2 i var val env))
          else Ret (None, env)))"

definition unsetenv :: "string \<Rightarrow> environ \<Rightarrow> (rc \<times> environ) run" where
  "unsetenv var env =
     (if var = [] \<or> CHR ''='' \<in> set var then Ret (Some EINVAL, env)
      else
        run_bind (find_last var 0 None env) (\<lambda>found.
          case found of None \<Rightarrow> Ret (None, env) | Some i \<Rightarrow> Ret (None, take i env @ drop (i + 1) env)))"

text \<open>
  The assignment of a shell: \<^verbatim>\<open>strtok\<close> skips equal signs at the start, ends the name at the next one, and the
  value is the rest, \<open>None\<close> if it is empty. The first part of the result is what is printed.
\<close>

definition strtok_name :: "string \<Rightarrow> (string \<times> string) option" where
  "strtok_name s =
     (let s = dropWhile (\<lambda>c. c = CHR ''='') s in
      if s = [] then None else Some (takeWhile (\<lambda>c. c \<noteq> CHR ''='') s, drop 1 (dropWhile (\<lambda>c. c \<noteq> CHR ''='') s)))"

definition asg :: "bool \<Rightarrow> bool \<Rightarrow> string list \<Rightarrow> environ \<Rightarrow> (string list \<times> environ) run" where
  "asg m1 m2 argv env =
     (if length argv \<noteq> 1 then Ret ([''Extra args''], env)
      else
        (case strtok_name (argv ! 0) of
           None \<Rightarrow> Ret ([''Bad command''], env)
         | Some (name, val) \<Rightarrow>
             if val = [] then Ret ([''Bad command''], env)
             else run_bind (setenv m1 m2 name val True env) (\<lambda>(r, env). Ret ([], env))))"

fun set_loop :: "environ \<Rightarrow> string list run" where
  "set_loop [] = Ret []"
| "set_loop (None # es) = Wild"
| "set_loop (Some s # es) = run_bind (set_loop es) (\<lambda>ss. Ret (s # ss))"

definition set_builtin :: "string list \<Rightarrow> environ \<Rightarrow> string list run" where
  "set_builtin argv env = (if length argv \<noteq> 1 then Ret [''Extra args''] else set_loop env)"

section \<open>The environment as a mapping\<close>

definition name_of :: "string \<Rightarrow> string" where
  "name_of s = takeWhile (\<lambda>c. c \<noteq> CHR ''='') s"

definition val_of :: "string \<Rightarrow> string" where
  "val_of s = drop (Suc (length (name_of s))) s"

definition env_ok :: "environ \<Rightarrow> bool" where
  "env_ok env \<longleftrightarrow> (\<exists>ss. env = map Some ss \<and> (\<forall>s \<in> set ss. CHR ''='' \<in> set s \<and> name_of s \<noteq> []) \<and> distinct (map name_of ss))"

definition env_map :: "environ \<Rightarrow> string \<rightharpoonup> string" where
  "env_map env = map_of (map (\<lambda>s. (name_of s, val_of s)) (map the env))"

lemma name_of_app [simp]: "CHR ''='' \<notin> set var \<Longrightarrow> name_of (var @ CHR ''='' # val) = var"
  by (simp add: name_of_def takeWhile_append2) (induction var; auto)

lemma val_of_app [simp]: "CHR ''='' \<notin> set var \<Longrightarrow> val_of (var @ CHR ''='' # val) = val"
  by (simp add: val_of_def)

lemma name_val:
  assumes "CHR ''='' \<in> set s"
  shows "s = name_of s @ CHR ''='' # val_of s"
  using assms
proof (induction s)
  case (Cons c s)
  then show ?case by (cases "c = CHR ''=''") (simp_all add: name_of_def val_of_def)
qed simp

lemma env_match_name:
  assumes "CHR ''='' \<in> set s" "CHR ''='' \<notin> set var"
  shows "env_match var s \<longleftrightarrow> name_of s = var"
proof
  assume m: "env_match var s"
  then have l: "length var < length s" "take (length var) s = var" "s ! length var = CHR ''=''" by (simp_all add: env_match_def)
  have "s = take (length var) s @ s ! length var # drop (Suc (length var)) s" by (rule id_take_nth_drop [OF l(1)])
  then have "s = var @ CHR ''='' # drop (Suc (length var)) s" unfolding l(2,3) .
  then show "name_of s = var" using name_of_app [OF assms(2)] by metis
next
  assume n: "name_of s = var"
  obtain v where "s = var @ CHR ''='' # v" using name_val [OF assms(1)] n by blast
  then show "env_match var s" by (simp add: env_match_def)
qed

definition entries :: "string list \<Rightarrow> bool" where
  "entries ss \<longleftrightarrow> (\<forall>s \<in> set ss. CHR ''='' \<in> set s \<and> name_of s \<noteq> [])"

lemma find_env_ok:
  assumes "entries ss" "CHR ''='' \<notin> set var"
  shows "var \<notin> name_of ` set ss \<Longrightarrow> find_env var i (map Some ss) = Ret (i + length ss)"
    and "distinct (map name_of ss) \<Longrightarrow> k < length ss \<Longrightarrow> name_of (ss ! k) = var \<Longrightarrow> find_env var i (map Some ss) = Ret (i + k)"
  using assms
proof (induction ss arbitrary: i k)
  case (Cons s ss)
  {
    case 1
    then show ?case using Cons.IH(1) [of "i + 1"] by (auto simp: entries_def env_match_name)
  next
    case 2
    then show ?case
    proof (cases k)
      case 0
      then show ?thesis using 2 by (simp add: entries_def env_match_name)
    next
      case (Suc j)
      then have "name_of s \<noteq> var" using 2 by (metis distinct.simps(2) image_eqI length_map list.set_map list.simps(9) nth_Cons_Suc nth_mem Suc_less_eq length_Cons)
      then show ?thesis using 2 Suc Cons.IH(2) [of j "i + 1"] by (simp add: entries_def env_match_name)
    qed
  }
qed simp_all

lemma find_last_ok:
  assumes "entries ss" "CHR ''='' \<notin> set var"
  shows "var \<notin> name_of ` set ss \<Longrightarrow> find_last var i f (map Some ss) = Ret f"
    and "distinct (map name_of ss) \<Longrightarrow> k < length ss \<Longrightarrow> name_of (ss ! k) = var \<Longrightarrow> find_last var i f (map Some ss) = Ret (Some (i + k))"
  using assms
proof (induction ss arbitrary: i k f)
  case (Cons s ss)
  {
    case 1
    then show ?case using Cons.IH(1) [of "i + 1"] by (auto simp: entries_def env_match_name)
  next
    case 2
    then show ?case
    proof (cases k)
      case 0
      then show ?thesis using 2 Cons.IH(1) [of "i + 1" "Some i"] by (auto simp: entries_def env_match_name)
    next
      case (Suc j)
      then show ?thesis using 2 Cons.IH(2) [of j "i + 1"] by (simp add: entries_def)
    qed
  }
qed simp_all

lemma env_map_Some: "env_map (map Some ss) = map_of (map (\<lambda>s. (name_of s, val_of s)) ss)"
  by (simp add: env_map_def comp_def)

text \<open>Changing, adding and removing an entry.\<close>

lemma entry_update:
  assumes "distinct (map name_of ss)" "k < length ss" "name_of (ss ! k) = var" "CHR ''='' \<notin> set var"
  shows "map_of (map (\<lambda>s. (name_of s, val_of s)) (ss[k := var @ CHR ''='' # val])) = (map_of (map (\<lambda>s. (name_of s, val_of s)) ss))(var \<mapsto> val)"
    and "distinct (map name_of (ss[k := var @ CHR ''='' # val]))"
    and "map_of (map (\<lambda>s. (name_of s, val_of s)) (take k ss @ drop (k + 1) ss)) = (map_of (map (\<lambda>s. (name_of s, val_of s)) ss))(var := None)"
    and "distinct (map name_of (take k ss @ drop (k + 1) ss))"
proof -
  obtain l s r where ss: "ss = l @ s # r" "length l = k" using id_take_nth_drop [OF assms(2)] assms(2) by (metis length_take less_imp_le min.absorb2)
  have s: "name_of s = var" using assms(3) ss by auto
  have u: "ss[k := x] = l @ x # r" "take k ss @ drop (k + 1) ss = l @ r" for x using ss by auto
  have n: "var \<notin> name_of ` set l" "var \<notin> name_of ` set r" using assms(1) ss s by auto
  then have m: "map_of (map (\<lambda>s. (name_of s, val_of s)) l) var = None" "map_of (map (\<lambda>s. (name_of s, val_of s)) r) var = None"
    by (auto simp: map_of_eq_None_iff image_image)
  show "map_of (map (\<lambda>s. (name_of s, val_of s)) (ss[k := var @ CHR ''='' # val])) = (map_of (map (\<lambda>s. (name_of s, val_of s)) ss))(var \<mapsto> val)"
    unfolding u unfolding ss(1) using m s assms(4) by (auto simp: fun_eq_iff map_add_def split: option.splits)
  show "map_of (map (\<lambda>s. (name_of s, val_of s)) (take k ss @ drop (k + 1) ss)) = (map_of (map (\<lambda>s. (name_of s, val_of s)) ss))(var := None)"
    unfolding u unfolding ss(1) using m s by (auto simp: fun_eq_iff map_add_def split: option.splits)
  show "distinct (map name_of (ss[k := var @ CHR ''='' # val]))" "distinct (map name_of (take k ss @ drop (k + 1) ss))"
    unfolding u using assms(1,4) n unfolding ss(1) by auto
qed

section \<open>Sequences of calls\<close>

datatype env_call = Setenv string string bool | Unsetenv string

fun env_do :: "env_call \<Rightarrow> environ \<Rightarrow> (rc \<times> environ) run" where
  "env_do (Setenv var val overwrite) env = setenv True True var val overwrite env"
| "env_do (Unsetenv var) env = unsetenv var env"

fun env_run :: "env_call list \<Rightarrow> environ \<Rightarrow> (rc list \<times> environ) run" where
  "env_run [] env = Ret ([], env)"
| "env_run (c # cs) env = run_bind (env_do c env) (\<lambda>(r, env). run_bind (env_run cs env) (\<lambda>(rs, env). Ret (r # rs, env)))"

text \<open>What the calls do to a mapping.\<close>

definition bad_name :: "string \<Rightarrow> bool" where
  "bad_name var \<longleftrightarrow> var = [] \<or> CHR ''='' \<in> set var"

fun env_spec :: "env_call \<Rightarrow> (string \<rightharpoonup> string) \<Rightarrow> rc \<times> (string \<rightharpoonup> string)" where
  "env_spec (Setenv var val overwrite) m =
     (if bad_name var then (Some EINVAL, m) else (None, if overwrite \<or> m var = None then m(var \<mapsto> val) else m))"
| "env_spec (Unsetenv var) m = (if bad_name var then (Some EINVAL, m) else (None, m(var := None)))"

fun env_specs :: "env_call list \<Rightarrow> (string \<rightharpoonup> string) \<Rightarrow> rc list \<times> (string \<rightharpoonup> string)" where
  "env_specs [] m = ([], m)"
| "env_specs (c # cs) m = (case env_spec c m of (r, m) \<Rightarrow> case env_specs cs m of (rs, m) \<Rightarrow> (r # rs, m))"

lemma env_okE:
  assumes "env_ok env"
  obtains ss where "env = map Some ss" "entries ss" "distinct (map name_of ss)"
  using assms by (auto simp: env_ok_def entries_def)

lemma env_okI: "entries ss \<Longrightarrow> distinct (map name_of ss) \<Longrightarrow> env_ok (map Some ss)"
  by (auto simp: env_ok_def entries_def)

lemma absent: "env_map (map Some ss) var = None \<longleftrightarrow> var \<notin> name_of ` set ss"
  by (auto simp: env_map_Some map_of_eq_None_iff image_image)

lemma setenv_ok:
  assumes "env_ok env" "\<not> bad_name var"
  shows "\<exists>env'. setenv True True var val overwrite env = Ret (None, env') \<and> env_ok env' \<and>
    env_map env' = (if overwrite \<or> env_map env var = None then (env_map env)(var \<mapsto> val) else env_map env)"
proof -
  obtain ss where ss: "env = map Some ss" "entries ss" "distinct (map name_of ss)" using env_okE [OF assms(1)] by blast
  have v: "var \<noteq> []" "CHR ''='' \<notin> set var" using assms(2) by (auto simp: bad_name_def)
  let ?s = "var @ CHR ''='' # val"
  show ?thesis
  proof (cases "env_map env var = None")
    case True
    then have n: "var \<notin> name_of ` set ss" using absent ss(1) by blast
    have "setenv True True var val overwrite env = Ret (None, map Some (ss @ [?s]))"
      using find_env_ok(1) [OF ss(2) v(2) n, of 0] v by (simp add: setenv_def setnew_def ss(1) list_update_append)
    moreover have "entries (ss @ [?s])" "distinct (map name_of (ss @ [?s]))" using ss(2,3) v n by (auto simp: entries_def)
    then have "env_ok (map Some (ss @ [?s]))" by (rule env_okI)
    moreover have "env_map (map Some (ss @ [?s])) = (env_map env)(var \<mapsto> val)"
      using True v unfolding ss(1) env_map_Some by (auto simp: fun_eq_iff map_add_def split: option.splits)
    ultimately show ?thesis using True by auto
  next
    case False
    then obtain k where k: "k < length ss" "name_of (ss ! k) = var" using absent [of ss var] ss(1) by (auto simp: in_set_conv_nth)
    have f: "find_env var 0 env = Ret k" using find_env_ok(2) [OF ss(2) v(2) ss(3) k, of 0] ss(1) by simp
    show ?thesis
    proof (cases overwrite)
      case False
      then show ?thesis using f assms(1) v k ss(1) \<open>\<not> env_map env var = None\<close> by (auto simp: setenv_def)
    next
      case True
      have "CHR ''='' \<in> set (ss ! k)" using ss(2) k(1) by (auto simp: entries_def)
      then have "ss ! k = var @ CHR ''='' # val_of (ss ! k)" using name_val k(2) by metis
      then have t: "take (length var + 1) (ss ! k) @ val = ?s" by (metis (no_types, lifting) Suc_eq_plus1 append.assoc append_Cons append_Nil append_eq_conv_conj length_append_singleton)
      have "setenv True True var val overwrite env = Ret (None, map Some (ss[k := ?s]))"
        using f v k(1) True t by (auto simp: setenv_def setnew_def ss(1) map_update)
      moreover note u = entry_update(1,2) [OF ss(3) k v(2), of val]
      moreover have "entries (ss[k := ?s])" using ss(2) v set_update_subset_insert [of ss k ?s] by (auto simp: entries_def)
      ultimately show ?thesis using True env_okI env_map_Some ss(1) by auto
    qed
  qed
qed

lemma unsetenv_ok:
  assumes "env_ok env" "\<not> bad_name var"
  shows "\<exists>env'. unsetenv var env = Ret (None, env') \<and> env_ok env' \<and> env_map env' = (env_map env)(var := None)"
proof -
  obtain ss where ss: "env = map Some ss" "entries ss" "distinct (map name_of ss)" using env_okE [OF assms(1)] by blast
  have v: "var \<noteq> []" "CHR ''='' \<notin> set var" using assms(2) by (auto simp: bad_name_def)
  show ?thesis
  proof (cases "env_map env var = None")
    case True
    then have "var \<notin> name_of ` set ss" using absent ss(1) by blast
    then show ?thesis using find_last_ok(1) [OF ss(2) v(2), of 0 None] assms(1) v ss(1) True by (auto simp: unsetenv_def)
  next
    case False
    then obtain k where k: "k < length ss" "name_of (ss ! k) = var" using absent [of ss var] ss(1) by (auto simp: in_set_conv_nth)
    have "unsetenv var env = Ret (None, map Some (take k ss @ drop (k + 1) ss))"
      using find_last_ok(2) [OF ss(2) v(2) ss(3) k, of 0 None] v by (simp add: unsetenv_def ss(1) take_map drop_map)
    moreover note u = entry_update(3,4) [OF ss(3) k v(2)]
    moreover have "entries (take k ss @ drop (k + 1) ss)" using ss(2) by (auto simp: entries_def dest: in_set_takeD in_set_dropD)
    then have "env_ok (map Some (take k ss @ drop (k + 1) ss))" using u(2) by (rule env_okI)
    moreover have "env_map (map Some (take k ss @ drop (k + 1) ss)) = (env_map env)(var := None)" unfolding env_map_Some ss(1) by (rule u(1))
    ultimately show ?thesis by blast
  qed
qed

section \<open>Properties\<close>

text \<open>
  C32. The environment functions refine a mapping from names to values: on an environment without duplicates,
  every sequence of calls of \<^verbatim>\<open>setenv\<close>, with or without overwriting, and \<^verbatim>\<open>unsetenv\<close>, names that are refused
  included, follows no wild pointer, returns what it returns on the mapping, and leaves an environment
  without duplicates that holds the resulting mapping.
\<close>

theorem environ_refines_map:
  assumes "env_ok env"
  shows "\<exists>env'. env_run cs env = Ret (fst (env_specs cs (env_map env)), env') \<and> env_ok env' \<and> env_map env' = snd (env_specs cs (env_map env))"
  using assms
proof (induction cs arbitrary: env)
  case (Cons c cs)
  have "\<exists>env1. env_do c env = Ret (fst (env_spec c (env_map env)), env1) \<and> env_ok env1 \<and> env_map env1 = snd (env_spec c (env_map env))"
  proof (cases c)
    case (Setenv var val overwrite)
    then show ?thesis using setenv_ok [OF Cons.prems, of var val overwrite] Cons.prems
      by (cases "bad_name var") (auto simp: setenv_def bad_name_def)
  next
    case (Unsetenv var)
    then show ?thesis using unsetenv_ok [OF Cons.prems, of var] Cons.prems
      by (cases "bad_name var") (auto simp: unsetenv_def bad_name_def)
  qed
  then obtain env1 where e: "env_do c env = Ret (fst (env_spec c (env_map env)), env1)" "env_ok env1" "env_map env1 = snd (env_spec c (env_map env))" by blast
  obtain env' where "env_run cs env1 = Ret (fst (env_specs cs (env_map env1)), env')" "env_ok env'" "env_map env' = snd (env_specs cs (env_map env1))"
    using Cons.IH [OF e(2)] by blast
  then show ?case using e by (auto simp: split_beta)
qed simp

theorem environ_refines_map_witness:
  "\<exists>env'. env_run [Setenv ''A'' ''xyz'' True, Setenv ''B'' ''2'' False, Unsetenv ''HOME''] [Some ''HOME=/'', Some ''A=1''] = Ret ([None, None, None], env') \<and>
    env_map env' = [''A'' \<mapsto> ''xyz'', ''B'' \<mapsto> ''2'']"
proof -
  have m: "env_map [Some ''HOME=/'', Some ''A=1''] = [''HOME'' \<mapsto> ''/'', ''A'' \<mapsto> ''1'']"
    by (auto simp: env_map_def name_of_def val_of_def fun_eq_iff)
  have "env_ok [Some ''HOME=/'', Some ''A=1'']" unfolding env_ok_def by (intro exI [of _ "[''HOME=/'', ''A=1'']"]) (simp add: name_of_def)
  note e = environ_refines_map [OF this, of "[Setenv ''A'' ''xyz'' True, Setenv ''B'' ''2'' False, Unsetenv ''HOME'']"]
  have "snd (env_specs [Setenv ''A'' ''xyz'' True, Setenv ''B'' ''2'' False, Unsetenv ''HOME''] [''HOME'' \<mapsto> ''/'', ''A'' \<mapsto> ''1'']) = [''A'' \<mapsto> ''xyz'', ''B'' \<mapsto> ''2'']"
    by (auto simp: bad_name_def fun_eq_iff)
  then show ?thesis using e unfolding m by (auto simp: bad_name_def)
qed

text \<open>When the second \<^verbatim>\<open>malloc\<close> fails, the longer array has an entry that was never set, and the next call follows it.\<close>

lemma setenv_leaves_hole:
  assumes "env_ok env" "\<not> bad_name var" "env_map env var = None" "\<not> bad_name x" "env_map env x = None"
  shows "\<exists>env'. setenv True False var val ow env = Ret (Some ENOMEM, env') \<and> setenv True True x y ow' env' = Wild"
proof -
  obtain ss where ss: "env = map Some ss" "entries ss" using env_okE [OF assms(1)] by blast
  have n: "var \<notin> name_of ` set ss" "x \<notin> name_of ` set ss" using absent assms(3,5) ss(1) by blast+
  have v: "var \<noteq> []" "CHR ''='' \<notin> set var" "x \<noteq> []" "CHR ''='' \<notin> set x" using assms(2,4) by (auto simp: bad_name_def)
  have "find_env x i (map Some ss @ [None]) = Wild" for i
    using n(2) ss(2) v(4) by (induction ss arbitrary: i) (auto simp: entries_def env_match_name)
  then show ?thesis using find_env_ok(1) [OF ss(2) v(2) n(1), of 0] v by (simp add: setenv_def setnew_def ss(1))
qed

end
