(* ===== verification/Shell.thy ===== *)
theory Shell
  imports Setenv
begin

text \<open>
  The shell of \<^verbatim>\<open>Advanced_Unix_Programming/c6/sh3.c\<close>: the tokens of its input, the commands with redirections and
  pipelines, and the file descriptors of the shell and of the processes it starts. Standard input is
  the text that is still to come, which ends with the end of the file.
\<close>

section \<open>Tokens\<close>

datatype TOKEN = T_WORD | T_BAR | T_AMP | T_SEMI | T_GT | T_GTGT | T_LT | T_NL | T_EOF | T_ERROR

datatype lex_state = NEUTRAL | GTGT | INQUOTE | INWORD

definition MAXARG :: nat where "MAXARG = 50"
definition MAXFNAME :: nat where "MAXFNAME = 500"
definition MAXWORD :: nat where "MAXWORD = 500"

text \<open>\<open>word\<close> is what the array holds so far.\<close>

definition store_char :: "nat \<Rightarrow> char \<Rightarrow> string \<Rightarrow> string option" where
  "store_char maxword c word = (if length word < maxword then Some (word @ [c]) else None)"

text \<open>The characters that end a word, and the token a character is by itself.\<close>

definition ends_word :: "char \<Rightarrow> bool" where
  "ends_word c \<longleftrightarrow> c \<in> {CHR '';'', CHR ''&'', CHR ''|'', CHR ''<'', CHR ''>'', CHR 0x0A, CHR '' '', CHR 0x09}"

definition one_char :: "char \<Rightarrow> TOKEN option" where
  "one_char c =
     (if c = CHR '';'' then Some T_SEMI else if c = CHR ''&'' then Some T_AMP else if c = CHR ''|'' then Some T_BAR
      else if c = CHR ''<'' then Some T_LT else if c = CHR 0x0A then Some T_NL else None)"

text \<open>
  The token, the array and the rest of the input. \<open>rerr\<close> says whether the input ended with an error. An
  escaped character at the end of the input is the backslash itself.
\<close>

fun gettoken_loop :: "bool \<Rightarrow> nat \<Rightarrow> lex_state \<Rightarrow> string \<Rightarrow> string \<Rightarrow> TOKEN \<times> string \<times> string" where
  "gettoken_loop rerr maxword state word [] = (if rerr then T_ERROR else T_EOF, word, [])"
| "gettoken_loop rerr maxword NEUTRAL word (c # cs) =
     (case one_char c of
        Some t \<Rightarrow> (t, word, cs)
      | None \<Rightarrow>
          if c = CHR '' '' \<or> c = CHR 0x09 then gettoken_loop rerr maxword NEUTRAL word cs
          else if c = CHR ''>'' then gettoken_loop rerr maxword GTGT word cs
          else if c = CHR 0x22 then gettoken_loop rerr maxword INQUOTE word cs
          else
            (case store_char maxword c word of
               None \<Rightarrow> (T_ERROR, word, cs)
             | Some word \<Rightarrow> gettoken_loop rerr maxword INWORD word cs))"
| "gettoken_loop rerr maxword GTGT word (c # cs) = (if c = CHR ''>'' then (T_GTGT, word, cs) else (T_GT, word, c # cs))"
| "gettoken_loop rerr maxword INQUOTE word (c # cs) =
     (if c = CHR 0x5C then
        (case cs of
           [] \<Rightarrow> (case store_char maxword CHR 0x5C word of
               None \<Rightarrow> (T_ERROR, word, [])
             | Some word \<Rightarrow> gettoken_loop rerr maxword INQUOTE word [])
         | d # ds \<Rightarrow> (case store_char maxword d word of
               None \<Rightarrow> (T_ERROR, word, ds)
             | Some word \<Rightarrow> gettoken_loop rerr maxword INQUOTE word ds))
      else if c = CHR 0x22 then
        (case store_char maxword CHR 0x00 word of None \<Rightarrow> (T_ERROR, word, cs) | Some word \<Rightarrow> (T_WORD, word, cs))
      else
        (case store_char maxword c word of
           None \<Rightarrow> (T_ERROR, word, cs)
         | Some word \<Rightarrow> gettoken_loop rerr maxword INQUOTE word cs))"
| "gettoken_loop rerr maxword INWORD word (c # cs) =
     (if ends_word c then
        (case store_char maxword CHR 0x00 word of None \<Rightarrow> (T_ERROR, word, c # cs) | Some word \<Rightarrow> (T_WORD, word, c # cs))
      else
        (case store_char maxword c word of
           None \<Rightarrow> (T_ERROR, word, cs)
         | Some word \<Rightarrow> gettoken_loop rerr maxword INWORD word cs))"

definition gettoken :: "bool \<Rightarrow> nat \<Rightarrow> string \<Rightarrow> TOKEN \<times> string \<times> string" where
  "gettoken rerr maxword inp = gettoken_loop rerr maxword NEUTRAL [] inp"

text \<open>The string in an array, up to the null byte.\<close>

definition c_string :: "string \<Rightarrow> string" where
  "c_string word = takeWhile (\<lambda>c. c \<noteq> CHR 0x00) word"

section \<open>File descriptors\<close>

text \<open>What a descriptor refers to: what the shell was started with, an end of a pipe, or a file.\<close>

datatype fobj = Given nat | PipeRead nat | PipeWrite nat | Reads string | Writes string bool

type_synonym fdtab = "(int \<times> fobj) list"

definition fd_close :: "int \<Rightarrow> fdtab \<Rightarrow> fdtab option" where
  "fd_close fd tab = (if fd \<in> fst ` set tab then Some (filter (\<lambda>(f, obj). f \<noteq> fd) tab) else None)"

definition fd_dup2 :: "int \<Rightarrow> int \<Rightarrow> fdtab \<Rightarrow> fdtab option" where
  "fd_dup2 src dst tab =
     (case map_of tab src of None \<Rightarrow> None | Some obj \<Rightarrow> if src = dst then Some tab else Some ((dst, obj) # filter (\<lambda>(f, obj). f \<noteq> dst) tab))"

text \<open>The lowest descriptor that is free.\<close>

fun lowest :: "nat \<Rightarrow> int \<Rightarrow> fdtab \<Rightarrow> int" where
  "lowest 0 fd tab = fd"
| "lowest (Suc k) fd tab = (if fd \<in> fst ` set tab then lowest k (fd + 1) tab else fd)"

definition fd_new :: "fobj \<Rightarrow> fdtab \<Rightarrow> int \<times> fdtab" where
  "fd_new obj tab = (let fd = lowest (length tab) 0 tab in (fd, (fd, obj) # tab))"

definition fd_check :: "fdtab \<Rightarrow> bool" where
  "fd_check tab \<longleftrightarrow> (\<forall>(f, obj) \<in> set tab. \<not> (3 \<le> f \<and> f < 20))"

text \<open>
  \<open>can_open\<close> says which files can be opened. \<open>None\<close> is the end of the child with a failure.
\<close>

definition redirect_in :: "(string \<Rightarrow> bool) \<Rightarrow> int \<Rightarrow> string \<Rightarrow> bool \<Rightarrow> fdtab \<Rightarrow> fdtab option" where
  "redirect_in can_open srcfd srcfile bckgrnd tab =
     (let (srcfile, srcfd) = (if srcfd = 0 \<and> bckgrnd then (''/dev/null'', -1) else (srcfile, srcfd)) in
      case (if srcfile \<noteq> [] then if can_open srcfile then Some (fd_new (Reads srcfile) tab) else None else Some (srcfd, tab)) of
        None \<Rightarrow> None
      | Some (srcfd, tab) \<Rightarrow>
          (case fd_dup2 srcfd 0 tab of
             None \<Rightarrow> None
           | Some tab \<Rightarrow> if srcfd \<noteq> 0 then fd_close srcfd tab else Some tab))"

definition redirect_out :: "(string \<Rightarrow> bool) \<Rightarrow> int \<Rightarrow> string \<Rightarrow> bool \<Rightarrow> fdtab \<Rightarrow> fdtab option" where
  "redirect_out can_open dstfd dstfile apnd tab =
     (case (if dstfile \<noteq> [] then if can_open dstfile then Some (fd_new (Writes dstfile apnd) tab) else None else Some (dstfd, tab)) of
        None \<Rightarrow> None
      | Some (dstfd, tab) \<Rightarrow>
          (case fd_dup2 dstfd 1 tab of
             None \<Rightarrow> None
           | Some tab \<Rightarrow> if dstfd \<noteq> 1 then fd_close dstfd tab else Some tab))"

definition redirect ::
  "(string \<Rightarrow> bool) \<Rightarrow> int \<Rightarrow> string \<Rightarrow> int \<Rightarrow> string \<Rightarrow> bool \<Rightarrow> bool \<Rightarrow> fdtab \<Rightarrow> fdtab option" where
  "redirect can_open srcfd srcfile dstfd dstfile apnd bckgrnd tab =
     (case redirect_in can_open srcfd srcfile bckgrnd tab of
        None \<Rightarrow> None
      | Some tab \<Rightarrow>
          (case redirect_out can_open dstfd dstfile apnd tab of
             None \<Rightarrow> None
           | Some tab \<Rightarrow> if fd_check tab then Some tab else None))"

section \<open>Commands\<close>

text \<open>
  A child that calls \<^verbatim>\<open>execvp\<close>, with the path, the arguments and its descriptors; or one that ended before.
\<close>

datatype child = Exec string "string list" fdtab | Failed

record shell =
  sh_in :: string
  sh_fds :: fdtab
  sh_pipes :: nat
  sh_children :: "child list"
  sh_wpid :: int
  sh_env :: environ
  sh_out :: "string list"
  sh_err :: "string list"

text \<open>What the system decides: files that can be opened, directories, and whether the n-th fork and pipe succeed.\<close>

record sys =
  can_open :: "string \<Rightarrow> bool"
  is_dir :: "string \<Rightarrow> bool"
  fork_ok :: "nat \<Rightarrow> bool"
  pipe_ok :: "nat \<Rightarrow> bool"
  in_error :: bool

definition complain :: "string \<Rightarrow> shell \<Rightarrow> shell" where
  "complain msg sh = sh\<lparr>sh_err := sh_err sh @ [msg]\<rparr>"

text \<open>
  A command that the shell does itself, \<open>None\<close> if it is no such command. A lack of memory does not occur, and an
  environment with a wild entry is left as it is.
\<close>

definition builtin :: "sys \<Rightarrow> string list \<Rightarrow> int \<Rightarrow> int \<Rightarrow> shell \<Rightarrow> shell option" where
  "builtin sy argv srcfd dstfd sh =
     (let after = (\<lambda>sh. if srcfd \<noteq> 0 \<or> dstfd \<noteq> 1 then complain ''Illegal redirection or pipeline'' sh else sh) in
      if CHR ''='' \<in> set (argv ! 0) then
        Some (after (case asg True True argv (sh_env sh) of
          Ret (msgs, env) \<Rightarrow> sh\<lparr>sh_out := sh_out sh @ msgs, sh_env := env\<rparr> | _ \<Rightarrow> sh))
      else if argv ! 0 = ''set'' then
        Some (after (case set_builtin argv (sh_env sh) of Ret msgs \<Rightarrow> sh\<lparr>sh_out := sh_out sh @ msgs\<rparr> | _ \<Rightarrow> sh))
      else if argv ! 0 = ''cd'' then
        let path = (if length argv > 1 then argv ! 1
                    else (case env_map (sh_env sh) ''HOME'' of Some p \<Rightarrow> p | None \<Rightarrow> ''.'')) in
        Some (after (if is_dir sy path then sh else complain (path @ '': bad directory'') sh))
      else None)"

text \<open>The name under which a command is run: what follows the first slash of its path.\<close>

definition cmdname :: "string \<Rightarrow> string" where
  "cmdname path = (if CHR ''/'' \<in> set path then drop 1 (dropWhile (\<lambda>c. c \<noteq> CHR ''/'') path) else path)"

definition run_child :: "sys \<Rightarrow> string list \<Rightarrow> int \<Rightarrow> string \<Rightarrow> int \<Rightarrow> string \<Rightarrow> bool \<Rightarrow> bool \<Rightarrow> int \<Rightarrow> fdtab \<Rightarrow> child" where
  "run_child sy argv srcfd srcfile dstfd dstfile apnd bckgrnd closefd tab =
     (case (if closefd \<noteq> -1 then fd_close closefd tab else Some tab) of
        None \<Rightarrow> Failed
      | Some tab \<Rightarrow>
          (case redirect (can_open sy) srcfd srcfile dstfd dstfile apnd bckgrnd tab of
             None \<Rightarrow> Failed
           | Some tab \<Rightarrow> Exec (argv ! 0) (cmdname (argv ! 0) # tl argv) tab))"

text \<open>The result is the process, 0 for none, or \<open>None\<close> for -1; the n-th process has the number n.\<close>

definition invoke ::
  "sys \<Rightarrow> string list \<Rightarrow> int \<Rightarrow> string \<Rightarrow> int \<Rightarrow> string \<Rightarrow> bool \<Rightarrow> bool \<Rightarrow> int \<Rightarrow> shell \<Rightarrow> int option \<times> shell" where
  "invoke sy argv srcfd srcfile dstfd dstfile apnd bckgrnd closefd sh =
     (if argv = [] then (Some 0, sh)
      else
        (case builtin sy argv srcfd dstfd sh of
           Some sh \<Rightarrow> (Some 0, sh)
         | None \<Rightarrow>
             if \<not> fork_ok sy (length (sh_children sh)) then (Some 0, complain ''Cannot create new process'' sh)
             else
               let sh = sh\<lparr>sh_children := sh_children sh @ [run_child sy argv srcfd srcfile dstfd dstfile apnd bckgrnd closefd (sh_fds sh)]\<rparr> in
               (case (if srcfd > 1 then fd_close srcfd (sh_fds sh) else Some (sh_fds sh)) of
                  None \<Rightarrow> (None, sh)
                | Some tab \<Rightarrow>
                    (case (if dstfd > 1 then fd_close dstfd tab else Some tab) of
                       None \<Rightarrow> (None, sh\<lparr>sh_fds := tab\<rparr>)
                     | Some tab \<Rightarrow> (Some (int (length (sh_children sh))), sh\<lparr>sh_fds := tab\<rparr>)))))"

text \<open>
  The local variables of \<^verbatim>\<open>command\<close>. The two file names are arrays which hold null bytes at first; a token
  is written over what an array holds.
\<close>

record cmd_locals =
  l_argv :: "string list"
  l_srcfd :: int
  l_srcfile :: string
  l_dstfd :: int
  l_dstfile :: string
  l_append :: bool

definition cmd_start :: cmd_locals where
  "cmd_start = \<lparr>l_argv = [], l_srcfd = 0, l_srcfile = [], l_dstfd = 1, l_dstfile = [], l_append = False\<rparr>"

definition overwrite :: "string \<Rightarrow> string \<Rightarrow> string" where
  "overwrite w array = w @ drop (length w) array"

text \<open>How \<^verbatim>\<open>command\<close> ends: the shell exits, or a token is returned, with the descriptor for the command before.\<close>

type_synonym cmd_end = "shell + TOKEN \<times> int \<times> shell"

text \<open>The end of a command: the pipe to the command before, if there is one, and the process.\<close>

definition start_command :: "sys \<Rightarrow> bool \<Rightarrow> TOKEN \<Rightarrow> TOKEN \<Rightarrow> cmd_locals \<Rightarrow> shell \<Rightarrow> TOKEN \<times> int \<times> shell" where
  "start_command sy makepipe token trm l sh =
     (if makepipe \<and> \<not> pipe_ok sy (sh_pipes sh) then (T_ERROR, -1, sh)
      else
        let (srcfd, pfd1, sh) =
          (if makepipe
           then let (r, tab) = fd_new (PipeRead (sh_pipes sh)) (sh_fds sh);
                    (w, tab) = fd_new (PipeWrite (sh_pipes sh)) tab
                in (r, w, sh\<lparr>sh_fds := tab, sh_pipes := sh_pipes sh + 1\<rparr>)
           else (l_srcfd l, -1, sh)) in
        (case invoke sy (l_argv l) srcfd (c_string (l_srcfile l)) (l_dstfd l) (c_string (l_dstfile l)) (l_append l) (trm = T_AMP) pfd1 sh of
           (None, sh) \<Rightarrow> (T_ERROR, pfd1, sh)
         | (Some pid, sh) \<Rightarrow>
             let sh = (if token \<noteq> T_BAR then sh\<lparr>sh_wpid := pid\<rparr> else sh);
                 sh = (if l_argv l = [] \<and> (token \<noteq> T_NL \<or> srcfd > 1) then complain ''Missing command'' sh else sh)
             in (trm, pfd1, sh)))"

text \<open>
  What the body of the loop does with one token: the loop goes on, or the rest of the pipeline comes first,
  or \<^verbatim>\<open>command\<close> ends. \<^verbatim>\<open>break\<close> in the cases of \<^verbatim>\<open>switch\<close> leaves the \<^verbatim>\<open>switch\<close> only, so that the loop goes on after
  each message.
\<close>

datatype cmd_act = Again cmd_locals shell | Pipeline shell | End cmd_end

definition command_token :: "sys \<Rightarrow> bool \<Rightarrow> cmd_locals \<Rightarrow> shell \<Rightarrow> cmd_act" where
  "command_token sy makepipe l sh0 =
     (case gettoken (in_error sy) MAXWORD (sh_in sh0) of (token, word, rest) \<Rightarrow>
        let sh = sh0\<lparr>sh_in := rest\<rparr> in
        if token = T_WORD then
          if length (l_argv l) \<ge> MAXARG - 1 then Again l (complain ''Too many args'' sh)
          else Again (l\<lparr>l_argv := l_argv l @ [c_string word]\<rparr>) sh
        else if token = T_LT then
          if makepipe then Again l (complain ''Extra <'' sh)
          else
            (case gettoken (in_error sy) MAXFNAME rest of (t, w, rest) \<Rightarrow>
               if t \<noteq> T_WORD then Again (l\<lparr>l_srcfile := overwrite w (l_srcfile l)\<rparr>) (complain ''Illegal <'' (sh\<lparr>sh_in := rest\<rparr>))
               else Again (l\<lparr>l_srcfile := overwrite w (l_srcfile l), l_srcfd := -1\<rparr>) (sh\<lparr>sh_in := rest\<rparr>))
        else if token = T_GT \<or> token = T_GTGT then
          if l_dstfd l \<noteq> 1 then Again l (complain ''Extra > or >>'' sh)
          else
            (case gettoken (in_error sy) MAXFNAME rest of (t, w, rest) \<Rightarrow>
               if t \<noteq> T_WORD then Again (l\<lparr>l_dstfile := overwrite w (l_dstfile l)\<rparr>) (complain ''Illegal > or >>'' (sh\<lparr>sh_in := rest\<rparr>))
               else Again (l\<lparr>l_dstfile := overwrite w (l_dstfile l), l_dstfd := -1, l_append := (token = T_GTGT)\<rparr>) (sh\<lparr>sh_in := rest\<rparr>))
        else if token = T_BAR then
          if l_dstfd l \<noteq> 1 then Again l (complain ''> or >> conflicts with |'' sh) else Pipeline sh
        else if token = T_EOF then End (Inl sh)
        else if token = T_ERROR then End (Inr (T_ERROR, -1, sh))
        else End (Inr (start_command sy makepipe token token l sh)))"

definition after_pipeline :: "sys \<Rightarrow> bool \<Rightarrow> cmd_locals \<Rightarrow> cmd_end \<Rightarrow> cmd_end" where
  "after_pipeline sy makepipe l r =
     (case r of
        Inl sh \<Rightarrow> Inl sh
      | Inr (trm, pfd, sh) \<Rightarrow>
          if trm = T_ERROR then Inr (T_ERROR, -1, sh) else Inr (start_command sy makepipe T_BAR trm (l\<lparr>l_dstfd := pfd\<rparr>) sh))"

partial_function (option) command_loop :: "sys \<Rightarrow> bool \<Rightarrow> cmd_locals \<Rightarrow> shell \<Rightarrow> cmd_end option" where
  "command_loop sy makepipe l sh =
     (case command_token sy makepipe l sh of
        Again l' sh' \<Rightarrow> command_loop sy makepipe l' sh'
      | Pipeline sh' \<Rightarrow>
          Option.bind (command_loop sy True cmd_start sh') (\<lambda>r. Some (after_pipeline sy makepipe l r))
      | End r \<Rightarrow> Some r)"

definition command :: "sys \<Rightarrow> bool \<Rightarrow> shell \<Rightarrow> cmd_end option" where
  "command sy makepipe sh = command_loop sy makepipe cmd_start sh"

text \<open>
  The loop of \<^verbatim>\<open>main\<close>; the result is whether the shell ends with success, and its state then. Waiting for
  processes is not modelled.
\<close>

partial_function (option) main_loop :: "sys \<Rightarrow> shell \<Rightarrow> (bool \<times> shell) option" where
  "main_loop sy sh =
     (case command sy False sh of
        None \<Rightarrow> None
      | Some (Inl sh) \<Rightarrow> Some (True, sh)
      | Some (Inr (trm, pfd, sh)) \<Rightarrow>
          let sh = (if trm = T_ERROR then complain ''Bad command'' sh else sh) in
          if fd_check (sh_fds sh) then main_loop sy sh else Some (False, sh))"

end
