(* ===== verification/Shell_Props.thy ===== *)
theory Shell_Props
  imports Shell
begin

text \<open>
  Properties of the shell: it ends on every input, its tokens are read back as they are written, a pipeline
  connects its processes as it should and leaves no descriptor open, and a command that the shell does
  itself in a pipeline ends the shell.
\<close>

section \<open>Every token uses up input\<close>

lemma gettoken_loop_le:
  "gettoken_loop e mw st w inp = (t, w', rest) \<Longrightarrow> length rest \<le> length inp"
proof (induction "length inp" arbitrary: inp st w rule: less_induct)
  case less
  have IH: "length rest \<le> length i" if "gettoken_loop e mw st w i = (t, w', rest)" "length i < length inp" for i st w
    using less that by blast
  show ?case
  proof (cases inp)
    case Nil
    then show ?thesis using less(2) by simp
  next
    case (Cons c cs)
    have cs: "length rest \<le> Suc (length cs)" if "gettoken_loop e mw st w cs = (t, w', rest)" for st w
      using IH [OF that] Cons by simp
    have ds: "length rest \<le> Suc (Suc (length ds))" if "gettoken_loop e mw st w ds = (t, w', rest)" "cs = d # ds" for st w d ds
      using IH [OF that(1)] Cons that(2) by simp
    show ?thesis
      using less(2) unfolding Cons by (cases st) (auto split: option.splits if_splits list.splits dest: cs ds)
  qed
qed

lemma gettoken_less:
  assumes "gettoken e mw inp = (t, w, rest)"
  shows "inp \<noteq> [] \<Longrightarrow> length rest < length inp" "inp = [] \<Longrightarrow> t = (if e then T_ERROR else T_EOF) \<and> rest = []"
  using assms by (auto simp: gettoken_def neq_Nil_conv less_Suc_eq_le split: option.splits if_splits dest: gettoken_loop_le)

lemma gettoken_le: "gettoken e mw inp = (t, w, rest) \<Longrightarrow> length rest \<le> length inp"
  unfolding gettoken_def by (rule gettoken_loop_le)

lemma complain_in [simp]: "sh_in (complain m sh) = sh_in sh"
  by (simp add: complain_def)

lemma complain_fds [simp]: "sh_fds (complain m sh) = sh_fds sh"
  by (simp add: complain_def)

lemma builtin_fds: "builtin sy argv a b sh = Some sh' \<Longrightarrow> sh_fds sh' = sh_fds sh"
  by (auto simp: builtin_def Let_def split: if_splits run.splits)

lemma builtin_some:
  "CHR ''='' \<in> set (argv ! 0) \<or> argv ! 0 = ''set'' \<or> argv ! 0 = ''cd'' \<Longrightarrow> \<exists>sh'. builtin sy argv a b sh = Some sh'"
  by (auto simp: builtin_def Let_def)

lemma builtin_in [simp]: "builtin sy argv a b sh = Some sh' \<Longrightarrow> sh_in sh' = sh_in sh"
  by (auto simp: builtin_def Let_def split: if_splits run.splits)

lemma invoke_in [simp]: "sh_in (snd (invoke sy argv sfd sf dfd df ap bg cl sh)) = sh_in sh"
  by (auto simp: invoke_def Let_def split: option.splits)

lemma start_command_sh: "sh_in (snd (snd (start_command sy mp tok trm l sh))) = sh_in sh"
  by (simp add: start_command_def Let_def case_prod_unfold split: option.split)

lemma start_command_in: "start_command sy mp tok trm l sh = (t, p, sh') \<Longrightarrow> sh_in sh' = sh_in sh"
  using start_command_sh [of sy mp tok trm l sh] by simp

text \<open>A token that is read leaves less of the input; the end of the input ends the command.\<close>

lemma command_token_less:
  "command_token sy mp l sh = Again l' sh' \<Longrightarrow> length (sh_in sh') < length (sh_in sh)"
  "command_token sy mp l sh = Pipeline sh' \<Longrightarrow> length (sh_in sh') < length (sh_in sh)"
  "\<not> in_error sy \<Longrightarrow> command_token sy mp l sh = End (Inr (t', p', sh')) \<Longrightarrow> length (sh_in sh') < length (sh_in sh)"
proof -
  obtain t w r where t: "gettoken (in_error sy) MAXWORD (sh_in sh) = (t, w, r)" by (cases "gettoken (in_error sy) MAXWORD (sh_in sh)") auto
  obtain t2 w2 r2 where t2: "gettoken (in_error sy) MAXFNAME r = (t2, w2, r2)" by (cases "gettoken (in_error sy) MAXFNAME r") auto
  have less: "t \<noteq> T_EOF \<Longrightarrow> t \<noteq> T_ERROR \<or> \<not> in_error sy \<Longrightarrow> length r < length (sh_in sh)"
    using gettoken_less [OF t] by (cases "sh_in sh = []") (auto split: if_splits)
  note le = gettoken_le [OF t2]
  show "command_token sy mp l sh = Again l' sh' \<Longrightarrow> length (sh_in sh') < length (sh_in sh)"
    using less le unfolding command_token_def t prod.case Let_def t2 by (auto split: if_splits)
  show "command_token sy mp l sh = Pipeline sh' \<Longrightarrow> length (sh_in sh') < length (sh_in sh)"
    using less unfolding command_token_def t prod.case Let_def t2 by (auto split: if_splits)
  show "\<not> in_error sy \<Longrightarrow> command_token sy mp l sh = End (Inr (t', p', sh')) \<Longrightarrow> length (sh_in sh') < length (sh_in sh)"
    using less unfolding command_token_def t prod.case Let_def t2
    by (auto split: if_splits dest: start_command_in)
qed

lemma command_loop_total: "\<exists>r. command_loop sy mp l sh = Some r"
proof (induction "length (sh_in sh)" arbitrary: mp l sh rule: less_induct)
  case less
  show ?case
  proof (cases "command_token sy mp l sh")
    case (Again l' sh')
    then show ?thesis using less [OF command_token_less(1) [OF Again], of mp l'] by (simp add: command_loop.simps [of sy mp l sh])
  next
    case (Pipeline sh')
    then show ?thesis using less [OF command_token_less(2) [OF Pipeline], of True cmd_start] by (auto simp: command_loop.simps [of sy mp l sh])
  next
    case (End r)
    then show ?thesis by (simp add: command_loop.simps [of sy mp l sh])
  qed
qed

lemma after_pipeline_in: "after_pipeline sy mp l r = Inr (t, p, sh') \<Longrightarrow> \<exists>t p sh. r = Inr (t, p, sh) \<and> sh_in sh' = sh_in sh"
  by (auto simp: after_pipeline_def split: sum.splits if_splits dest: start_command_in)

lemma command_loop_less:
  assumes "\<not> in_error sy"
  shows "command_loop sy mp l sh = Some (Inr (t, p, sh')) \<Longrightarrow> length (sh_in sh') < length (sh_in sh)"
proof (induction "length (sh_in sh)" arbitrary: mp l sh t p sh' rule: less_induct)
  case less
  show ?case
  proof (cases "command_token sy mp l sh")
    case (Again l' s')
    note lt = command_token_less(1) [OF Again]
    show ?thesis using less(1) [OF lt, of mp l' t p sh'] less(2) lt Again by (simp add: command_loop.simps [of sy mp l sh])
  next
    case (Pipeline s')
    note lt = command_token_less(2) [OF Pipeline]
    obtain r where r: "command_loop sy True cmd_start s' = Some r" "after_pipeline sy mp l r = Inr (t, p, sh')"
      using less(2) Pipeline by (auto simp: command_loop.simps [of sy mp l sh] bind_eq_Some_conv)
    obtain t1 p1 s1 where "r = Inr (t1, p1, s1)" "sh_in sh' = sh_in s1" using after_pipeline_in [OF r(2)] by blast
    then show ?thesis using less(1) [OF lt, of True cmd_start t1 p1 s1] r(1) lt by simp
  next
    case (End r)
    then show ?thesis using less(2) command_token_less(3) [OF assms] by (simp add: command_loop.simps [of sy mp l sh])
  qed
qed

lemma main_loop_total: "\<not> in_error sy \<Longrightarrow> \<exists>r. main_loop sy sh = Some r"
proof (induction "length (sh_in sh)" arbitrary: sh rule: less_induct)
  case less
  obtain r where r: "command sy False sh = Some r" using command_loop_total [of sy False cmd_start sh] by (auto simp: command_def)
  show ?case
  proof (cases r)
    case (Inl s)
    then show ?thesis using r by (auto simp: main_loop.simps [of sy sh])
  next
    case (Inr x)
    obtain t p s where x: "x = (t, p, s)" by (cases x)
    have lt: "length (sh_in s) < length (sh_in sh)"
      using r command_loop_less [OF less(2), of False cmd_start sh t p s] by (simp add: command_def Inr x)
    have "length (sh_in (if t = T_ERROR then complain ''Bad command'' s else s)) < length (sh_in sh)" using lt by simp
    from less(1) [OF this less(2)] show ?thesis using r by (auto simp: main_loop.simps [of sy sh] Inr x Let_def)
  qed
qed

text \<open>When the input ended with an error, the command at the end of the input is bad, again and again.\<close>

lemma command_read_error:
  "in_error sy \<Longrightarrow> sh_in sh = [] \<Longrightarrow> command sy False sh = Some (Inr (T_ERROR, -1, sh))"
  by (cases sh) (simp add: command_def command_loop.simps [of sy False cmd_start] command_token_def gettoken_def)

lemma main_loop_read_error:
  assumes "main_loop sy sh = Some r"
  shows "in_error sy \<longrightarrow> sh_in sh = [] \<longrightarrow> \<not> fd_check (sh_fds sh)"
  by (rule main_loop.raw_induct [OF _ assms]) (fastforce simp: command_read_error complain_def)


definition plain_sys :: sys where
  "plain_sys = \<lparr>can_open = (\<lambda>p. True), is_dir = (\<lambda>p. True), fork_ok = (\<lambda>n. True), pipe_ok = (\<lambda>n. True), in_error = False\<rparr>"

definition std_fds :: fdtab where
  "std_fds = [(0, Given 0), (1, Given 1), (2, Given 2)]"

definition shell_start :: "string \<Rightarrow> shell" where
  "shell_start inp = \<lparr>sh_in = inp, sh_fds = std_fds, sh_pipes = 0, sh_children = [], sh_wpid = 0, sh_env = [], sh_out = [], sh_err = []\<rparr>"


section \<open>Tokens as they are written\<close>

datatype item = Word string | Sym TOKEN

fun esc :: "string \<Rightarrow> string" where
  "esc [] = []"
| "esc (c # cs) = (if c = CHR 0x5C \<or> c = CHR 0x22 then CHR 0x5C # c # esc cs else c # esc cs)"

definition quoted :: "string \<Rightarrow> string" where
  "quoted w = CHR 0x22 # esc w @ [CHR 0x22]"

fun sym_text :: "TOKEN \<Rightarrow> string" where
  "sym_text T_BAR = ''|''"
| "sym_text T_AMP = ''&''"
| "sym_text T_SEMI = '';''"
| "sym_text T_LT = ''<''"
| "sym_text T_GT = ''>''"
| "sym_text T_GTGT = ''>>''"
| "sym_text T_NL = [CHR 0x0A]"
| "sym_text t = []"

fun item_text :: "item \<Rightarrow> string" where
  "item_text (Word w) = quoted w"
| "item_text (Sym t) = sym_text t"

fun items_text :: "item list \<Rightarrow> string" where
  "items_text [] = []"
| "items_text (i # is) = item_text i @ CHR '' '' # items_text is"

text \<open>A word that fits into the array, with the null byte; a symbol of the language.\<close>

fun item_ok :: "nat \<Rightarrow> item \<Rightarrow> bool" where
  "item_ok mw (Word w) \<longleftrightarrow> length w < mw \<and> CHR 0x00 \<notin> set w"
| "item_ok mw (Sym t) \<longleftrightarrow> t \<notin> {T_WORD, T_EOF, T_ERROR}"

text \<open>The tokens of an input up to its end, as the calls of \<^verbatim>\<open>gettoken\<close> give them.\<close>

function tokens :: "nat \<Rightarrow> string \<Rightarrow> item list" where
  "tokens mw inp =
     (if inp = [] then []
      else (case gettoken False mw inp of (t, w, rest) \<Rightarrow>
        (if t = T_EOF then [] else (if t = T_WORD then Word (c_string w) else Sym t) # tokens mw rest)))"
  by auto
termination
  by (relation "measure (length \<circ> snd)") (auto dest: gettoken_less(1) [OF sym])
declare tokens.simps [simp del]

lemma gettoken_quoted_loop:
  "length w0 + length w < mw \<Longrightarrow>
   gettoken_loop e mw INQUOTE w0 (esc w @ CHR 0x22 # rest) = (T_WORD, w0 @ w @ [CHR 0x00], rest)"
  by (induction w arbitrary: w0) (auto simp: store_char_def)

lemma gettoken_item:
  assumes "item_ok mw i"
  shows "gettoken e mw (item_text i @ CHR '' '' # rest) =
           (case i of Word w \<Rightarrow> (T_WORD, w @ [CHR 0x00], CHR '' '' # rest) | Sym t \<Rightarrow> (t, [], CHR '' '' # rest))"
proof (cases i)
  case (Word w)
  then show ?thesis
    using assms gettoken_quoted_loop [of "[]" w mw e "CHR '' '' # rest"]
    by (simp add: gettoken_def quoted_def one_char_def)
next
  case (Sym t)
  then show ?thesis using assms by (cases t) (simp_all add: gettoken_def one_char_def)
qed

lemma c_string_word [simp]: "CHR 0x00 \<notin> set w \<Longrightarrow> c_string (w @ [CHR 0x00]) = w"
  unfolding c_string_def by (subst takeWhile_append2) auto

lemma gettoken_space: "gettoken e mw (CHR '' '' # rest) = gettoken e mw rest"
  by (simp add: gettoken_def one_char_def)

lemma tokens_space: "tokens mw (CHR '' '' # rest) = tokens mw rest"
  by (subst (1 2) tokens.simps) (auto simp: one_char_def gettoken_def)

text \<open>
  C33. What is written with the words in quotes, the quotes and backslashes in them escaped, is read back token
  by token, if the words fit into the array.
\<close>

theorem tokens_roundtrip:
  assumes "\<forall>i \<in> set is. item_ok mw i"
  shows "tokens mw (items_text is) = is"
  using assms
proof (induction "is")
  case Nil
  then show ?case by (simp add: tokens.simps)
next
  case (Cons i "is")
  show ?case
    using Cons gettoken_item [of mw i False "items_text is"]
    by (subst tokens.simps) (auto simp: tokens_space split: item.splits)
qed

theorem tokens_roundtrip_witness:
  "tokens 5 (items_text [Word [CHR ''a'', CHR 0x5C, CHR 0x22], Sym T_GTGT, Word [], Sym T_BAR, Word ''b'', Sym T_NL]) =
     [Word [CHR ''a'', CHR 0x5C, CHR 0x22], Sym T_GTGT, Word [], Sym T_BAR, Word ''b'', Sym T_NL]"
  by (rule tokens_roundtrip) simp

section \<open>Pipelines\<close>

text \<open>The text of a pipeline: the commands as lists of words, joined by bars, with a newline at the end.\<close>

fun words_text :: "string list \<Rightarrow> string" where
  "words_text [] = []"
| "words_text (w # ws) = quoted w @ CHR '' '' # words_text ws"

fun pipeline_text :: "string list list \<Rightarrow> string" where
  "pipeline_text [] = [CHR 0x0A]"
| "pipeline_text [c] = words_text c @ [CHR 0x0A]"
| "pipeline_text (c # cs) = words_text c @ CHR ''|'' # pipeline_text cs"

text \<open>A command with a name, and with words that fit, which the shell does not do itself.\<close>

definition words_ok :: "string list \<Rightarrow> bool" where
  "words_ok c \<longleftrightarrow> length c < MAXARG \<and> (\<forall>w \<in> set c. item_ok MAXWORD (Word w))"

definition command_ok :: "string list \<Rightarrow> bool" where
  "command_ok c \<longleftrightarrow> c \<noteq> [] \<and> words_ok c \<and> CHR ''='' \<notin> set (c ! 0) \<and> c ! 0 \<noteq> ''set'' \<and> c ! 0 \<noteq> ''cd''"

text \<open>
  The processes of a pipeline in the order in which they are started, the last one first: its words, its
  standard input and its standard output. The first new pipe is \<open>n\<close>.
\<close>

fun plan :: "nat \<Rightarrow> fobj option \<Rightarrow> string list list \<Rightarrow> (string list \<times> fobj \<times> fobj) list" where
  "plan n inp [] = []"
| "plan n inp [c] = [(c, (case inp of None \<Rightarrow> PipeRead n | Some obj \<Rightarrow> obj), Given 1)]"
| "plan n inp (c # cs) =
     plan n None cs @ [(c, (case inp of None \<Rightarrow> PipeRead (n + length cs) | Some obj \<Rightarrow> obj), PipeWrite (n + length cs - 1))]"

text \<open>A process with the words and the three descriptors, and no other ones.\<close>

definition child_as :: "child \<Rightarrow> string list \<times> fobj \<times> fobj \<Rightarrow> bool" where
  "child_as ch p \<longleftrightarrow>
     (case p of (c, i, outp) \<Rightarrow>
        (\<exists>tab. ch = Exec (c ! 0) (cmdname (c ! 0) # tl c) tab \<and> map_of tab = [0 \<mapsto> i, 1 \<mapsto> outp, 2 \<mapsto> Given 2]))"

lemma gettoken_word:
  "item_ok mw (Word w) \<Longrightarrow> gettoken e mw (quoted w @ CHR '' '' # rest) = (T_WORD, w @ [CHR 0x00], CHR '' '' # rest)"
  using gettoken_item [of mw "Word w" e rest] by simp

lemma command_token_space:
  "sh_in sh = CHR '' '' # rest \<Longrightarrow> command_token sy mp l sh = command_token sy mp l (sh\<lparr>sh_in := rest\<rparr>)"
  by (simp add: command_token_def gettoken_space)

lemma command_loop_space:
  "command_loop sy mp l (sh\<lparr>sh_in := CHR '' '' # rest\<rparr>) = command_loop sy mp l (sh\<lparr>sh_in := rest\<rparr>)"
  using command_token_space [of "sh\<lparr>sh_in := CHR '' '' # rest\<rparr>" rest sy mp l]
  by (simp add: command_loop.simps [of sy mp l "sh\<lparr>sh_in := CHR '' '' # rest\<rparr>"] command_loop.simps [of sy mp l "sh\<lparr>sh_in := rest\<rparr>"])

lemma command_loop_words:
  "\<forall>w \<in> set ws. item_ok MAXWORD (Word w) \<Longrightarrow> length (l_argv l) + length ws < MAXARG \<Longrightarrow>
   command_loop sy mp l (sh\<lparr>sh_in := words_text ws @ rest\<rparr>) = command_loop sy mp (l\<lparr>l_argv := l_argv l @ ws\<rparr>) (sh\<lparr>sh_in := rest\<rparr>)"
proof (induction ws arbitrary: l)
  case (Cons w ws)
  have "command_loop sy mp l (sh\<lparr>sh_in := words_text (w # ws) @ rest\<rparr>)
        = command_loop sy mp (l\<lparr>l_argv := l_argv l @ [w]\<rparr>) (sh\<lparr>sh_in := CHR '' '' # words_text ws @ rest\<rparr>)"
    using Cons(2,3) gettoken_word [of MAXWORD w "in_error sy" "words_text ws @ rest"]
    by (subst command_loop.simps) (simp add: command_token_def MAXARG_def)
  also have "\<dots> = command_loop sy mp (l\<lparr>l_argv := l_argv l @ [w]\<rparr>) (sh\<lparr>sh_in := words_text ws @ rest\<rparr>)"
    by (rule command_loop_space)
  finally show ?case using Cons.IH [of "l\<lparr>l_argv := l_argv l @ [w]\<rparr>"] Cons(2,3) by simp
qed simp

lemma command_loop_bar:
  "command_loop sy mp (cmd_start\<lparr>l_argv := c\<rparr>) (sh\<lparr>sh_in := CHR ''|'' # rest\<rparr>) =
     Option.bind (command_loop sy True cmd_start (sh\<lparr>sh_in := rest\<rparr>)) (\<lambda>r. Some (after_pipeline sy mp (cmd_start\<lparr>l_argv := c\<rparr>) r))"
  by (subst command_loop.simps) (simp add: command_token_def gettoken_def one_char_def cmd_start_def)

lemma command_loop_nl:
  "command_loop sy mp l (sh\<lparr>sh_in := CHR 0x0A # rest\<rparr>) = Some (Inr (start_command sy mp T_NL T_NL l (sh\<lparr>sh_in := rest\<rparr>)))"
  by (subst command_loop.simps) (simp add: command_token_def gettoken_def one_char_def)

text \<open>The descriptors of the shell between two commands of a pipeline: the end for the next one to write to.\<close>

definition piped_fds :: "int \<Rightarrow> fobj \<Rightarrow> fdtab" where
  "piped_fds d obj = (if d = 1 then std_fds else (d, obj) # std_fds)"

lemmas fd_simps = fd_close_def fd_dup2_def fd_new_def fd_check_def redirect_def redirect_in_def redirect_out_def
  run_child_def piped_fds_def std_fds_def child_as_def

lemma builtin_none: "command_ok c \<Longrightarrow> builtin sy c a b sh = None"
  by (simp add: command_ok_def builtin_def)

lemma child_first:
  "d \<in> {1, 4, 5} \<Longrightarrow>
   child_as (run_child sy c 0 [] d [] ap False (-1) (piped_fds d obj)) (c, Given 0, if d = 1 then Given 1 else obj)"
  by (auto simp: fd_simps fun_eq_iff)

lemma child_later:
  "d \<in> {1, 4, 5} \<Longrightarrow> w = (if d = 4 then 5 else 4) \<Longrightarrow>
   child_as (run_child sy c 3 [] d [] ap False w ((w, PipeWrite n) # (3, PipeRead n) # piped_fds d obj))
     (c, PipeRead n, if d = 1 then Given 1 else obj)"
  by (auto simp: fd_simps fun_eq_iff)

lemma pipe_fds:
  "d \<in> {1, 4, 5} \<Longrightarrow> fd_new x (piped_fds d obj) = (3, (3, x) # piped_fds d obj)"
  "d \<in> {1, 4, 5} \<Longrightarrow> fd_new y ((3, x) # piped_fds d obj) = (if d = 4 then (5, (5, y) # (3, x) # piped_fds d obj) else (4, (4, y) # (3, x) # piped_fds d obj))"
  by (auto simp: fd_new_def piped_fds_def std_fds_def)

lemma invoke_first:
  assumes "command_ok c" "\<And>n. fork_ok sy n" "sh_fds sh = piped_fds d obj" "d \<in> {1, 4, 5}"
  shows "\<exists>ch. child_as ch (c, Given 0, if d = 1 then Given 1 else obj) \<and>
    invoke sy c 0 [] d [] ap False (-1) sh =
      (Some (int (Suc (length (sh_children sh)))), sh\<lparr>sh_children := sh_children sh @ [ch], sh_fds := std_fds\<rparr>)"
proof (intro exI conjI)
  show "child_as (run_child sy c 0 [] d [] ap False (-1) (piped_fds d obj)) (c, Given 0, if d = 1 then Given 1 else obj)"
    by (rule child_first [OF assms(4)])
  have "c \<noteq> []" using assms(1) by (simp add: command_ok_def)
  then show "invoke sy c 0 [] d [] ap False (-1) sh =
      (Some (int (Suc (length (sh_children sh)))),
       sh\<lparr>sh_children := sh_children sh @ [run_child sy c 0 [] d [] ap False (-1) (piped_fds d obj)], sh_fds := std_fds\<rparr>)"
    using assms by (auto simp: invoke_def builtin_none fd_close_def piped_fds_def std_fds_def)
qed

lemma invoke_later:
  assumes "command_ok c" "\<And>n. fork_ok sy n" "d \<in> {1, 4, 5}" "w = (if d = 4 then 5 else 4)"
    and "sh_fds sh = (w, PipeWrite n) # (3, PipeRead n) # piped_fds d obj"
  shows "\<exists>ch. child_as ch (c, PipeRead n, if d = 1 then Given 1 else obj) \<and>
    invoke sy c 3 [] d [] ap False w sh =
      (Some (int (Suc (length (sh_children sh)))), sh\<lparr>sh_children := sh_children sh @ [ch], sh_fds := piped_fds w (PipeWrite n)\<rparr>)"
proof (intro exI conjI)
  show "child_as (run_child sy c 3 [] d [] ap False w (sh_fds sh)) (c, PipeRead n, if d = 1 then Given 1 else obj)"
    unfolding assms(5) by (rule child_later [OF assms(3,4)])
  have "c \<noteq> []" using assms(1) by (simp add: command_ok_def)
  then show "invoke sy c 3 [] d [] ap False w sh =
      (Some (int (Suc (length (sh_children sh)))),
       sh\<lparr>sh_children := sh_children sh @ [run_child sy c 3 [] d [] ap False w (sh_fds sh)], sh_fds := piped_fds w (PipeWrite n)\<rparr>)"
    using assms by (auto simp: invoke_def builtin_none fd_close_def piped_fds_def std_fds_def)
qed

text \<open>The state of the shell after the processes \<open>chs\<close> of a pipeline have been started.\<close>

definition started :: "int \<Rightarrow> fobj \<Rightarrow> nat \<Rightarrow> child list \<Rightarrow> shell \<Rightarrow> shell" where
  "started d obj k chs sh =
     sh\<lparr>sh_fds := piped_fds d obj, sh_pipes := sh_pipes sh + k, sh_children := sh_children sh @ chs,
        sh_wpid := int (Suc (length (sh_children sh)))\<rparr>"

lemma start_first:
  assumes "command_ok c" "\<And>n. fork_ok sy n" "d \<in> {4, 5}"
  shows "\<exists>ch. child_as ch (c, Given 0, obj) \<and>
    start_command sy False T_BAR T_NL (cmd_start\<lparr>l_argv := c, l_dstfd := d\<rparr>) (started d obj k chs sh) = (T_NL, -1, started 1 obj k (chs @ [ch]) sh)"
proof -
  have "c \<noteq> []" using assms(1) by (simp add: command_ok_def)
  then show ?thesis
    using assms invoke_first [OF assms(1,2), of "started d obj k chs sh" d obj False]
    by (auto simp: start_command_def cmd_start_def c_string_def started_def piped_fds_def intro: shell.equality)
qed

lemma start_middle:
  assumes "command_ok c" "\<And>n. fork_ok sy n" "\<And>n. pipe_ok sy n" "d \<in> {4, 5}"
  shows "\<exists>ch. child_as ch (c, PipeRead (sh_pipes sh + k), obj) \<and>
    start_command sy True T_BAR T_NL (cmd_start\<lparr>l_argv := c, l_dstfd := d\<rparr>) (started d obj k chs sh) =
      (T_NL, 9 - d, started (9 - d) (PipeWrite (sh_pipes sh + k)) (Suc k) (chs @ [ch]) sh)"
proof -
  define n where "n = sh_pipes sh + k"
  define s where "s = (started d obj k chs sh)\<lparr>sh_fds := (9 - d, PipeWrite n) # (3, PipeRead n) # piped_fds d obj, sh_pipes := Suc n\<rparr>"
  have ne: "c \<noteq> []" using assms(1) by (simp add: command_ok_def)
  have d: "d \<in> {1, 4, 5}" "9 - d = (if d = 4 then 5 else 4)" "d \<noteq> 1" using assms(4) by auto
  obtain ch where ch: "child_as ch (c, PipeRead n, obj)" "invoke sy c 3 [] d [] False False (9 - d) s =
      (Some (int (Suc (length (sh_children s)))), s\<lparr>sh_children := sh_children s @ [ch], sh_fds := piped_fds (9 - d) (PipeWrite n)\<rparr>)"
    using invoke_later [OF assms(1,2) d(1,2), of s n obj False] d(3) by (auto simp: s_def)
  have s: "s\<lparr>sh_children := sh_children s @ [ch], sh_fds := piped_fds (9 - d) (PipeWrite n)\<rparr> = started (9 - d) (PipeWrite n) (Suc k) (chs @ [ch]) sh"
    by (rule shell.equality) (simp_all add: s_def started_def n_def)
  have "start_command sy True T_BAR T_NL (cmd_start\<lparr>l_argv := c, l_dstfd := d\<rparr>) (started d obj k chs sh) =
      (T_NL, 9 - d, s\<lparr>sh_children := sh_children s @ [ch], sh_fds := piped_fds (9 - d) (PipeWrite n)\<rparr>)"
    using assms(3,4) ne ch(2)
    by (auto simp: start_command_def cmd_start_def c_string_def s_def started_def n_def pipe_fds)
  then show ?thesis unfolding s using ch(1) unfolding n_def by blast
qed

lemma start_last:
  assumes "command_ok c" "\<And>n. fork_ok sy n" "\<And>n. pipe_ok sy n" "sh_fds sh = std_fds"
  shows "\<exists>ch. child_as ch (c, PipeRead (sh_pipes sh), Given 1) \<and>
    start_command sy True T_NL T_NL (cmd_start\<lparr>l_argv := c\<rparr>) sh = (T_NL, 4, started 4 (PipeWrite (sh_pipes sh)) 1 [ch] sh)"
proof -
  define n where "n = sh_pipes sh"
  define s where "s = sh\<lparr>sh_fds := (4, PipeWrite n) # (3, PipeRead n) # std_fds, sh_pipes := Suc n\<rparr>"
  have ne: "c \<noteq> []" using assms(1) by (simp add: command_ok_def)
  have std: "std_fds = piped_fds 1 undefined" by (simp add: piped_fds_def)
  obtain ch where ch: "child_as ch (c, PipeRead n, Given 1)" "invoke sy c 3 [] 1 [] False False 4 s =
      (Some (int (Suc (length (sh_children s)))), s\<lparr>sh_children := sh_children s @ [ch], sh_fds := piped_fds 4 (PipeWrite n)\<rparr>)"
    using invoke_later [OF assms(1,2), of 1 4 s n undefined False] by (auto simp: s_def std)
  have s: "s\<lparr>sh_children := sh_children s @ [ch], sh_fds := piped_fds 4 (PipeWrite n), sh_wpid := int (Suc (length (sh_children s)))\<rparr> =
      started 4 (PipeWrite n) 1 [ch] sh"
    by (rule shell.equality) (simp_all add: s_def started_def n_def)
  have "start_command sy True T_NL T_NL (cmd_start\<lparr>l_argv := c\<rparr>) sh =
      (T_NL, 4, s\<lparr>sh_children := sh_children s @ [ch], sh_fds := piped_fds 4 (PipeWrite n), sh_wpid := int (Suc (length (sh_children s)))\<rparr>)"
    using assms(3,4) ne ch(2)
    by (auto simp: start_command_def cmd_start_def c_string_def s_def n_def pipe_fds std)
  then show ?thesis unfolding s using ch(1) unfolding n_def by blast
qed

lemma start_only:
  assumes "command_ok c" "\<And>n. fork_ok sy n" "sh_fds sh = std_fds"
  shows "\<exists>ch. child_as ch (c, Given 0, Given 1) \<and>
    start_command sy False T_NL T_NL (cmd_start\<lparr>l_argv := c\<rparr>) sh = (T_NL, -1, started 1 obj 0 [ch] sh)"
proof -
  have "c \<noteq> []" using assms(1) by (simp add: command_ok_def)
  then show ?thesis
    using assms invoke_first [OF assms(1,2), of sh 1 obj False]
    by (auto simp: start_command_def cmd_start_def c_string_def started_def piped_fds_def intro: shell.equality)
qed

lemma command_loop_argv:
  "command_ok c \<Longrightarrow> command_loop sy mp cmd_start (sh\<lparr>sh_in := words_text c @ rest\<rparr>) = command_loop sy mp (cmd_start\<lparr>l_argv := c\<rparr>) (sh\<lparr>sh_in := rest\<rparr>)"
  using command_loop_words [of c cmd_start sy mp rest sh] by (simp add: command_ok_def words_ok_def cmd_start_def)

lemma pipeline_right:
  assumes sys: "\<And>n. fork_ok sy n" "\<And>n. pipe_ok sy n" and std: "sh_fds sh = std_fds"
  shows "cs \<noteq> [] \<Longrightarrow> \<forall>c \<in> set cs. command_ok c \<Longrightarrow>
    \<exists>d chs. d \<in> {4, 5} \<and> list_all2 child_as chs (plan (sh_pipes sh) None cs) \<and>
      command_loop sy True cmd_start (sh\<lparr>sh_in := pipeline_text cs @ rest\<rparr>) =
        Some (Inr (T_NL, d, started d (PipeWrite (sh_pipes sh + length cs - 1)) (length cs) chs (sh\<lparr>sh_in := rest\<rparr>)))"
proof (induction cs rule: pipeline_text.induct)
  case (2 c)
  then have c: "command_ok c" by simp
  obtain ch where "child_as ch (c, PipeRead (sh_pipes sh), Given 1)"
    "start_command sy True T_NL T_NL (cmd_start\<lparr>l_argv := c\<rparr>) (sh\<lparr>sh_in := rest\<rparr>) = (T_NL, 4, started 4 (PipeWrite (sh_pipes sh)) 1 [ch] (sh\<lparr>sh_in := rest\<rparr>))"
    using start_last [OF c sys, of "sh\<lparr>sh_in := rest\<rparr>"] std by auto
  then show ?case using command_loop_argv [OF c, of sy True "CHR 0x0A # rest" sh] by (auto simp: command_loop_nl)
next
  case (3 c c' cs)
  then have c: "command_ok c" by simp
  let ?cs = "c' # cs"
  obtain d chs where d: "d \<in> {4, 5}" and chs: "list_all2 child_as chs (plan (sh_pipes sh) None ?cs)"
    and cl: "command_loop sy True cmd_start (sh\<lparr>sh_in := pipeline_text ?cs @ rest\<rparr>) =
        Some (Inr (T_NL, d, started d (PipeWrite (sh_pipes sh + length ?cs - 1)) (length ?cs) chs (sh\<lparr>sh_in := rest\<rparr>)))"
    using 3 by auto
  obtain ch where ch: "child_as ch (c, PipeRead (sh_pipes sh + length ?cs), PipeWrite (sh_pipes sh + length ?cs - 1))"
    and st: "start_command sy True T_BAR T_NL (cmd_start\<lparr>l_argv := c, l_dstfd := d\<rparr>)
        (started d (PipeWrite (sh_pipes sh + length ?cs - 1)) (length ?cs) chs (sh\<lparr>sh_in := rest\<rparr>)) =
      (T_NL, 9 - d, started (9 - d) (PipeWrite (sh_pipes sh + length ?cs)) (Suc (length ?cs)) (chs @ [ch]) (sh\<lparr>sh_in := rest\<rparr>))"
    using start_middle [OF c sys d, of "sh\<lparr>sh_in := rest\<rparr>" "length ?cs" "PipeWrite (sh_pipes sh + length ?cs - 1)" chs] by auto
  have "command_loop sy True cmd_start (sh\<lparr>sh_in := pipeline_text (c # ?cs) @ rest\<rparr>) =
      Some (Inr (T_NL, 9 - d, started (9 - d) (PipeWrite (sh_pipes sh + length ?cs)) (Suc (length ?cs)) (chs @ [ch]) (sh\<lparr>sh_in := rest\<rparr>)))"
    using command_loop_argv [OF c, of sy True "CHR ''|'' # pipeline_text ?cs @ rest" sh] cl st
    by (simp add: command_loop_bar after_pipeline_def)
  moreover have "9 - d \<in> {4, 5}" using d by auto
  moreover have "list_all2 child_as (chs @ [ch]) (plan (sh_pipes sh) None (c # ?cs))"
    using chs ch by (simp add: list_all2_appendI)
  ultimately show ?case by (intro exI [of _ "9 - d"] exI [of _ "chs @ [ch]"]) simp
qed simp

lemma pipeline_first:
  assumes sys: "\<And>n. fork_ok sy n" "\<And>n. pipe_ok sy n" and std: "sh_fds sh = std_fds" "sh_in sh = pipeline_text (c # cs) @ rest"
    and cs: "cs \<noteq> []" "\<forall>c \<in> set cs. command_ok c" "words_ok c"
  obtains d chs where "d \<in> {4, 5}" "list_all2 child_as chs (plan (sh_pipes sh) None cs)"
    "command sy False sh = Some (Inr (start_command sy False T_BAR T_NL (cmd_start\<lparr>l_argv := c, l_dstfd := d\<rparr>)
       (started d (PipeWrite (sh_pipes sh + length cs - 1)) (length cs) chs (sh\<lparr>sh_in := rest\<rparr>))))"
proof -
  obtain c' cs' where cc: "cs = c' # cs'" using cs(1) by (cases cs) auto
  obtain d chs where d: "d \<in> {4, 5}" "list_all2 child_as chs (plan (sh_pipes sh) None cs)"
    and cl: "command_loop sy True cmd_start (sh\<lparr>sh_in := pipeline_text cs @ rest\<rparr>) =
        Some (Inr (T_NL, d, started d (PipeWrite (sh_pipes sh + length cs - 1)) (length cs) chs (sh\<lparr>sh_in := rest\<rparr>)))"
    using pipeline_right [OF sys std(1) cs(1,2), of rest] by blast
  have "sh = sh\<lparr>sh_in := words_text c @ CHR ''|'' # pipeline_text cs @ rest\<rparr>" using std(2) by (simp add: cc)
  then have "command sy False sh = command_loop sy False (cmd_start\<lparr>l_argv := c\<rparr>) (sh\<lparr>sh_in := CHR ''|'' # pipeline_text cs @ rest\<rparr>)"
    using command_loop_words [of c cmd_start sy False "CHR ''|'' # pipeline_text cs @ rest" sh] cs(3)
    by (simp add: command_def words_ok_def cmd_start_def)
  then show thesis using d that cl by (simp add: command_loop_bar after_pipeline_def)
qed

text \<open>
  C27. A pipeline of any length runs each command with its words, as long as the shell can fork and make pipes:
  the standard output of each process is the pipe which the next one reads, the ends of the pipeline are those
  of the shell, no process has another descriptor, the shell waits for the last command, and no descriptor
  stays open in the shell.
\<close>

theorem pipeline_connects:
  assumes "\<forall>n. fork_ok sy n" "\<forall>n. pipe_ok sy n" "sh_fds sh = std_fds" "sh_in sh = pipeline_text cs @ rest"
    and "cs \<noteq> []" "\<forall>c \<in> set cs. command_ok c"
  shows "\<exists>chs. list_all2 child_as chs (plan (sh_pipes sh) (Some (Given 0)) cs) \<and>
    command sy False sh = Some (Inr (T_NL, -1,
      sh\<lparr>sh_in := rest, sh_pipes := sh_pipes sh + (length cs - 1), sh_children := sh_children sh @ chs,
         sh_wpid := int (Suc (length (sh_children sh)))\<rparr>))"
proof -
  have sys: "\<And>n. fork_ok sy n" "\<And>n. pipe_ok sy n" using assms by auto
  obtain c cs' where cc: "cs = c # cs'" "command_ok c" using assms(5,6) by (cases cs) auto
  have st: "started 1 obj k chs (sh\<lparr>sh_in := rest\<rparr>) = sh\<lparr>sh_in := rest, sh_pipes := sh_pipes sh + k, sh_children := sh_children sh @ chs,
      sh_wpid := int (Suc (length (sh_children sh)))\<rparr>" for k chs obj
    using assms(3) by (auto simp: started_def piped_fds_def intro: shell.equality)
  show ?thesis
  proof (cases "cs' = []")
    case True
    obtain ch where ch: "child_as ch (c, Given 0, Given 1)"
      "start_command sy False T_NL T_NL (cmd_start\<lparr>l_argv := c\<rparr>) (sh\<lparr>sh_in := rest\<rparr>) = (T_NL, -1, started 1 (Given 1) 0 [ch] (sh\<lparr>sh_in := rest\<rparr>))"
      using start_only [OF cc(2) sys(1), of "sh\<lparr>sh_in := rest\<rparr>"] assms(3) by auto
    have "sh = sh\<lparr>sh_in := words_text c @ CHR 0x0A # rest\<rparr>" using assms(4) by (simp add: cc True)
    then have "command sy False sh = Some (Inr (T_NL, -1, started 1 (Given 1) 0 [ch] (sh\<lparr>sh_in := rest\<rparr>)))"
      using command_loop_argv [OF cc(2), of sy False "CHR 0x0A # rest" sh] ch(2) by (simp add: command_def command_loop_nl)
    then show ?thesis using ch(1) unfolding st by (intro exI [of _ "[ch]"]) (simp add: cc True)
  next
    case False
    have "words_ok c" using cc(2) by (simp add: command_ok_def)
    then obtain d chs where d: "d \<in> {4, 5}" "list_all2 child_as chs (plan (sh_pipes sh) None cs')"
      "command sy False sh = Some (Inr (start_command sy False T_BAR T_NL (cmd_start\<lparr>l_argv := c, l_dstfd := d\<rparr>)
         (started d (PipeWrite (sh_pipes sh + length cs' - 1)) (length cs') chs (sh\<lparr>sh_in := rest\<rparr>))))"
      using pipeline_first [OF sys assms(3) assms(4) [unfolded cc] False] assms(6) cc by auto
    obtain ch where ch: "child_as ch (c, Given 0, PipeWrite (sh_pipes sh + length cs' - 1))"
      "command sy False sh = Some (Inr (T_NL, -1, started 1 (PipeWrite (sh_pipes sh + length cs' - 1)) (length cs') (chs @ [ch]) (sh\<lparr>sh_in := rest\<rparr>)))"
      using start_first [OF cc(2) sys(1) d(1)] d(3) by metis
    obtain c' cs'' where "cs' = c' # cs''" using False by (cases cs') auto
    then have "list_all2 child_as (chs @ [ch]) (plan (sh_pipes sh) (Some (Given 0)) cs)"
      using d(2) ch(1) by (simp add: cc list_all2_appendI)
    then show ?thesis using ch(2) unfolding st by (intro exI [of _ "chs @ [ch]"]) (simp add: cc)
  qed
qed

theorem pipeline_connects_witness:
  "\<exists>chs. list_all2 child_as chs
     [([''c''], PipeRead 0, Given 1), ([''b'', ''x''], PipeRead 1, PipeWrite 0), ([''a''], Given 0, PipeWrite 1)] \<and>
   command plain_sys False (shell_start (pipeline_text [[''a''], [''b'', ''x''], [''c'']])) = Some (Inr (T_NL, -1,
      (shell_start [])\<lparr>sh_pipes := 2, sh_children := chs, sh_wpid := 1\<rparr>))"
  using pipeline_connects [of plain_sys "shell_start (pipeline_text [[''a''], [''b'', ''x''], [''c'']])" "[[''a''], [''b'', ''x''], [''c'']]" "[]"]
  by (simp add: plain_sys_def shell_start_def command_ok_def words_ok_def MAXARG_def MAXWORD_def numeral_2_eq_2)



end
