(* ===== verification/Gai.thy ===== *)
theory Gai
  imports Inet Loop_Run
begin

text \<open>
  The conversion between names and addresses of \<^verbatim>\<open>unpv13e/libgai\<close>: \<^verbatim>\<open>getaddrinfo\<close> and \<^verbatim>\<open>getnameinfo\<close>, with Internet
  addresses of both families and with Unix domain sockets. What the resolver and the tables of
  services answer is given by a record of functions, and which allocations succeed by a predicate on their number.
\<close>

section \<open>Data\<close>

datatype family = AF_UNSPEC | Fam af | AF_LOCAL

datatype socktype = NoType | SOCK_STREAM | SOCK_DGRAM | SOCK_RAW | SOCK_other nat

datatype eai = EAI_ADDRFAMILY | EAI_AGAIN | EAI_BADFLAGS | EAI_FAIL | EAI_FAMILY | EAI_MEMORY | EAI_NODATA | EAI_NONAME
  | EAI_SERVICE | EAI_SOCKTYPE | EAI_SYSTEM

definition gai_strerror :: "eai \<Rightarrow> string" where
  "gai_strerror err =
     (case err of
        EAI_ADDRFAMILY \<Rightarrow> ''address family for host not supported''
      | EAI_AGAIN \<Rightarrow> ''temporary failure in name resolution''
      | EAI_BADFLAGS \<Rightarrow> ''invalid flags value''
      | EAI_FAIL \<Rightarrow> ''non-recoverable failure in name resolution''
      | EAI_FAMILY \<Rightarrow> ''address family not supported''
      | EAI_MEMORY \<Rightarrow> ''memory allocation failure''
      | EAI_NODATA \<Rightarrow> ''no address associated with host''
      | EAI_NONAME \<Rightarrow> ''host nor service provided, or not known''
      | EAI_SERVICE \<Rightarrow> ''service not supported for socket type''
      | EAI_SOCKTYPE \<Rightarrow> ''socket type not supported''
      | EAI_SYSTEM \<Rightarrow> ''system error'')"

definition AI_PASSIVE :: "32 word" where "AI_PASSIVE = 1"
definition AI_CANONNAME :: "32 word" where "AI_CANONNAME = 2"
definition AI_CLONE :: "32 word" where "AI_CLONE = 4"

text \<open>
  The socket address structures, with the port in the order of the host. Each belongs to one structure
  \<^verbatim>\<open>addrinfo\<close>, as the canonical name does, and is a part of it here; \<open>None\<close> is a null pointer.
\<close>

datatype sockaddr = Sin "16 word" "nat list" | Sin6 "16 word" "nat list" | Sun string

record addrinfo =
  ai_flags :: "32 word"
  ai_family :: family
  ai_socktype :: socktype
  ai_protocol :: int
  ai_canonname :: "string option"
  ai_addr :: "sockaddr option"
  ai_next :: nat

text \<open>
  The memory: the structures by their addresses, how often memory has been asked for, and the number of blocks
  that have not been freed. \<open>aihead\<close> and \<open>aipnext\<close> are the variables of \<^verbatim>\<open>getaddrinfo\<close>, \<open>aipnext\<close> being \<open>None\<close> as long as it
  points to \<open>aihead\<close>, and the address of a structure when it points to the last pointer in it.
\<close>

record ga =
  ais :: "nat \<rightharpoonup> addrinfo"
  tries :: nat
  blocks :: int
  unlinked :: "string list"
  aihead :: nat
  aipnext :: "nat option"

text \<open>The answers of the resolver and of the tables.\<close>

datatype h_errno = HOST_NOT_FOUND | TRY_AGAIN | NO_RECOVERY | NO_DATA | H_other nat

record hostent =
  h_name :: string
  h_addrtype :: af
  h_addr_list :: "nat list list"

text \<open>\<open>gethostbyname\<close> gets the option of the resolver that asks for addresses of version 6.\<close>

record netdb =
  gethostbyname2 :: "string \<Rightarrow> af \<Rightarrow> h_errno + hostent"
  gethostbyname :: "bool \<Rightarrow> string \<Rightarrow> h_errno + hostent"
  getservbyname :: "string \<Rightarrow> string \<Rightarrow> 16 word option"
  getservbyport :: "16 word \<Rightarrow> bool \<Rightarrow> string option"
  gethostbyaddr :: "nat list \<Rightarrow> af \<Rightarrow> string option"
  nodename :: "string option"

section \<open>One structure\<close>

text \<open>An attempt to get a block of memory.\<close>

definition try_alloc :: "(nat \<Rightarrow> bool) \<Rightarrow> ga \<Rightarrow> bool \<times> ga" where
  "try_alloc ok st = (ok (tries st), st\<lparr>tries := tries st + 1, blocks := blocks st + (if ok (tries st) then 1 else 0)\<rparr>)"

definition new_ai :: "ga \<Rightarrow> nat" where
  "new_ai st = tries st + 1"

text \<open>What the pointer to an address points to: the bytes of an Internet address, or a path.\<close>

datatype raw_addr = Bytes "nat list" | Path string

definition SUN_PATH :: nat where "SUN_PATH = 108"

text \<open>The end of the list gets a new structure.\<close>

definition link_ai :: "nat \<Rightarrow> addrinfo \<Rightarrow> ga \<Rightarrow> ga run" where
  "link_ai p ai st =
     (case aipnext st of
        None \<Rightarrow> Ret (st\<lparr>ais := (ais st)(p \<mapsto> ai), aihead := p, aipnext := Some p\<rparr>)
      | Some q \<Rightarrow>
          run_bind (deref (ais st q)) (\<lambda>a. Ret (st\<lparr>ais := (ais st)(q \<mapsto> a\<lparr>ai_next := p\<rparr>, p \<mapsto> ai), aipnext := Some p\<rparr>)))"

definition set_addr :: "nat \<Rightarrow> sockaddr \<Rightarrow> ga \<Rightarrow> ga run" where
  "set_addr p sa st = run_bind (deref (ais st p)) (\<lambda>a. Ret (st\<lparr>ais := (ais st)(p \<mapsto> a\<lparr>ai_addr := Some sa\<rparr>)\<rparr>))"

definition ai_sockaddr :: "(nat \<Rightarrow> bool) \<Rightarrow> addrinfo \<Rightarrow> raw_addr \<Rightarrow> family \<Rightarrow> nat \<Rightarrow> ga \<Rightarrow> (eai option \<times> ga) run" where
  "ai_sockaddr ok hints addr fam p st =
     (let (got, st') = try_alloc ok st in
      case fam of
        Fam AF_INET \<Rightarrow>
          (case addr of
             Bytes bs \<Rightarrow> if \<not> got then Ret (Some EAI_MEMORY, st') else run_bind (set_addr p (Sin 0 (take 4 bs)) st') (\<lambda>st. Ret (None, st))
           | Path s \<Rightarrow> Wild)
      | Fam AF_INET6 \<Rightarrow>
          (case addr of
             Bytes bs \<Rightarrow> if \<not> got then Ret (Some EAI_MEMORY, st') else run_bind (set_addr p (Sin6 0 (take 16 bs)) st') (\<lambda>st. Ret (None, st))
           | Path s \<Rightarrow> Wild)
      | AF_LOCAL \<Rightarrow>
          (case addr of
             Bytes bs \<Rightarrow> Wild
           | Path s \<Rightarrow>
               if length s \<ge> SUN_PATH then Ret (Some EAI_SERVICE, st)
               else if \<not> got then Ret (Some EAI_MEMORY, st')
               else run_bind (set_addr p (Sun s) st') (\<lambda>st.
                 Ret (None, if and (ai_flags hints) AI_PASSIVE \<noteq> 0 then st\<lparr>unlinked := unlinked st @ [s]\<rparr> else st)))
      | _ \<Rightarrow> Ret (None, st))"

definition ga_aistruct :: "(nat \<Rightarrow> bool) \<Rightarrow> addrinfo \<Rightarrow> raw_addr \<Rightarrow> family \<Rightarrow> ga \<Rightarrow> (eai option \<times> ga) run" where
  "ga_aistruct ok hints addr fam st =
     (let p = new_ai st; (got, st) = try_alloc ok st in
      if \<not> got then Ret (Some EAI_MEMORY, st)
      else
        run_bind
          (link_ai p
             \<lparr>ai_flags = (if ai_socktype hints = NoType then AI_CLONE else 0), ai_family = fam, ai_socktype = ai_socktype hints,
              ai_protocol = ai_protocol hints, ai_canonname = None, ai_addr = None, ai_next = 0\<rparr> st)
          (ai_sockaddr ok hints addr fam p))"

section \<open>The list\<close>

partial_function (option) freeaddrinfo :: "nat \<Rightarrow> ga \<Rightarrow> ga run option" where
  "freeaddrinfo ai st =
     (if ai = 0 then Some (Ret st)
      else at_ptr (ais st) ai (\<lambda>a.
        freeaddrinfo (ai_next a)
          (st\<lparr>ais := (ais st)(ai := None),
              blocks := blocks st - 1 - (if ai_addr a = None then 0 else 1) - (if ai_canonname a = None then 0 else 1)\<rparr>)))"

text \<open>The new structure, 0 when there is no memory for it. \<^verbatim>\<open>memcpy\<close> must not get a null pointer.\<close>

definition ga_clone :: "(nat \<Rightarrow> bool) \<Rightarrow> nat \<Rightarrow> ga \<Rightarrow> (nat \<times> ga) run" where
  "ga_clone ok ai st =
     (let p = new_ai st; (got, st) = try_alloc ok st in
      if \<not> got then Ret (0, st)
      else
        run_bind (deref (ais st ai)) (\<lambda>a.
          let new = a\<lparr>ai_flags := 0, ai_canonname := None, ai_addr := None\<rparr>;
              st = st\<lparr>ais := (ais st)(ai \<mapsto> a\<lparr>ai_next := p\<rparr>, p \<mapsto> new)\<rparr>;
              (got, st) = try_alloc ok st in
          if \<not> got then Ret (0, st)
          else run_bind (deref (ai_addr a)) (\<lambda>sa. run_bind (set_addr p sa st) (\<lambda>st. Ret (p, st)))))"

text \<open>The socket type and the port of one structure: how many were found, and the next structure.\<close>

definition port_at :: "16 word \<Rightarrow> socktype \<Rightarrow> nat \<Rightarrow> ga \<Rightarrow> (int \<times> nat \<times> ga) run" where
  "port_at port socktype p st =
     run_bind (deref (ais st p)) (\<lambda>a.
       let a = a\<lparr>ai_socktype := socktype\<rparr> in
       case ai_family a of
         Fam AF_INET \<Rightarrow>
           (case ai_addr a of
              Some (Sin _ bs) \<Rightarrow> Ret (1, ai_next a, st\<lparr>ais := (ais st)(p \<mapsto> a\<lparr>ai_addr := Some (Sin port bs)\<rparr>)\<rparr>)
            | _ \<Rightarrow> Wild)
       | Fam AF_INET6 \<Rightarrow>
           (case ai_addr a of
              Some (Sin6 _ bs) \<Rightarrow> Ret (1, ai_next a, st\<lparr>ais := (ais st)(p \<mapsto> a\<lparr>ai_addr := Some (Sin6 port bs)\<rparr>)\<rparr>)
            | _ \<Rightarrow> Wild)
       | _ \<Rightarrow> Ret (0, ai_next a, st\<lparr>ais := (ais st)(p \<mapsto> a)\<rparr>))"

text \<open>One round of the loop of \<^verbatim>\<open>ga_port\<close>; \<open>Inl\<close> when there is no memory.\<close>

definition ga_port_step :: "(nat \<Rightarrow> bool) \<Rightarrow> 16 word \<Rightarrow> socktype \<Rightarrow> nat \<Rightarrow> ga \<Rightarrow> (ga + int \<times> nat \<times> ga) run" where
  "ga_port_step ok port socktype ai st =
     run_bind (deref (ais st ai)) (\<lambda>a.
       if and (ai_flags a) AI_CLONE \<noteq> 0 then
         if ai_socktype a \<noteq> NoType then
           run_bind (ga_clone ok ai st) (\<lambda>(c, st). if c = 0 then Ret (Inl st) else run_bind (port_at port socktype c st) (\<lambda>r. Ret (Inr r)))
         else run_bind (port_at port socktype ai st) (\<lambda>r. Ret (Inr r))
       else if ai_socktype a \<noteq> socktype then Ret (Inr (0, ai_next a, st))
       else run_bind (port_at port socktype ai st) (\<lambda>r. Ret (Inr r)))"

text \<open>The number of structures that were found, \<open>None\<close> when there is no memory.\<close>

partial_function (option) ga_port :: "(nat \<Rightarrow> bool) \<Rightarrow> 16 word \<Rightarrow> socktype \<Rightarrow> int \<Rightarrow> nat \<Rightarrow> ga \<Rightarrow> (int option \<times> ga) run option" where
  "ga_port ok port socktype nfound ai st =
     (if ai = 0 then Some (Ret (Some nfound, st))
      else lbind (Some (ga_port_step ok port socktype ai st)) (\<lambda>r.
        case r of
          Inl st \<Rightarrow> Some (Ret (None, st))
        | Inr (n, ai, st) \<Rightarrow> ga_port ok port socktype (nfound + n) ai st))"

section \<open>Services\<close>

text \<open>The calls of \<^verbatim>\<open>ga_port\<close> one after the other; \<open>None\<close> when there is no memory.\<close>

fun ga_ports :: "(nat \<Rightarrow> bool) \<Rightarrow> (socktype \<times> 16 word) list \<Rightarrow> int \<Rightarrow> ga \<Rightarrow> (int option \<times> ga) run option" where
  "ga_ports ok [] nfound st = Some (Ret (Some nfound, st))"
| "ga_ports ok ((socktype, port) # ps) nfound st =
     lbind (ga_port ok port socktype 0 (aihead st) st) (\<lambda>(rc, st).
       case rc of None \<Rightarrow> Some (Ret (None, st)) | Some n \<Rightarrow> ga_ports ok ps (nfound + n) st)"

text \<open>The socket types that come into question, with their ports. The port is the low part of the number.\<close>

definition serv_ports :: "netdb \<Rightarrow> addrinfo \<Rightarrow> string \<Rightarrow> (socktype \<times> 16 word) list" where
  "serv_ports db hints serv =
     (if is_digit (hd serv) then
        let port = of_int (atol serv) in
        if ai_socktype hints \<noteq> NoType then [(ai_socktype hints, port)] else [(SOCK_STREAM, port), (SOCK_DGRAM, port)]
      else
        (if ai_socktype hints = NoType \<or> ai_socktype hints = SOCK_STREAM
         then (case getservbyname db serv ''tcp'' of None \<Rightarrow> [] | Some port \<Rightarrow> [(SOCK_STREAM, port)]) else []) @
        (if ai_socktype hints = NoType \<or> ai_socktype hints = SOCK_DGRAM
         then (case getservbyname db serv ''udp'' of None \<Rightarrow> [] | Some port \<Rightarrow> [(SOCK_DGRAM, port)]) else []))"

definition ga_serv :: "(nat \<Rightarrow> bool) \<Rightarrow> netdb \<Rightarrow> addrinfo \<Rightarrow> string \<Rightarrow> ga \<Rightarrow> (eai option \<times> ga) run option" where
  "ga_serv ok db hints serv st =
     lbind (ga_ports ok (serv_ports db hints serv) 0 st) (\<lambda>(rc, st).
       case rc of
         None \<Rightarrow> Some (Ret (Some EAI_MEMORY, st))
       | Some nfound \<Rightarrow>
           Some (Ret (if nfound = 0 then if ai_socktype hints = NoType then Some EAI_NONAME else Some EAI_SERVICE else None, st)))"

section \<open>Arguments\<close>

text \<open>A string that is null or empty.\<close>

definition no_name :: "string option \<Rightarrow> bool" where
  "no_name s \<longleftrightarrow> s = None \<or> s = Some []"

definition ga_echeck :: "string option \<Rightarrow> string option \<Rightarrow> 32 word \<Rightarrow> family \<Rightarrow> socktype \<Rightarrow> eai option" where
  "ga_echeck hostname servname flags fam socktype =
     (if and flags (not (or AI_PASSIVE AI_CANONNAME)) \<noteq> 0 then Some EAI_BADFLAGS
      else if no_name hostname \<and> no_name servname then Some EAI_NONAME
      else
        (case fam of
           AF_UNSPEC \<Rightarrow> None
         | Fam AF_other \<Rightarrow> Some EAI_FAMILY
         | Fam _ \<Rightarrow> if socktype \<notin> {NoType, SOCK_STREAM, SOCK_DGRAM, SOCK_RAW} then Some EAI_SOCKTYPE else None
         | AF_LOCAL \<Rightarrow> if socktype \<notin> {NoType, SOCK_STREAM, SOCK_DGRAM} then Some EAI_SOCKTYPE else None))"

text \<open>The names to look up; without any, \<^verbatim>\<open>err_quit\<close> ends the process.\<close>

definition search_of :: "string \<Rightarrow> string \<Rightarrow> family \<Rightarrow> (string \<times> af) list" where
  "search_of host4 host6 fam =
     (case fam of
        Fam AF_INET \<Rightarrow> [(host4, AF_INET)]
      | Fam AF_INET6 \<Rightarrow> [(host6, AF_INET6)]
      | AF_UNSPEC \<Rightarrow> [(host6, AF_INET6), (host4, AF_INET)]
      | _ \<Rightarrow> [])"

definition ga_nsearch :: "string option \<Rightarrow> addrinfo \<Rightarrow> (string \<times> af) list run" where
  "ga_nsearch hostname hints =
     (let search =
        (if no_name hostname then
           if and (ai_flags hints) AI_PASSIVE \<noteq> 0 then search_of ''0.0.0.0'' ''0::0'' (ai_family hints)
           else search_of ''localhost'' ''0::1'' (ai_family hints)
         else search_of (the hostname) (the hostname) (ai_family hints))
      in if search = [] then Exits else Ret search)"

section \<open>Unix domain sockets\<close>

definition ga_unix :: "(nat \<Rightarrow> bool) \<Rightarrow> netdb \<Rightarrow> string \<Rightarrow> addrinfo \<Rightarrow> ga \<Rightarrow> (eai option \<times> nat \<times> ga) run" where
  "ga_unix ok db path hints st =
     (let st = st\<lparr>aihead := 0, aipnext := None\<rparr> in
      if ai_family hints \<noteq> AF_UNSPEC \<and> ai_family hints \<noteq> AF_LOCAL then Ret (Some EAI_ADDRFAMILY, 0, st)
      else
        run_bind
          (if ai_socktype hints = NoType then ga_aistruct ok (hints\<lparr>ai_socktype := SOCK_STREAM\<rparr>) (Path path) AF_LOCAL st else Ret (None, st))
          (\<lambda>(rc, st).
            if rc \<noteq> None then Ret (rc, 0, st)
            else
              let hints = (if ai_socktype hints = NoType then hints\<lparr>ai_socktype := SOCK_DGRAM\<rparr> else hints) in
              run_bind (ga_aistruct ok hints (Path path) AF_LOCAL st) (\<lambda>(rc, st).
                if rc \<noteq> None then Ret (rc, 0, st)
                else if and (ai_flags hints) AI_CANONNAME \<noteq> 0 then
                  (case nodename db of
                     None \<Rightarrow> Ret (Some EAI_SYSTEM, 0, st)
                   | Some name \<Rightarrow>
                       let (got, st) = try_alloc ok st in
                       if \<not> got then Ret (Some EAI_MEMORY, 0, st)
                       else run_bind (deref (ais st (aihead st))) (\<lambda>a.
                         Ret (None, aihead st, st\<lparr>ais := (ais st)(aihead st \<mapsto> a\<lparr>ai_canonname := Some name\<rparr>)\<rparr>)))
                else Ret (None, aihead st, st))))"

section \<open>Internet addresses\<close>

definition is_xdigit :: "char \<Rightarrow> bool" where
  "is_xdigit c \<longleftrightarrow> c \<in> set ''0123456789abcdefABCDEF''"

text \<open>One structure for each address.\<close>

fun ga_addrs :: "(nat \<Rightarrow> bool) \<Rightarrow> addrinfo \<Rightarrow> af \<Rightarrow> nat list list \<Rightarrow> ga \<Rightarrow> (eai option \<times> ga) run" where
  "ga_addrs ok hints fam [] st = Ret (None, st)"
| "ga_addrs ok hints fam (a # as) st =
     run_bind (ga_aistruct ok hints (Bytes a) (Fam fam) st) (\<lambda>(rc, st). if rc \<noteq> None then Ret (rc, st) else ga_addrs ok hints fam as st)"

text \<open>
  What the text of a host is by itself: an address of a family, in which the loop goes on with the next search
  if it looks for the other family, or no address.
\<close>

definition numeric_host :: "string \<Rightarrow> (af \<times> nat list) option" where
  "numeric_host host =
     (case (if host \<noteq> [] \<and> is_digit (hd host) then inet_pton AF_INET host else Inr None) of
        Inr (Some a) \<Rightarrow> Some (AF_INET, a)
      | _ \<Rightarrow>
          (case (if host \<noteq> [] \<and> (is_xdigit (hd host) \<or> hd host = CHR '':'') \<and> CHR '':'' \<in> set host then inet_pton AF_INET6 host else Inr None) of
             Inr (Some a) \<Rightarrow> Some (AF_INET6, a)
           | _ \<Rightarrow> None))"

definition h_error :: "h_errno \<Rightarrow> eai" where
  "h_error e = (case e of HOST_NOT_FOUND \<Rightarrow> EAI_NONAME | TRY_AGAIN \<Rightarrow> EAI_AGAIN | NO_RECOVERY \<Rightarrow> EAI_FAIL | NO_DATA \<Rightarrow> EAI_NODATA | H_other n \<Rightarrow> EAI_NONAME)"

text \<open>One round of the loop over the searches: an error, the canonical name, and the memory.\<close>

definition ga_search ::
  "(nat \<Rightarrow> bool) \<Rightarrow> netdb \<Rightarrow> addrinfo \<Rightarrow> string option \<Rightarrow> nat \<Rightarrow> string \<times> af \<Rightarrow> string option \<Rightarrow> ga \<Rightarrow> (eai option \<times> string option \<times> ga) run" where
  "ga_search ok db hints hostname nsearch s canon st =
     (case s of (host, fam) \<Rightarrow>
        case numeric_host host of
          Some (f, a) \<Rightarrow>
            if ai_family hints \<noteq> AF_UNSPEC \<and> ai_family hints \<noteq> Fam f then Ret (Some EAI_ADDRFAMILY, canon, st)
            else if fam \<noteq> f then Ret (None, canon, st)
            else run_bind (ga_aistruct ok hints (Bytes a) (Fam f) st) (\<lambda>(rc, st). Ret (rc, canon, st))
        | None \<Rightarrow>
            (case (if nsearch = 2 then gethostbyname2 db host fam else gethostbyname db (fam = AF_INET6) host) of
               Inl e \<Rightarrow> Ret (if nsearch = 2 then None else Some (h_error e), canon, st)
             | Inr hptr \<Rightarrow>
                 if ai_family hints \<noteq> AF_UNSPEC \<and> ai_family hints \<noteq> Fam (h_addrtype hptr) then Ret (Some EAI_ADDRFAMILY, canon, st)
                 else
                   let save = \<not> no_name hostname \<and> and (ai_flags hints) AI_CANONNAME \<noteq> 0 \<and> canon = None;
                       (got, st) = (if save then try_alloc ok st else (True, st)) in
                   if \<not> got then Ret (Some EAI_MEMORY, canon, st)
                   else
                     run_bind (ga_addrs ok hints (h_addrtype hptr) (h_addr_list hptr) st) (\<lambda>(rc, st).
                       Ret (rc, if save then Some (h_name hptr) else canon, st))))"

fun ga_searches ::
  "(nat \<Rightarrow> bool) \<Rightarrow> netdb \<Rightarrow> addrinfo \<Rightarrow> string option \<Rightarrow> nat \<Rightarrow> (string \<times> af) list \<Rightarrow> string option \<Rightarrow> ga \<Rightarrow> (eai option \<times> string option \<times> ga) run" where
  "ga_searches ok db hints hostname nsearch [] canon st = Ret (None, canon, st)"
| "ga_searches ok db hints hostname nsearch (s # ss) canon st =
     run_bind (ga_search ok db hints hostname nsearch s canon st) (\<lambda>(rc, canon, st).
       if rc \<noteq> None then Ret (rc, canon, st) else ga_searches ok db hints hostname nsearch ss canon st)"

text \<open>The end of \<^verbatim>\<open>getaddrinfo\<close>: the canonical name of the first structure, then the service.\<close>

definition ga_canon :: "(nat \<Rightarrow> bool) \<Rightarrow> addrinfo \<Rightarrow> string option \<Rightarrow> string \<Rightarrow> string option \<Rightarrow> ga \<Rightarrow> (eai option \<times> ga) run" where
  "ga_canon ok hints hostname host0 canon st =
     (if \<not> no_name hostname \<and> and (ai_flags hints) AI_CANONNAME \<noteq> 0 then
        run_bind (deref (ais st (aihead st))) (\<lambda>a.
          case canon of
            Some name \<Rightarrow> Ret (None, st\<lparr>ais := (ais st)(aihead st \<mapsto> a\<lparr>ai_canonname := Some name\<rparr>)\<rparr>)
          | None \<Rightarrow>
              let (got, st) = try_alloc ok st in
              if \<not> got then Ret (Some EAI_MEMORY, st)
              else Ret (None, st\<lparr>ais := (ais st)(aihead st \<mapsto> a\<lparr>ai_canonname := Some host0\<rparr>)\<rparr>))
      else Ret (None, st))"

definition ga_bad :: "eai \<Rightarrow> ga \<Rightarrow> (eai option \<times> nat \<times> ga) run option" where
  "ga_bad e st = lbind (freeaddrinfo (aihead st) st) (\<lambda>st. Some (Ret (Some e, 0, st)))"

definition no_hints :: addrinfo where
  "no_hints = \<lparr>ai_flags = 0, ai_family = AF_UNSPEC, ai_socktype = NoType, ai_protocol = 0, ai_canonname = None, ai_addr = None, ai_next = 0\<rparr>"

definition is_unix :: "string option \<Rightarrow> string option \<Rightarrow> bool" where
  "is_unix hostname servname \<longleftrightarrow>
     (hostname = Some ''/local'' \<or> hostname = Some ''/unix'') \<and> servname \<noteq> None \<and> the servname \<noteq> [] \<and> hd (the servname) = CHR ''/''"

definition getaddrinfo ::
  "(nat \<Rightarrow> bool) \<Rightarrow> netdb \<Rightarrow> string option \<Rightarrow> string option \<Rightarrow> addrinfo option \<Rightarrow> ga \<Rightarrow> (eai option \<times> nat \<times> ga) run option" where
  "getaddrinfo ok db hostname servname hintsp st =
     (let st = st\<lparr>aihead := 0, aipnext := None\<rparr>;
          hints = (case hintsp of None \<Rightarrow> no_hints | Some h \<Rightarrow> h) in
      case ga_echeck hostname servname (ai_flags hints) (ai_family hints) (ai_socktype hints) of
        Some e \<Rightarrow> ga_bad e st
      | None \<Rightarrow>
          if is_unix hostname servname
          then Some (ga_unix ok db (the servname) hints st)
          else
            lbind (Some (ga_nsearch hostname hints)) (\<lambda>search.
            lbind (Some (ga_searches ok db hints hostname (length search) search None st)) (\<lambda>(rc, canon, st).
              case rc of
                Some e \<Rightarrow> ga_bad e st
              | None \<Rightarrow>
                  if aihead st = 0 then ga_bad EAI_NONAME st
                  else
                    lbind (Some (ga_canon ok hints hostname (fst (hd search)) canon st)) (\<lambda>(rc, st).
                      case rc of
                        Some e \<Rightarrow> ga_bad e st
                      | None \<Rightarrow>
                          if no_name servname then Some (Ret (None, aihead st, st))
                          else
                            lbind (ga_serv ok db hints (the servname) st) (\<lambda>(rc, st).
                              case rc of Some e \<Rightarrow> ga_bad e st | None \<Rightarrow> Some (Ret (None, aihead st, st)))))))"

section \<open>From addresses to names\<close>

definition NI_NOFQDN :: "32 word" where "NI_NOFQDN = 1"
definition NI_NUMERICHOST :: "32 word" where "NI_NUMERICHOST = 2"
definition NI_NAMEREQD :: "32 word" where "NI_NAMEREQD = 4"
definition NI_NUMERICSERV :: "32 word" where "NI_NUMERICSERV = 8"
definition NI_DGRAM :: "32 word" where "NI_DGRAM = 16"

definition snprintf :: "nat \<Rightarrow> string \<Rightarrow> string" where
  "snprintf len s = take (len - 1) s"

text \<open>
  What is stored for the host and for the service; \<open>None\<close> is the return value 1. An array of length 0 stands for none.
\<close>

definition gn_host :: "netdb \<Rightarrow> nat \<Rightarrow> nat list \<Rightarrow> af \<Rightarrow> 32 word \<Rightarrow> string option" where
  "gn_host db hostlen addr fam flags =
     (if hostlen = 0 then Some []
      else if and flags NI_NUMERICHOST \<noteq> 0 then (case inet_ntop fam addr hostlen of Inl e \<Rightarrow> None | Inr s \<Rightarrow> Some s)
      else
        (case gethostbyaddr db addr fam of
           Some name \<Rightarrow> Some (snprintf hostlen (if and flags NI_NOFQDN \<noteq> 0 then takeWhile (\<lambda>c. c \<noteq> CHR ''.'') name else name))
         | None \<Rightarrow>
             if and flags NI_NAMEREQD \<noteq> 0 then None
             else (case inet_ntop fam addr hostlen of Inl e \<Rightarrow> None | Inr s \<Rightarrow> Some s)))"

definition gn_serv :: "netdb \<Rightarrow> nat \<Rightarrow> 16 word \<Rightarrow> 32 word \<Rightarrow> string" where
  "gn_serv db servlen port flags =
     (if servlen = 0 then []
      else if and flags NI_NUMERICSERV \<noteq> 0 then snprintf servlen (dec (unat port))
      else
        (case getservbyport db port (and flags NI_DGRAM \<noteq> 0) of
           Some name \<Rightarrow> snprintf servlen name
         | None \<Rightarrow> snprintf servlen (dec (unat port))))"

definition gn_ipv46 :: "netdb \<Rightarrow> nat \<Rightarrow> nat \<Rightarrow> nat list \<Rightarrow> af \<Rightarrow> 16 word \<Rightarrow> 32 word \<Rightarrow> (string \<times> string) option" where
  "gn_ipv46 db hostlen servlen addr fam port flags =
     (case gn_host db hostlen addr fam flags of None \<Rightarrow> None | Some host \<Rightarrow> Some (host, gn_serv db servlen port flags))"

definition getnameinfo :: "netdb \<Rightarrow> sockaddr \<Rightarrow> nat \<Rightarrow> nat \<Rightarrow> 32 word \<Rightarrow> (string \<times> string) option" where
  "getnameinfo db sa hostlen servlen flags =
     (case sa of
        Sin port addr \<Rightarrow> gn_ipv46 db hostlen servlen addr AF_INET port flags
      | Sin6 port addr \<Rightarrow> gn_ipv46 db hostlen servlen addr AF_INET6 port flags
      | Sun path \<Rightarrow>
          Some (if hostlen > 0 then snprintf hostlen ''/local'' else [], if servlen > 0 then snprintf servlen path else []))"

end
