(* ===== verification/Gai_Props.thy ===== *)
theory Gai_Props
  imports Gai Inet_V6
begin

text \<open>
  Properties of \<^verbatim>\<open>getaddrinfo\<close>: the list it builds in memory, also when memory runs out at any point, its
  result, and its agreement with \<^verbatim>\<open>getnameinfo\<close>.
\<close>

section \<open>Lists of structures in memory\<close>

definition gnx :: "(nat \<rightharpoonup> addrinfo) \<Rightarrow> nat \<Rightarrow> nat" where
  "gnx h a = (case h a of None \<Rightarrow> 0 | Some ai \<Rightarrow> ai_next ai)"

definition ent :: "addrinfo \<Rightarrow> addrinfo" where
  "ent ai = ai\<lparr>ai_next := 0\<rparr>"

definition cost :: "addrinfo \<Rightarrow> int" where
  "cost e = 1 + (if ai_addr e = None then 0 else 1) + (if ai_canonname e = None then 0 else 1)"

text \<open>
  From \<open>g0\<close> to \<open>g\<close> a list at the addresses \<open>as\<close> with the entries \<open>es\<close> has been built, and \<open>k\<close> other blocks; the rest of
  the memory is as it was.
\<close>

definition rep :: "ga \<Rightarrow> int \<Rightarrow> ga \<Rightarrow> nat list \<Rightarrow> addrinfo list \<Rightarrow> bool" where
  "rep g0 k g as es \<longleftrightarrow>
     chain (gnx (ais g)) (aihead g) as \<and>
     list_all2 (\<lambda>a e. \<exists>ai. ais g a = Some ai \<and> ent ai = e) as es \<and>
     (\<forall>a \<in> set as. tries g0 < a \<and> a \<le> tries g) \<and>
     (\<forall>a. a \<notin> set as \<longrightarrow> ais g a = ais g0 a) \<and>
     tries g0 \<le> tries g \<and>
     blocks g = blocks g0 + sum_list (map cost es) + k"

definition tail_ok :: "ga \<Rightarrow> nat list \<Rightarrow> bool" where
  "tail_ok g as \<longleftrightarrow> aipnext g = (if as = [] then None else Some (last as))"

definition fresh_mem :: "ga \<Rightarrow> bool" where
  "fresh_mem g \<longleftrightarrow> (\<forall>a. ais g a \<noteq> None \<longrightarrow> a \<le> tries g)"

lemma rep_start: "rep g 0 (g\<lparr>aihead := 0, aipnext := None\<rparr>) [] []"
  by (simp add: rep_def)

lemma rep_fresh: "fresh_mem g0 \<Longrightarrow> rep g0 k g as es \<Longrightarrow> ais g (Suc (tries g)) = None"
  unfolding rep_def fresh_mem_def by (metis Suc_n_not_le_n le_trans not_less_eq_eq)

lemma rep_new: "rep g0 k g as es \<Longrightarrow> Suc (tries g) \<notin> set as"
  by (auto simp: rep_def)

lemma ent_simps [simp]:
  "ent (ai\<lparr>ai_next := x\<rparr>) = ent ai" "ai_addr (ent ai) = ai_addr ai" "ai_canonname (ent ai) = ai_canonname ai" "ai_family (ent ai) = ai_family ai"
  "ai_flags (ent ai) = ai_flags ai" "ai_socktype (ent ai) = ai_socktype ai" "ai_protocol (ent ai) = ai_protocol ai"
  "ent (ai\<lparr>ai_addr := x1\<rparr>) = (ent ai)\<lparr>ai_addr := x1\<rparr>" "ent (ai\<lparr>ai_socktype := x2\<rparr>) = (ent ai)\<lparr>ai_socktype := x2\<rparr>"
  "ent (ai\<lparr>ai_canonname := x3\<rparr>) = (ent ai)\<lparr>ai_canonname := x3\<rparr>" "ent (ai\<lparr>ai_flags := x4\<rparr>) = (ent ai)\<lparr>ai_flags := x4\<rparr>"
  by (simp_all add: ent_def)

lemma gnx_upd_same: "h a = Some ai \<Longrightarrow> ai_next ai' = ai_next ai \<Longrightarrow> gnx (h(a \<mapsto> ai')) = gnx h"
  by (auto simp: gnx_def fun_eq_iff)

lemma gnx_upd: "gnx (h(a \<mapsto> ai)) = (gnx h)(a := ai_next ai)"
  by (auto simp: gnx_def fun_eq_iff)

lemma rep_distinct: "rep g0 k g as es \<Longrightarrow> distinct as" "rep g0 k g as es \<Longrightarrow> 0 \<notin> set as" "rep g0 k g as es \<Longrightarrow> length as = length es"
  by (auto simp: rep_def dest: chain_distinct chain_nonnull list_all2_lengthD)

text \<open>Memory that is asked for, and blocks that the list does not own.\<close>

lemma rep_try:
  "rep g0 k g as es \<Longrightarrow> try_alloc ok g = (got, g') \<Longrightarrow>
   rep g0 (k + (if got then 1 else 0)) g' as es \<and> ais g' = ais g \<and> aihead g' = aihead g \<and> aipnext g' = aipnext g \<and>
   tries g' = Suc (tries g) \<and> unlinked g' = unlinked g \<and> (got \<longleftrightarrow> ok (tries g))"
  by (auto simp: rep_def try_alloc_def)

text \<open>A structure in the list changes.\<close>

lemma rep_change:
  assumes r: "rep g0 k g (as1 @ a # as2) (es1 @ e # es2)" and "length as1 = length es1" "ais g a = Some ai" "ai_next ai' = ai_next ai"
  shows "rep g0 (k + cost e - cost (ent ai')) (g\<lparr>ais := (ais g)(a \<mapsto> ai')\<rparr>) (as1 @ a # as2) (es1 @ ent ai' # es2)"
proof -
  have d: "a \<notin> set as1" "a \<notin> set as2" using rep_distinct(1) [OF r] by auto
  have l: "list_all2 (\<lambda>b e. \<exists>ai. ((ais g)(a \<mapsto> ai')) b = Some ai \<and> ent ai = e) xs ys = list_all2 (\<lambda>b e. \<exists>ai. ais g b = Some ai \<and> ent ai = e) xs ys"
    if "a \<notin> set xs" for xs ys
    using that by (auto simp: list_all2_conv_all_nth)
  show ?thesis
    using r assms(2,3) d l [of as1 es1] l [of as2 es2] gnx_upd_same [of "ais g" a ai ai'] assms(4)
    by (auto simp: rep_def list_all2_append)
qed

text \<open>A new structure behind one of the list, with the memory it takes counted before.\<close>

lemma rep_insert:
  assumes r: "rep g0 k g (as1 @ as2) (es1 @ es2)" and len: "length as1 = length es1" and p: "p \<notin> set (as1 @ as2)" "tries g0 < p" "p \<le> tries g" "p \<noteq> 0"
    and h: "h = (if as1 = [] then ais g else (ais g)(last as1 \<mapsto> (the (ais g (last as1)))\<lparr>ai_next := p\<rparr>))" and nx: "ai_next ai = hd0 as2"
  shows "rep g0 (k - cost (ent ai)) (g\<lparr>ais := h(p \<mapsto> ai), aihead := (if as1 = [] then p else aihead g)\<rparr>) (as1 @ p # as2) (es1 @ ent ai # es2)"
proof -
  have c: "chain (gnx (ais g)) (aihead g) (as1 @ as2)" and l: "list_all2 (\<lambda>a e. \<exists>ai. ais g a = Some ai \<and> ent ai = e) (as1 @ as2) (es1 @ es2)"
    using r by (auto simp: rep_def)
  have gh: "gnx (h(p \<mapsto> ai)) = (if as1 = [] then (gnx (ais g))(p := hd0 as2) else (gnx (ais g))(p := hd0 as2, last as1 := p))"
    using p by (auto simp: h gnx_upd nx fun_eq_iff)
  have ch: "chain (gnx (h(p \<mapsto> ai))) (if as1 = [] then p else aihead g) (as1 @ p # as2)"
    unfolding gh using chain_splice [OF c, of p] p by simp
  have ex: "\<exists>ai'. (h(p \<mapsto> ai)) b = Some ai' \<and> ent ai' = e" if "\<exists>ai. ais g b = Some ai \<and> ent ai = e" "b \<noteq> p" for b e
    using that by (auto simp: h)
  have "list_all2 (\<lambda>a e. \<exists>ai'. (h(p \<mapsto> ai)) a = Some ai' \<and> ent ai' = e) xs ys"
    if "list_all2 (\<lambda>a e. \<exists>ai. ais g a = Some ai \<and> ent ai = e) xs ys" "p \<notin> set xs" for xs ys
    using that ex by (auto simp: list_all2_conv_all_nth)
  then have la: "list_all2 (\<lambda>a e. \<exists>ai'. (h(p \<mapsto> ai)) a = Some ai' \<and> ent ai' = e) (as1 @ p # as2) (es1 @ ent ai # es2)"
    using l len p by (simp add: list_all2_append)
  have fr: "(h(p \<mapsto> ai)) a = ais g0 a" if "a \<notin> set (as1 @ p # as2)" for a
  proof -
    have "as1 \<noteq> [] \<Longrightarrow> last as1 \<in> set as1" by simp
    then have "(h(p \<mapsto> ai)) a = ais g a" using that by (auto simp: h)
    then show ?thesis using r that by (auto simp: rep_def)
  qed
  show ?thesis using r p ch la fr unfolding rep_def by auto
qed

text \<open>Freeing a list gives back the memory that it takes.\<close>

lemma free_list:
  "chain (gnx (ais g)) p as \<Longrightarrow> list_all2 (\<lambda>a e. \<exists>ai. ais g a = Some ai \<and> ent ai = e) as es \<Longrightarrow>
   \<exists>g'. freeaddrinfo p g = Some (Ret g') \<and> ais g' = (\<lambda>a. if a \<in> set as then None else ais g a) \<and>
     blocks g' = blocks g - sum_list (map cost es) \<and> tries g' = tries g"
proof (induction as arbitrary: p g es)
  case Nil
  then show ?case by (auto simp: freeaddrinfo.simps)
next
  case (Cons a as)
  obtain e es' ai where e: "es = e # es'" "ais g a = Some ai" "ent ai = e" "list_all2 (\<lambda>a e. \<exists>ai. ais g a = Some ai \<and> ent ai = e) as es'"
    using Cons(3) by (cases es) auto
  have "gnx (ais g) a = ai_next ai" using e(2) by (simp add: gnx_def)
  then have p: "p = a" "a \<noteq> 0" "chain (gnx (ais g)) (ai_next ai) as" using Cons(2) by auto
  have a: "a \<notin> set as" using chain_distinct [OF Cons(2)] by simp
  define g1 where "g1 = g\<lparr>ais := (ais g)(a := None), blocks := blocks g - cost e\<rparr>"
  have "gnx (ais g1) = (gnx (ais g))(a := 0)" by (auto simp: g1_def gnx_def fun_eq_iff)
  then have c: "chain (gnx (ais g1)) (ai_next ai) as" using p(3) a by simp
  have l: "list_all2 (\<lambda>a e. \<exists>ai. ais g1 a = Some ai \<and> ent ai = e) as es'"
    using e(4) a by (auto simp: list_all2_conv_all_nth g1_def)
  have "freeaddrinfo p g = freeaddrinfo (ai_next ai) g1"
    using p(1,2) e(2) by (subst freeaddrinfo.simps) (simp add: g1_def cost_def e(3) [symmetric] algebra_simps)
  then show ?case using Cons.IH [OF c l] by (auto simp: g1_def e(1) fun_eq_iff)
qed

lemma rep_free:
  assumes "rep g0 k g as es" "fresh_mem g0"
  shows "\<exists>g'. freeaddrinfo (aihead g) g = Some (Ret g') \<and> ais g' = ais g0 \<and> blocks g' = blocks g0 + k"
proof -
  obtain g' where g': "freeaddrinfo (aihead g) g = Some (Ret g')" "ais g' = (\<lambda>a. if a \<in> set as then None else ais g a)"
    "blocks g' = blocks g - sum_list (map cost es)"
    using free_list [of g "aihead g" as es] assms(1) by (auto simp: rep_def)
  have "ais g0 a = None" if "a \<in> set as" for a
    using assms that unfolding rep_def fresh_mem_def by (metis not_le)
  then have "ais g' = ais g0" using assms(1) by (auto simp: g'(2) rep_def fun_eq_iff)
  then show ?thesis using g' assms(1) by (auto simp: rep_def)
qed

section \<open>A structure for each address\<close>

definition base_ent :: "addrinfo \<Rightarrow> family \<Rightarrow> sockaddr option \<Rightarrow> addrinfo" where
  "base_ent hints fam sa =
     \<lparr>ai_flags = (if ai_socktype hints = NoType then AI_CLONE else 0), ai_family = fam, ai_socktype = ai_socktype hints,
      ai_protocol = ai_protocol hints, ai_canonname = None, ai_addr = sa, ai_next = 0\<rparr>"

fun sa_of :: "af \<times> nat list \<Rightarrow> sockaddr option" where
  "sa_of (AF_INET, a) = Some (Sin 0 (take 4 a))"
| "sa_of (AF_INET6, a) = Some (Sin6 0 (take 16 a))"
| "sa_of (AF_other, a) = None"

lemma rep_link:
  assumes r: "rep g0 k g as es" "tail_ok g as" "fresh_mem g0" and p: "p = tries g" "tries g0 < p" "p \<notin> set as" and nx: "ai_next ai = 0"
  shows "\<exists>g'. link_ai p ai g = Ret g' \<and> rep g0 (k - cost (ent ai)) g' (as @ [p]) (es @ [ent ai]) \<and> tail_ok g' (as @ [p]) \<and>
    tries g' = tries g \<and> unlinked g' = unlinked g"
proof (cases "as = []")
  case True
  have es: "es = []" using rep_distinct(3) [OF r(1)] True by simp
  have "rep g0 (k - cost (ent ai)) (g\<lparr>ais := (ais g)(p \<mapsto> ai), aihead := p\<rparr>) [p] [ent ai]"
    using rep_insert [of g0 k g "[]" "[]" "[]" "[]" p "ais g" ai] r(1) p nx True es by simp
  then show ?thesis using r(2) True es by (auto simp: link_ai_def tail_ok_def rep_def)
next
  case False
  then obtain b where b: "ais g (last as) = Some b"
    using r(1) unfolding rep_def list_all2_conv_all_nth by (metis last_conv_nth diff_less length_greater_0_conv zero_less_one)
  let ?g = "g\<lparr>ais := (ais g)(last as \<mapsto> b\<lparr>ai_next := p\<rparr>, p \<mapsto> ai)\<rparr>"
  have "rep g0 (k - cost (ent ai)) (?g\<lparr>aihead := aihead g\<rparr>) (as @ [p]) (es @ [ent ai])"
    using rep_insert [of g0 k g as "[]" es "[]" p "(ais g)(last as \<mapsto> b\<lparr>ai_next := p\<rparr>)" ai] r(1) p nx False b rep_distinct(3) [OF r(1)] by simp
  then show ?thesis using r(2) False b by (auto simp: link_ai_def tail_ok_def rep_def)
qed

text \<open>The list, its end, and the memory of \<open>k\<close> other blocks, for some addresses.\<close>

definition built :: "ga \<Rightarrow> int \<Rightarrow> ga \<Rightarrow> addrinfo list \<Rightarrow> bool" where
  "built g0 k g es \<longleftrightarrow> (\<exists>as. rep g0 k g as es \<and> tail_ok g as) \<and> fresh_mem g0"

lemma set_addr_last:
  assumes r: "rep g0 k g (as @ [p]) (es @ [e])" and e: "ai_addr e = None" and t: "tail_ok g (as @ [p])"
  shows "\<exists>g'. set_addr p sa g = Ret g' \<and> rep g0 (k - 1) g' (as @ [p]) (es @ [e\<lparr>ai_addr := Some sa\<rparr>]) \<and> tail_ok g' (as @ [p])"
proof -
  have len: "length as = length es" using rep_distinct(3) [OF r] by simp
  then obtain ai where ai: "ais g p = Some ai" "ent ai = e" using r by (auto simp: rep_def list_all2_append)
  have k: "k + cost e - cost (ent (ai\<lparr>ai_addr := Some sa\<rparr>)) = k - 1" using e ai(2) by (auto simp: cost_def)
  have "rep g0 (k - 1) (g\<lparr>ais := (ais g)(p \<mapsto> ai\<lparr>ai_addr := Some sa\<rparr>)\<rparr>) (as @ [p]) (es @ [ent (ai\<lparr>ai_addr := Some sa\<rparr>)])"
    using rep_change [of g0 k g as p "[]" es e "[]" ai "ai\<lparr>ai_addr := Some sa\<rparr>", unfolded k] r len ai by simp
  then show ?thesis using t ai by (auto simp: set_addr_def tail_ok_def)
qed

lemma sockaddr_step:
  assumes r: "rep g0 k g (as @ [p]) (es @ [base_ent hints (Fam f) None])" "tail_ok g (as @ [p])"
  shows "\<exists>rc g' es'. ai_sockaddr ok hints (Bytes a) (Fam f) p g = Ret (rc, g') \<and> rep g0 k g' (as @ [p]) es' \<and> tail_ok g' (as @ [p]) \<and>
    (rc = None \<and> es' = es @ [base_ent hints (Fam f) (sa_of (f, a))] \<or> rc = Some EAI_MEMORY \<and> \<not> (\<forall>n. ok n))"
proof -
  obtain got g1 where t: "try_alloc ok g = (got, g1)" by (cases "try_alloc ok g")
  note r1 = rep_try [OF r(1) t]
  have t1: "tail_ok g1 (as @ [p])" using r(2) r1 by (simp add: tail_ok_def)
  have set: "\<exists>g'. set_addr p sa g1 = Ret g' \<and> rep g0 k g' (as @ [p]) (es @ [base_ent hints (Fam f) (Some sa)]) \<and> tail_ok g' (as @ [p])" if got for sa
    using set_addr_last [of g0 "k + 1" g1 as p es "base_ent hints (Fam f) None" sa] r1 t1 that by (simp add: base_ent_def)
  have nomem: "rep g0 k g1 (as @ [p]) (es @ [base_ent hints (Fam f) None]) \<and> \<not> (\<forall>n. ok n)" if "\<not> got" using r1 that by auto
  show ?thesis
  proof (cases f)
    case AF_INET
    show ?thesis using set [of "Sin 0 (take 4 a)"] nomem t1 by (cases got) (auto simp: ai_sockaddr_def t AF_INET)
  next
    case AF_INET6
    show ?thesis using set [of "Sin6 0 (take 16 a)"] nomem t1 by (cases got) (auto simp: ai_sockaddr_def t AF_INET6)
  next
    case AF_other
    show ?thesis using r by (auto simp: ai_sockaddr_def t AF_other)
  qed
qed

lemma aistruct_step:
  assumes b: "built g0 k g es"
  shows "\<exists>rc g' es'. ga_aistruct ok hints (Bytes a) (Fam f) g = Ret (rc, g') \<and> built g0 k g' es' \<and>
    (rc = None \<and> es' = es @ [base_ent hints (Fam f) (sa_of (f, a))] \<or> rc = Some EAI_MEMORY \<and> \<not> (\<forall>n. ok n))"
proof -
  obtain as where r: "rep g0 k g as es" "tail_ok g as" "fresh_mem g0" using b by (auto simp: built_def)
  obtain got g1 where t: "try_alloc ok g = (got, g1)" by (cases "try_alloc ok g")
  note r1 = rep_try [OF r(1) t]
  have t1: "tail_ok g1 as" using r(2) r1 by (simp add: tail_ok_def)
  show ?thesis
  proof (cases got)
    case False
    then have "built g0 k g1 es" "\<not> (\<forall>n. ok n)" using r1 t1 r(3) by (auto simp: built_def)
    then show ?thesis using False by (auto simp: ga_aistruct_def t)
  next
    case True
    let ?p = "Suc (tries g)" and ?ai = "base_ent hints (Fam f) None"
    have "?p = tries g1" "tries g0 < ?p" "?p \<notin> set as" using r1 rep_new [OF r(1)] r(1) by (auto simp: rep_def)
    from rep_link [of g0 "k + 1" g1 as es ?p ?ai, OF _ t1 r(3) this]
    obtain g2 where g2: "link_ai ?p ?ai g1 = Ret g2" "rep g0 k g2 (as @ [?p]) (es @ [?ai])" "tail_ok g2 (as @ [?p])"
      using r1 True by (auto simp: base_ent_def ent_def cost_def)
    have "ga_aistruct ok hints (Bytes a) (Fam f) g = ai_sockaddr ok hints (Bytes a) (Fam f) ?p g2"
      using g2(1) True by (simp add: ga_aistruct_def t new_ai_def base_ent_def)
    then show ?thesis using sockaddr_step [OF g2(2,3), of ok a] r(3) unfolding built_def by auto
  qed
qed

abbreviation ents :: "addrinfo \<Rightarrow> (af \<times> nat list) list \<Rightarrow> addrinfo list" where
  "ents hints xs \<equiv> map (\<lambda>x. base_ent hints (Fam (fst x)) (sa_of x)) xs"

lemma addrs_step:
  "built g0 k g es \<Longrightarrow>
   \<exists>rc g' es'. ga_addrs ok hints f as g = Ret (rc, g') \<and> built g0 k g' es' \<and>
    (rc = None \<and> es' = es @ ents hints (map (Pair f) as) \<or> rc = Some EAI_MEMORY \<and> \<not> (\<forall>n. ok n))"
proof (induction as arbitrary: g es)
  case (Cons a as)
  obtain rc g1 es1 where s: "ga_aistruct ok hints (Bytes a) (Fam f) g = Ret (rc, g1)" "built g0 k g1 es1"
    "rc = None \<and> es1 = es @ [base_ent hints (Fam f) (sa_of (f, a))] \<or> rc = Some EAI_MEMORY \<and> \<not> (\<forall>n. ok n)"
    using aistruct_step [OF Cons(2), of ok hints a f] by blast
  show ?case
  proof (cases rc)
    case None
    then show ?thesis using s Cons.IH [OF s(2)] by auto
  next
    case (Some e)
    then show ?thesis using s by auto
  qed
qed auto

section \<open>The addresses\<close>

text \<open>The addresses a search finds, or the error it ends with.\<close>

definition found :: "netdb \<Rightarrow> addrinfo \<Rightarrow> nat \<Rightarrow> string \<times> af \<Rightarrow> eai + (af \<times> nat list) list" where
  "found db hints nsearch s =
     (case s of (host, fam) \<Rightarrow>
        let wrong = (\<lambda>f. ai_family hints \<noteq> AF_UNSPEC \<and> ai_family hints \<noteq> Fam f) in
        case numeric_host host of
          Some (f, a) \<Rightarrow> if wrong f then Inl EAI_ADDRFAMILY else Inr (if fam = f then [(f, a)] else [])
        | None \<Rightarrow>
            (case (if nsearch = 2 then gethostbyname2 db host fam else gethostbyname db (fam = AF_INET6) host) of
               Inl e \<Rightarrow> if nsearch = 2 then Inr [] else Inl (h_error e)
             | Inr hptr \<Rightarrow> if wrong (h_addrtype hptr) then Inl EAI_ADDRFAMILY else Inr (map (Pair (h_addrtype hptr)) (h_addr_list hptr))))"

text \<open>The canonical name the resolver gives for a search.\<close>

definition found_name :: "netdb \<Rightarrow> nat \<Rightarrow> string \<times> af \<Rightarrow> string option" where
  "found_name db nsearch s =
     (case s of (host, fam) \<Rightarrow>
        if numeric_host host \<noteq> None then None
        else (case (if nsearch = 2 then gethostbyname2 db host fam else gethostbyname db (fam = AF_INET6) host) of
            Inl e \<Rightarrow> None | Inr hptr \<Rightarrow> Some (h_name hptr)))"

fun found_all :: "netdb \<Rightarrow> addrinfo \<Rightarrow> nat \<Rightarrow> (string \<times> af) list \<Rightarrow> eai + (af \<times> nat list) list" where
  "found_all db hints n [] = Inr []"
| "found_all db hints n (s # ss) =
     (case found db hints n s of
        Inl e \<Rightarrow> Inl e
      | Inr xs \<Rightarrow> (case found_all db hints n ss of Inl e \<Rightarrow> Inl e | Inr ys \<Rightarrow> Inr (xs @ ys)))"

fun name_all :: "netdb \<Rightarrow> nat \<Rightarrow> (string \<times> af) list \<Rightarrow> string option" where
  "name_all db n [] = None"
| "name_all db n (s # ss) = (case found_name db n s of Some x \<Rightarrow> Some x | None \<Rightarrow> name_all db n ss)"

text \<open>Whether the canonical name is asked for.\<close>

definition wants_name :: "addrinfo \<Rightarrow> string option \<Rightarrow> bool" where
  "wants_name hints hostname \<longleftrightarrow> \<not> no_name hostname \<and> and (ai_flags hints) AI_CANONNAME \<noteq> 0"

definition held :: "string option \<Rightarrow> int" where
  "held canon = (if canon = None then 0 else 1)"

lemma built_try:
  "built g0 k g es \<Longrightarrow> try_alloc ok g = (got, g') \<Longrightarrow> built g0 (k + (if got then 1 else 0)) g' es \<and> (got \<longleftrightarrow> ok (tries g)) \<and> aihead g' = aihead g \<and> ais g' = ais g"
  unfolding built_def using rep_try tail_ok_def by fastforce

text \<open>
  How a part of the work may end, compared with what it should do (\<open>xs\<close>, or an error): as it should, or without memory.
\<close>

definition ends_as :: "(nat \<Rightarrow> bool) \<Rightarrow> eai option \<Rightarrow> eai + 'a \<Rightarrow> ('a \<Rightarrow> bool) \<Rightarrow> bool" where
  "ends_as ok rc r P \<longleftrightarrow> (case rc of None \<Rightarrow> (\<exists>x. r = Inr x \<and> P x) | Some e \<Rightarrow> r = Inl e \<or> e = EAI_MEMORY \<and> \<not> (\<forall>n. ok n))"

definition name_after :: "addrinfo \<Rightarrow> string option \<Rightarrow> string option \<Rightarrow> string option \<Rightarrow> string option" where
  "name_after hints hostname canon name = (if wants_name hints hostname then (case canon of Some x \<Rightarrow> Some x | None \<Rightarrow> name) else canon)"

lemma numeric_step:
  assumes b: "built g0 (held canon) g es" and num: "numeric_host host = Some (f, a)"
  shows "\<exists>rc g' es'. ga_search ok db hints hostname n (host, fam) canon g = Ret (rc, canon, g') \<and> built g0 (held canon) g' es' \<and>
    ends_as ok rc (found db hints n (host, fam)) (\<lambda>xs. es' = es @ ents hints xs)"
  using b num aistruct_step [OF b, of ok hints a f]
  by (cases "ai_family hints \<noteq> AF_UNSPEC \<and> ai_family hints \<noteq> Fam f"; cases "fam = f") (auto simp: ga_search_def found_def ends_as_def Let_def)

lemma resolver_step:
  assumes b: "built g0 (held canon) g es" and num: "numeric_host host = None"
    and h: "(if n = 2 then gethostbyname2 db host fam else gethostbyname db (fam = AF_INET6) host) = Inr hptr"
    and f: "\<not> (ai_family hints \<noteq> AF_UNSPEC \<and> ai_family hints \<noteq> Fam (h_addrtype hptr))"
  shows "\<exists>rc canon' g' es'. ga_search ok db hints hostname n (host, fam) canon g = Ret (rc, canon', g') \<and> built g0 (held canon') g' es' \<and>
    (wants_name hints hostname \<or> canon' = canon) \<and>
    ends_as ok rc (found db hints n (host, fam)) (\<lambda>xs. es' = es @ ents hints xs \<and> canon' = name_after hints hostname canon (Some (h_name hptr)))"
proof -
  define save where "save \<longleftrightarrow> wants_name hints hostname \<and> canon = None"
  obtain got g1 where t: "(if save then try_alloc ok g else (True, g)) = (got, g1)" by (cases "if save then try_alloc ok g else (True, g)")
  define canon' where "canon' = (if save then Some (h_name hptr) else canon)"
  have search: "ga_search ok db hints hostname n (host, fam) canon g =
     (if \<not> got then Ret (Some EAI_MEMORY, canon, g1)
      else run_bind (ga_addrs ok hints (h_addrtype hptr) (h_addr_list hptr) g1) (\<lambda>(rc, st). Ret (rc, canon', st)))"
    using num h f t by (cases "ai_family hints = AF_UNSPEC") (simp_all add: ga_search_def canon'_def save_def wants_name_def Let_def)
  have fd: "found db hints n (host, fam) = Inr (map (Pair (h_addrtype hptr)) (h_addr_list hptr))" using num h f by (auto simp: found_def Let_def)
  have na: "canon' = name_after hints hostname canon (Some (h_name hptr))" by (auto simp: canon'_def save_def name_after_def split: option.split)
  show ?thesis
  proof (cases got)
    case False
    have "built g0 (held canon) g1 es" "\<not> (\<forall>n. ok n)" using t False built_try [OF b, of ok got g1] by (auto split: if_splits)
    then show ?thesis using search False by (auto simp: ends_as_def)
  next
    case True
    have "built g0 (held canon') g1 es" using t True built_try [OF b, of ok got g1] b by (auto simp: canon'_def save_def held_def split: if_splits)
    then obtain rc g2 es2 where g2: "ga_addrs ok hints (h_addrtype hptr) (h_addr_list hptr) g1 = Ret (rc, g2)" "built g0 (held canon') g2 es2"
      "rc = None \<and> es2 = es @ ents hints (map (Pair (h_addrtype hptr)) (h_addr_list hptr)) \<or> rc = Some EAI_MEMORY \<and> \<not> (\<forall>n. ok n)"
      using addrs_step [of g0 "held canon'" g1 es ok hints "h_addrtype hptr" "h_addr_list hptr"] by blast
    have "ga_search ok db hints hostname n (host, fam) canon g = Ret (rc, canon', g2)" using search True g2(1) by simp
    moreover have "wants_name hints hostname \<or> canon' = canon" by (simp add: canon'_def save_def)
    moreover have "ends_as ok rc (found db hints n (host, fam)) (\<lambda>xs. es2 = es @ ents hints xs \<and> canon' = name_after hints hostname canon (Some (h_name hptr)))"
      unfolding fd na using g2(3) by (auto simp: ends_as_def)
    ultimately show ?thesis using g2(2) by blast
  qed
qed

lemma search_step:
  assumes b: "built g0 (held canon) g es"
  shows "\<exists>rc canon' g' es'. ga_search ok db hints hostname n s canon g = Ret (rc, canon', g') \<and> built g0 (held canon') g' es' \<and>
    (wants_name hints hostname \<or> canon' = canon) \<and>
    ends_as ok rc (found db hints n s) (\<lambda>xs. es' = es @ ents hints xs \<and> canon' = name_after hints hostname canon (found_name db n s))"
proof -
  obtain host fam where s: "s = (host, fam)" by (cases s)
  let ?h = "if n = 2 then gethostbyname2 db host fam else gethostbyname db (fam = AF_INET6) host"
  have na: "name_after hints hostname canon None = canon" by (auto simp: name_after_def split: option.split)
  show ?thesis
  proof (cases "numeric_host host")
    case (Some fa)
    obtain f a where fa: "fa = (f, a)" by (cases fa)
    have "found_name db n s = None" using Some by (simp add: found_name_def s)
    moreover obtain rc g' es' where "ga_search ok db hints hostname n s canon g = Ret (rc, canon, g')" "built g0 (held canon) g' es'"
      "ends_as ok rc (found db hints n s) (\<lambda>xs. es' = es @ ents hints xs)"
      using numeric_step [OF b Some [unfolded fa], of ok db hints hostname n fam] unfolding s by blast
    ultimately show ?thesis using na by (intro exI [of _ rc] exI [of _ canon] exI [of _ g'] exI [of _ es']) simp
  next
    case None
    show ?thesis
    proof (cases ?h)
      case (Inl e)
      then show ?thesis using b na None by (auto simp: ga_search_def found_def found_name_def s ends_as_def Let_def)
    next
      case (Inr hptr)
      have fn: "found_name db n s = Some (h_name hptr)" using Inr None by (simp add: found_name_def s)
      show ?thesis
      proof (cases "ai_family hints \<noteq> AF_UNSPEC \<and> ai_family hints \<noteq> Fam (h_addrtype hptr)")
        case True
        then show ?thesis using b None Inr by (auto simp: ga_search_def found_def s ends_as_def Let_def)
      next
        case False
        from resolver_step [OF b None Inr this, of ok hostname] show ?thesis unfolding s fn [unfolded s] .
      qed
    qed
  qed
qed

lemma searches_step:
  "built g0 (held canon) g es \<Longrightarrow>
   \<exists>rc canon' g' es'. ga_searches ok db hints hostname n ss canon g = Ret (rc, canon', g') \<and> built g0 (held canon') g' es' \<and>
    (wants_name hints hostname \<or> canon' = canon) \<and>
    ends_as ok rc (found_all db hints n ss) (\<lambda>xs. es' = es @ ents hints xs \<and> canon' = name_after hints hostname canon (name_all db n ss))"
proof (induction ss arbitrary: canon g es)
  case Nil
  then show ?case by (auto simp: ends_as_def name_after_def split: option.split)
next
  case (Cons s ss)
  obtain rc canon' g' es' where s: "ga_search ok db hints hostname n s canon g = Ret (rc, canon', g')" "built g0 (held canon') g' es'"
    "wants_name hints hostname \<or> canon' = canon"
    "ends_as ok rc (found db hints n s) (\<lambda>xs. es' = es @ ents hints xs \<and> canon' = name_after hints hostname canon (found_name db n s))"
    using search_step [OF Cons(2), of ok db hints hostname n s] by blast
  show ?case
  proof (cases rc)
    case None
    then obtain xs where xs: "found db hints n s = Inr xs" "es' = es @ ents hints xs" "canon' = name_after hints hostname canon (found_name db n s)"
      using s(4) by (auto simp: ends_as_def)
    obtain rc2 canon2 g2 es2 where r: "ga_searches ok db hints hostname n ss canon' g' = Ret (rc2, canon2, g2)" "built g0 (held canon2) g2 es2"
      "wants_name hints hostname \<or> canon2 = canon'"
      "ends_as ok rc2 (found_all db hints n ss) (\<lambda>xs. es2 = es' @ ents hints xs \<and> canon2 = name_after hints hostname canon' (name_all db n ss))"
      using Cons.IH [OF s(2)] by blast
    have "name_after hints hostname canon' (name_all db n ss) = name_after hints hostname canon (name_all db n (s # ss))"
      unfolding xs(3) by (auto simp: name_after_def split: option.splits)
    then have "ends_as ok rc2 (found_all db hints n (s # ss)) (\<lambda>xs. es2 = es @ ents hints xs \<and> canon2 = name_after hints hostname canon (name_all db n (s # ss)))"
      using r(4) xs(1,2) by (auto simp: ends_as_def split: option.splits sum.splits)
    then show ?thesis using r s(1,3) None by auto
  next
    case (Some e)
    then show ?thesis using s by (auto simp: ends_as_def)
  qed
qed

section \<open>Ports\<close>

definition ent_ok :: "addrinfo \<Rightarrow> bool" where
  "ent_ok e \<longleftrightarrow> ai_family e = Fam AF_INET \<and> (\<exists>p bs. ai_addr e = Some (Sin p bs)) \<or> ai_family e = Fam AF_INET6 \<and> (\<exists>p bs. ai_addr e = Some (Sin6 p bs))"

definition set_port :: "socktype \<times> 16 word \<Rightarrow> addrinfo \<Rightarrow> addrinfo" where
  "set_port sp e =
     e\<lparr>ai_socktype := fst sp,
       ai_addr := (case ai_addr e of Some (Sin _ bs) \<Rightarrow> Some (Sin (snd sp) bs) | Some (Sin6 _ bs) \<Rightarrow> Some (Sin6 (snd sp) bs) | x \<Rightarrow> x)\<rparr>"

definition clone_ent :: "addrinfo \<Rightarrow> addrinfo" where
  "clone_ent e = e\<lparr>ai_flags := 0, ai_canonname := None\<rparr>"

text \<open>What \<^verbatim>\<open>ga_port\<close> does to a list, and how many structures it finds.\<close>

fun port_list :: "socktype \<times> 16 word \<Rightarrow> addrinfo list \<Rightarrow> addrinfo list" where
  "port_list sp [] = []"
| "port_list sp (e # es) =
     (if and (ai_flags e) AI_CLONE \<noteq> 0 \<and> ai_socktype e \<noteq> NoType then e # set_port sp (clone_ent e) # port_list sp es
      else if and (ai_flags e) AI_CLONE = 0 \<and> ai_socktype e \<noteq> fst sp then e # port_list sp es
      else set_port sp e # port_list sp es)"

fun port_count :: "socktype \<Rightarrow> addrinfo list \<Rightarrow> int" where
  "port_count ty [] = 0"
| "port_count ty (e # es) = (if and (ai_flags e) AI_CLONE = 0 \<and> ai_socktype e \<noteq> ty then 0 else 1) + port_count ty es"

lemma rep_at:
  assumes r: "rep g0 k g (as1 @ p # as2) (es1 @ e # es2)" "length as1 = length es1"
  obtains ai where "ais g p = Some ai" "ent ai = e" "ai_next ai = hd0 as2" "p \<noteq> 0"
proof -
  obtain ai where ai: "ais g p = Some ai" "ent ai = e" using r by (auto simp: rep_def list_all2_append)
  have "chain (gnx (ais g)) (aihead g) (as1 @ p # as2)" using r(1) by (simp add: rep_def)
  then have "gnx (ais g) p = hd0 as2" "p \<noteq> 0" by (auto simp: chain_append dest: chain_hd0)
  then show thesis using that ai by (simp add: gnx_def)
qed

lemma cost_set_port [simp]: "cost (set_port sp e) = cost e"
  by (auto simp: cost_def set_port_def split: option.splits sockaddr.splits)

lemma port_at_step:
  assumes r: "rep g0 k g (as1 @ p # as2) (es1 @ e # es2)" "length as1 = length es1" and e: "ent_ok e"
  shows "\<exists>g'. port_at port ty p g = Ret (1, hd0 as2, g') \<and> rep g0 k g' (as1 @ p # as2) (es1 @ set_port (ty, port) e # es2) \<and> aihead g' = aihead g"
proof -
  obtain ai where ai: "ais g p = Some ai" "ent ai = e" "ai_next ai = hd0 as2" by (rule rep_at [OF r])
  define ai' where "ai' = ai\<lparr>ai_socktype := ty, ai_addr := ai_addr (set_port (ty, port) e)\<rparr>"
  have e': "ent ai' = set_port (ty, port) e" using ai(2) by (auto simp: ai'_def set_port_def ent_def)
  have "rep g0 k (g\<lparr>ais := (ais g)(p \<mapsto> ai')\<rparr>) (as1 @ p # as2) (es1 @ set_port (ty, port) e # es2)"
    using rep_change [OF r ai(1), of ai'] unfolding e' by (simp add: ai'_def)
  moreover have "port_at port ty p g = Ret (1, hd0 as2, g\<lparr>ais := (ais g)(p \<mapsto> ai')\<rparr>)"
    using ai e by (auto simp: port_at_def ent_ok_def ai'_def set_port_def)
  ultimately show ?thesis by auto
qed

lemma clone_step:
  assumes r: "rep g0 k g (as1 @ p # as2) (es1 @ e # es2)" "length as1 = length es1" and e: "ai_addr e \<noteq> None"
  shows "\<exists>c g'. ga_clone ok p g = Ret (c, g') \<and> aihead g' = aihead g \<and>
    (c = 0 \<and> (\<exists>as' es'. rep g0 k g' as' es') \<and> \<not> (\<forall>n. ok n) \<or> c \<noteq> 0 \<and> rep g0 k g' (as1 @ p # c # as2) (es1 @ e # clone_ent e # es2))"
proof -
  obtain ai sa where ai: "ais g p = Some ai" "ent ai = e" "ai_next ai = hd0 as2" "ai_addr ai = Some sa" using rep_at [OF r] e by (metis ent_simps(2) not_None_eq)
  obtain got g1 where t: "try_alloc ok g = (got, g1)" by (cases "try_alloc ok g")
  note r1 = rep_try [OF r(1) t]
  show ?thesis
  proof (cases got)
    case False
    then have "rep g0 k g1 (as1 @ p # as2) (es1 @ e # es2)" "\<not> (\<forall>n. ok n)" using r1 by auto
    then show ?thesis using False r1 by (auto simp: ga_clone_def t)
  next
    case True
    let ?c = "Suc (tries g)" and ?new = "ai\<lparr>ai_flags := 0, ai_canonname := None, ai_addr := None\<rparr>"
    define g2 where "g2 = g1\<lparr>ais := (ais g1)(p \<mapsto> ai\<lparr>ai_next := ?c\<rparr>, ?c \<mapsto> ?new)\<rparr>"
    have c: "?c \<notin> set ((as1 @ [p]) @ as2)" "tries g0 < ?c" "?c \<le> tries g1" "?c \<noteq> 0" using rep_new [OF r(1)] r1 r(1) by (auto simp: rep_def)
    have co: "cost (ent ?new) = 1" by (simp add: cost_def)
    have "rep g0 (k + 1) g1 ((as1 @ [p]) @ as2) ((es1 @ [e]) @ es2)" using r1 True by simp
    from rep_insert [OF this _ c, of "(ais g1)(p \<mapsto> ai\<lparr>ai_next := ?c\<rparr>)" ?new, unfolded co]
    have r2: "rep g0 k g2 (as1 @ p # ?c # as2) (es1 @ e # ent ?new # es2)" using r(2) r1 ai by (auto simp: g2_def rep_def)
    obtain got' g3 where t': "try_alloc ok g2 = (got', g3)" by (cases "try_alloc ok g2")
    note r3 = rep_try [OF r2 t']
    have hd: "aihead g3 = aihead g" using r1 r3 by (simp add: g2_def)
    have cl: "ga_clone ok p g = (if \<not> got' then Ret (0, g3) else run_bind (set_addr ?c sa g3) (\<lambda>g. Ret (?c, g)))"
      using ai True t' r1 by (simp add: ga_clone_def t new_ai_def g2_def Let_def)
    show ?thesis
    proof (cases got')
      case False
      then have "rep g0 k g3 (as1 @ p # ?c # as2) (es1 @ e # ent ?new # es2)" "\<not> (\<forall>n. ok n)" using r3 by auto
      then show ?thesis using False cl hd by auto
    next
      case True
      have n3: "ais g3 ?c = Some ?new" using r3 by (simp add: g2_def)
      have en: "ent (?new\<lparr>ai_addr := Some sa\<rparr>) = clone_ent e" using ai(2,4) by (auto simp: clone_ent_def ent_def)
      have co2: "k + 1 + cost (ent ?new) - cost (clone_ent e) = k" unfolding en [symmetric] by (simp add: cost_def)
      have "rep g0 (k + 1) g3 ((as1 @ [p]) @ ?c # as2) ((es1 @ [e]) @ ent ?new # es2)" using r3 True by simp
      from rep_change [OF this _ n3, of "?new\<lparr>ai_addr := Some sa\<rparr>", unfolded en co2]
      have "rep g0 k (g3\<lparr>ais := (ais g3)(?c \<mapsto> ?new\<lparr>ai_addr := Some sa\<rparr>)\<rparr>) (as1 @ p # ?c # as2) (es1 @ e # clone_ent e # es2)" using r(2) by simp
      then show ?thesis using True cl hd n3 by (auto simp: set_addr_def)
    qed
  qed
qed

lemma ent_ok_clone [simp]: "ent_ok (clone_ent e) = ent_ok e"
  by (simp add: ent_ok_def clone_ent_def)

lemma ent_ok_set_port [simp]: "ent_ok (set_port sp e) = ent_ok e"
  by (auto simp: ent_ok_def set_port_def split: option.splits sockaddr.splits)

text \<open>One round of the loop: the entries it makes of one, and the addresses that follow them.\<close>

lemma port_round:
  assumes r: "rep g0 k g (as1 @ p # as2) (es1 @ e # es2)" "length as1 = length es1" and e: "ent_ok e"
  shows "(\<exists>g' as' es'. ga_port_step ok port ty p g = Ret (Inl g') \<and> rep g0 k g' as' es' \<and> \<not> (\<forall>n. ok n)) \<or>
    (\<exists>g' bs. ga_port_step ok port ty p g = Ret (Inr (port_count ty [e], hd0 as2, g')) \<and> rep g0 k g' ((as1 @ bs) @ as2) ((es1 @ port_list (ty, port) [e]) @ es2) \<and>
       length bs = length (port_list (ty, port) [e]))"
proof -
  obtain ai where ai: "ais g p = Some ai" "ent ai = e" "ai_next ai = hd0 as2" by (rule rep_at [OF r])
  have fl: "ai_flags ai = ai_flags e" "ai_socktype ai = ai_socktype e" using ai(2) by auto
  consider "and (ai_flags e) AI_CLONE \<noteq> 0" "ai_socktype e \<noteq> NoType" | "and (ai_flags e) AI_CLONE = 0" "ai_socktype e \<noteq> ty"
    | "and (ai_flags e) AI_CLONE \<noteq> 0 \<and> ai_socktype e = NoType \<or> and (ai_flags e) AI_CLONE = 0 \<and> ai_socktype e = ty" by blast
  then show ?thesis
  proof cases
    case 1
    obtain c g1 where c: "ga_clone ok p g = Ret (c, g1)"
      "c = 0 \<and> (\<exists>as' es'. rep g0 k g1 as' es') \<and> \<not> (\<forall>n. ok n) \<or> c \<noteq> 0 \<and> rep g0 k g1 (as1 @ p # c # as2) (es1 @ e # clone_ent e # es2)"
      using clone_step [OF r, of ok] e by (auto simp: ent_ok_def)
    show ?thesis
    proof (cases "c = 0")
      case True
      then show ?thesis using c ai(1) fl 1 by (auto simp: ga_port_step_def)
    next
      case False
      have "rep g0 k g1 ((as1 @ [p]) @ c # as2) ((es1 @ [e]) @ clone_ent e # es2)" using c(2) False by simp
      from port_at_step [OF this, of port ty] obtain g2 where g2: "port_at port ty c g1 = Ret (1, hd0 as2, g2)"
        "rep g0 k g2 (as1 @ p # c # as2) (es1 @ e # set_port (ty, port) (clone_ent e) # es2)" using r(2) e by auto
      have "ga_port_step ok port ty p g = Ret (Inr (port_count ty [e], hd0 as2, g2))"
        using c(1) ai(1) fl 1 False g2(1) by (simp add: ga_port_step_def)
      then show ?thesis using g2(2) 1 by (intro disjI2 exI [of _ g2] exI [of _ "[p, c]"]) simp
    qed
  next
    case 2
    then have "ga_port_step ok port ty p g = Ret (Inr (port_count ty [e], hd0 as2, g))" using ai fl by (simp add: ga_port_step_def)
    then show ?thesis using r(1) 2 by (intro disjI2 exI [of _ g] exI [of _ "[p]"]) simp
  next
    case 3
    obtain g1 where g1: "port_at port ty p g = Ret (1, hd0 as2, g1)" "rep g0 k g1 (as1 @ p # as2) (es1 @ set_port (ty, port) e # es2)"
      using port_at_step [OF r e, of port ty] by blast
    then have "ga_port_step ok port ty p g = Ret (Inr (port_count ty [e], hd0 as2, g1))" using ai(1) fl 3 by (auto simp: ga_port_step_def)
    then show ?thesis using g1(2) 3 by (intro disjI2 exI [of _ g1] exI [of _ "[p]"]) auto
  qed
qed

lemma port_list_Cons: "port_list sp (e # es) = port_list sp [e] @ port_list sp es"
  by simp

lemma port_count_Cons: "port_count ty (e # es) = port_count ty [e] + port_count ty es"
  by simp

lemma ga_port_list:
  "rep g0 k g (as1 @ as2) (es1 @ es2) \<Longrightarrow> length as1 = length es1 \<Longrightarrow> \<forall>e \<in> set es2. ent_ok e \<Longrightarrow>
   \<exists>r g' as' es'. ga_port ok port ty n (hd0 as2) g = Some (Ret (r, g')) \<and> rep g0 k g' as' es' \<and>
     (r = None \<and> \<not> (\<forall>n. ok n) \<or> r = Some (n + port_count ty es2) \<and> es' = es1 @ port_list (ty, port) es2)"
proof (induction es2 arbitrary: g as1 as2 es1 n)
  case Nil
  then have "as2 = []" using rep_distinct(3) [OF Nil(1)] by simp
  then show ?case using Nil(1) by (subst ga_port.simps) auto
next
  case (Cons e es2)
  obtain p as2' where as2: "as2 = p # as2'" using rep_distinct(3) [OF Cons(2)] Cons(3) by (cases as2) auto
  have p: "p \<noteq> 0" using rep_distinct(2) [OF Cons(2)] as2 by auto
  have gp: "ga_port ok port ty n (hd0 as2) g = lbind (Some (ga_port_step ok port ty p g)) (\<lambda>r.
        case r of Inl g2 \<Rightarrow> Some (Ret (None, g2)) | Inr (m, ai, g2) \<Rightarrow> ga_port ok port ty (n + m) ai g2)"
    using p as2 by (subst ga_port.simps) simp
  have e: "ent_ok e" using Cons(4) by simp
  from port_round [OF Cons(2) [unfolded as2] Cons(3) e, of ok port ty] show ?case
  proof (elim disjE exE conjE)
    fix g' as' es'
    assume "ga_port_step ok port ty p g = Ret (Inl g')" "rep g0 k g' as' es'" "\<not> (\<forall>n. ok n)"
    then show ?thesis unfolding gp by auto
  next
    fix g' bs
    assume s: "ga_port_step ok port ty p g = Ret (Inr (port_count ty [e], hd0 as2', g'))"
      "rep g0 k g' ((as1 @ bs) @ as2') ((es1 @ port_list (ty, port) [e]) @ es2)" "length bs = length (port_list (ty, port) [e])"
    have "length (as1 @ bs) = length (es1 @ port_list (ty, port) [e])" using s(3) Cons(3) by (simp del: port_list.simps)
    from Cons.IH [OF s(2) this, of "n + port_count ty [e]"] Cons(4) show ?thesis
      unfolding gp s(1) port_list_Cons [of _ e es2] port_count_Cons [of _ e es2] by (simp add: add.assoc del: port_list.simps port_count.simps)
  qed
qed

fun ports_list :: "(socktype \<times> 16 word) list \<Rightarrow> addrinfo list \<Rightarrow> addrinfo list" where
  "ports_list [] es = es"
| "ports_list (sp # sps) es = ports_list sps (port_list sp es)"

fun ports_count :: "(socktype \<times> 16 word) list \<Rightarrow> addrinfo list \<Rightarrow> int" where
  "ports_count [] es = 0"
| "ports_count (sp # sps) es = port_count (fst sp) es + ports_count sps (port_list sp es)"

lemma port_list_ok: "\<forall>e \<in> set es. ent_ok e \<Longrightarrow> \<forall>e \<in> set (port_list sp es). ent_ok e"
  by (induction es) auto

lemma ga_ports_list:
  "rep g0 k g as es \<Longrightarrow> \<forall>e \<in> set es. ent_ok e \<Longrightarrow>
   \<exists>r g' as' es'. ga_ports ok sps n g = Some (Ret (r, g')) \<and> rep g0 k g' as' es' \<and>
     (r = None \<and> \<not> (\<forall>n. ok n) \<or> r = Some (n + ports_count sps es) \<and> es' = ports_list sps es)"
proof (induction sps arbitrary: g as es n)
  case Nil
  then show ?case by auto
next
  case (Cons sp sps)
  obtain ty port where sp: "sp = (ty, port)" by (cases sp)
  have hd: "hd0 as = aihead g" using Cons(2) by (auto simp: rep_def dest: chain_hd0)
  obtain r g' as' es' where r: "ga_port ok port ty 0 (aihead g) g = Some (Ret (r, g'))" "rep g0 k g' as' es'"
    "r = None \<and> \<not> (\<forall>n. ok n) \<or> r = Some (port_count ty es) \<and> es' = port_list sp es"
    using ga_port_list [of g0 k g "[]" as "[]" es ok port ty 0] Cons(2,3) unfolding hd sp append_Nil add_0 list.size by blast
  show ?case
  proof (cases r)
    case None
    then show ?thesis using r by (auto simp: sp)
  next
    case (Some m)
    then have m: "m = port_count ty es" "es' = port_list sp es" using r(3) by auto
    show ?thesis using Cons.IH [OF r(2), of "n + m"] port_list_ok [OF Cons(3)] r(1) Some m by (auto simp: sp add.assoc)
  qed
qed

text \<open>The result with the services: each address with each socket type, or all with the socket type that was asked for.\<close>

definition serv_ents :: "addrinfo \<Rightarrow> (socktype \<times> 16 word) list \<Rightarrow> addrinfo list \<Rightarrow> addrinfo list" where
  "serv_ents hints sps es =
     (if ai_socktype hints = NoType then concat (map (\<lambda>e. set_port (hd sps) e # map (\<lambda>sp. set_port sp (clone_ent e)) (tl sps)) es)
      else map (set_port (hd sps)) es)"

definition hinted :: "addrinfo \<Rightarrow> addrinfo \<Rightarrow> bool" where
  "hinted hints e \<longleftrightarrow> ai_flags e = (if ai_socktype hints = NoType then AI_CLONE else 0) \<and> ai_socktype e = ai_socktype hints \<and> ent_ok e"

lemma serv_ports_cases:
  "serv_ports db hints serv = [] \<or>
   (\<exists>sp. serv_ports db hints serv = [sp] \<and> fst sp \<noteq> NoType \<and> (ai_socktype hints = NoType \<or> fst sp = ai_socktype hints)) \<or>
   (\<exists>sp sq. serv_ports db hints serv = [sp, sq] \<and> fst sp \<noteq> NoType \<and> ai_socktype hints = NoType)"
  by (cases "getservbyname db serv ''tcp''"; cases "getservbyname db serv ''udp''"; cases "ai_socktype hints") (auto simp: serv_ports_def Let_def)

lemma port_list_first:
  "\<forall>e \<in> set es. hinted hints e \<Longrightarrow> ai_socktype hints = NoType \<or> fst sp = ai_socktype hints \<Longrightarrow>
   port_list sp es = map (set_port sp) es \<and> port_count (fst sp) es = int (length es)"
  by (induction es) (auto simp: hinted_def AI_CLONE_def)

lemma port_list_second:
  "\<forall>e \<in> set es. hinted hints e \<Longrightarrow> ai_socktype hints = NoType \<Longrightarrow> fst sp \<noteq> NoType \<Longrightarrow>
   port_list sq (map (set_port sp) es) = concat (map (\<lambda>e. [set_port sp e, set_port sq (clone_ent e)]) es) \<and>
   port_count (fst sq) (map (set_port sp) es) = int (length es)"
proof (induction es)
  case (Cons e es)
  then have h: "hinted hints e" by simp
  have "and (ai_flags (set_port sp e)) AI_CLONE \<noteq> 0" "ai_socktype (set_port sp e) \<noteq> NoType"
    using Cons(3,4) h by (auto simp: hinted_def set_port_def AI_CLONE_def)
  moreover have "set_port sq (clone_ent (set_port sp e)) = set_port sq (clone_ent e)"
    using h by (auto simp: hinted_def ent_ok_def set_port_def clone_ent_def)
  ultimately show ?case using Cons by simp
qed simp

lemma ports_list_serv:
  assumes "\<forall>e \<in> set es. hinted hints e" "serv_ports db hints serv \<noteq> []"
  shows "ports_list (serv_ports db hints serv) es = serv_ents hints (serv_ports db hints serv) es \<and>
    (es \<noteq> [] \<longrightarrow> ports_count (serv_ports db hints serv) es > 0)"
proof -
  consider sp where "serv_ports db hints serv = [sp]" "ai_socktype hints = NoType \<or> fst sp = ai_socktype hints"
    | sp sq where "serv_ports db hints serv = [sp, sq]" "fst sp \<noteq> NoType" "ai_socktype hints = NoType"
    using serv_ports_cases [of db hints serv] assms(2) by blast
  then show ?thesis
  proof cases
    case s: (1 sp)
    have "concat (map (\<lambda>e. [set_port sp e]) es) = map (set_port sp) es" by (induction es) auto
    then show ?thesis using port_list_first [OF assms(1) s(2)] by (simp add: s(1) serv_ents_def)
  next
    case s: (2 sp sq)
    show ?thesis using port_list_first [OF assms(1), of sp] port_list_second [OF assms(1) s(3,2), of sq] s(3) by (simp add: s(1) serv_ents_def)
  qed
qed

lemma ga_serv_step:
  assumes r: "rep g0 0 g as es" and es: "\<forall>e \<in> set es. hinted hints e" "es \<noteq> []"
  shows "\<exists>rc g' as' es'. ga_serv ok db hints serv g = Some (Ret (rc, g')) \<and> rep g0 0 g' as' es' \<and>
    ends_as ok rc (if serv_ports db hints serv = [] then Inl (if ai_socktype hints = NoType then EAI_NONAME else EAI_SERVICE)
      else Inr (serv_ents hints (serv_ports db hints serv) es)) (\<lambda>x. es' = x)"
proof -
  have "\<forall>e \<in> set es. ent_ok e" using es(1) by (auto simp: hinted_def)
  then obtain r g' as' es' where r: "ga_ports ok (serv_ports db hints serv) 0 g = Some (Ret (r, g'))" "rep g0 0 g' as' es'"
    "r = None \<and> \<not> (\<forall>n. ok n) \<or> r = Some (ports_count (serv_ports db hints serv) es) \<and> es' = ports_list (serv_ports db hints serv) es"
    using ga_ports_list [OF r, of ok "serv_ports db hints serv" 0] unfolding add_0 by blast
  show ?thesis
  proof (cases r)
    case None
    then show ?thesis using r by (auto simp: ga_serv_def ends_as_def)
  next
    case (Some m)
    then show ?thesis using r ports_list_serv [OF es(1), of db serv] es(2) by (cases "serv_ports db hints serv = []") (auto simp: ga_serv_def ends_as_def)
  qed
qed

section \<open>The whole function\<close>

definition set_name :: "string \<Rightarrow> addrinfo list \<Rightarrow> addrinfo list" where
  "set_name name es = (hd es)\<lparr>ai_canonname := Some name\<rparr> # tl es"

definition named :: "addrinfo \<Rightarrow> string option \<Rightarrow> string \<Rightarrow> string option \<Rightarrow> addrinfo list \<Rightarrow> addrinfo list" where
  "named hints hostname host0 canon es =
     (if wants_name hints hostname then set_name (case canon of Some x \<Rightarrow> x | None \<Rightarrow> host0) es else es)"

lemma set_name_step:
  assumes r: "rep g0 k g as (e # es)" and e: "ai_canonname e = None"
  shows "\<exists>a. ais g (aihead g) = Some a \<and>
    rep g0 (k - 1) (g\<lparr>ais := (ais g)(aihead g \<mapsto> a\<lparr>ai_canonname := Some name\<rparr>)\<rparr>) as (set_name name (e # es))"
proof -
  obtain p as' where as: "as = p # as'" using rep_distinct(3) [OF r] by (cases as) auto
  have p: "aihead g = p" using r as by (auto simp: rep_def)
  have r': "rep g0 k g ([] @ p # as') ([] @ e # es)" using r as by simp
  obtain ai where ai: "ais g p = Some ai" "ent ai = e" by (rule rep_at [OF r']) auto
  have en: "ent (ai\<lparr>ai_canonname := Some name\<rparr>) = e\<lparr>ai_canonname := Some name\<rparr>" using ai(2) by simp
  have k: "k + cost e - cost (e\<lparr>ai_canonname := Some name\<rparr>) = k - 1" using e by (simp add: cost_def)
  have "rep g0 (k - 1) (g\<lparr>ais := (ais g)(p \<mapsto> ai\<lparr>ai_canonname := Some name\<rparr>)\<rparr>) ([] @ p # as') ([] @ e\<lparr>ai_canonname := Some name\<rparr> # es)"
    using rep_change [OF r' _ ai(1), of "ai\<lparr>ai_canonname := Some name\<rparr>", unfolded en k] by simp
  then show ?thesis using ai(1) by (simp add: p as set_name_def)
qed

lemma canon_step:
  assumes r: "rep g0 (held canon) g as es" and es: "es \<noteq> []" "ai_canonname (hd es) = None" and w: "wants_name hints hostname \<or> canon = None"
  shows "\<exists>rc g' es'. ga_canon ok hints hostname host0 canon g = Ret (rc, g') \<and> rep g0 0 g' as es' \<and>
    ends_as ok rc (Inr (named hints hostname host0 canon es)) (\<lambda>x. es' = x)"
proof (cases "wants_name hints hostname")
  case False
  then show ?thesis using r w by (auto simp: ga_canon_def wants_name_def [symmetric] ends_as_def named_def held_def)
next
  case True
  obtain e es1 where e: "es = e # es1" "ai_canonname e = None" using es by (cases es) auto
  show ?thesis
  proof (cases canon)
    case (Some name)
    then show ?thesis
      using True set_name_step [OF r [unfolded e(1)] e(2), of name] by (auto simp: ga_canon_def wants_name_def [symmetric] ends_as_def named_def held_def e(1))
  next
    case None
    obtain got g1 where t: "try_alloc ok g = (got, g1)" by (cases "try_alloc ok g")
    note r1 = rep_try [OF r t]
    obtain a where a: "ais g (aihead g) = Some a" using set_name_step [OF r [unfolded e(1)] e(2)] by auto
    show ?thesis
    proof (cases got)
      case False
      then have "rep g0 0 g1 as es" "\<not> (\<forall>n. ok n)" using r1 None by (auto simp: held_def)
      then show ?thesis using None True False a by (auto simp: ga_canon_def wants_name_def [symmetric] ends_as_def t)
    next
      case got: True
      have r2: "rep g0 1 g1 as (e # es1)" using r1 got None e(1) by (simp add: held_def)
      then show ?thesis
        using set_name_step [OF r2 e(2), of host0] got True None a r1 by (auto simp: ga_canon_def wants_name_def [symmetric] ends_as_def named_def e(1) t)
    qed
  qed
qed

text \<open>The resolver answers with Internet addresses.\<close>

definition resolver_ok :: "netdb \<Rightarrow> bool" where
  "resolver_ok db \<longleftrightarrow>
     (\<forall>host fam h. gethostbyname2 db host fam = Inr h \<longrightarrow> h_addrtype h \<noteq> AF_other) \<and>
     (\<forall>b host h. gethostbyname db b host = Inr h \<longrightarrow> h_addrtype h \<noteq> AF_other)"

lemma found_ok: "resolver_ok db \<Longrightarrow> found db hints n s = Inr xs \<Longrightarrow> x \<in> set xs \<Longrightarrow> fst x \<noteq> AF_other"
  by (cases s) (auto simp: found_def resolver_ok_def numeric_host_def Let_def split: option.splits sum.splits if_splits)

lemma found_all_ok: "resolver_ok db \<Longrightarrow> found_all db hints n ss = Inr xs \<Longrightarrow> x \<in> set xs \<Longrightarrow> fst x \<noteq> AF_other"
  by (induction ss arbitrary: xs) (auto split: sum.splits dest: found_ok)

lemma base_hinted: "fst x \<noteq> AF_other \<Longrightarrow> hinted hints (base_ent hints (Fam (fst x)) (sa_of x))"
  by (cases x rule: sa_of.cases) (auto simp: hinted_def base_ent_def ent_ok_def)

lemma named_hinted: "es \<noteq> [] \<Longrightarrow> \<forall>e \<in> set es. hinted hints e \<Longrightarrow> \<forall>e \<in> set (named hints hostname host0 canon es). hinted hints e"
  by (cases es) (auto simp: named_def set_name_def hinted_def ent_ok_def)

text \<open>
  What \<^verbatim>\<open>getaddrinfo\<close> should give for a list of searches: the addresses in the order of the searches, the first with the
  canonical name if it is asked for, each with each socket type that has the service.
\<close>

definition gai_spec :: "netdb \<Rightarrow> addrinfo \<Rightarrow> string option \<Rightarrow> string option \<Rightarrow> (string \<times> af) list \<Rightarrow> eai + addrinfo list" where
  "gai_spec db hints hostname servname search =
     (case found_all db hints (length search) search of
        Inl e \<Rightarrow> Inl e
      | Inr xs \<Rightarrow>
          let es = named hints hostname (fst (hd search)) (name_all db (length search) search) (ents hints xs);
              sps = serv_ports db hints (the servname) in
          if xs = [] then Inl EAI_NONAME
          else if no_name servname then Inr es
          else if sps = [] then Inl (if ai_socktype hints = NoType then EAI_NONAME else EAI_SERVICE)
          else Inr (serv_ents hints sps es))"

lemma bad_step:
  assumes "rep g0 k g as es" "fresh_mem g0"
  shows "\<exists>g'. ga_bad e g = Some (Ret (Some e, 0, g')) \<and> ais g' = ais g0 \<and> blocks g' = blocks g0 + k"
  using rep_free [OF assms] by (auto simp: ga_bad_def)

text \<open>How \<^verbatim>\<open>getaddrinfo\<close> ends. \<open>k\<close> blocks stay behind after an error.\<close>

definition gai_ends :: "(nat \<Rightarrow> bool) \<Rightarrow> ga \<Rightarrow> int set \<Rightarrow> eai + addrinfo list \<Rightarrow> (eai option \<times> nat \<times> ga) run option \<Rightarrow> bool" where
  "gai_ends ok g0 K spec r \<longleftrightarrow>
     (\<exists>rc p g. r = Some (Ret (rc, p, g)) \<and>
       (case rc of
          None \<Rightarrow> \<exists>as es. spec = Inr es \<and> p = aihead g \<and> rep g0 0 g as es
        | Some e \<Rightarrow> (spec = Inl e \<or> e = EAI_MEMORY \<and> \<not> (\<forall>n. ok n)) \<and> p = 0 \<and> ais g = ais g0 \<and> blocks g - blocks g0 \<in> K))"

lemma gai_bad:
  assumes "rep g0 k g as es" "fresh_mem g0" "spec = Inl e \<or> e = EAI_MEMORY \<and> \<not> (\<forall>n. ok n)" "k \<in> K"
  shows "gai_ends ok g0 K spec (ga_bad e g)"
  using bad_step [OF assms(1,2), of e] assms(3,4) by (auto simp: gai_ends_def)

lemma gai_main:
  assumes fresh: "fresh_mem g0" and db: "resolver_ok db"
    and chk: "ga_echeck hostname servname (ai_flags hints) (ai_family hints) (ai_socktype hints) = None"
    and nu: "\<not> is_unix hostname servname"
    and ns: "ga_nsearch hostname hints = Ret search"
  shows "gai_ends ok g0 (if wants_name hints hostname then {0, 1} else {0}) (gai_spec db hints hostname servname search)
    (getaddrinfo ok db hostname servname (Some hints) g0)"
proof -
  let ?K = "if wants_name hints hostname then {0, 1} else {0 :: int}"
  let ?spec = "gai_spec db hints hostname servname search"
  define gs where "gs = g0\<lparr>aihead := 0, aipnext := None\<rparr>"
  have b: "built g0 (held None) gs []" using rep_start [of g0] fresh by (auto simp: built_def gs_def tail_ok_def held_def)
  obtain rc canon g es where s: "ga_searches ok db hints hostname (length search) search None gs = Ret (rc, canon, g)" "built g0 (held canon) g es"
    "wants_name hints hostname \<or> canon = None"
    "ends_as ok rc (found_all db hints (length search) search)
       (\<lambda>xs. es = ents hints xs \<and> canon = name_after hints hostname None (name_all db (length search) search))"
    using searches_step [OF b, of ok db hints hostname "length search" search] unfolding append_Nil by blast
  obtain as where r: "rep g0 (held canon) g as es" using s(2) by (auto simp: built_def)
  have hK: "held canon \<in> ?K" using s(3) by (auto simp: held_def)
  have gai: "getaddrinfo ok db hostname servname (Some hints) g0 =
    (case rc of Some e \<Rightarrow> ga_bad e g
     | None \<Rightarrow> if aihead g = 0 then ga_bad EAI_NONAME g
         else lbind (Some (ga_canon ok hints hostname (fst (hd search)) canon g)) (\<lambda>(rc, g2).
           case rc of Some e \<Rightarrow> ga_bad e g2
           | None \<Rightarrow> if no_name servname then Some (Ret (None, aihead g2, g2))
               else lbind (ga_serv ok db hints (the servname) g2) (\<lambda>(rc, g3).
                 case rc of Some e \<Rightarrow> ga_bad e g3 | None \<Rightarrow> Some (Ret (None, aihead g3, g3)))))"
    using s(1) chk nu by (simp add: getaddrinfo_def ns gs_def Let_def split del: if_split)
  show ?thesis
  proof (cases rc)
    case (Some e)
    then have "?spec = Inl e \<or> e = EAI_MEMORY \<and> \<not> (\<forall>n. ok n)" using s(4) by (auto simp: ends_as_def gai_spec_def)
    from gai_bad [OF r fresh this hK] show ?thesis unfolding gai Some by simp
  next
    case None
    then obtain xs where xs: "found_all db hints (length search) search = Inr xs" "es = ents hints xs"
      "canon = name_after hints hostname None (name_all db (length search) search)"
      using s(4) by (auto simp: ends_as_def)
    have hd: "aihead g = hd0 as" "length as = length es" using r by (auto simp: rep_def dest: chain_hd0 list_all2_lengthD)
    show ?thesis
    proof (cases "xs = []")
      case True
      then have "?spec = Inl EAI_NONAME" using xs by (simp add: gai_spec_def)
      then show ?thesis using gai_bad [OF r fresh _ hK, of ?spec EAI_NONAME ok] hd xs(2) True unfolding gai None by simp
    next
      case False
      then have es: "es \<noteq> []" "ai_canonname (hd es) = None" using xs(2) by (simp_all add: hd_map base_ent_def)
      have "hinted hints (base_ent hints (Fam (fst x)) (sa_of x))" if "x \<in> set xs" for x
        by (rule base_hinted) (rule found_all_ok [OF db xs(1) that])
      then have eh: "\<forall>e \<in> set es. hinted hints e" using xs(2) by auto
      have nz: "aihead g \<noteq> 0" using hd es(1) rep_distinct(2) [OF r] by (cases as) auto
      obtain rc2 g2 es2 where c: "ga_canon ok hints hostname (fst (hd search)) canon g = Ret (rc2, g2)" "rep g0 0 g2 as es2"
        "ends_as ok rc2 (Inr (named hints hostname (fst (hd search)) canon es)) (\<lambda>x. es2 = x)"
        using canon_step [OF r es(1,2) s(3), of ok "fst (hd search)"] by blast
      have nm: "named hints hostname (fst (hd search)) canon es = named hints hostname (fst (hd search)) (name_all db (length search) search) es"
        using xs(3) by (simp add: named_def name_after_def)
      have K0: "0 \<in> ?K" by simp
      show ?thesis
      proof (cases rc2)
        case (Some e)
        then have "?spec = Inl e \<or> e = EAI_MEMORY \<and> \<not> (\<forall>n. ok n)" using c(3) by (auto simp: ends_as_def)
        from gai_bad [OF c(2) fresh this K0] show ?thesis using nz unfolding gai None c(1) Some by simp
      next
        case n2: None
        then have es2: "es2 = named hints hostname (fst (hd search)) canon es" using c(3) by (simp add: ends_as_def)
        have es2': "es2 = named hints hostname (fst (hd search)) (name_all db (length search) search) (ents hints xs)"
          unfolding es2 nm unfolding xs(2) ..
        have h2: "\<forall>e \<in> set es2. hinted hints e" "es2 \<noteq> []" using named_hinted [OF es(1) eh] es(1) unfolding es2 by (auto simp: named_def set_name_def)
        show ?thesis
        proof (cases "no_name servname")
          case True
          then have "?spec = Inr es2" using xs(1) False by (simp add: gai_spec_def es2')
          then show ?thesis using nz c(2) True unfolding gai None c(1) n2 by (auto simp: gai_ends_def)
        next
          case nns: False
          have spec: "?spec = (if serv_ports db hints (the servname) = [] then Inl (if ai_socktype hints = NoType then EAI_NONAME else EAI_SERVICE)
              else Inr (serv_ents hints (serv_ports db hints (the servname)) es2))"
            using xs(1) False nns by (simp add: gai_spec_def es2')
          obtain rc3 g3 as3 es3 where v: "ga_serv ok db hints (the servname) g2 = Some (Ret (rc3, g3))" "rep g0 0 g3 as3 es3" "ends_as ok rc3 ?spec (\<lambda>x. es3 = x)"
            using ga_serv_step [OF c(2) h2, of ok db "the servname"] unfolding spec by blast
          show ?thesis
          proof (cases rc3)
            case (Some e)
            then have "?spec = Inl e \<or> e = EAI_MEMORY \<and> \<not> (\<forall>n. ok n)" using v(3) by (auto simp: ends_as_def)
            from gai_bad [OF v(2) fresh this K0] show ?thesis using nz nns unfolding gai None c(1) n2 by (simp add: v(1) Some)
          next
            case n3: None
            then show ?thesis using nz nns v(2,3) unfolding gai None c(1) n2 by (auto simp: v(1) gai_ends_def ends_as_def)
          qed
        qed
      qed
    qed
  qed
qed

section \<open>Texts of addresses\<close>

lemma loop_no_colon:
  "CHR '':'' \<notin> set src \<Longrightarrow> pton6_loop src s = Some s' \<Longrightarrow> colonp s' = colonp s \<and> tp s' \<le> tp s + 4"
proof (induction src arbitrary: s)
  case (Cons c src)
  from Cons(3) show ?case
    using Cons(2) by (auto simp: Let_def store4_def INADDRSZ_def split: option.splits if_splits dest: Cons.IH [rotated])
qed simp

lemma pton6_colon:
  assumes "inet_pton6 t = Some a"
  shows "CHR '':'' \<in> set t"
proof (rule ccontr)
  assume n: "CHR '':'' \<notin> set t"
  then have "pton6_start t = Some t" by (auto simp: pton6_start_def split: list.split)
  then show False
    using assms n loop_no_colon [OF n]
    by (fastforce simp: inet_pton6_def put16_def Let_def INT16SZ_def IN6ADDRSZ_def split: option.splits if_splits)
qed

lemma pton6_hd:
  assumes "inet_pton6 t = Some a"
  shows "t \<noteq> []" "is_xdigit (hd t) \<or> hd t = CHR '':''"
proof -
  obtain c cs where t: "t = c # cs" using pton6_colon [OF assms] by (cases t) auto
  show "t \<noteq> []" by (simp add: t)
  show "is_xdigit (hd t) \<or> hd t = CHR '':''"
  proof (rule ccontr)
    assume n: "\<not> (is_xdigit (hd t) \<or> hd t = CHR '':'')"
    then have "strchr xdigits_l c = None" "strchr xdigits_u c = None" "c \<noteq> CHR '':''"
      by (auto simp: strchr_None t is_xdigit_def xdigits_l_def xdigits_u_def)
    then show False using assms by (auto simp: inet_pton6_def pton6_start_def t inet_pton4_def split: option.splits if_splits)
  qed
qed

lemma pton4_no_colon: "inet_pton4 s = Some a \<Longrightarrow> CHR '':'' \<notin> set s"
proof -
  have "\<not> isd CHR '':''" by (simp add: isd_def digits_def)
  then show "inet_pton4 s = Some a \<Longrightarrow> CHR '':'' \<notin> set s" by (auto simp: pton4_iff octet_ok_def)
qed

lemma numeric_host6: "inet_pton6 t = Some a \<Longrightarrow> numeric_host t = Some (AF_INET6, a)"
  using pton6_colon [of t a] pton6_hd [of t a] pton4_no_colon [of t]
  by (auto simp: numeric_host_def inet_pton_def split: option.splits)

lemma dotted_hd: "is_digit (hd (dotted a))"
  using dec_digits [of "hd (dec (a ! 0))" "a ! 0"] by (simp add: dotted_def hd_append)

lemma numeric_host4: "addr_ok 4 a \<Longrightarrow> numeric_host (dotted a) = Some (AF_INET, a)"
  using pton4_dotted [of a] dotted_hd [of a] by (simp add: numeric_host_def inet_pton_def dotted_def)

text \<open>What numbers as texts give without hints.\<close>

definition both_ents :: "af \<Rightarrow> (16 word \<Rightarrow> sockaddr) \<Rightarrow> 16 word \<Rightarrow> addrinfo list" where
  "both_ents f sa port =
     (let e = base_ent no_hints (Fam f) (Some (sa port)) in [e\<lparr>ai_socktype := SOCK_STREAM\<rparr>, e\<lparr>ai_flags := 0, ai_socktype := SOCK_DGRAM\<rparr>])"

lemma dec_port: "is_digit (hd (dec n))" "of_int (atol (dec (unat (port :: 16 word)))) = port" "length (dec (unat port)) \<le> 5"
proof -
  have "hd (dec n) \<in> set (dec n)" by simp
  then show "is_digit (hd (dec n))" by (rule dec_digits)
  show "of_int (atol (dec (unat port))) = port" by simp
  have "unat port < 2 ^ 16" using unsigned_less [of port] by simp
  then show "length (dec (unat port)) \<le> 5" using length_dec [of "unat port" 4] by simp
qed

lemma gai_spec_numeric:
  assumes h: "numeric_host h = Some (f, a)" and f: "f = AF_INET \<and> sa_of (f, a) = Some (Sin 0 a) \<and> sa = (\<lambda>p. Sin p a) \<or> f = AF_INET6 \<and> sa_of (f, a) = Some (Sin6 0 a) \<and> sa = (\<lambda>p. Sin6 p a)"
  shows "gai_spec db no_hints (Some h) (Some (dec (unat port))) [(h, AF_INET6), (h, AF_INET)] = Inr (both_ents f sa port)"
proof -
  have "found_all db no_hints (Suc (Suc 0)) [(h, AF_INET6), (h, AF_INET)] = Inr [(f, a)]"
    using h f by (auto simp: found_def no_hints_def)
  moreover have "serv_ports db no_hints (dec (unat port)) = [(SOCK_STREAM, port), (SOCK_DGRAM, port)]"
    using dec_port(1) [of "unat port"] dec_port(2) [of port] by (simp add: serv_ports_def no_hints_def)
  moreover have "named no_hints (Some h) x y es = es" for x y es by (simp add: named_def wants_name_def no_hints_def)
  moreover have "\<not> no_name (Some (dec (unat port)))" by (simp add: no_name_def)
  ultimately show ?thesis
    using f by (auto simp: gai_spec_def serv_ents_def both_ents_def Let_def set_port_def clone_ent_def base_ent_def no_hints_def)
qed

section \<open>Properties\<close>

text \<open>The list of structures from an address on.\<close>

definition ai_list :: "ga \<Rightarrow> nat \<Rightarrow> addrinfo list \<Rightarrow> bool" where
  "ai_list g p es \<longleftrightarrow> (\<exists>as. chain (gnx (ais g)) p as \<and> list_all2 (\<lambda>a e. \<exists>ai. ais g a = Some ai \<and> ent ai = e) as es)"

lemma getaddrinfo_no_hints: "getaddrinfo ok db hostname servname None g = getaddrinfo ok db hostname servname (Some no_hints) g"
  by (simp add: getaddrinfo_def)


definition one_host :: netdb where
  "one_host = \<lparr>gethostbyname2 = (\<lambda>h f. if f = AF_INET then Inr \<lparr>h_name = ''n'', h_addrtype = AF_INET, h_addr_list = [[1, 2, 3, 4]]\<rparr> else Inl HOST_NOT_FOUND),
     gethostbyname = (\<lambda>b h. Inl HOST_NOT_FOUND), getservbyname = (\<lambda>s p. if p = ''tcp'' then Some 7 else None),
     getservbyport = (\<lambda>p b. None), gethostbyaddr = (\<lambda>a f. None), nodename = None\<rparr>"

definition empty_mem :: ga where
  "empty_mem = \<lparr>ais = (\<lambda>a. None), tries = 0, blocks = 0, unlinked = [], aihead = 0, aipnext = None\<rparr>"

definition name_hints :: addrinfo where
  "name_hints = no_hints\<lparr>ai_flags := AI_CANONNAME\<rparr>"

lemma one_host_ok: "resolver_ok one_host" "fresh_mem empty_mem"
  by (simp_all add: resolver_ok_def one_host_def fresh_mem_def empty_mem_def)

lemma one_host_args:
  "ga_echeck (Some ''h'') (Some ''s'') (ai_flags name_hints) (ai_family name_hints) (ai_socktype name_hints) = None"
  "\<not> is_unix (Some ''h'') (Some ''s'')" "ga_nsearch (Some ''h'') name_hints = Ret [(''h'', AF_INET6), (''h'', AF_INET)]"
  "wants_name name_hints (Some ''h'')" "numeric_host ''h'' = None"
  by (simp_all add: ga_echeck_def name_hints_def no_hints_def AI_CANONNAME_def AI_PASSIVE_def no_name_def is_unix_def ga_nsearch_def search_of_def
      wants_name_def numeric_host_def is_digit_def is_xdigit_def)

lemma one_host_spec:
  "gai_spec one_host name_hints (Some ''h'') (Some ''s'') [(''h'', AF_INET6), (''h'', AF_INET)] =
     Inr [\<lparr>ai_flags = AI_CLONE, ai_family = Fam AF_INET, ai_socktype = SOCK_STREAM, ai_protocol = 0, ai_canonname = Some ''n'',
           ai_addr = Some (Sin 7 [1, 2, 3, 4]), ai_next = 0\<rparr>]"
  using one_host_args(4,5)
  by (simp add: gai_spec_def found_def found_name_def one_host_def named_def set_name_def base_ent_def serv_ents_def serv_ports_def set_port_def
      is_digit_def no_name_def Let_def) (simp add: name_hints_def no_hints_def)



lemma example_values: "blocks empty_mem = 0" "ai_family name_hints \<noteq> AF_LOCAL"
  by (simp_all add: empty_mem_def name_hints_def no_hints_def)


text \<open>
  The block of the canonical name is lost when the memory for the first structure is not there.
\<close>

lemma getaddrinfo_loses_name:
  "\<exists>g. getaddrinfo (\<lambda>n. n < 1) one_host (Some ''h'') (Some ''s'') (Some name_hints) empty_mem = Some (Ret (Some EAI_MEMORY, 0, g)) \<and> blocks g = 1"
proof -
  have s: "ga_searches (\<lambda>n. n < 1) one_host name_hints (Some ''h'') (length [(''h'', AF_INET6), (''h'', AF_INET)]) [(''h'', AF_INET6), (''h'', AF_INET)] None
      (empty_mem\<lparr>aihead := 0, aipnext := None\<rparr>) = Ret (Some EAI_MEMORY, Some ''n'', empty_mem\<lparr>tries := 2, blocks := 1\<rparr>)"
    using one_host_args(4) [unfolded wants_name_def]
    by (simp add: ga_search_def one_host_args(5) one_host_def empty_mem_def try_alloc_def ga_aistruct_def Let_def) (simp add: name_hints_def no_hints_def)
  show ?thesis
    using s one_host_args(1,2,3)
    by (simp add: getaddrinfo_def ga_bad_def freeaddrinfo.simps empty_mem_def Let_def del: ga_searches.simps)
qed

text \<open>
  C29. \<^verbatim>\<open>getnameinfo\<close> with numbers asked for and \<^verbatim>\<open>getaddrinfo\<close> are inverse: the texts of an address and a port are those for
  which \<^verbatim>\<open>getaddrinfo\<close> gives back the same socket address, once for each of the two socket types.
\<close>

theorem nameinfo_addrinfo_roundtrip:
  assumes "fresh_mem g0" "resolver_ok db" "\<forall>n. ok n" "46 \<le> hostlen" "6 \<le> servlen"
    and "f = AF_INET \<and> addr_ok 4 a \<and> sa = (\<lambda>p. Sin p a) \<or> f = AF_INET6 \<and> addr_ok 16 a \<and> sa = (\<lambda>p. Sin6 p a)"
  shows "\<exists>h s p g es. getnameinfo db (sa port) hostlen servlen (or NI_NUMERICHOST NI_NUMERICSERV) = Some (h, s) \<and>
    getaddrinfo ok db (Some h) (Some s) None g0 = Some (Ret (None, p, g)) \<and> ai_list g p es \<and>
    map (\<lambda>e. (ai_family e, ai_socktype e, ai_addr e)) es = [(Fam f, SOCK_STREAM, Some (sa port)), (Fam f, SOCK_DGRAM, Some (sa port))]"
proof -
  let ?s = "dec (unat port)"
  have fl: "and (or NI_NUMERICHOST NI_NUMERICSERV) NI_NUMERICHOST \<noteq> 0" "and (or NI_NUMERICHOST NI_NUMERICSERV) NI_NUMERICSERV \<noteq> 0"
    by (simp_all add: NI_NUMERICHOST_def NI_NUMERICSERV_def)
  have gs: "gn_serv db servlen port (or NI_NUMERICHOST NI_NUMERICSERV) = ?s"
    using fl(2) assms(5) dec_port(3) [of port] by (simp add: gn_serv_def snprintf_def)
  obtain h where h: "inet_ntop f a hostlen = Inr h" "numeric_host h = Some (f, a)" "h \<noteq> []" "is_digit (hd h) \<or> is_xdigit (hd h) \<or> hd h = CHR '':''"
  proof (cases "f = AF_INET")
    case True
    then have a: "addr_ok 4 a" using assms(6) by auto
    have "inet_ntop f a hostlen = Inr (dotted a)" using True length_dotted [OF a] assms(4) by (simp add: inet_ntop_def inet_ntop4_def)
    then show thesis using that numeric_host4 [OF a] dotted_hd [of a] True by (simp add: dotted_def)
  next
    case False
    then have a: "addr_ok 16 a" "f = AF_INET6" using assms(6) by auto
    obtain t where t: "length t \<le> 45" "inet_pton6 t = Some a" "inet_ntop6 a hostlen = (if length t + 1 > hostlen then Inl ENOSPC else Inr t)"
      using ntop6_text [OF a(1), of hostlen] by blast
    then show thesis using that [of t] numeric_host6 [OF t(2)] pton6_hd [OF t(2)] a(2) assms(4) by (simp add: inet_ntop_def)
  qed
  have name: "getnameinfo db (sa port) hostlen servlen (or NI_NUMERICHOST NI_NUMERICSERV) = Some (h, ?s)"
    using assms(4,6) h(1) fl(1) gs by (auto simp: getnameinfo_def gn_ipv46_def gn_host_def)
  have "hd h \<noteq> CHR ''/''" using h(4) by (auto simp: is_digit_def is_xdigit_def)
  then have nu: "\<not> is_unix (Some h) (Some ?s)" by (auto simp: is_unix_def)
  have chk: "ga_echeck (Some h) (Some ?s) (ai_flags no_hints) (ai_family no_hints) (ai_socktype no_hints) = None"
    using h(3) by (simp add: ga_echeck_def no_hints_def no_name_def)
  have ns: "ga_nsearch (Some h) no_hints = Ret [(h, AF_INET6), (h, AF_INET)]"
    using h(3) by (simp add: ga_nsearch_def no_hints_def no_name_def search_of_def)
  have "f = AF_INET \<and> sa_of (f, a) = Some (Sin 0 a) \<and> sa = (\<lambda>p. Sin p a) \<or> f = AF_INET6 \<and> sa_of (f, a) = Some (Sin6 0 a) \<and> sa = (\<lambda>p. Sin6 p a)"
    using assms(6) by (auto simp: addr_ok_def)
  note spec = gai_spec_numeric [OF h(2) this, of db port]
  obtain p g as where "getaddrinfo ok db (Some h) (Some ?s) None g0 = Some (Ret (None, p, g))" "p = aihead g" "rep g0 0 g as (both_ents f sa port)"
    using gai_main [OF assms(1,2) chk nu ns, of ok] assms(3) unfolding spec gai_ends_def getaddrinfo_no_hints by (auto split: option.splits)
  then show ?thesis
    using name by (intro exI [of _ h] exI [of _ ?s] exI [of _ p] exI [of _ g] exI [of _ "both_ents f sa port"])
      (auto simp: ai_list_def rep_def both_ents_def Let_def base_ent_def)
qed

theorem nameinfo_addrinfo_roundtrip_witness:
  "\<exists>h s p g es. getnameinfo one_host (Sin 80 [10, 0, 0, 1]) 46 6 (or NI_NUMERICHOST NI_NUMERICSERV) = Some (h, s) \<and>
    getaddrinfo (\<lambda>n. True) one_host (Some h) (Some s) None empty_mem = Some (Ret (None, p, g)) \<and> ai_list g p es \<and>
    map (\<lambda>e. (ai_family e, ai_socktype e, ai_addr e)) es =
      [(Fam AF_INET, SOCK_STREAM, Some (Sin 80 [10, 0, 0, 1])), (Fam AF_INET, SOCK_DGRAM, Some (Sin 80 [10, 0, 0, 1]))]"
  using nameinfo_addrinfo_roundtrip [OF one_host_ok(2,1), of "\<lambda>n. True" 46 6 AF_INET "[10, 0, 0, 1]" "\<lambda>p. Sin p [10, 0, 0, 1]" 80]
  by (simp add: addr_ok_def)

end
