(* ===== verification/Spec2Isabelle.thy ===== *)
theory Spec2Isabelle
  imports Px_Mq_Props Rwlock_Cancel Px_Sem Db_Props Inet_V6 Foo_Props Job_Queue List_Lib Restart Printer_Answer Dtree_Props Ring_Props Semaph_Props Bin_Tree_Props Bufio_Props Shell_Props Gai_Props
begin

text \<open>
  A verification library for the parts of this repository that are libraries themselves:
  implementations of message queues, semaphores and locks, a database, reference-counted
  objects, lists, queues and trees, bounded buffers, the conversion of Internet addresses, the
  look-up of names, restarted system calls, buffered input and output, a print spooler, a cache of directories, and a shell
  with its environment.
  Each theory models the functions of some files under \<^verbatim>\<open>src/\<close> as they are written, statement by
  statement, and proves what makes them correct. Where the code falls short, a theorem says so.

  \<^bold>\<open>How code is modelled.\<close> Structures are records, linked structures live in a heap from
  addresses to records in which 0 is the null pointer, and an access to an address that holds
  nothing is the result \<open>None\<close>. Error numbers are values (\<open>errno\<close>, with the result types \<open>errno + 'a\<close>
  and \<open>rc\<close>). Machine integers are words where the width matters. The outcomes of system calls
  and of the pthread functions are arguments. A loop whose end is not evident is a partial
  function with values in \<open>option\<close>; the theorems about it say that it returns. Functions that
  hold a mutex throughout are one step; functions that wait are cut at the waits, and the
  interleavings of any number of threads are a step relation.

  \<^bold>\<open>Shared theories.\<close> \<open>Prelude\<close> has the error numbers and linked chains (\<open>chain\<close>, \<open>seg\<close> and how they
  change when a node is linked or unlinked); \<open>C_Text\<close> numbers as decimal text; \<open>Monitor\<close> threads
  under one mutex with condition variables, including spurious wake-ups and the free choice of
  the thread a signal wakes, with two locales for invariants; \<open>Prio_Queue\<close> the interface of a
  stable priority queue; \<open>Refine\<close> sequences of calls and the locale by which an implementation
  refines a specification as long as it has room; \<open>Loop_Run\<close> loops that may run for ever, end the
  process or access memory wrongly, as partial functions.

  \<^bold>\<open>Message queues\<close> (\<open>Px_Mq\<close>, \<open>Px_Mq_Inv\<close>, \<open>Px_Mq_Props\<close>; \<^verbatim>\<open>unpv22e/my_pxmsg_mmap\<close>). \<open>mymq_hdr\<close> is the
  mapped region with its list of messages and its free list; \<open>mymq_send\<close>, \<open>mymq_receive\<close>,
  \<open>mymq_open\<close> and the others are the functions of the files of the same names, \<open>mymq_send_wake\<close>
  and \<open>mymq_receive_wake\<close> what runs after a wait. Shown: the region implements a stable priority
  queue, every branch of sending and receiving, safety under all interleavings, creation and
  its clean-up after errors; a lost wake-up and an overflow of the size of the file.

  \<^bold>\<open>Read-write locks\<close> (\<open>Rwlock\<close>, \<open>Rwlock_Cancel\<close>; \<^verbatim>\<open>unpv22e/my_rwlock\<close>, \<^verbatim>\<open>my_rwlock_cancel\<close>). Shown:
  exclusion, no lost wake-up, exact counters, initialisation; for the variant with cancellation,
  exclusion and exact counters with threads cancelled at any wait, that it returns success without
  the lock after errors, and that a cancelled writer can leave readers asleep at a free lock.

  \<^bold>\<open>Semaphores\<close> (\<open>Px_Sem\<close>; \<^verbatim>\<open>unpv22e/my_pxsem_mmap\<close>, \<^verbatim>\<open>my_pxsem_fifo\<close>, \<^verbatim>\<open>my_pxsem_svsem\<close>). Shown: all three
  implement the interface of a counting semaphore up to their capacity, posts and waits are
  conserved under all interleavings, how opening and creating race; a lost wake-up and an open
  that removes the semaphore of others.

  \<^bold>\<open>Database\<close> (\<open>Db\<close>, \<open>Db_Text\<close>, \<open>Db_Rep\<close>, \<open>Db_Inv\<close>, \<open>Db_Ops\<close>, \<open>Db_Props\<close>; \<^verbatim>\<open>apue.3e/db\<close>). \<open>DB\<close> is the
  structure of the library with the bytes of its two files. The layers are the text of a
  record, what the files hold, the hash chains and the free list, each function on such files,
  and the library as a finite mapping. Shown: sequences of up to 9600 calls refine the mapping
  (each call adds at most 1035 bytes and a pointer has seven digits), each branch of storing,
  scanning, closing and opening again, the round trip of a record; that a key with a colon
  makes the file unreadable.

  \<^bold>\<open>Internet addresses\<close> (\<open>Inet\<close>, \<open>Inet_Props\<close>, \<open>Inet_V6\<close>; \<^verbatim>\<open>unpv13e/libfree\<close>). The parsers and printers
  with their arrays and indices, and the checksum with its 32-bit accumulator. Shown: printing
  and parsing are inverse for both families, the texts that are accepted, the agreement of
  \<open>inet_aton\<close>, the checksum as a one's complement sum; a double colon that clears words and a
  printer that overruns its buffer by one byte.

  \<^bold>\<open>Names and addresses\<close> (\<open>Gai\<close>, \<open>Gai_Props\<close>; \<^verbatim>\<open>unpv13e/libgai\<close>). \<open>getaddrinfo\<close> builds its list of structures in a memory
  whose allocations may fail at any point; the resolver and the tables of services are a record of
  functions, of which \<open>resolver_ok\<close> says that they answer with Internet addresses only. Shown: the list is
  that of a specification without memory, every block is given back, and \<open>getnameinfo\<close> with numbers is the
  inverse; that the copy of the canonical name can be lost. Ports are in the order of the host.

  \<^bold>\<open>Reference-counted objects\<close> (\<open>Foo_Refs\<close>, \<open>Foo_Props\<close>; \<^verbatim>\<open>apue.3e/threads/mutex2.c\<close>, \<^verbatim>\<open>mutex3.c\<close>). The
  hash table of objects with the two critical sections of \<^verbatim>\<open>foo_rele\<close> as two steps. Shown: exact
  counts and no access to freed memory under all interleavings, and that both files do the
  same. The count is an unbounded integer.

  \<^bold>\<open>Job queue\<close> (\<open>Job_Queue\<close>; \<^verbatim>\<open>apue.3e/threads/rwlock.c\<close>). A doubly linked list. Shown: it refines a
  list, along both directions of the links.

  \<^bold>\<open>List object\<close> (\<open>List_Lib\<close>; \<^verbatim>\<open>UNIX_Systems_Programming/chapter13\<close>). A list with traversal keys, and the
  wrappers with a mutex and with a reader-writer lock. Shown: for every order of the calls, each
  key traverses the data in order; that the array of keys grows without being cleared.

  \<^bold>\<open>Restart library\<close> (\<open>Restart\<close>; \<^verbatim>\<open>UNIX_Systems_Programming/chapter04/restart.c\<close>). Restarted calls,
  transfers of files, blocks and lines, reading with a time limit. The kernel's answers are a
  list, of any length. Shown: copying ends with everything copied however reads and writes are
  split and interrupted; blocks and lines are read whole or refused; the limits of a timed read
  are exact. A floating-point number is a real number.

  \<^bold>\<open>Network printer\<close> (\<open>Printer\<close>, \<open>Printer_Props\<close>, \<open>Printer_Status\<close>, \<open>Printer_Answer\<close>; \<^verbatim>\<open>apue.3e/printer\<close>).
  \<open>printd\<close> is the state of the daemon with its list of jobs, its spool directory and its workers;
  \<open>client_thread\<close> and \<open>printer_thread\<close> serve one request and print one job; \<open>printer_status\<close> reads the
  answer of the printer, in a buffer of which every access is checked. A result is \<open>Ret\<close>, \<open>Exits\<close>
  when the process ends, or \<open>Wild\<close> for an access outside an object. Shown: no acknowledged job is
  lost as long as job numbers are not reused, and an answer in one piece is understood; that
  numbers are reused after a restart, workers are lost, an answer in two pieces is waited for
  without end, and long names overrun the buffers of the headers.

  \<^bold>\<open>Directory cache\<close> (\<open>Dtree\<close>, \<open>Dtree_Props\<close>; \<^verbatim>\<open>tlpi-dist/inotify/inotify_dtree.c\<close>). \<open>dtree\<close> is the cache with
  the roots; \<open>processNextInotifyEvent\<close> handles an event and \<open>processInotifyEvents\<close> a read. Each event
  comes with the world in which it is handled (what a walk of a tree visits and the results of
  calls). Shown: the cache follows every sequence of changes of the directories, for every
  division of the events into reads, if each is handled before the next change is seen by a
  walk; it recovers after an overflow; that a directory moved onto another one is lost.

  \<^bold>\<open>Bounded buffers and a barrier\<close> (\<open>Ring_Buffer\<close>, \<open>Ring_Props\<close>; \<^verbatim>\<open>UNIX_Systems_Programming/chapter16\<close>,
  \<^verbatim>\<open>chapter13/tbarrier.c\<close>). The ring of eight items in its four versions: with a mutex, with
  condition variables, with a flag that ends the transfer, and with semaphores, where each call
  is cut into its five steps. Shown: items leave in order, none is lost, overwritten or taken
  twice, and no thread sleeps without reason, under all interleavings; the end of the transfer;
  that the barrier lets nobody through early.

  \<^bold>\<open>System V semaphores made simpler\<close> (\<open>Semaph\<close>, \<open>Semaph_Props\<close>; \<^verbatim>\<open>apue.3e/lib/semaph.c\<close>). A process is the point
  in the code at which it makes its next system call (\<open>sproc\<close>), and processes may end at any point.
  Shown: a set is removed only when nobody has it open, the lock is exclusive and the counter
  exact, as long as \<^verbatim>\<open>sem_open\<close> is not used; the two races that remain. Fewer than \<^verbatim>\<open>BIGCOUNT\<close> processes run.

  \<^bold>\<open>Binary search tree\<close> (\<open>Bin_Tree\<close>, \<open>Bin_Tree_Props\<close>; \<^verbatim>\<open>Misc/bin_tree.c\<close>). The tree in a heap, its creation, the
  recursive traversals and those with an array as a stack. Shown: the tree is a search tree of
  exactly the elements, and each loop prints what the recursion prints or overruns its array,
  exactly when the tree is deeper than the array on the path in question.

  \<^bold>\<open>Lines and numbers of bytes\<close> (\<open>Line_Io\<close>, \<open>Line_Io_Props\<close>; \<^verbatim>\<open>readline.c\<close>, \<^verbatim>\<open>readn.c\<close>, \<^verbatim>\<open>writen.c\<close> of \<^verbatim>\<open>unpv13e/lib\<close>,
  \<^verbatim>\<open>tlpi-dist/sockets\<close>). The readers of lines share the interface of a source of bytes. Shown: they
  give the same lines, and \<open>readn\<close> and \<open>writen\<close> move exactly what is asked for, however the calls are
  divided and interrupted.

  \<^bold>\<open>Buffered input and output\<close> (\<open>Bufio\<close>, \<open>Bufio_Props\<close>; \<^verbatim>\<open>Advanced_Unix_Programming/c2/bufio.c\<close>). Shown: what is
  put and closed is what is got back, within the bounds of the buffer; that a failed flush is
  followed by a store beyond the buffer, or by bytes written twice.

  \<^bold>\<open>Environment\<close> (\<open>Setenv\<close>; \<^verbatim>\<open>Advanced_Unix_Programming/c5/setenv.c\<close>, \<^verbatim>\<open>builtin.c\<close>). The array of the environment,
  with an entry that was never written as \<open>None\<close>. Shown: it is a mapping from names to values.

  \<^bold>\<open>Shell\<close> (\<open>Shell\<close>, \<open>Shell_Props\<close>; \<^verbatim>\<open>Advanced_Unix_Programming/c6/sh3.c\<close>). \<open>gettoken_loop\<close> reads a token, \<open>command_token\<close>
  is what \<^verbatim>\<open>command\<close> does with one, \<open>command_loop\<close> calls itself for the rest of a pipeline, and \<open>invoke\<close> starts a
  process with its table of descriptors. Shown: quoted tokens are read back, a pipeline of any
  length is connected and leaves nothing open, the shell ends on every input; that a pipeline with a
  command of the shell itself ends the shell, and that an error on its input makes it loop.

  \<^bold>\<open>Not modelled.\<close> Programs whose work is input and output or the demonstration of one system call
  (most of the directories of the textbooks), the wrappers that end the process on an error,
  kernel modules, Java code, measurements, and third-party tools kept in the tree. Memory order
  of the hardware, the content of buffers beyond what the code reads, and the time that passes
  between steps are not modelled. The functions of \<^verbatim>\<open>my_rwlock_cancel\<close> that repeat those of
  \<^verbatim>\<open>my_rwlock\<close> are modelled once.
\<close>

end
